(* ===== verification/OS_Prelude.thy ===== *)
theory OS_Prelude
  imports Main "HOL-Library.Word" "HOL-Library.Monad_Syntax"
begin

unbundle bit_operations_syntax

section \<open>Types, results and generic lemmas shared by the components\<close>

text \<open>
  The kernel is 32-bit x86 code: \<open>uint32_t\<close>, \<open>uint16_t\<close> and \<open>uint8_t\<close> are words of
  their width, pointers are \<open>u32\<close> with 0 as the null pointer. A C \<open>int\<close> whose overflow
  is out of reach (a loop index, the length of a queue) is an \<open>int\<close>.

  Results. A partial operation returns an \<open>option\<close>: \<open>None\<close> is an access through a
  null or dangling pointer (the page fault, on which the kernel's exception handler halts),
  and, for a loop without a termination argument, a run that never ends. An operation that
  prints a message and spins in \<open>for(;;)\<close> returns \<open>Inl\<close> of the reason.
\<close>

type_synonym u8 = "8 word"
type_synonym u16 = "16 word"
type_synonym u32 = "32 word"

text \<open>
  Main memory by 32-bit words: \<open>m a\<close> is the word at byte address \<open>a\<close>. Every access
  the modelled code makes through it is to a 4-byte aligned address.
\<close>

type_synonym memory = "u32 \<Rightarrow> u32"

subsection \<open>Words\<close>

lemma unat_plus_le:
  fixes a b :: "'a::len word"
  assumes "unat a + unat b < 2 ^ LENGTH('a)"
  shows "unat (a + b) = unat a + unat b"
  using assms by (simp add: unat_word_ariths)

lemma unat_minus_le:
  fixes a b :: "'a::len word"
  assumes "b \<le> a"
  shows "unat (a - b) = unat a - unat b"
  using assms by (simp add: unat_sub)

lemma u32_lt: "unat (a::u32) < 4294967296"
  using unsigned_less [of a] by simp

lemma word_nat_eqI: "unat a = unat b \<Longrightarrow> a = b"
  by (simp add: word_unat_eq_iff)

lemma unat_pos_iff: "0 < unat a \<longleftrightarrow> a \<noteq> 0"
  by (simp add: unat_gt_0)

lemma and_not_mask_shift: "(w::'a::len word) AND NOT (mask n) = push_bit n (drop_bit n w)"
  by (rule bit_eqI) (auto simp: bit_simps)

lemma unat_and_not_mask: "unat ((w::'a::len word) AND NOT (mask n)) = unat w div 2 ^ n * 2 ^ n"
proof -
  have "unat w div 2 ^ n * 2 ^ n \<le> unat w" by simp
  also have "\<dots> < 2 ^ LENGTH('a)" by simp
  finally have "unat w div 2 ^ n * 2 ^ n < 2 ^ LENGTH('a)" .
  then show ?thesis
    unfolding and_not_mask_shift unsigned_push_bit_eq unsigned_drop_bit_eq
    by (simp add: push_bit_eq_mult drop_bit_eq_div take_bit_nat_eq_self)
qed

lemma unat_and_mask: "unat ((w::'a::len word) AND mask n) = unat w mod 2 ^ n"
proof -
  have "unat (take_bit n w) = take_bit n (unat w)"
    by (rule unsigned_take_bit_eq)
  then show ?thesis by (simp add: take_bit_eq_mask take_bit_eq_mod flip: take_bit_eq_mask)
qed

subsection \<open>Options\<close>

lemma bind_SomeI: "f = Some x \<Longrightarrow> g x = Some y \<Longrightarrow> f \<bind> g = Some y"
  by simp

lemma bind_eq_SomeE:
  assumes "f \<bind> g = Some y"
  obtains x where "f = Some x" and "g x = Some y"
  using assms by (cases f) auto

lemma unat_pred: "0 < (a :: u32) \<Longrightarrow> unat (a - 1) = unat a - 1"
  by (rule unat_minus_one) (simp add: word_gt_0)

lemma unat_pred_less: "0 < (a :: u32) \<Longrightarrow> unat (a - 1) < unat a"
  using unat_pred [of a] by (auto simp: word_less_nat_alt)

lemma unat_succ: "(a :: u32) < b \<Longrightarrow> unat (a + 1) = unat a + 1"
  using u32_lt [of b] by (intro trans [OF unat_plus_le]) (simp_all add: word_less_nat_alt)

subsection \<open>Bit-fields\<close>

text \<open>
  A C bit-field of \<open>len\<close> bits from bit \<open>lo\<close> on, read from and stored into the word that
  holds it. Storing keeps the low \<open>len\<close> bits of the value.
\<close>

definition get_bits :: "nat \<Rightarrow> nat \<Rightarrow> 'a::len word \<Rightarrow> 'a word" where
  "get_bits lo len w = take_bit len (drop_bit lo w)"

definition put_bits :: "nat \<Rightarrow> nat \<Rightarrow> 'a::len word \<Rightarrow> 'a word \<Rightarrow> 'a word" where
  "put_bits lo len v w = (w AND NOT (push_bit lo (mask len))) OR push_bit lo (take_bit len v)"

lemma bit_get_bits: "bit (get_bits lo len w) n \<longleftrightarrow> n < len \<and> bit w (lo + n)"
  by (auto simp: get_bits_def bit_simps)

lemma bit_put_bits:
  "bit (put_bits lo len v (w :: 'a::len word)) n \<longleftrightarrow>
     n < LENGTH('a) \<and> (if lo \<le> n \<and> n < lo + len then bit v (n - lo) else bit w n)"
  by (auto simp: put_bits_def bit_simps dest: bit_imp_le_length)

lemma get_put_same:
  "lo + len \<le> LENGTH('a) \<Longrightarrow> get_bits lo len (put_bits lo len v (w :: 'a::len word)) = take_bit len v"
  by (rule bit_eqI) (auto simp: bit_get_bits bit_put_bits bit_simps)

lemma get_put_other:
  "lo + len \<le> lo' \<or> lo' + len' \<le> lo \<Longrightarrow> lo + len \<le> LENGTH('a) \<Longrightarrow>
     get_bits lo len (put_bits lo' len' v (w :: 'a::len word)) = get_bits lo len w"
  by (rule bit_eqI) (auto simp: bit_get_bits bit_put_bits)

lemma unat_get_bits: "unat (get_bits lo len w) = unat w div 2 ^ lo mod 2 ^ len"
  unfolding get_bits_def unsigned_take_bit_eq unsigned_drop_bit_eq
  by (simp add: take_bit_eq_mod drop_bit_eq_div)

lemma unat_get_bits_less: "unat (get_bits lo len w) < 2 ^ len"
  by (simp add: unat_get_bits)

subsection \<open>Bytes of memory\<close>

text \<open>The address of the word that holds a byte, and the byte's place in it.\<close>

definition word_part :: "u32 \<Rightarrow> u32" where "word_part a = a AND NOT 3"
definition byte_part :: "u32 \<Rightarrow> u32" where "byte_part a = a AND 3"

lemma mask3: "(3 :: u32) = mask 2"
  by (simp add: mask_eq_exp_minus_1)

lemma unat_word_part: "unat (word_part b) = unat b div 4 * 4"
  unfolding word_part_def mask3 unat_and_not_mask by simp

lemma unat_byte_part: "unat (byte_part b) = unat b mod 4"
  unfolding byte_part_def mask3 unat_and_mask by simp

definition rd_byte :: "memory \<Rightarrow> u32 \<Rightarrow> u32" where
  "rd_byte m a = get_bits (8 * unat (byte_part a)) 8 (m (word_part a))"

definition wr_byte :: "u32 \<Rightarrow> u32 \<Rightarrow> memory \<Rightarrow> memory" where
  "wr_byte a v m = m(word_part a := put_bits (8 * unat (byte_part a)) 8 v (m (word_part a)))"

lemma byte_address: "word_part a = word_part b \<Longrightarrow> byte_part a = byte_part b \<Longrightarrow> a = b"
  using div_mult_mod_eq [of "unat a" 4] div_mult_mod_eq [of "unat b" 4] unat_word_part unat_byte_part
  by (intro word_nat_eqI) metis

lemma rd_wr_byte: "rd_byte (wr_byte a v m) b = (if b = a then take_bit 8 v else rd_byte m b)"
proof (cases "word_part b = word_part a")
  case True
  have lt: "unat (byte_part a) < 4" "unat (byte_part b) < 4" by (simp_all add: unat_byte_part)
  show ?thesis
  proof (cases "b = a")
    case False
    then have "unat (byte_part b) \<noteq> unat (byte_part a)" using True byte_address word_nat_eqI by metis
    then have "8 * unat (byte_part b) + 8 \<le> 8 * unat (byte_part a) \<or>
        8 * unat (byte_part a) + 8 \<le> 8 * unat (byte_part b)" by linarith
    then show ?thesis using True False lt by (simp add: rd_byte_def wr_byte_def get_put_other)
  qed (use True lt in \<open>simp add: rd_byte_def wr_byte_def get_put_same\<close>)
qed (auto simp: rd_byte_def wr_byte_def)

end
