(* ===== verification/OS_Linked.thy ===== *)
theory OS_Linked
  imports OS_Prelude
begin

section \<open>Doubly linked segments\<close>

text \<open>
  Two components of the kernel link records by a next and a previous pointer: the
  queue template of \<open>libc/queue.h\<close> and the block headers of the heap
  (\<open>mem/heap.cpp\<close>). Both are described by the same predicate: given the two
  pointer fields as functions of the address, \<open>dseg nx pv p as e\<close> says that the
  addresses \<open>as\<close> are linked in this order, the first one pointing back to \<open>p\<close>
  and the last one forward to \<open>e\<close>. The insertion and deletion lemmas below are stated
  for any pair of updated functions, so that each component only has to say what its
  writes change.
\<close>

fun hd_or :: "'a list \<Rightarrow> 'a \<Rightarrow> 'a" where
  "hd_or [] e = e"
| "hd_or (x # xs) e = x"

fun last_or :: "'a list \<Rightarrow> 'a \<Rightarrow> 'a" where
  "last_or [] p = p"
| "last_or (x # xs) p = last_or xs x"

fun dseg :: "('a \<Rightarrow> 'a) \<Rightarrow> ('a \<Rightarrow> 'a) \<Rightarrow> 'a \<Rightarrow> 'a list \<Rightarrow> 'a \<Rightarrow> bool" where
  "dseg nx pv p [] e = True"
| "dseg nx pv p (x # xs) e = (pv x = p \<and> nx x = hd_or xs e \<and> dseg nx pv x xs e)"

lemma hd_or_hd [simp]: "xs \<noteq> [] \<Longrightarrow> hd_or xs e = hd xs"
  by (cases xs) auto

lemma hd_or_append: "hd_or (xs @ ys) e = hd_or xs (hd_or ys e)"
  by (cases xs) auto

lemma last_or_last [simp]: "xs \<noteq> [] \<Longrightarrow> last_or xs p = last xs"
  by (induction xs arbitrary: p) auto

lemma last_or_append: "last_or (xs @ ys) p = last_or ys (last_or xs p)"
  by (induction xs arbitrary: p) auto

lemma dseg_append:
  "dseg nx pv p (xs @ ys) e \<longleftrightarrow>
     dseg nx pv p xs (hd_or ys e) \<and> dseg nx pv (last_or xs p) ys e"
  by (induction xs arbitrary: p) (auto simp: hd_or_append)

text \<open>Changing what surrounds a segment changes one field of its last, or first, element.\<close>

lemma dseg_new_end:
  assumes "dseg nx pv p xs e"
    and "\<And>x. x \<in> set xs \<Longrightarrow> pv' x = pv x"
    and "\<And>x. x \<in> set (butlast xs) \<Longrightarrow> nx' x = nx x"
    and "xs \<noteq> [] \<Longrightarrow> nx' (last xs) = e'"
  shows "dseg nx' pv' p xs e'"
  using assms
proof (induction xs arbitrary: p)
  case (Cons x xs)
  then show ?case by (cases xs) auto
qed simp

lemma dseg_new_front:
  assumes "dseg nx pv p ys e"
    and "\<And>y. y \<in> set ys \<Longrightarrow> nx' y = nx y"
    and "\<And>y. y \<in> set (tl ys) \<Longrightarrow> pv' y = pv y"
    and "ys \<noteq> [] \<Longrightarrow> pv' (hd ys) = p'"
  shows "dseg nx' pv' p' ys e"
proof (cases ys)
  case (Cons y zs)
  have "dseg nx' pv' q zs e" if "dseg nx pv q zs e" "set zs \<subseteq> set (tl ys)" for q zs
    using that assms(2,3) Cons by (induction zs arbitrary: q) auto
  with assms Cons show ?thesis by auto
qed simp

lemma dseg_cong:
  assumes "dseg nx pv p xs e"
    and "\<And>x. x \<in> set xs \<Longrightarrow> nx' x = nx x" and "\<And>x. x \<in> set xs \<Longrightarrow> pv' x = pv x"
  shows "dseg nx' pv' p xs e"
  using assms by (induction xs arbitrary: p) auto

lemma dseg_insert:
  assumes seg: "dseg nx pv p (xs @ ys) e"
    and new: "nx' n = hd_or ys e" "pv' n = last_or xs p"
    and left: "xs \<noteq> [] \<Longrightarrow> nx' (last xs) = n"
    and right: "ys \<noteq> [] \<Longrightarrow> pv' (hd ys) = n"
    and keep: "\<And>x. x \<in> set xs \<Longrightarrow> pv' x = pv x" "\<And>x. x \<in> set (butlast xs) \<Longrightarrow> nx' x = nx x"
      "\<And>y. y \<in> set ys \<Longrightarrow> nx' y = nx y" "\<And>y. y \<in> set (tl ys) \<Longrightarrow> pv' y = pv y"
  shows "dseg nx' pv' p (xs @ n # ys) e"
proof -
  from seg have "dseg nx pv p xs (hd_or ys e)" "dseg nx pv (last_or xs p) ys e"
    by (auto simp: dseg_append)
  note halves = this
  have "dseg nx' pv' p xs n"
    by (rule dseg_new_end [OF halves(1)]; use keep left in blast)
  moreover have "dseg nx' pv' n ys e"
    by (rule dseg_new_front [OF halves(2)]; use keep right in blast)
  ultimately show ?thesis
    using new by (simp add: dseg_append)
qed

lemma dseg_delete:
  assumes seg: "dseg nx pv p (xs @ n # ys) e"
    and left: "xs \<noteq> [] \<Longrightarrow> nx' (last xs) = hd_or ys e"
    and right: "ys \<noteq> [] \<Longrightarrow> pv' (hd ys) = last_or xs p"
    and keep: "\<And>x. x \<in> set xs \<Longrightarrow> pv' x = pv x" "\<And>x. x \<in> set (butlast xs) \<Longrightarrow> nx' x = nx x"
      "\<And>y. y \<in> set ys \<Longrightarrow> nx' y = nx y" "\<And>y. y \<in> set (tl ys) \<Longrightarrow> pv' y = pv y"
  shows "dseg nx' pv' p (xs @ ys) e"
proof -
  from seg have "dseg nx pv p xs n" "dseg nx pv n ys e"
    by (auto simp: dseg_append)
  note halves = this
  have "dseg nx' pv' p xs (hd_or ys e)"
    by (rule dseg_new_end [OF halves(1)]; use keep left in blast)
  moreover have "dseg nx' pv' (last_or xs p) ys e"
    by (rule dseg_new_front [OF halves(2)]; use keep right in blast)
  ultimately show ?thesis
    by (simp add: dseg_append)
qed

lemma butlast_notin:
  "distinct xs \<Longrightarrow> x \<in> set (butlast xs) \<Longrightarrow> x \<in> set xs \<and> x \<noteq> last xs"
  by (cases xs rule: rev_cases) auto

lemma tl_notin: "distinct ys \<Longrightarrow> y \<in> set (tl ys) \<Longrightarrow> y \<in> set ys \<and> y \<noteq> hd ys"
  by (cases ys) auto

text \<open>
  The two updates as functions: what the pointer fields of a segment must be after an
  insertion between \<open>xs\<close> and \<open>ys\<close>, and after the deletion of what was between them.
\<close>

definition link_nx :: "'a list \<Rightarrow> 'a \<Rightarrow> ('a \<Rightarrow> 'a) \<Rightarrow> 'a \<Rightarrow> 'a" where
  "link_nx xs n nx a = (if xs \<noteq> [] \<and> a = last xs then n else nx a)"

definition link_pv :: "'a list \<Rightarrow> 'a \<Rightarrow> ('a \<Rightarrow> 'a) \<Rightarrow> 'a \<Rightarrow> 'a" where
  "link_pv ys n pv a = (if ys \<noteq> [] \<and> a = hd ys then n else pv a)"

lemma link_nx_other: "a \<notin> set xs \<Longrightarrow> link_nx xs n nx a = nx a"
  by (auto simp: link_nx_def)

lemma link_pv_other: "a \<notin> set ys \<Longrightarrow> link_pv ys n pv a = pv a"
  by (auto simp: link_pv_def)

lemma link_nx_butlast: "distinct xs \<Longrightarrow> a \<in> set (butlast xs) \<Longrightarrow> link_nx xs n nx a = nx a"
  by (auto simp: link_nx_def dest: butlast_notin)

lemma link_pv_tl: "distinct ys \<Longrightarrow> a \<in> set (tl ys) \<Longrightarrow> link_pv ys n pv a = pv a"
  by (auto simp: link_pv_def dest: tl_notin)

lemma dseg_link_insert:
  assumes seg: "dseg nx pv p (xs @ ys) e" and dist: "distinct (xs @ n # ys)"
  shows "dseg (link_nx xs n (nx(n := hd_or ys e))) (link_pv ys n (pv(n := last_or xs p)))
           p (xs @ n # ys) e"
    (is "dseg ?nx ?pv p _ e")
proof (rule dseg_insert [OF seg])
  show "?nx n = hd_or ys e" "?pv n = last_or xs p"
    using dist by (simp_all add: link_nx_other link_pv_other)
  show "?nx (last xs) = n" if "xs \<noteq> []" using that by (simp add: link_nx_def)
  show "?pv (hd ys) = n" if "ys \<noteq> []" using that by (simp add: link_pv_def)
  show "?pv x = pv x" if "x \<in> set xs" for x
    using that dist by (subst link_pv_other) auto
  show "?nx x = nx x" if "x \<in> set (butlast xs)" for x
    using that dist butlast_notin [of xs x] by (subst link_nx_butlast) auto
  show "?nx y = nx y" if "y \<in> set ys" for y
    using that dist by (subst link_nx_other) auto
  show "?pv y = pv y" if "y \<in> set (tl ys)" for y
    using that dist tl_notin [of ys y] by (subst link_pv_tl) auto
qed

lemma dseg_link_delete:
  assumes seg: "dseg nx pv p (xs @ n # ys) e" and dist: "distinct (xs @ ys)"
  shows "dseg (link_nx xs (hd_or ys e) nx) (link_pv ys (last_or xs p) pv) p (xs @ ys) e"
    (is "dseg ?nx ?pv p _ e")
proof (rule dseg_delete [OF seg])
  show "?nx (last xs) = hd_or ys e" if "xs \<noteq> []" using that by (simp add: link_nx_def)
  show "?pv (hd ys) = last_or xs p" if "ys \<noteq> []" using that by (simp add: link_pv_def)
  show "?pv x = pv x" if "x \<in> set xs" for x
    using that dist by (subst link_pv_other) auto
  show "?nx x = nx x" if "x \<in> set (butlast xs)" for x
    using that dist by (subst link_nx_butlast) auto
  show "?nx y = nx y" if "y \<in> set ys" for y
    using that dist by (subst link_nx_other) auto
  show "?pv y = pv y" if "y \<in> set (tl ys)" for y
    using that dist by (subst link_pv_tl) auto
qed

text \<open>The element in the middle of a segment points to its neighbours.\<close>

lemma dseg_middle:
  assumes "dseg nx pv p (xs @ x # ys) e"
  shows "nx x = hd_or ys e" and "pv x = last_or xs p"
  using assms by (auto simp: dseg_append)

end
