(* ===== verification/OS_Phymem.thy ===== *)
theory OS_Phymem
  imports OS_Prelude
begin

text \<open>
  The physical frame allocator: class \<open>PhysicalMem\<close> of src/src/arch/x86/mem/phymem.h
  and phymem.cpp.

  \<^item> The record \<open>phymem\<close> holds the four file-level variables. \<open>memoryArray\<close> is the bitmap,
    one bit per 4 KB frame, as the code indexes it: word \<open>i\<close> of the array that starts at
    \<open>_kernel_end\<close>.
  \<^item> The operations are \<open>GetBitmapSize\<close>, \<open>SetBit\<close>, \<open>UnsetBit\<close>, \<open>MarkFree\<close>, \<open>MarkUsed\<close>,
    \<open>Phymem_Init\<close>, both \<open>FreeBlocks\<close>, \<open>Phymem_FirstFree\<close>, \<open>AllocateBlock\<close> and
    \<open>PageRoundUp\<close>. Their loops are recursions on the 32-bit loop counters.
  \<^item> The boot loader's memory map is data outside the program: \<open>Phymem_Init\<close> reads it through
    the parameter \<open>rd\<close>, the 32-bit word at a virtual address. The messages that \<open>Init\<close>
    prints are \<open>Phymem_report\<close> in \<open>OS_Kernel\<close>.
  \<^item> The abstract view is the set of marked frames (\<open>marked\<close>); each operation is shown to
    change that set and the counters exactly as described, and the locale
    \<open>frame_allocator\<close> states what the page-table code may rely on.
\<close>

unbundle bit_operations_syntax

section \<open>State and bitmap operations\<close>

definition BLOCK_SIZE :: u32 where "BLOCK_SIZE = 4 * 1024"
definition BLOCKS_PER_BYTE :: u32 where "BLOCKS_PER_BYTE = 8"
definition KERNEL_VIRTUAL_OFFSET :: u32 where "KERNEL_VIRTUAL_OFFSET = 0xC0000000"

definition phys2virt :: "u32 \<Rightarrow> u32" where "phys2virt x = x + KERNEL_VIRTUAL_OFFSET"
definition virt2phys :: "u32 \<Rightarrow> u32" where "virt2phys x = x - KERNEL_VIRTUAL_OFFSET"

record phymem =
  memorySize :: u32
  usedBlocks :: u32
  maximumBlocks :: u32
  memoryArray :: memory

definition GetBitmapSize :: "phymem \<Rightarrow> u32" where
  "GetBitmapSize s = memorySize s div BLOCK_SIZE div BLOCKS_PER_BYTE"

definition SetBit :: "u32 \<Rightarrow> phymem \<Rightarrow> phymem" where
  "SetBit b s = s\<lparr>memoryArray := (memoryArray s)(b div 32 :=
     memoryArray s (b div 32) OR push_bit (unat (b mod 32)) 1)\<rparr>"

definition UnsetBit :: "u32 \<Rightarrow> phymem \<Rightarrow> phymem" where
  "UnsetBit b s = s\<lparr>memoryArray := (memoryArray s)(b div 32 :=
     memoryArray s (b div 32) AND NOT (push_bit (unat (b mod 32)) 1))\<rparr>"

text \<open>The loops of \<open>MarkFree\<close> and \<open>MarkUsed\<close>: \<open>blocks\<close> counts down, \<open>align\<close> up.\<close>

function MarkFree_from :: "u32 \<Rightarrow> u32 \<Rightarrow> phymem \<Rightarrow> phymem" where
  "MarkFree_from align blocks s =
     (if blocks > 0
      then let s = UnsetBit align s
           in MarkFree_from (align + 1) (blocks - 1) (s\<lparr>usedBlocks := usedBlocks s - 1\<rparr>)
      else s)"
  by pat_completeness auto
termination by (relation "measure (\<lambda>(align, blocks, s). unat blocks)") (auto intro: unat_pred_less)

definition MarkFree :: "u32 \<Rightarrow> u32 \<Rightarrow> phymem \<Rightarrow> phymem" where
  "MarkFree base sz s = SetBit 0 (MarkFree_from (base div BLOCK_SIZE) (sz div BLOCK_SIZE) s)"

function MarkUsed_from :: "u32 \<Rightarrow> u32 \<Rightarrow> phymem \<Rightarrow> phymem" where
  "MarkUsed_from align blocks s =
     (if blocks > 0
      then let s = SetBit align s
           in MarkUsed_from (align + 1) (blocks - 1) (s\<lparr>usedBlocks := usedBlocks s + 1\<rparr>)
      else s)"
  by pat_completeness auto
termination by (relation "measure (\<lambda>(align, blocks, s). unat blocks)") (auto intro: unat_pred_less)

definition MarkUsed :: "u32 \<Rightarrow> u32 \<Rightarrow> phymem \<Rightarrow> phymem" where
  "MarkUsed base sz s = SetBit 0 (MarkUsed_from (base div BLOCK_SIZE) (sz div BLOCK_SIZE) s)"

section \<open>Initialisation from the boot loader's memory map\<close>

text \<open>The two fields of \<open>multiboot_info_t\<close> that locate the map, and the size of memory.\<close>

record multiboot_info =
  mem_upper :: u32
  mmap_length :: u32
  mmap_addr :: u32

definition MULTIBOOT_MEMORY_AVAILABLE :: u32 where "MULTIBOOT_MEMORY_AVAILABLE = 1"

text \<open>The fields of the packed \<open>grub_multiboot_memory_map_t\<close> at address \<open>a\<close>.\<close>

definition mmap_size :: "memory \<Rightarrow> u32 \<Rightarrow> u32" where "mmap_size rd a = rd a"
definition base_addr_low :: "memory \<Rightarrow> u32 \<Rightarrow> u32" where "base_addr_low rd a = rd (a + 4)"
definition length_low :: "memory \<Rightarrow> u32 \<Rightarrow> u32" where "length_low rd a = rd (a + 12)"
definition mmap_type :: "memory \<Rightarrow> u32 \<Rightarrow> u32" where "mmap_type rd a = rd (a + 20)"

text \<open>The loop that fills the bitmap; \<open>n\<close> is \<open>usedBlocks / BLOCKS_PER_BYTE\<close>, which the loop
  does not change.\<close>

function fill_bitmap :: "u32 \<Rightarrow> u32 \<Rightarrow> memory \<Rightarrow> memory" where
  "fill_bitmap i n m = (if i < n then fill_bitmap (i + 1) n (m(i := 0xFF)) else m)"
  by pat_completeness auto
termination by (relation "measure (\<lambda>(i, n, m). unat n - unat i)") (auto simp: unat_succ diff_less_mono2 word_less_nat_alt)

text \<open>The walk over the memory map: each entry says how far the next one is, so nothing in
  the code bounds the walk; not returning is \<open>None\<close>.\<close>

partial_function (option) mmap_walk :: "memory \<Rightarrow> u32 \<Rightarrow> u32 \<Rightarrow> phymem \<Rightarrow> phymem option" where
  "mmap_walk rd stop mmap s =
     (if mmap < stop
      then mmap_walk rd stop (mmap + mmap_size rd mmap + 4)
             (if mmap_type rd mmap = MULTIBOOT_MEMORY_AVAILABLE
              then MarkFree (base_addr_low rd mmap) (length_low rd mmap) s else s)
      else Some s)"

definition Phymem_Init :: "memory \<Rightarrow> multiboot_info \<Rightarrow> phymem \<Rightarrow> phymem option" where
  "Phymem_Init rd info s =
     (let sz = mem_upper info * 1024;
          blocks = sz div BLOCK_SIZE;
          s = s\<lparr>memorySize := sz, maximumBlocks := blocks, usedBlocks := blocks\<rparr>;
          s = s\<lparr>memoryArray := fill_bitmap 0 (usedBlocks s div BLOCKS_PER_BYTE) (memoryArray s)\<rparr>
      in mmap_walk rd (phys2virt (mmap_addr info) + mmap_length info) (phys2virt (mmap_addr info)) s)"

section \<open>Allocation and release\<close>

text \<open>\<open>FreeBlocks(void*, uint32_t)\<close> and its loop over \<open>i\<close>.\<close>

function FreeBlocks_from :: "u32 \<Rightarrow> u32 \<Rightarrow> u32 \<Rightarrow> phymem \<Rightarrow> phymem" where
  "FreeBlocks_from i sz frame s =
     (if i < sz then FreeBlocks_from (i + 1) sz frame (UnsetBit (frame + i) s) else s)"
  by pat_completeness auto
termination by (relation "measure (\<lambda>(i, sz, frame, s). unat sz - unat i)")
  (auto simp: unat_succ diff_less_mono2 word_less_nat_alt)

definition FreeBlocks_at :: "u32 \<Rightarrow> u32 \<Rightarrow> phymem \<Rightarrow> phymem" where
  "FreeBlocks_at ptr sz s =
     (let s = FreeBlocks_from 0 sz (ptr div BLOCK_SIZE) s in s\<lparr>usedBlocks := usedBlocks s - sz\<rparr>)"

definition FreeBlocks :: "phymem \<Rightarrow> u32" where
  "FreeBlocks s = maximumBlocks s - usedBlocks s"

text \<open>The two loops of \<open>FirstFree\<close>: over the bits of a word, then over the words.\<close>

function FirstFree_bit :: "u32 \<Rightarrow> nat \<Rightarrow> nat option" where
  "FirstFree_bit w j =
     (if j < 32 then if w AND push_bit j 1 = 0 then Some j else FirstFree_bit w (j + 1) else None)"
  by pat_completeness auto
termination by (relation "measure (\<lambda>(w, j). 32 - j)") auto

function FirstFree_word :: "u32 \<Rightarrow> u32 \<Rightarrow> memory \<Rightarrow> u32" where
  "FirstFree_word i n m =
     (if i < n
      then if m i \<noteq> 0xFFFFFFFF
           then case FirstFree_bit (m i) 0 of
                  Some j \<Rightarrow> i * 4 * 8 + of_nat j
                | None \<Rightarrow> FirstFree_word (i + 1) n m
           else FirstFree_word (i + 1) n m
      else -1)"
  by pat_completeness auto
termination by (relation "measure (\<lambda>(i, n, m). unat n - unat i)") (auto simp: unat_succ diff_less_mono2 word_less_nat_alt)

definition Phymem_FirstFree :: "phymem \<Rightarrow> u32" where
  "Phymem_FirstFree s = FirstFree_word 0 (maximumBlocks s) (memoryArray s)"

definition AllocateBlock :: "phymem \<Rightarrow> u32 \<times> phymem" where
  "AllocateBlock s =
     (if FreeBlocks s \<le> 0 then (0, s)
      else let frame = Phymem_FirstFree s
           in if frame = -1 then (0, s)
              else let s = SetBit frame s
                   in (frame * BLOCK_SIZE, s\<lparr>usedBlocks := usedBlocks s + 1\<rparr>))"

definition PageRoundUp :: "u32 \<Rightarrow> u32" where
  "PageRoundUp address =
     (if address AND 0xFFFFF000 \<noteq> address then (address AND 0xFFFFF000) + 0x1000 else address)"

declare MarkFree_from.simps [simp del] MarkUsed_from.simps [simp del] fill_bitmap.simps [simp del]
  FreeBlocks_from.simps [simp del] FirstFree_bit.simps [simp del] FirstFree_word.simps [simp del]

section \<open>The set of marked frames\<close>

definition marked :: "phymem \<Rightarrow> u32 \<Rightarrow> bool" where
  "marked s f = bit (memoryArray s (f div 32)) (unat (f mod 32))"

definition block_range :: "u32 \<Rightarrow> u32 \<Rightarrow> u32 \<Rightarrow> bool" where
  "block_range a n f \<longleftrightarrow> unat a \<le> unat f \<and> unat f < unat a + unat n"

lemma frame_eqI: "f div 32 = b div 32 \<Longrightarrow> f mod 32 = b mod 32 \<Longrightarrow> f = (b :: u32)"
  by (metis div_mult_mod_eq)

lemma unat_mod_32: "unat ((f :: u32) mod 32) = unat f mod 32"
  by (simp add: unat_mod_distrib)

lemma unat_div_32: "unat ((f :: u32) div 32) = unat f div 32"
  by (simp add: unat_div_distrib)

lemma bit_frame_mask:
  assumes "f div 32 = b div 32"
  shows "bit (push_bit (unat (b mod 32)) 1 :: u32) (unat (f mod 32)) \<longleftrightarrow> f = (b :: u32)"
proof -
  have "bit (push_bit (unat (b mod 32)) 1 :: u32) (unat (f mod 32)) \<longleftrightarrow> unat (f mod 32) = unat (b mod 32)"
    by (auto simp: bit_simps unat_mod_32)
  also have "\<dots> \<longleftrightarrow> f mod 32 = b mod 32" by (simp add: word_unat_eq_iff)
  also have "\<dots> \<longleftrightarrow> f = b" using assms frame_eqI by blast
  finally show ?thesis .
qed

lemma marked_SetBit [simp]: "marked (SetBit b s) f \<longleftrightarrow> f = b \<or> marked s f"
  using bit_frame_mask [of f b] by (auto simp: marked_def SetBit_def bit_or_iff)

lemma marked_UnsetBit [simp]: "marked (UnsetBit b s) f \<longleftrightarrow> f \<noteq> b \<and> marked s f"
  using bit_frame_mask [of f b] by (auto simp: marked_def UnsetBit_def bit_and_iff bit_not_iff unat_mod_32)

lemma marked_more [simp]: "marked (s\<lparr>usedBlocks := n\<rparr>) = marked s"
  by (simp add: marked_def fun_eq_iff)

lemma SetBit_fields [simp]:
  "memorySize (SetBit b s) = memorySize s" "usedBlocks (SetBit b s) = usedBlocks s"
  "maximumBlocks (SetBit b s) = maximumBlocks s"
  by (simp_all add: SetBit_def)

lemma UnsetBit_fields [simp]:
  "memorySize (UnsetBit b s) = memorySize s" "usedBlocks (UnsetBit b s) = usedBlocks s"
  "maximumBlocks (UnsetBit b s) = maximumBlocks s"
  by (simp_all add: UnsetBit_def)

text \<open>One step of a loop over a range of blocks takes the first block off the range.\<close>

lemma block_range_step:
  assumes "0 < n" and "unat a + unat n < 4294967296"
  shows "block_range a n f \<longleftrightarrow> f = a \<or> block_range (a + 1) (n - 1) f"
    and "unat (a + 1) + unat (n - 1) < 4294967296"
proof -
  have n: "unat (n - 1) = unat n - 1" "0 < unat n"
    using assms(1) by (simp_all add: unat_pred word_less_nat_alt)
  have a: "unat (a + 1) = unat a + 1" using assms n by (intro trans [OF unat_plus_le]) auto
  show "block_range a n f \<longleftrightarrow> f = a \<or> block_range (a + 1) (n - 1) f"
    using n a by (auto simp: block_range_def intro!: word_nat_eqI)
  show "unat (a + 1) + unat (n - 1) < 4294967296" using n a assms by simp
qed

lemma block_range_0 [simp]: "\<not> block_range a 0 f"
  by (simp add: block_range_def)

lemma MarkFree_from_spec:
  assumes "unat a + unat n < 4294967296"
  shows "marked (MarkFree_from a n s) f \<longleftrightarrow> marked s f \<and> \<not> block_range a n f"
    and "usedBlocks (MarkFree_from a n s) = usedBlocks s - n"
    and "maximumBlocks (MarkFree_from a n s) = maximumBlocks s"
    and "memorySize (MarkFree_from a n s) = memorySize s"
  using assms
proof (induction a n s rule: MarkFree_from.induct)
  case (1 a n s)
  { case 1 then show ?case using "1.IH" block_range_step(1) [of n a f] block_range_step(2) [of n a]
      by (cases "n = 0") (auto simp: MarkFree_from.simps [of a n s] MarkFree_from.simps [of a 0 s] word_gt_0 Let_def) }
  { case 2 then show ?case using "1.IH" block_range_step(2) [of n a]
      by (cases "n = 0") (auto simp: MarkFree_from.simps [of a n s] MarkFree_from.simps [of a 0 s] word_gt_0 Let_def) }
  { case 3 then show ?case using "1.IH" block_range_step(2) [of n a]
      by (cases "n = 0") (auto simp: MarkFree_from.simps [of a n s] MarkFree_from.simps [of a 0 s] word_gt_0 Let_def) }
  { case 4 then show ?case using "1.IH" block_range_step(2) [of n a]
      by (cases "n = 0") (auto simp: MarkFree_from.simps [of a n s] MarkFree_from.simps [of a 0 s] word_gt_0 Let_def) }
qed

lemma MarkUsed_from_spec:
  assumes "unat a + unat n < 4294967296"
  shows "marked (MarkUsed_from a n s) f \<longleftrightarrow> marked s f \<or> block_range a n f"
    and "usedBlocks (MarkUsed_from a n s) = usedBlocks s + n"
    and "maximumBlocks (MarkUsed_from a n s) = maximumBlocks s"
    and "memorySize (MarkUsed_from a n s) = memorySize s"
  using assms
proof (induction a n s rule: MarkUsed_from.induct)
  case (1 a n s)
  { case 1 then show ?case using "1.IH" block_range_step(1) [of n a f] block_range_step(2) [of n a]
      by (cases "n = 0") (auto simp: MarkUsed_from.simps [of a n s] MarkUsed_from.simps [of a 0 s] word_gt_0 Let_def) }
  { case 2 then show ?case using "1.IH" block_range_step(2) [of n a]
      by (cases "n = 0") (auto simp: MarkUsed_from.simps [of a n s] MarkUsed_from.simps [of a 0 s] word_gt_0 Let_def) }
  { case 3 then show ?case using "1.IH" block_range_step(2) [of n a]
      by (cases "n = 0") (auto simp: MarkUsed_from.simps [of a n s] MarkUsed_from.simps [of a 0 s] word_gt_0 Let_def) }
  { case 4 then show ?case using "1.IH" block_range_step(2) [of n a]
      by (cases "n = 0") (auto simp: MarkUsed_from.simps [of a n s] MarkUsed_from.simps [of a 0 s] word_gt_0 Let_def) }
qed

lemma unat_div_BLOCK_SIZE: "unat (x div BLOCK_SIZE) = unat x div 4096"
  by (simp add: BLOCK_SIZE_def unat_div_distrib)

lemma blocks_fit: "unat (x div BLOCK_SIZE) + unat (y div BLOCK_SIZE) < 4294967296"
  using u32_lt [of x] u32_lt [of y] by (simp add: unat_div_BLOCK_SIZE)

lemma marked_MarkFree [simp]:
  "marked (MarkFree base n s) f \<longleftrightarrow>
     f = 0 \<or> marked s f \<and> \<not> block_range (base div BLOCK_SIZE) (n div BLOCK_SIZE) f"
  by (simp add: MarkFree_def MarkFree_from_spec [OF blocks_fit])

lemma MarkFree_fields [simp]:
  "usedBlocks (MarkFree base n s) = usedBlocks s - n div BLOCK_SIZE"
  "maximumBlocks (MarkFree base n s) = maximumBlocks s"
  "memorySize (MarkFree base n s) = memorySize s"
  by (simp_all add: MarkFree_def MarkFree_from_spec [OF blocks_fit])

lemma marked_MarkUsed [simp]:
  "marked (MarkUsed base n s) f \<longleftrightarrow>
     f = 0 \<or> marked s f \<or> block_range (base div BLOCK_SIZE) (n div BLOCK_SIZE) f"
  by (simp add: MarkUsed_def MarkUsed_from_spec [OF blocks_fit])

lemma MarkUsed_fields [simp]:
  "usedBlocks (MarkUsed base n s) = usedBlocks s + n div BLOCK_SIZE"
  "maximumBlocks (MarkUsed base n s) = maximumBlocks s"
  "memorySize (MarkUsed base n s) = memorySize s"
  by (simp_all add: MarkUsed_def MarkUsed_from_spec [OF blocks_fit])

lemma FreeBlocks_from_spec:
  assumes "i \<le> n" and "unat frame + unat n < 4294967296"
  shows "(marked (FreeBlocks_from i n frame s) f \<longleftrightarrow> marked s f \<and> \<not> block_range (frame + i) (n - i) f) \<and>
    usedBlocks (FreeBlocks_from i n frame s) = usedBlocks s \<and>
    maximumBlocks (FreeBlocks_from i n frame s) = maximumBlocks s \<and>
    memorySize (FreeBlocks_from i n frame s) = memorySize s"
  using assms
proof (induction i n frame s rule: FreeBlocks_from.induct)
  case (1 i n frame s)
  show ?case
  proof (cases "i < n")
    case True
    have fi: "unat (frame + i) = unat frame + unat i"
      using 1(2,3) by (intro unat_plus_le) (simp add: word_le_nat_alt)
    have ni: "unat (n - i) = unat n - unat i" using 1(2) by (rule unat_minus_le)
    have "unat (frame + i) + unat (n - i) < 4294967296"
      using 1(2,3) fi ni by (simp add: word_le_nat_alt)
    moreover have "0 < n - i" using True by (simp add: word_gt_0)
    ultimately have "block_range (frame + i) (n - i) f \<longleftrightarrow>
        f = frame + i \<or> block_range (frame + i + 1) (n - i - 1) f"
      using block_range_step(1) by blast
    moreover have "i + 1 \<le> n" using True unat_succ [OF True] by (simp add: word_le_nat_alt word_less_nat_alt)
    ultimately show ?thesis
      using 1 True by (simp add: FreeBlocks_from.simps [of i] algebra_simps) blast
  next
    case False
    then have "i = n" using 1(2) by simp
    then show ?thesis by (simp add: FreeBlocks_from.simps)
  qed
qed

lemma FreeBlocks_at_spec:
  assumes "unat (ptr div BLOCK_SIZE) + unat n < 4294967296"
  shows "marked (FreeBlocks_at ptr n s) f \<longleftrightarrow> marked s f \<and> \<not> block_range (ptr div BLOCK_SIZE) n f"
    and "usedBlocks (FreeBlocks_at ptr n s) = usedBlocks s - n"
    and "maximumBlocks (FreeBlocks_at ptr n s) = maximumBlocks s"
  using FreeBlocks_from_spec [OF _ assms, of 0] by (simp_all add: FreeBlocks_at_def Let_def)

section \<open>The search for a free frame\<close>

lemma bit_test_zero: "(w :: u32) AND 2 ^ j = 0 \<longleftrightarrow> \<not> bit w j" if "j < 32"
proof -
  have "bit (w AND 2 ^ j) k \<longleftrightarrow> k = j \<and> bit w j" for k
    using that by (auto simp: bit_simps)
  then show ?thesis
    by (metis bit_0_eq bot_apply bot_bool_def bit_eqI)
qed

lemma FirstFree_bit_spec:
  "case FirstFree_bit w j of
     Some k \<Rightarrow> j \<le> k \<and> k < 32 \<and> \<not> bit w k \<and> (\<forall>i. j \<le> i \<and> i < k \<longrightarrow> bit w i)
   | None \<Rightarrow> \<forall>i. j \<le> i \<and> i < 32 \<longrightarrow> bit w i"
proof (induction w j rule: FirstFree_bit.induct)
  case (1 w j)
  show ?case
  proof (cases "j < 32 \<and> bit w j")
    case True
    then have step: "FirstFree_bit w j = FirstFree_bit w (j + 1)"
      by (simp add: FirstFree_bit.simps [of w j] bit_test_zero)
    have ih: "case FirstFree_bit w (j + 1) of
        Some k \<Rightarrow> j + 1 \<le> k \<and> k < 32 \<and> \<not> bit w k \<and> (\<forall>i. j + 1 \<le> i \<and> i < k \<longrightarrow> bit w i)
      | None \<Rightarrow> \<forall>i. j + 1 \<le> i \<and> i < 32 \<longrightarrow> bit w i"
      using 1 True by (simp add: bit_test_zero)
    have "bit w i" if "\<forall>i. j + 1 \<le> i \<and> i < k \<longrightarrow> bit w i" "j \<le> i \<and> i < k" for i k
      using that True by (cases "i = j") auto
    with ih show ?thesis unfolding step by (cases "FirstFree_bit w (j + 1)") auto
  qed (auto simp: FirstFree_bit.simps [of w j] bit_test_zero)
qed

lemma all_ones_bit: "(w :: u32) = 0xFFFFFFFF \<longleftrightarrow> (\<forall>i < 32. bit w i)"
proof -
  have m1: "(0xFFFFFFFF :: u32) = - 1" by simp
  show ?thesis unfolding m1 by (auto simp: bit_eq_iff dest: bit_imp_le_length)
qed

lemma FirstFree_bit_ones: "FirstFree_bit w 0 = None \<longleftrightarrow> w = 0xFFFFFFFF"
  using FirstFree_bit_spec [where w = w and j = 0] by (auto simp: all_ones_bit split: option.splits)

lemma frame_div_mod:
  fixes i :: u32
  assumes "unat i < 2 ^ 27" and "j < 32"
  shows "unat (i * 4 * 8 + of_nat j) = 32 * unat i + j"
proof -
  have "unat (i * 4 * 8) = 32 * unat i"
    using assms(1) by (simp add: unat_word_ariths)
  moreover have "unat (of_nat j :: u32) = j"
    using assms(2) by (simp add: unat_of_nat)
  ultimately show ?thesis using assms by (intro trans [OF unat_plus_le]) auto
qed

lemma marked_word:
  "marked s f \<longleftrightarrow> bit (memoryArray s (of_nat (unat f div 32))) (unat f mod 32)"
  by (simp add: marked_def unat_mod_32 flip: unat_div_32)

lemma FirstFree_word_spec:
  assumes "unat n \<le> 2 ^ 20" and "r = FirstFree_word i n (memoryArray s)"
    and "\<forall>f. unat f < 32 * unat i \<longrightarrow> marked s f"
  shows "r = -1 \<and> (\<forall>f. unat f < 32 * unat n \<longrightarrow> marked s f) \<or>
    unat r < 32 * unat n \<and> \<not> marked s r \<and> (\<forall>f. unat f < unat r \<longrightarrow> marked s f)"
  using assms
proof (induction i n "memoryArray s" rule: FirstFree_word.induct)
  case (1 i n)
  note n = 1(3)
  show ?case
  proof (cases "i < n")
    case i: True
    have in': "unat i < unat n" using i by (simp add: word_less_nat_alt)
    have i27: "unat i < 2 ^ 27" by (rule less_le_trans [OF less_le_trans [OF in' n]]) simp
    have word: "marked s f \<longleftrightarrow> bit (memoryArray s i) (unat f - 32 * unat i)"
      if "32 * unat i \<le> unat f" "unat f < 32 * unat i + 32" for f
    proof -
      have d: "unat f div 32 = unat i" using that by linarith
      moreover have "unat f mod 32 = unat f - 32 * unat i" unfolding modulo_nat_def d by simp
      ultimately show ?thesis by (simp add: marked_word)
    qed
    show ?thesis
    proof (cases "memoryArray s i = 0xFFFFFFFF")
      case True
      have ones: "bit (memoryArray s i) k" if "k < 32" for k
        using that iffD1 [OF all_ones_bit True] by blast
      have "marked s f" if "unat f < 32 * (unat i + 1)" for f
        using that 1(5) word [of f] ones [of "unat f - 32 * unat i"]
        by (cases "unat f < 32 * unat i") (simp, simp)
      then show ?thesis
        using 1(2) [OF i] n 1(4) i True unat_succ [OF i] by (simp add: FirstFree_word.simps [of i])
    next
      case False
      then obtain j where j: "FirstFree_bit (memoryArray s i) 0 = Some j"
        using FirstFree_bit_ones by blast
      then have r: "r = i * 4 * 8 + of_nat j"
        using 1(4) i False by (simp add: FirstFree_word.simps [of i])
      have spec: "j < 32" "\<not> bit (memoryArray s i) j" "\<And>k. k < j \<Longrightarrow> bit (memoryArray s i) k"
        using FirstFree_bit_spec [where w = "memoryArray s i" and j = 0] j by auto
      have ur: "unat r = 32 * unat i + j" unfolding r using i27 spec(1) by (rule frame_div_mod)
      have "marked s f" if "unat f < unat r" for f
        using that 1(5) word [of f] spec ur by (cases "unat f < 32 * unat i") auto
      moreover have "\<not> marked s r" using word [of r] spec ur by simp
      ultimately show ?thesis using ur spec(1) in' by auto
    qed
  next
    case False
    then have "unat n \<le> unat i" by (simp add: word_le_nat_alt not_less)
    then show ?thesis using 1 False by (auto simp: FirstFree_word.simps [of i])
  qed
qed

text \<open>\<open>FirstFree\<close> returns the lowest clear bit among the \<open>maximumBlocks\<close> words it scans.\<close>

lemma Phymem_FirstFree_spec:
  assumes "unat (maximumBlocks s) \<le> 2 ^ 20" and "r = Phymem_FirstFree s"
  shows "r = -1 \<and> (\<forall>f. unat f < 32 * unat (maximumBlocks s) \<longrightarrow> marked s f) \<or>
    unat r < 32 * unat (maximumBlocks s) \<and> \<not> marked s r \<and> (\<forall>f. unat f < unat r \<longrightarrow> marked s f)"
  using FirstFree_word_spec [OF assms(1), of r 0 s] assms(2) by (simp add: Phymem_FirstFree_def)

section \<open>Initialisation\<close>

lemma fill_bitmap_apply:
  "fill_bitmap i n m a = (if i \<le> a \<and> a < n then 0xFF else m a)"
proof (induction i n m rule: fill_bitmap.induct)
  case (1 i n m)
  have "i < n \<Longrightarrow> i + 1 \<le> a \<longleftrightarrow> i \<le> a \<and> a \<noteq> i"
    using unat_succ [of i n] by (auto simp: word_le_nat_alt word_unat_eq_iff)
  with 1 show ?case
    by (cases "a = i") (auto simp: fill_bitmap.simps [of i] fun_upd_same fun_upd_other simp del: fun_upd_apply)
qed

text \<open>A region of the memory map as the code reads it, and a map that lists \<open>rs\<close>.\<close>

datatype region = Region (rbase: u32) (rlength: u32) (rtype: u32)

primrec mmap_at :: "memory \<Rightarrow> u32 \<Rightarrow> u32 \<Rightarrow> region list \<Rightarrow> bool" where
  "mmap_at rd stop a [] \<longleftrightarrow> stop \<le> a"
| "mmap_at rd stop a (r # rs) \<longleftrightarrow> a < stop \<and> rbase r = base_addr_low rd a \<and> rlength r = length_low rd a \<and>
     rtype r = mmap_type rd a \<and> mmap_at rd stop (a + mmap_size rd a + 4) rs"

definition free_region :: "region \<Rightarrow> phymem \<Rightarrow> phymem" where
  "free_region r s = (if rtype r = MULTIBOOT_MEMORY_AVAILABLE then MarkFree (rbase r) (rlength r) s else s)"

definition region_frame :: "region \<Rightarrow> u32 \<Rightarrow> bool" where
  "region_frame r f \<longleftrightarrow> rtype r = MULTIBOOT_MEMORY_AVAILABLE \<and>
     block_range (rbase r div BLOCK_SIZE) (rlength r div BLOCK_SIZE) f"

lemma mmap_walk_list:
  "mmap_at rd stop a rs \<Longrightarrow> mmap_walk rd stop a s = Some (fold free_region rs s)"
  by (induction rs arbitrary: a s; subst mmap_walk.simps) (auto simp: free_region_def)

lemma marked_free_regions:
  "marked (fold free_region rs s) f \<longleftrightarrow>
     f = 0 \<and> (\<exists>r\<in>set rs. rtype r = MULTIBOOT_MEMORY_AVAILABLE) \<or>
     marked s f \<and> \<not> (\<exists>r\<in>set rs. region_frame r f)"
  by (induction rs arbitrary: s) (auto simp: free_region_def region_frame_def)

lemma free_regions_fields:
  "maximumBlocks (fold free_region rs s) = maximumBlocks s"
  "memorySize (fold free_region rs s) = memorySize s"
  "usedBlocks (fold free_region rs s) = usedBlocks s -
     (\<Sum>r\<leftarrow>filter (\<lambda>r. rtype r = MULTIBOOT_MEMORY_AVAILABLE) rs. rlength r div BLOCK_SIZE)"
  by (induction rs arbitrary: s) (auto simp: free_region_def algebra_simps)

text \<open>Whatever the map says, the walk marks no frame but frame 0.\<close>

lemma mmap_walk_only_frees:
  "mmap_walk rd stop a s = Some s' \<Longrightarrow>
     (marked s' f \<longrightarrow> f = 0 \<or> marked s f) \<and> maximumBlocks s' = maximumBlocks s"
proof (erule mmap_walk.raw_induct [rotated])
  fix walk rd stop a s s'
  assume ih: "\<And>rd stop a s s'. walk rd stop a s = Some s' \<Longrightarrow>
      (marked s' f \<longrightarrow> f = 0 \<or> marked s f) \<and> maximumBlocks s' = maximumBlocks s"
    and body: "(if a < stop
      then walk rd stop (a + mmap_size rd a + 4)
             (if mmap_type rd a = MULTIBOOT_MEMORY_AVAILABLE
              then MarkFree (base_addr_low rd a) (length_low rd a) s else s)
      else Some s) = Some s'"
  show "(marked s' f \<longrightarrow> f = 0 \<or> marked s f) \<and> maximumBlocks s' = maximumBlocks s"
    using body by (auto split: if_splits dest: ih)
qed

text \<open>The bitmap after the fill loop.\<close>

definition filled :: "u32 \<Rightarrow> phymem \<Rightarrow> u32 \<Rightarrow> bool" where
  "filled blocks s f \<longleftrightarrow> (if f div 32 < blocks div 8 then unat f mod 32 < 8 else marked s f)"

lemma bit_0xFF: "bit (0xFF :: int) k \<longleftrightarrow> k < 8"
proof -
  have "bit (mask 8 :: int) k \<longleftrightarrow> k < 8" by (simp add: bit_mask_iff)
  then show ?thesis by (simp add: mask_eq_exp_minus_1)
qed

lemma marked_filled:
  "marked (s\<lparr>memorySize := a, maximumBlocks := b, usedBlocks := c,
     memoryArray := fill_bitmap 0 (n div BLOCKS_PER_BYTE) (memoryArray s)\<rparr>) f = filled n s f"
  by (auto simp: marked_def filled_def fill_bitmap_apply BLOCKS_PER_BYTE_def bit_0xFF unat_mod_32)

lemma Phymem_Init_blocks:
  "Phymem_Init rd info s = Some s' \<Longrightarrow> maximumBlocks s' = mem_upper info * 1024 div BLOCK_SIZE"
  using mmap_walk_only_frees by (fastforce simp: Phymem_Init_def Let_def)

lemma Phymem_Init_returns:
  "mmap_at rd (phys2virt (mmap_addr info) + mmap_length info) (phys2virt (mmap_addr info)) rs \<Longrightarrow>
     \<exists>s'. Phymem_Init rd info s = Some s'"
  using mmap_walk_list by (auto simp: Phymem_Init_def Let_def)

section \<open>Accounting\<close>

text \<open>
  \<open>AllocateBlock\<close> trusts its counters: it looks for a frame when \<open>FreeBlocks\<close> is not 0.
  The counters are safe (\<open>accounted\<close>) when the scan finds at least that many clear bits
  below frame 2 ^ 20, the last frame whose address fits in 32 bits.
\<close>

definition frame_limit :: "phymem \<Rightarrow> nat" where
  "frame_limit s = min (32 * unat (maximumBlocks s)) (2 ^ 20)"

definition available :: "phymem \<Rightarrow> u32 set" where
  "available s = {f. unat f < frame_limit s \<and> \<not> marked s f}"

definition accounted :: "phymem \<Rightarrow> bool" where
  "accounted s \<longleftrightarrow> unat (maximumBlocks s) \<le> 2 ^ 20 \<and> marked s 0 \<and> unat (FreeBlocks s) \<le> card (available s)"

definition held_frames :: "phymem \<Rightarrow> u32 set" where
  "held_frames s = (\<lambda>f. f * BLOCK_SIZE) ` {f. unat f < 2 ^ 20 \<and> marked s f}"

lemma finite_available [simp]: "finite (available s)"
  by (rule finite_subset [OF subset_UNIV]) simp

lemma unat_frame_address: "unat f < 2 ^ 20 \<Longrightarrow> unat (f * BLOCK_SIZE) = unat f * 4096"
  by (simp add: BLOCK_SIZE_def unat_word_ariths)

lemma frame_address_inj:
  "unat f < 2 ^ 20 \<Longrightarrow> unat g < 2 ^ 20 \<Longrightarrow> f * BLOCK_SIZE = g * BLOCK_SIZE \<longleftrightarrow> f = g"
  using unat_frame_address [of f] unat_frame_address [of g] by (auto intro!: word_nat_eqI)

lemma AllocateBlock_cases:
  assumes ok: "accounted s"
  obtains (none) "FreeBlocks s = 0" "AllocateBlock s = (0, s)"
  | (frame) f s' where "FreeBlocks s \<noteq> 0" "AllocateBlock s = (f * BLOCK_SIZE, s')"
      "unat f < frame_limit s" "f \<noteq> 0" "\<not> marked s f" "\<And>g. unat g < unat f \<Longrightarrow> marked s g"
      "\<And>g. marked s' g \<longleftrightarrow> g = f \<or> marked s g"
      "maximumBlocks s' = maximumBlocks s" "memorySize s' = memorySize s" "usedBlocks s' = usedBlocks s + 1"
proof (cases "FreeBlocks s = 0")
  case True
  then show ?thesis by (intro none) (simp_all add: AllocateBlock_def)
next
  case False
  let ?f = "Phymem_FirstFree s"
  have "0 < unat (FreeBlocks s)" using False by (simp add: unat_pos_iff)
  then have "available s \<noteq> {}" using ok by (auto simp: accounted_def)
  then obtain g where g: "unat g < frame_limit s" "\<not> marked s g" by (auto simp: available_def)
  have max: "unat (maximumBlocks s) \<le> 2 ^ 20" using ok by (simp add: accounted_def)
  have gl: "unat g < 32 * unat (maximumBlocks s)" using g(1) by (simp add: frame_limit_def)
  from Phymem_FirstFree_spec [OF max refl] g(2) gl
  have f: "\<not> marked s ?f" "\<And>h. unat h < unat ?f \<Longrightarrow> marked s h"
    and fl: "unat ?f < 32 * unat (maximumBlocks s)" by auto
  have le: "unat ?f \<le> unat g" using f(2) [of g] g(2) by (meson not_less)
  then have lim: "unat ?f < frame_limit s" using g(1) by simp
  have "unat ?f < 2 ^ 20" using lim by (simp add: frame_limit_def)
  moreover have "unat (-1 :: u32) = 2 ^ 32 - 1"
    by (simp add: unsigned_minus_1_eq_mask mask_eq_exp_minus_1)
  ultimately have "?f \<noteq> -1" by auto
  moreover have "?f \<noteq> 0" using f(1) ok by (auto simp: accounted_def)
  ultimately show ?thesis
    using False f lim by (intro frame [of ?f "SetBit ?f s\<lparr>usedBlocks := usedBlocks s + 1\<rparr>"]) (auto simp: AllocateBlock_def Let_def)
qed

lemma available_allocated:
  assumes "\<And>g. marked s' g \<longleftrightarrow> g = f \<or> marked s g" and "maximumBlocks s' = maximumBlocks s"
  shows "available s' = available s - {f}"
  using assms by (auto simp: available_def frame_limit_def)

lemma AllocateBlock_accounted:
  assumes "accounted s" and "AllocateBlock s = (p, s')"
  shows "accounted s'"
  using assms(1)
proof (cases rule: AllocateBlock_cases)
  case none
  then show ?thesis using assms by simp
next
  case (frame f t)
  then have t: "t = s'" and av: "available s' = available s - {f}"
    using assms(2) available_allocated [of s' f s] by auto
  have "f \<in> available s" using frame by (simp add: available_def)
  then have card: "card (available s') = card (available s) - 1" unfolding av by simp
  have "FreeBlocks s' = FreeBlocks s - 1" using frame t by (simp add: FreeBlocks_def)
  moreover have "unat (FreeBlocks s - 1) = unat (FreeBlocks s) - 1"
    using frame(1) by (intro unat_pred) (simp add: word_gt_0)
  ultimately have "unat (FreeBlocks s') \<le> card (available s')"
    using assms(1) card by (auto simp: accounted_def)
  then show ?thesis using assms(1) frame t by (simp add: accounted_def)
qed

lemma AllocateBlock_null:
  assumes "accounted s" and "AllocateBlock s = (0, s')"
  shows "s' = s"
  using assms(1)
proof (cases rule: AllocateBlock_cases)
  case (frame f t)
  then have "unat (f * BLOCK_SIZE) = unat f * 4096" by (intro unat_frame_address) (simp add: frame_limit_def)
  then have "f = 0" using frame assms(2) by (simp add: unat_eq_zero)
  with frame show ?thesis by simp
qed (use assms in simp)

lemma AllocateBlock_fresh:
  assumes "accounted s" and "AllocateBlock s = (p, s')" and "p \<noteq> 0"
  shows "p \<notin> held_frames s" and "held_frames s' = insert p (held_frames s)" and "4096 dvd unat p"
proof -
  from assms(1) have "p \<notin> held_frames s \<and> held_frames s' = insert p (held_frames s) \<and> 4096 dvd unat p"
  proof (cases rule: AllocateBlock_cases)
    case (frame f t)
    then have f: "unat f < 2 ^ 20" and p: "p = f * BLOCK_SIZE" and t: "t = s'"
      using assms(2) by (auto simp: frame_limit_def)
    have "p \<notin> held_frames s"
    proof
      assume "p \<in> held_frames s"
      then obtain g where "unat g < 2 ^ 20" "marked s g" "f * BLOCK_SIZE = g * BLOCK_SIZE"
        unfolding held_frames_def p by blast
      then show False using frame_address_inj [OF f] frame(5) by blast
    qed
    moreover have "{g. unat g < 2 ^ 20 \<and> marked s' g} = insert f {g. unat g < 2 ^ 20 \<and> marked s g}"
      using frame(7) f t by auto
    then have "held_frames s' = insert p (held_frames s)"
      unfolding held_frames_def p by (simp only: image_insert)
    moreover have "4096 dvd unat p" unfolding p unat_frame_address [OF f] by simp
    ultimately show ?thesis by blast
  qed (use assms in simp)
  then show "p \<notin> held_frames s" "held_frames s' = insert p (held_frames s)" "4096 dvd unat p"
    by blast+
qed

lemma AllocateBlock_some:
  assumes "accounted s" and "FreeBlocks s \<noteq> 0"
  obtains p s' where "AllocateBlock s = (p, s')" and "p \<noteq> 0" and "FreeBlocks s' = FreeBlocks s - 1"
  using assms(1)
proof (cases rule: AllocateBlock_cases)
  case (frame f s')
  then have "unat (f * BLOCK_SIZE) = unat f * 4096" by (intro unat_frame_address) (simp add: frame_limit_def)
  then have "f * BLOCK_SIZE \<noteq> 0" using frame(4) by (auto simp: unat_eq_zero)
  with frame that show ?thesis by (simp add: FreeBlocks_def)
qed (use assms in simp)

section \<open>What the users of frames rely on\<close>

fun alloc_many :: "('s \<Rightarrow> u32 \<times> 's) \<Rightarrow> nat \<Rightarrow> 's \<Rightarrow> u32 list \<times> 's" where
  "alloc_many alloc 0 s = ([], s)"
| "alloc_many alloc (Suc n) s =
     (let (p, s) = alloc s; (ps, s) = alloc_many alloc n s in (p # ps, s))"

locale frame_allocator =
  fixes alloc :: "'s \<Rightarrow> u32 \<times> 's" and held :: "'s \<Rightarrow> u32 set" and inv :: "'s \<Rightarrow> bool"
  assumes alloc_inv: "inv s \<Longrightarrow> alloc s = (p, s') \<Longrightarrow> inv s'"
    and alloc_null: "inv s \<Longrightarrow> alloc s = (0, s') \<Longrightarrow> s' = s"
    and alloc_fresh: "inv s \<Longrightarrow> alloc s = (p, s') \<Longrightarrow> p \<noteq> 0 \<Longrightarrow> p \<notin> held s"
    and alloc_held: "inv s \<Longrightarrow> alloc s = (p, s') \<Longrightarrow> p \<noteq> 0 \<Longrightarrow> held s' = insert p (held s)"
    and alloc_aligned: "inv s \<Longrightarrow> alloc s = (p, s') \<Longrightarrow> p \<noteq> 0 \<Longrightarrow> 4096 dvd unat p"
begin

lemma held_after: "inv s \<Longrightarrow> alloc s = (p, s') \<Longrightarrow> held s' = held s \<union> ({p} - {0})"
  using alloc_held [of s p s'] alloc_null [of s s'] by (cases "p = 0") auto

lemma aligned: "inv s \<Longrightarrow> alloc s = (p, s') \<Longrightarrow> 4096 dvd unat p"
  using alloc_aligned [of s p s'] by (cases "p = 0") auto

lemma many:
  assumes "inv s" and "alloc_many alloc n s = (ps, s')"
  shows "inv s' \<and> distinct (filter (\<lambda>p. p \<noteq> 0) ps) \<and> (set ps - {0}) \<inter> held s = {} \<and>
    held s' = held s \<union> (set ps - {0})"
  using assms
proof (induction n arbitrary: s ps s')
  case (Suc n)
  obtain p t where p: "alloc s = (p, t)" by (cases "alloc s")
  obtain qs u where q: "alloc_many alloc n t = (qs, u)" by (cases "alloc_many alloc n t")
  have ps: "ps = p # qs" "s' = u" using Suc.prems(2) p q by auto
  have t: "inv t" "held t = held s \<union> ({p} - {0})"
    using alloc_inv held_after Suc.prems(1) p by blast+
  from Suc.IH [OF t(1) q]
  have ih: "inv u" "distinct (filter (\<lambda>p. p \<noteq> 0) qs)" "(set qs - {0}) \<inter> held t = {}"
    "held u = held t \<union> (set qs - {0})" by auto
  have "p \<noteq> 0 \<Longrightarrow> p \<notin> held s" using alloc_fresh Suc.prems(1) p by blast
  with ih t ps show ?case by auto
qed auto

end

interpretation lpm: frame_allocator AllocateBlock held_frames accounted
  by unfold_locales (fact AllocateBlock_accounted AllocateBlock_null AllocateBlock_fresh)+

section \<open>Properties\<close>

text \<open>An allocator state for the witnesses: \<open>n\<close> frames of memory, frame 0 marked, all others clear.\<close>

definition demo_phymem :: "u32 \<Rightarrow> phymem" where
  "demo_phymem n = SetBit 0 \<lparr>memorySize = n * 4096, usedBlocks = 1, maximumBlocks = n, memoryArray = (\<lambda>_. 0)\<rparr>"

lemma marked_demo [simp]: "marked (demo_phymem n) f \<longleftrightarrow> f = 0"
  by (simp add: demo_phymem_def) (simp add: marked_def)

lemma accounted_demo:
  assumes "1 < unat n" and "unat n \<le> 2 ^ 20"
  shows "accounted (demo_phymem n)"
proof -
  have n: "0 < n" using assms(1) by (simp add: word_less_nat_alt)
  have img: "(of_nat :: nat \<Rightarrow> u32) ` {1..<unat n} \<subseteq> available (demo_phymem n)"
  proof
    fix f :: u32
    assume "f \<in> of_nat ` {1..<unat n}"
    then obtain k where k: "1 \<le> k" "k < unat n" "f = of_nat k" by auto
    then have "unat f = k" using u32_lt [of n] by (simp add: unat_of_nat)
    then show "f \<in> available (demo_phymem n)"
      using k(1,2) assms(2) by (auto simp: available_def frame_limit_def) (auto simp: demo_phymem_def)
  qed
  have "inj_on (of_nat :: nat \<Rightarrow> u32) {1..<unat n}"
  proof (rule inj_onI)
    fix x y :: nat
    assume "x \<in> {1..<unat n}" "y \<in> {1..<unat n}" "(of_nat x :: u32) = of_nat y"
    then show "x = y" using u32_lt [of n] by (auto dest: arg_cong [of _ _ unat] simp: unat_of_nat)
  qed
  then have "card ((of_nat :: nat \<Rightarrow> u32) ` {1..<unat n}) = unat n - 1"
    by (simp add: card_image)
  then have "unat n - 1 \<le> card (available (demo_phymem n))"
    using card_mono [OF finite_available img] by simp
  moreover have "FreeBlocks (demo_phymem n) = n - 1" by (simp add: FreeBlocks_def demo_phymem_def)
  ultimately have "unat (FreeBlocks (demo_phymem n)) \<le> card (available (demo_phymem n))"
    by (simp add: unat_pred [OF n])
  then show ?thesis
    unfolding accounted_def using assms(2) by (simp add: demo_phymem_def)
qed

lemmas accounted_64 = accounted_demo [of 64, simplified]

lemma demo_first_frame: "\<exists>s'. AllocateBlock (demo_phymem 64) = (4096, s')"
  using accounted_64
proof (cases rule: AllocateBlock_cases)
  case none
  then show ?thesis by (simp add: FreeBlocks_def demo_phymem_def)
next
  case (frame f s')
  have "\<not> unat (1 :: u32) < unat f" using frame(6) by (metis marked_demo zero_neq_one)
  then have "f = 1" using frame(4) by (auto intro!: word_nat_eqI simp: unat_gt_0 le_Suc_eq not_less)
  with frame(2) show ?thesis by (simp add: BLOCK_SIZE_def)
qed

text \<open>
  Marking is exact. \<open>MarkUsed\<close> sets and \<open>MarkFree\<close> clears the bits of the \<open>size / 4096\<close>
  frames from frame \<open>base / 4096\<close> on and no other, except that both set bit 0; the counter
  moves by the number of frames whether or not a bit changed.
\<close>

lemma marking_exact:
  "(marked (MarkUsed base n s) f \<longleftrightarrow> f = 0 \<or> marked s f \<or>
      unat base div 4096 \<le> unat f \<and> unat f < unat base div 4096 + unat n div 4096) \<and>
   (marked (MarkFree base n s) f \<longleftrightarrow> f = 0 \<or> marked s f \<and> \<not>
      (unat base div 4096 \<le> unat f \<and> unat f < unat base div 4096 + unat n div 4096)) \<and>
   FreeBlocks (MarkUsed base n s) = FreeBlocks s - n div BLOCK_SIZE \<and>
   FreeBlocks (MarkFree base n s) = FreeBlocks s + n div BLOCK_SIZE"
  by (simp add: block_range_def unat_div_BLOCK_SIZE FreeBlocks_def)

theorem marking_exact_witness:
  "marked (MarkUsed 0x3000 0x2000 (demo_phymem 64)) 4 \<and> \<not> marked (MarkUsed 0x3000 0x2000 (demo_phymem 64)) 5 \<and>
   \<not> marked (MarkFree 0x3000 0x2000 (MarkUsed 0x3000 0x2000 (demo_phymem 64))) 4"
  using marking_exact [of "0x3000" "0x2000" "demo_phymem 64" 4] marking_exact [of "0x3000" "0x2000" "demo_phymem 64" 5]
    marking_exact [of "0x3000" "0x2000" "MarkUsed 0x3000 0x2000 (demo_phymem 64)" 4]
  by simp

text \<open>
  C30. \<open>Init\<close> on a well-formed memory map ends. It records the size of memory, and the set of
  marked frames is what the fill loop left, less the frames of the regions that the map
  declares available; frame 0 is marked if there is such a region.
\<close>

theorem Phymem_Init_spec:
  assumes "mmap_at rd (phys2virt (mmap_addr info) + mmap_length info) (phys2virt (mmap_addr info)) rs"
  shows "\<exists>s'. Phymem_Init rd info s = Some s' \<and> memorySize s' = mem_upper info * 1024 \<and>
    maximumBlocks s' = mem_upper info * 1024 div BLOCK_SIZE \<and>
    FreeBlocks s' = (\<Sum>r\<leftarrow>filter (\<lambda>r. rtype r = MULTIBOOT_MEMORY_AVAILABLE) rs. rlength r div BLOCK_SIZE) \<and>
    (\<forall>f. marked s' f \<longleftrightarrow> f = 0 \<and> (\<exists>r\<in>set rs. rtype r = MULTIBOOT_MEMORY_AVAILABLE) \<or>
       filled (maximumBlocks s') s f \<and> \<not> (\<exists>r\<in>set rs. region_frame r f))"
  using mmap_walk_list [OF assms]
  by (simp add: Phymem_Init_def Let_def marked_free_regions free_regions_fields marked_filled FreeBlocks_def)

text \<open>The map of the witnesses: 1 MB from address 0x100000 available, in a table at 0xC0009000.\<close>

definition demo_map :: memory where
  "demo_map = (\<lambda>_. 0)(0xC0009000 := 20, 0xC0009004 := 0x100000, 0xC000900C := 0x100000, 0xC0009014 := 1)"

definition demo_info :: multiboot_info where
  "demo_info = \<lparr>mem_upper = 1024, mmap_length = 24, mmap_addr = 0x9000\<rparr>"

lemma demo_map_at:
  "mmap_at demo_map (phys2virt (mmap_addr demo_info) + mmap_length demo_info)
     (phys2virt (mmap_addr demo_info)) [Region 0x100000 0x100000 1]"
  by (simp add: demo_map_def demo_info_def phys2virt_def KERNEL_VIRTUAL_OFFSET_def mmap_size_def
      base_addr_low_def length_low_def mmap_type_def)

theorem Phymem_Init_spec_witness:
  "\<exists>s'. Phymem_Init demo_map demo_info (demo_phymem 64) = Some s' \<and> FreeBlocks s' = 256 \<and> marked s' 0"
  using Phymem_Init_spec [OF demo_map_at, of "demo_phymem 64"]
  by (auto simp: MULTIBOOT_MEMORY_AVAILABLE_def BLOCK_SIZE_def)

text \<open>
  The fill loop of \<open>Init\<close> stores 0xFF in 32-bit words, so whatever the memory map
  says, 24 of every 32 frames it covers start out free, frames the map reserves or does
  not mention included.
\<close>

lemma Init_leaves_reserved_free:
  assumes "Phymem_Init rd info s = Some s'"
    and "f div 32 < maximumBlocks s' div BLOCKS_PER_BYTE" and "8 \<le> unat f mod 32"
  shows "\<not> marked s' f"
proof -
  let ?n = "mem_upper info * 1024 div BLOCK_SIZE"
  let ?s = "s\<lparr>memorySize := mem_upper info * 1024, maximumBlocks := ?n, usedBlocks := ?n,
    memoryArray := fill_bitmap 0 (?n div BLOCKS_PER_BYTE) (memoryArray s)\<rparr>"
  have walk: "mmap_walk rd (phys2virt (mmap_addr info) + mmap_length info)
      (phys2virt (mmap_addr info)) ?s = Some s'"
    using assms(1) by (simp add: Phymem_Init_def Let_def)
  have "maximumBlocks s' = ?n" using mmap_walk_only_frees [OF walk] by simp
  then have "\<not> filled ?n s f" using assms(2,3) by (simp add: filled_def BLOCKS_PER_BYTE_def)
  then have "\<not> marked ?s f" by (simp only: marked_filled) simp
  moreover have "f \<noteq> 0" using assms(3) by auto
  ultimately show ?thesis using mmap_walk_only_frees [OF walk] by blast
qed

theorem Init_leaves_reserved_free_witness:
  "\<exists>s'. Phymem_Init demo_map demo_info (demo_phymem 64) = Some s' \<and> \<not> marked s' 8 \<and>
     \<not> region_frame (Region 0x100000 0x100000 1) 8"
proof -
  obtain s' where s: "Phymem_Init demo_map demo_info (demo_phymem 64) = Some s'"
    "maximumBlocks s' = mem_upper demo_info * 1024 div BLOCK_SIZE"
    using Phymem_Init_returns [OF demo_map_at] Phymem_Init_blocks by blast
  then have "\<not> marked s' 8"
    by (intro Init_leaves_reserved_free [OF s(1)]) (simp_all add: demo_info_def BLOCK_SIZE_def BLOCKS_PER_BYTE_def)
  moreover have "\<not> region_frame (Region 0x100000 0x100000 1) 8"
    by (simp add: region_frame_def block_range_def BLOCK_SIZE_def)
  ultimately show ?thesis using s(1) by blast
qed

text \<open>
  C18. \<open>AllocateBlock\<close>, when the counters are sound: with no free block left it returns null
  and changes nothing; otherwise it returns the address of the lowest clear frame, which is
  never frame 0, marks exactly that frame and counts it, and the counters stay sound.
\<close>

theorem AllocateBlock_spec:
  assumes "accounted s"
  shows "if FreeBlocks s = 0 then AllocateBlock s = (0, s)
    else \<exists>f s'. AllocateBlock s = (f * BLOCK_SIZE, s') \<and> f \<noteq> 0 \<and> unat (f * BLOCK_SIZE) = unat f * 4096 \<and>
      \<not> marked s f \<and> (\<forall>g. unat g < unat f \<longrightarrow> marked s g) \<and> (\<forall>g. marked s' g \<longleftrightarrow> g = f \<or> marked s g) \<and>
      FreeBlocks s' = FreeBlocks s - 1 \<and> accounted s'"
  using assms
proof (cases rule: AllocateBlock_cases)
  case (frame f s')
  moreover have "unat (f * BLOCK_SIZE) = unat f * 4096"
    using frame by (intro unat_frame_address) (simp add: frame_limit_def)
  moreover have "FreeBlocks s' = FreeBlocks s - 1" using frame by (simp add: FreeBlocks_def)
  ultimately show ?thesis using AllocateBlock_accounted [OF assms frame(2)] by auto
qed simp

theorem AllocateBlock_spec_witness:
  "\<exists>f s'. AllocateBlock (demo_phymem 64) = (f * BLOCK_SIZE, s') \<and> f \<noteq> 0 \<and> accounted s' \<and> marked s' f"
proof -
  have "FreeBlocks (demo_phymem 64) \<noteq> 0" by (simp add: FreeBlocks_def demo_phymem_def)
  then show ?thesis using AllocateBlock_spec [OF accounted_64] by auto
qed

text \<open>
  C10. No frame is handed out twice: of any number of allocations in a row, the non-null
  results are pairwise different, none of them was in use before, all of them are in use
  after, and nothing else changes hands.
\<close>

theorem AllocateBlock_never_twice:
  assumes "accounted s" and "alloc_many AllocateBlock n s = (ps, s')"
  shows "distinct (filter (\<lambda>p. p \<noteq> 0) ps) \<and> (set ps - {0}) \<inter> held_frames s = {} \<and>
    held_frames s' = held_frames s \<union> (set ps - {0}) \<and> accounted s'"
  using lpm.many [OF assms] by blast

theorem AllocateBlock_never_twice_witness:
  "\<exists>ps s'. alloc_many AllocateBlock 3 (demo_phymem 64) = (ps, s') \<and> distinct (filter (\<lambda>p. p \<noteq> 0) ps)"
proof -
  obtain ps s' where "alloc_many AllocateBlock 3 (demo_phymem 64) = (ps, s')" by fastforce
  with AllocateBlock_never_twice [OF accounted_64 this] show ?thesis by blast
qed

text \<open>
  Giving a frame back undoes its allocation: \<open>FreeBlocks(p, 1)\<close> after \<open>AllocateBlock\<close>
  restores the set of marked frames and the counters.
\<close>

lemma allocate_free_roundtrip:
  assumes "accounted s" and "AllocateBlock s = (p, s')" and "p \<noteq> 0"
  shows "(\<forall>f. marked (FreeBlocks_at p 1 s') f \<longleftrightarrow> marked s f) \<and>
    FreeBlocks (FreeBlocks_at p 1 s') = FreeBlocks s"
  using assms(1)
proof (cases rule: AllocateBlock_cases)
  case (frame f t)
  then have f: "unat f < 2 ^ 20" and p: "p = f * BLOCK_SIZE" and t: "t = s'"
    using assms(2) by (auto simp: frame_limit_def)
  have pf: "p div BLOCK_SIZE = f"
    unfolding p by (rule word_nat_eqI) (simp add: unat_div_BLOCK_SIZE unat_frame_address [OF f])
  have fit: "unat (p div BLOCK_SIZE) + unat (1 :: u32) < 4294967296" using f unfolding pf by simp
  have "block_range f 1 g \<longleftrightarrow> g = f" for g
    by (auto simp: block_range_def intro!: word_nat_eqI)
  then show ?thesis
    using FreeBlocks_at_spec [OF fit, of s'] frame t unfolding pf by (auto simp: FreeBlocks_def)
qed (use assms in simp)

theorem allocate_free_roundtrip_witness:
  "\<exists>s'. AllocateBlock (demo_phymem 64) = (4096, s') \<and> \<not> marked (FreeBlocks_at 4096 1 s') 1 \<and>
     FreeBlocks (FreeBlocks_at 4096 1 s') = 63"
proof -
  obtain s' where s: "AllocateBlock (demo_phymem 64) = (4096, s')"
    using demo_first_frame by blast
  have "FreeBlocks (demo_phymem 64) = 63" by (simp add: FreeBlocks_def demo_phymem_def)
  with s allocate_free_roundtrip [OF accounted_64 s] show ?thesis by auto
qed

text \<open>
  C40. \<open>MarkUsed\<close> rounds the size down: of a module that does not end on a page boundary the
  last, partly used frame is not marked, and stays free to be handed out.
\<close>

theorem MarkUsed_misses_tail:
  assumes "unat base mod 4096 = 0" and "unat n mod 4096 \<noteq> 0" and "unat base + unat n \<le> 2 ^ 32"
    and "f = (base + (n - 1)) div BLOCK_SIZE" and "0 < base"
  shows "marked (MarkUsed base n s) f \<longleftrightarrow> marked s f"
proof -
  have n: "0 < n" "0 < unat n" using assms(2) by (auto simp: word_gt_0 unat_gt_0 intro: Suc_leI)
  have "unat (base + (n - 1)) = unat base + (unat n - 1)"
    using assms(3) n by (intro trans [OF unat_plus_le]) (simp_all add: unat_pred)
  then have f: "unat f = (unat base + (unat n - 1)) div 4096"
    by (simp add: assms(4) unat_div_BLOCK_SIZE)
  obtain k where k: "unat base = 4096 * k" using assms(1) by (auto simp: mod_eq_0_iff_dvd)
  have "(unat n - 1) div 4096 = unat n div 4096"
    using assms(2) n(2) by (cases "unat n") (auto simp: div_Suc mod_Suc split: if_splits)
  then have f': "unat f = unat base div 4096 + unat n div 4096" unfolding f k by simp
  have "0 < k" using assms(5) k by (cases k) (auto simp: word_less_nat_alt)
  then have "f \<noteq> 0" using f' k by auto
  then show ?thesis using f' by (simp add: block_range_def unat_div_BLOCK_SIZE)
qed

theorem MarkUsed_misses_tail_witness:
  "marked (MarkUsed 0x200000 0x1312 (demo_phymem 64)) 0x200 \<and>
   \<not> marked (MarkUsed 0x200000 0x1312 (demo_phymem 64)) 0x201"
  using MarkUsed_misses_tail [of "0x200000" "0x1312" "0x201" "demo_phymem 64"]
  by (simp add: BLOCK_SIZE_def block_range_def)

lemma round_up_page:
  "(x + 4095) div 4096 * 4096 = (if x div 4096 * 4096 = x then x else x div 4096 * 4096 + (4096 :: nat))"
proof -
  define q r where "q = x div 4096" and "r = x mod 4096"
  have x: "x = q * 4096 + r" and r: "r < 4096" unfolding q_def r_def by simp_all
  show ?thesis
  proof (cases "r = 0")
    case False
    then have "x + 4095 = (q + 1) * 4096 + (r - 1)" using x by simp
    then have "(x + 4095) div 4096 = q + 1 + (r - 1) div 4096" by (simp only: div_mult_self3)
    then show ?thesis using False r x by simp
  qed (simp add: x)
qed

text \<open>
  \<open>PageRoundUp\<close> returns the next multiple of the page size, in 32-bit arithmetic: an
  address in the last page rounds up to 0.
\<close>

lemma PageRoundUp_spec:
  "unat (PageRoundUp a) = (unat a + 4095) div 4096 * 4096 mod 2 ^ 32"
proof -
  have m: "(0xFFFFF000 :: u32) = NOT (mask 12)" by (simp add: mask_eq_exp_minus_1)
  have u: "unat (a AND 0xFFFFF000) = unat a div 4096 * 4096"
    unfolding m unat_and_not_mask by simp
  show ?thesis
  proof (cases "a AND 0xFFFFF000 = a")
    case True
    then have "unat a div 4096 * 4096 = unat a" using u by simp
    then have "(unat a + 4095) div 4096 * 4096 = unat a" using round_up_page [of "unat a"] by simp
    then show ?thesis using True u32_lt [of a] by (simp add: PageRoundUp_def)
  next
    case False
    then have ne: "unat a div 4096 * 4096 \<noteq> unat a" using u word_nat_eqI [of "a AND 0xFFFFF000" a] by auto
    then have "(unat a + 4095) div 4096 * 4096 = unat a div 4096 * 4096 + 4096"
      using round_up_page [of "unat a"] by simp
    then show ?thesis using False u by (simp add: PageRoundUp_def unat_word_ariths)
  qed
qed

end
