(* ===== verification/OS_Virtmem.thy ===== *)
theory OS_Virtmem
  imports OS_Phymem
begin

text \<open>
  The page tables: class \<open>VirtualMem\<close> of src/src/arch/x86/mem/virtmem.h and virtmem.cpp.

  \<^item> \<open>PageDirectoryEntry\<close> and \<open>PageTableEntry\<close> name the bit-fields of the two packed
    structures; an entry itself is the 32-bit word that holds it.
  \<^item> The record \<open>vm\<close> holds physical memory, the page-directory register and the frame
    allocator. The code reaches its own tables through virtual addresses, so every access
    goes through \<open>page_walk\<close>, the processor's two-level walk over those structures; an access
    to an address with no mapping is \<open>None\<close> (a page fault). Access rights are not
    checked and the TLB is not modelled: the code runs in ring 0, invalidates the page it
    changes, and an entry that was not present is not cached.
  \<^item> The operations are \<open>GetPageTableAddress\<close>, \<open>GetPageForAddress\<close>, \<open>AllocatePage\<close>,
    \<open>MapVirtualToPhysical\<close>, \<open>SwitchPageDirectory\<close> and \<open>Virtmem_Init\<close>; the loop that
    clears a table writes bytes, as the code does.
  \<^item> \<open>vm_ok\<close> is the invariant of the recursive mapping: the last directory entry maps the
    directory itself, and the page tables are distinct frames that the allocator holds.
\<close>

unbundle bit_operations_syntax

section \<open>Constants and entries\<close>

definition PAGE_SIZE :: u32 where "PAGE_SIZE = 4096"
definition PAGE_TABLE_ADDRESS :: u32 where "PAGE_TABLE_ADDRESS = 0xFFC00000"
definition PAGE_DIRECTORY_ADDRESS :: u32 where "PAGE_DIRECTORY_ADDRESS = 0xFFFFF000"
definition KERNEL_HEAP_START :: u32 where "KERNEL_HEAP_START = 0xC0400000"
definition KERNEL_HEAP_SIZE :: u32 where "KERNEL_HEAP_SIZE = 16 * 1024 * 1024"

definition PAGEDIR_INDEX :: "u32 \<Rightarrow> u32" where "PAGEDIR_INDEX addr = drop_bit 22 addr"
definition PAGETBL_INDEX :: "u32 \<Rightarrow> u32" where "PAGETBL_INDEX addr = drop_bit 12 addr AND 0x3FF"
definition PAGEFRAME_INDEX :: "u32 \<Rightarrow> u32" where "PAGEFRAME_INDEX addr = addr AND 0xFFF"

definition FOUR_KB :: u32 where "FOUR_KB = 0"
definition FOUR_MB :: u32 where "FOUR_MB = 1"

datatype PageDirectoryEntry =
  PD_present | PD_readWrite | PD_isUser | PD_writeThrough | PD_canCache | PD_accessed
| PD_reserved | PD_pageSize | PD_ignored | PD_unused | PD_frame

fun pde_pos :: "PageDirectoryEntry \<Rightarrow> nat \<times> nat" where
  "pde_pos PD_present = (0, 1)"
| "pde_pos PD_readWrite = (1, 1)"
| "pde_pos PD_isUser = (2, 1)"
| "pde_pos PD_writeThrough = (3, 1)"
| "pde_pos PD_canCache = (4, 1)"
| "pde_pos PD_accessed = (5, 1)"
| "pde_pos PD_reserved = (6, 1)"
| "pde_pos PD_pageSize = (7, 1)"
| "pde_pos PD_ignored = (8, 1)"
| "pde_pos PD_unused = (9, 3)"
| "pde_pos PD_frame = (12, 20)"

datatype PageTableEntry =
  PT_present | PT_readWrite | PT_isUser | PT_writeThrough | PT_canCache | PT_accessed
| PT_dirty | PT_reserved | PT_global | PT_unused | PT_frame

fun pte_pos :: "PageTableEntry \<Rightarrow> nat \<times> nat" where
  "pte_pos PT_present = (0, 1)"
| "pte_pos PT_readWrite = (1, 1)"
| "pte_pos PT_isUser = (2, 1)"
| "pte_pos PT_writeThrough = (3, 1)"
| "pte_pos PT_canCache = (4, 1)"
| "pte_pos PT_accessed = (5, 1)"
| "pte_pos PT_dirty = (6, 1)"
| "pte_pos PT_reserved = (7, 1)"
| "pte_pos PT_global = (8, 1)"
| "pte_pos PT_unused = (9, 3)"
| "pte_pos PT_frame = (12, 20)"

definition pde_get :: "PageDirectoryEntry \<Rightarrow> u32 \<Rightarrow> u32" where
  "pde_get f w = get_bits (fst (pde_pos f)) (snd (pde_pos f)) w"

definition pde_put :: "PageDirectoryEntry \<Rightarrow> u32 \<Rightarrow> u32 \<Rightarrow> u32" where
  "pde_put f v w = put_bits (fst (pde_pos f)) (snd (pde_pos f)) v w"

definition pte_get :: "PageTableEntry \<Rightarrow> u32 \<Rightarrow> u32" where
  "pte_get f w = get_bits (fst (pte_pos f)) (snd (pte_pos f)) w"

definition pte_put :: "PageTableEntry \<Rightarrow> u32 \<Rightarrow> u32 \<Rightarrow> u32" where
  "pte_put f v w = put_bits (fst (pte_pos f)) (snd (pte_pos f)) v w"

definition of_bool32 :: "bool \<Rightarrow> u32" where "of_bool32 b = (if b then 1 else 0)"

section \<open>Memory through the page tables\<close>

text \<open>The processor's walk for virtual address \<open>va\<close> in the directory at physical address \<open>dir\<close>.\<close>

definition page_walk :: "memory \<Rightarrow> u32 \<Rightarrow> u32 \<Rightarrow> u32 option" where
  "page_walk pm dir va =
     (let pde = pm (dir + 4 * PAGEDIR_INDEX va)
      in if pde_get PD_present pde = 0 then None
         else if pde_get PD_pageSize pde = FOUR_MB
         then Some (pde_get PD_frame pde div 1024 * 0x400000 + (va AND 0x3FFFFF))
         else let pte = pm (pde_get PD_frame pde * 4096 + 4 * PAGETBL_INDEX va)
              in if pte_get PT_present pte = 0 then None
                 else Some (pte_get PT_frame pte * 4096 + PAGEFRAME_INDEX va))"

record vm =
  phys :: memory
  cr3 :: u32
  phyMem :: phymem

definition translate :: "vm \<Rightarrow> u32 \<Rightarrow> u32 option" where
  "translate st va = page_walk (phys st) (cr3 st) va"

definition vread :: "vm \<Rightarrow> u32 \<Rightarrow> u32 option" where
  "vread st va = do { a \<leftarrow> translate st va; Some (phys st a) }"

definition vwrite :: "u32 \<Rightarrow> u32 \<Rightarrow> vm \<Rightarrow> vm option" where
  "vwrite va w st = do { a \<leftarrow> translate st va; Some (st\<lparr>phys := (phys st)(a := w)\<rparr>) }"

text \<open>A store to one byte of the word that contains it.\<close>

definition vwrite_byte :: "u32 \<Rightarrow> u32 \<Rightarrow> vm \<Rightarrow> vm option" where
  "vwrite_byte va b st = do {
     w \<leftarrow> vread st (word_part va);
     vwrite (word_part va) (put_bits (8 * unat (byte_part va)) 8 b w) st
   }"

text \<open>Bit-field access to the entry at virtual address \<open>va\<close>.\<close>

definition pde_store :: "u32 \<Rightarrow> PageDirectoryEntry \<Rightarrow> u32 \<Rightarrow> vm \<Rightarrow> vm option" where
  "pde_store va f v st = do { w \<leftarrow> vread st va; vwrite va (pde_put f v w) st }"

definition pte_store :: "u32 \<Rightarrow> PageTableEntry \<Rightarrow> u32 \<Rightarrow> vm \<Rightarrow> vm option" where
  "pte_store va f v st = do { w \<leftarrow> vread st va; vwrite va (pte_put f v w) st }"

text \<open>\<open>for (i = 0; i < sizeof(PageTable); i++) ((uint8_t*)p)[i] = 0\<close>.\<close>

function zero_table_from :: "u32 \<Rightarrow> u32 \<Rightarrow> vm \<Rightarrow> vm option" where
  "zero_table_from i p st =
     (if i < 4096 then do { st \<leftarrow> vwrite_byte (p + i) 0 st; zero_table_from (i + 1) p st } else Some st)"
  by pat_completeness auto

lemma below_page: "(i :: u32) < 4096 \<Longrightarrow> 4096 - unat (i + 1) < 4096 - unat i"
  using unat_succ [of i 4096] by (simp add: word_less_nat_alt)

termination zero_table_from
  by (relation "measure (\<lambda>(i, p, st). 4096 - unat i)") (auto intro: below_page)

definition zero_table :: "u32 \<Rightarrow> vm \<Rightarrow> vm option" where
  "zero_table p st = zero_table_from 0 p st"

section \<open>Operations\<close>

definition GetPageTableAddress :: "u16 \<Rightarrow> u32" where
  "GetPageTableAddress pageTableNumber = PAGE_TABLE_ADDRESS OR push_bit 12 (ucast pageTableNumber)"

definition alloc_frame :: "vm \<Rightarrow> u32 \<times> vm" where
  "alloc_frame st = (case AllocateBlock (phyMem st) of (p, fr) \<Rightarrow> (p, st\<lparr>phyMem := fr\<rparr>))"

definition GetPageForAddress :: "u32 \<Rightarrow> bool \<Rightarrow> bool \<Rightarrow> bool \<Rightarrow> vm \<Rightarrow> (u32 \<times> vm) option" where
  "GetPageForAddress virtualAddress shouldCreate readWrite userPages st =
     (let pageDirIndex = PAGEDIR_INDEX virtualAddress;
          pageTableIndex = PAGETBL_INDEX virtualAddress;
          entry = PAGE_DIRECTORY_ADDRESS + 4 * pageDirIndex
      in do {
        w \<leftarrow> vread st entry;
        if pde_get PD_present w = 0 \<and> shouldCreate
        then case alloc_frame st of (pageTablePhys, st) \<Rightarrow> do {
            st \<leftarrow> pde_store entry PD_frame (pageTablePhys div PAGE_SIZE) st;
            st \<leftarrow> pde_store entry PD_readWrite (of_bool32 readWrite) st;
            st \<leftarrow> pde_store entry PD_isUser (of_bool32 userPages) st;
            st \<leftarrow> pde_store entry PD_pageSize FOUR_KB st;
            st \<leftarrow> pde_store entry PD_present 1 st;
            let pageTableVirt = GetPageTableAddress (ucast pageDirIndex);
            st \<leftarrow> zero_table pageTableVirt st;
            Some (pageTableVirt + 4 * pageTableIndex, st)
          }
        else Some (GetPageTableAddress (ucast pageDirIndex) + 4 * pageTableIndex, st)
      })"

definition AllocatePage :: "u32 \<Rightarrow> bool \<Rightarrow> bool \<Rightarrow> vm \<Rightarrow> vm option" where
  "AllocatePage page krnl writeable st =
     (case alloc_frame st of (p, st) \<Rightarrow>
        if p = 0 then Some st
        else do {
          st \<leftarrow> pte_store page PT_present 1 st;
          st \<leftarrow> pte_store page PT_readWrite (of_bool32 writeable) st;
          st \<leftarrow> pte_store page PT_isUser (of_bool32 (\<not> krnl)) st;
          pte_store page PT_frame (p div PAGE_SIZE) st
        })"

definition MapVirtualToPhysical :: "u32 \<Rightarrow> u32 \<Rightarrow> bool \<Rightarrow> bool \<Rightarrow> vm \<Rightarrow> vm option" where
  "MapVirtualToPhysical physAddress virtAddress krnl writeable st = do {
     (page, st) \<leftarrow> GetPageForAddress virtAddress True writeable (\<not> krnl) st;
     st \<leftarrow> pte_store page PT_frame (physAddress div PAGE_SIZE) st;
     st \<leftarrow> pte_store page PT_isUser (of_bool32 (\<not> krnl)) st;
     st \<leftarrow> pte_store page PT_readWrite (of_bool32 writeable) st;
     pte_store page PT_present 1 st
   }"

definition SwitchPageDirectory :: "u32 \<Rightarrow> vm \<Rightarrow> vm" where
  "SwitchPageDirectory physAddr st = st\<lparr>cr3 := physAddr\<rparr>"

section \<open>Initialisation\<close>

text \<open>The entry that maps the directory into itself.\<close>

definition last_pde :: "u32 \<Rightarrow> u32" where
  "last_pde boot_pt = pde_put PD_present 1 (pde_put PD_pageSize FOUR_KB (pde_put PD_readWrite 1
     (pde_put PD_frame (virt2phys boot_pt div PAGE_SIZE) 0)))"

text \<open>The loop that backs the kernel heap with frames.\<close>

function map_heap_from :: "u32 \<Rightarrow> vm \<Rightarrow> vm option" where
  "map_heap_from i st =
     (if i < KERNEL_HEAP_START + KERNEL_HEAP_SIZE
      then do {
        (page, st) \<leftarrow> GetPageForAddress i True True False st;
        st \<leftarrow> AllocatePage page True True st;
        map_heap_from (i + PAGE_SIZE) st
      }
      else Some st)"
  by pat_completeness auto

lemma heap_step:
  "i < KERNEL_HEAP_START + KERNEL_HEAP_SIZE \<Longrightarrow> unat (i + PAGE_SIZE) = unat i + 4096"
  by (intro trans [OF unat_plus_le])
    (simp_all add: KERNEL_HEAP_START_def KERNEL_HEAP_SIZE_def PAGE_SIZE_def word_less_nat_alt)

termination map_heap_from
  by (relation "measure (\<lambda>(i, st). unat (KERNEL_HEAP_START + KERNEL_HEAP_SIZE) - unat i)")
    (auto simp: heap_step word_less_nat_alt)

text \<open>The directory entry for the first 4 MB, and the table it is given.\<close>

definition install_low_table :: "u32 \<Rightarrow> vm \<Rightarrow> vm option" where
  "install_low_table pageDirectory st =
     (case alloc_frame st of (p, st) \<Rightarrow> do {
        st \<leftarrow> pde_store pageDirectory PD_frame p st;
        st \<leftarrow> pde_store pageDirectory PD_pageSize FOUR_KB st;
        st \<leftarrow> pde_store pageDirectory PD_present 1 st;
        st \<leftarrow> pde_store pageDirectory PD_readWrite 1 st;
        st \<leftarrow> pde_store pageDirectory PD_isUser 1 st;
        zero_table (GetPageTableAddress 0) st
      })"

function identity_map_from :: "u16 \<Rightarrow> vm \<Rightarrow> vm option" where
  "identity_map_from i st =
     (if i < 1024
      then let e = GetPageTableAddress 0 + 4 * ucast i in do {
        st \<leftarrow> pte_store e PT_frame (ucast i) st;
        st \<leftarrow> pte_store e PT_isUser 0 st;
        st \<leftarrow> pte_store e PT_readWrite 1 st;
        st \<leftarrow> pte_store e PT_present 1 st;
        identity_map_from (i + 1) st
      }
      else Some st)"
  by pat_completeness auto
termination by (relation "measure (\<lambda>(i, st). 1024 - unat i)")
  (auto simp: word_less_nat_alt unat_word_ariths)

function user_pages_from :: "u32 \<Rightarrow> vm \<Rightarrow> vm option" where
  "user_pages_from i st =
     (if i < PageRoundUp 0x100000
      then let index = (ucast (PAGETBL_INDEX i) :: u16) in do {
        st \<leftarrow> pte_store (GetPageTableAddress 0 + 4 * ucast index) PT_isUser 1 st;
        user_pages_from (i + PAGE_SIZE) st
      }
      else Some st)"
  by pat_completeness auto

lemma PageRoundUp_1MB: "PageRoundUp 0x100000 = 0x100000"
  by (simp add: PageRoundUp_def)

termination user_pages_from
  by (relation "measure (\<lambda>(i, st). 0x100000 - unat i)")
    (auto simp: PageRoundUp_1MB PAGE_SIZE_def word_less_nat_alt unat_word_ariths)

definition Virtmem_Init :: "u32 \<Rightarrow> vm \<Rightarrow> vm option" where
  "Virtmem_Init boot_pt st = do {
     st \<leftarrow> vwrite (boot_pt + 4 * 1023) (last_pde boot_pt) st;
     st \<leftarrow> map_heap_from KERNEL_HEAP_START st;
     st \<leftarrow> install_low_table boot_pt st;
     st \<leftarrow> identity_map_from 1 st;
     st \<leftarrow> user_pages_from PAGE_SIZE st;
     let e = GetPageTableAddress 0;
     st \<leftarrow> pte_store e PT_frame 0 st;
     st \<leftarrow> pte_store e PT_isUser 1 st;
     st \<leftarrow> pte_store e PT_readWrite 1 st;
     pte_store e PT_present 0 st
   }"

declare zero_table_from.simps [simp del] map_heap_from.simps [simp del]
  identity_map_from.simps [simp del] user_pages_from.simps [simp del]

section \<open>Entries and addresses\<close>

lemma pde_get_put:
  "pde_get f (pde_put g v w) = (if f = g then take_bit (snd (pde_pos f)) v else pde_get f w)"
  by (cases f; cases g; simp add: pde_get_def pde_put_def get_put_same get_put_other)

lemma pte_get_put:
  "pte_get f (pte_put g v w) = (if f = g then take_bit (snd (pte_pos f)) v else pte_get f w)"
  by (cases f; cases g; simp add: pte_get_def pte_put_def get_put_same get_put_other)

text \<open>The fields that both structures have lie at the same place.\<close>

lemma pde_pte_fields:
  "pte_get PT_present w = pde_get PD_present w" "pte_get PT_frame w = pde_get PD_frame w"
  by (simp_all add: pte_get_def pde_get_def)

lemma unat_pde_frame: "unat (pde_get PD_frame w) < 2 ^ 20"
  using unat_get_bits_less [of 12 20 w] by (simp add: pde_get_def)

lemma unat_PAGEDIR_INDEX: "unat (PAGEDIR_INDEX va) = unat va div 4194304"
  by (simp add: PAGEDIR_INDEX_def drop_bit_eq_div unat_div_distrib)

lemma PAGEDIR_INDEX_less: "PAGEDIR_INDEX va < 1024"
  using u32_lt [of va] by (simp add: word_less_nat_alt unat_PAGEDIR_INDEX)

lemma unat_PAGETBL_INDEX: "unat (PAGETBL_INDEX va) = unat va div 4096 mod 1024"
proof -
  have m: "(0x3FF :: u32) = mask 10" by (simp add: mask_eq_exp_minus_1)
  show ?thesis
    unfolding PAGETBL_INDEX_def m unat_and_mask by (simp add: drop_bit_eq_div unat_div_distrib)
qed

lemma PAGETBL_INDEX_less: "PAGETBL_INDEX va < 1024"
  by (simp add: word_less_nat_alt unat_PAGETBL_INDEX)

lemma unat_PAGEFRAME_INDEX: "unat (PAGEFRAME_INDEX va) = unat va mod 4096"
proof -
  have m: "(0xFFF :: u32) = mask 12" by (simp add: mask_eq_exp_minus_1)
  show ?thesis unfolding PAGEFRAME_INDEX_def m unat_and_mask by simp
qed

text \<open>The window of the recursive mapping: byte \<open>k\<close> of the page table of directory entry \<open>i\<close>.\<close>

definition window :: "u32 \<Rightarrow> u32 \<Rightarrow> u32" where
  "window i k = PAGE_TABLE_ADDRESS + 4096 * i + k"

lemma unat_window:
  assumes "i < 1024" and "k < 4096"
  shows "unat (window i k) = 0xFFC00000 + 4096 * unat i + unat k"
proof -
  have i: "unat i < 1024" and k: "unat k < 4096" using assms by (simp_all add: word_less_nat_alt)
  have "unat (4096 * i) = 4096 * unat i" using i by (simp add: unat_word_ariths)
  then have "unat (PAGE_TABLE_ADDRESS + 4096 * i) = 0xFFC00000 + 4096 * unat i"
    using i by (intro trans [OF unat_plus_le]) (simp_all add: PAGE_TABLE_ADDRESS_def)
  then show ?thesis
    unfolding window_def using i k by (intro trans [OF unat_plus_le]) simp_all
qed

lemma window_indices:
  assumes "i < 1024" and "k < 4096"
  shows "PAGEDIR_INDEX (window i k) = 1023" and "PAGETBL_INDEX (window i k) = i"
    and "PAGEFRAME_INDEX (window i k) = k"
proof -
  have i: "unat i < 1024" and k: "unat k < 4096" using assms by (simp_all add: word_less_nat_alt)
  note w = unat_window [OF assms]
  have "unat (window i k) div 4194304 = 1023" unfolding w using i k by linarith
  then show "PAGEDIR_INDEX (window i k) = 1023"
    by (intro word_nat_eqI) (simp add: unat_PAGEDIR_INDEX)
  have d: "unat (window i k) div 4096 = unat i + 1023 * 1024" unfolding w using k by linarith
  have "unat (window i k) div 4096 mod 1024 = unat i" unfolding d mod_mult_self1 using i by simp
  then show "PAGETBL_INDEX (window i k) = i"
    by (intro word_nat_eqI) (simp add: unat_PAGETBL_INDEX)
  have m: "unat (window i k) = unat k + (1023 * 1024 + unat i) * 4096" unfolding w by simp
  have "unat (window i k) mod 4096 = unat k" unfolding m mod_mult_self1 using k by simp
  then show "PAGEFRAME_INDEX (window i k) = k"
    by (intro word_nat_eqI) (simp add: unat_PAGEFRAME_INDEX)
qed

lemma GetPageTableAddress_window:
  assumes "i < 1024"
  shows "GetPageTableAddress (ucast i) + k = window i k"
proof -
  have i: "unat i < 1024" using assms by (simp add: word_less_nat_alt)
  have "ucast (ucast i :: u16) = i"
    by (rule word_nat_eqI) (use i in \<open>simp add: unsigned_ucast_eq unsigned_take_bit_eq take_bit_nat_eq_self\<close>)
  then have "GetPageTableAddress (ucast i) = PAGE_TABLE_ADDRESS OR push_bit 12 i"
    by (simp add: GetPageTableAddress_def)
  also have "\<dots> = PAGE_TABLE_ADDRESS + push_bit 12 i"
  proof (rule disjunctive_add_eq_or [symmetric], rule bit_eqI)
    fix n
    have hi: "\<not> bit i k" if "10 \<le> k" for k
    proof -
      have "i = take_bit 10 i"
        by (rule word_nat_eqI) (use i in \<open>simp add: unsigned_take_bit_eq take_bit_nat_eq_self\<close>)
      then show ?thesis using that by (metis bit_take_bit_iff not_le)
    qed
    have P: "PAGE_TABLE_ADDRESS = push_bit 22 1023"
      by (simp add: PAGE_TABLE_ADDRESS_def)
    have "\<not> bit PAGE_TABLE_ADDRESS n" if "n < 22"
      unfolding P bit_push_bit_iff using that by simp
    then show "bit (PAGE_TABLE_ADDRESS AND push_bit 12 i) n \<longleftrightarrow> bit 0 n"
      using hi [of "n - 12"] by (cases "n < 22") (auto simp: bit_and_iff bit_push_bit_iff)
  qed
  also have "push_bit 12 i = 4096 * i" by (simp add: push_bit_eq_mult)
  finally show ?thesis by (simp add: window_def)
qed

lemma window_plus: "window i 0 + k = window i k"
  by (simp add: window_def)

lemma directory_window: "PAGE_DIRECTORY_ADDRESS + k = window 1023 k"
  by (simp add: window_def PAGE_DIRECTORY_ADDRESS_def PAGE_TABLE_ADDRESS_def)

section \<open>The recursive mapping\<close>

text \<open>The physical address of the page table of directory entry \<open>i\<close>, if it has one.\<close>

definition entry_table :: "u32 \<Rightarrow> u32 option" where
  "entry_table pde = (if pde_get PD_present pde \<noteq> 0 \<and> pde_get PD_pageSize pde \<noteq> FOUR_MB
     then Some (pde_get PD_frame pde * 4096) else None)"

definition table_frame :: "vm \<Rightarrow> u32 \<Rightarrow> u32 option" where
  "table_frame st i = entry_table (phys st (cr3 st + 4 * i))"

definition self_mapped :: "vm \<Rightarrow> bool" where
  "self_mapped st \<longleftrightarrow> 4096 dvd unat (cr3 st) \<and> table_frame st 1023 = Some (cr3 st)"

lemma entry_table_aligned: "entry_table w = Some t \<Longrightarrow> 4096 dvd unat t"
  using unat_pde_frame [of w] by (auto simp: entry_table_def unat_word_ariths split: if_splits)

lemma table_frame_aligned: "table_frame st i = Some t \<Longrightarrow> 4096 dvd unat t"
  unfolding table_frame_def by (rule entry_table_aligned)

text \<open>Offsets in a page, and offsets in different pages.\<close>

lemma page_fit:
  assumes "4096 dvd unat (t :: u32)" and "k < 4096"
  shows "unat (t + k) = unat t + unat k"
proof -
  obtain q where q: "unat t = 4096 * q" using assms(1) by (elim dvdE)
  then have "q < 1048576" using u32_lt [of t] by simp
  then show ?thesis using q assms(2) by (intro unat_plus_le) (simp add: word_less_nat_alt)
qed

lemma page_div: "4096 dvd unat (t :: u32) \<Longrightarrow> k < 4096 \<Longrightarrow> unat (t + k) div 4096 = unat t div 4096"
  using page_fit [of t k] by (auto simp: word_less_nat_alt elim!: dvdE)

lemma page_offset_eq:
  assumes "4096 dvd unat (t :: u32)" and "4096 dvd unat u" and "j < 4096" and "k < 4096"
  shows "t + j = u + k \<longleftrightarrow> t = u \<and> j = k"
proof
  assume eq: "t + j = u + k"
  have "unat t div 4096 = unat u div 4096"
    using page_div [OF assms(1,3)] page_div [OF assms(2,4)] eq by simp
  then have "t = u" using assms(1,2) by (intro word_nat_eqI) (auto elim!: dvdE)
  with eq show "t = u \<and> j = k" by simp
qed simp

lemma index_offset:
  assumes "(i :: u32) < 1024"
  shows "4 * i < 4096" and "unat (4 * i) = 4 * unat i"
proof -
  show u: "unat (4 * i) = 4 * unat i" using assms by (simp add: unat_word_ariths word_less_nat_alt)
  show "4 * i < 4096" using assms u by (simp add: word_less_nat_alt)
qed

lemma index_offset_eq: "(i :: u32) < 1024 \<Longrightarrow> j < 1024 \<Longrightarrow> 4 * i = 4 * j \<longleftrightarrow> i = j"
  using index_offset [of i] index_offset [of j] by (auto intro: word_nat_eqI)

text \<open>A table that the directory names is visible in its window.\<close>

lemma translate_window:
  assumes "self_mapped st" and "table_frame st i = Some t" and "i < 1024" and "k < 4096"
  shows "translate st (window i k) = Some (t + k)"
proof -
  let ?d = "phys st (cr3 st + 4 * 1023)" and ?e = "phys st (cr3 st + 4 * i)"
  have d: "pde_get PD_present ?d \<noteq> 0" "pde_get PD_pageSize ?d \<noteq> FOUR_MB" "pde_get PD_frame ?d * 4096 = cr3 st"
    using assms(1) by (auto simp: self_mapped_def table_frame_def entry_table_def split: if_splits)
  have e: "pde_get PD_present ?e \<noteq> 0" "pde_get PD_frame ?e * 4096 = t"
    using assms(2) by (auto simp: table_frame_def entry_table_def split: if_splits)
  show ?thesis
    unfolding translate_def page_walk_def Let_def window_indices [OF assms(3,4)]
    using d e by (simp add: pde_pte_fields)
qed

text \<open>Everywhere else the walk reads the entry in the table itself.\<close>

lemma translate_table:
  assumes "table_frame st (PAGEDIR_INDEX va) = Some t"
  shows "translate st va = (let pte = phys st (t + 4 * PAGETBL_INDEX va) in
     if pte_get PT_present pte = 0 then None else Some (pte_get PT_frame pte * 4096 + PAGEFRAME_INDEX va))"
  using assms by (auto simp: translate_def page_walk_def table_frame_def entry_table_def Let_def split: if_splits)

definition store_at :: "u32 \<Rightarrow> u32 \<Rightarrow> vm \<Rightarrow> vm" where
  "store_at a w st = st\<lparr>phys := (phys st)(a := w)\<rparr>"

lemma store_at_fields [simp]:
  "cr3 (store_at a w st) = cr3 st" "phyMem (store_at a w st) = phyMem st"
  "phys (store_at a w st) b = (if b = a then w else phys st b)"
  by (simp_all add: store_at_def)

lemma store_at_twice [simp]: "store_at a w (store_at a v st) = store_at a w st"
  by (simp add: store_at_def)

lemma vread_window:
  assumes "self_mapped st" and "table_frame st i = Some t" and "i < 1024" and "k < 4096"
  shows "vread st (window i k) = Some (phys st (t + k))"
  by (simp add: vread_def translate_window [OF assms])

lemma vwrite_window:
  assumes "self_mapped st" and "table_frame st i = Some t" and "i < 1024" and "k < 4096"
  shows "vwrite (window i k) w st = Some (store_at (t + k) w st)"
  by (simp add: vwrite_def store_at_def translate_window [OF assms])

text \<open>Storing into a table leaves the directory alone; storing into the directory changes one
  entry.\<close>

lemma table_frame_store:
  assumes "4096 dvd unat (cr3 st)" and "4096 dvd unat t" and "j < 1024" and "k < 4096"
  shows "table_frame (store_at (t + k) w st) j =
    (if t = cr3 st \<and> k = 4 * j then entry_table w else table_frame st j)"
  using page_offset_eq [OF assms(1,2) index_offset(1) [OF assms(3)] assms(4)]
  by (auto simp: table_frame_def)

lemma self_mapped_store:
  assumes "self_mapped st" and "4096 dvd unat t" and "k < 4096" and "t \<noteq> cr3 st \<or> k \<noteq> 4 * 1023"
  shows "self_mapped (store_at (t + k) w st)"
  using assms table_frame_store [of st t 1023 k w] by (auto simp: self_mapped_def)

lemma pde_store_window:
  assumes "self_mapped st" and "i < 1023"
  shows "pde_store (window 1023 (4 * i)) f v st =
    Some (store_at (cr3 st + 4 * i) (pde_put f v (phys st (cr3 st + 4 * i))) st)"
proof -
  have "i < 1024" using assms(2) by (simp add: word_less_nat_alt)
  then have k: "4 * i < 4096" by (rule index_offset)
  have tf: "table_frame st 1023 = Some (cr3 st)" using assms(1) by (simp add: self_mapped_def)
  show ?thesis
    using vread_window [OF assms(1) tf _ k] vwrite_window [OF assms(1) tf _ k]
    by (simp add: pde_store_def)
qed

lemma pte_store_window:
  assumes "self_mapped st" and "table_frame st i = Some t" and "i < 1024" and "k < 4096"
  shows "pte_store (window i k) f v st = Some (store_at (t + k) (pte_put f v (phys st (t + k))) st)"
  using vread_window [OF assms] vwrite_window [OF assms] by (simp add: pte_store_def)

section \<open>Clearing a page table\<close>

text \<open>Byte \<open>b\<close> of the page at \<open>t\<close> holds bit \<open>n\<close> of the word at \<open>a\<close>.\<close>

definition byte_bit :: "u32 \<Rightarrow> u32 \<Rightarrow> u32 \<Rightarrow> nat \<Rightarrow> bool" where
  "byte_bit t b a n \<longleftrightarrow> a = t + (word_part b) \<and> unat b mod 4 = n div 8"

lemma window_word_part:
  assumes "i < 1024" and "b < 4096"
  shows "word_part (window i b) = window i (word_part b)" and "byte_part (window i b) = byte_part b"
    and "word_part b < 4096"
proof -
  show l: "word_part b < 4096" using assms(2) by (simp add: word_less_nat_alt unat_word_part)
  have d: "unat (window i b) = unat b + (0x3FF00000 + 1024 * unat i) * 4"
    by (simp add: unat_window [OF assms])
  show "word_part (window i b) = window i (word_part b)"
  proof (rule word_nat_eqI)
    have "unat (window i b) div 4 = 0x3FF00000 + 1024 * unat i + unat b div 4" unfolding d by simp
    then show "unat (word_part (window i b)) = unat (window i (word_part b))"
      by (simp add: unat_window [OF assms(1) l] unat_word_part)
  qed
  have "unat (window i b) mod 4 = unat b mod 4" unfolding d by (rule mod_mult_self1)
  then show "byte_part (window i b) = byte_part b" by (intro word_nat_eqI) (simp add: unat_byte_part)
qed

lemma vwrite_byte_zero:
  assumes "self_mapped st" and "table_frame st i = Some t" and "i < 1024" and "b < 4096"
  obtains w where "vwrite_byte (window i b) 0 st = Some (store_at (t + (word_part b)) w st)"
    and "\<And>n. n < 32 \<Longrightarrow> bit w n \<longleftrightarrow> bit (phys st (t + (word_part b))) n \<and> unat b mod 4 \<noteq> n div 8"
proof
  note p = window_word_part [OF assms(3,4)]
  show "vwrite_byte (window i b) 0 st = Some (store_at (t + (word_part b))
      (put_bits (8 * unat (byte_part b)) 8 0 (phys st (t + (word_part b)))) st)"
    using vread_window [OF assms(1-3) p(3)] vwrite_window [OF assms(1-3) p(3)]
    by (simp add: vwrite_byte_def p(1,2))
  fix n :: nat assume "n < 32"
  have "8 * (unat b mod 4) \<le> n \<and> n < 8 * (unat b mod 4) + 8 \<longleftrightarrow> unat b mod 4 = n div 8" by auto
  with \<open>n < 32\<close> show "bit (put_bits (8 * unat (byte_part b)) 8 0 (phys st (t + (word_part b)))) n \<longleftrightarrow>
      bit (phys st (t + (word_part b))) n \<and> unat b mod 4 \<noteq> n div 8"
    by (auto simp: bit_put_bits unat_byte_part)
qed

lemma zero_table_from_spec:
  assumes "self_mapped st" and "table_frame st i = Some t" and "t \<noteq> cr3 st" and "i < 1024" and "k \<le> 4096"
  shows "\<exists>m. zero_table_from k (window i 0) st = Some (st\<lparr>phys := m\<rparr>) \<and>
    (\<forall>a n. n < 32 \<longrightarrow> bit (m a) n = (bit (phys st a) n \<and> \<not> (\<exists>b. k \<le> b \<and> b < 4096 \<and> byte_bit t b a n)))"
  using assms
proof (induction k "window i 0" st rule: zero_table_from.induct)
  case (1 k st)
  show ?case
  proof (cases "k < 4096")
    case True
    have w: "window i 0 + k = window i k" by (simp add: window_def)
    obtain x where x: "vwrite_byte (window i k) 0 st = Some (store_at (t + (word_part k)) x st)"
      and bits: "\<And>n. n < 32 \<Longrightarrow> bit x n \<longleftrightarrow> bit (phys st (t + (word_part k))) n \<and> unat k mod 4 \<noteq> n div 8"
      using vwrite_byte_zero [OF 1(2,3,5) True] by metis
    let ?st = "store_at (t + (word_part k)) x st"
    have al: "4096 dvd unat t" "4096 dvd unat (cr3 st)"
      using 1(2,3) table_frame_aligned by (auto simp: self_mapped_def)
    have k4: "word_part k < 4096" by (rule window_word_part(3) [OF 1(5) True])
    have sm: "self_mapped ?st" using 1(2,4) al k4 by (intro self_mapped_store) auto
    have tf: "table_frame ?st i = Some t"
      using 1(3,4) table_frame_store [OF al(2,1) 1(5) k4] by simp
    have succ: "k + 1 \<le> 4096" "\<And>b. k \<le> b \<longleftrightarrow> b = k \<or> k + 1 \<le> b"
      using unat_succ [OF True] True by (auto simp: word_le_nat_alt word_less_nat_alt intro: word_nat_eqI)
    obtain m where m: "zero_table_from (k + 1) (window i 0) ?st = Some (?st\<lparr>phys := m\<rparr>)"
      "\<And>a n. n < 32 \<Longrightarrow> bit (m a) n = (bit (phys ?st a) n \<and>
         \<not> (\<exists>b. k + 1 \<le> b \<and> b < 4096 \<and> byte_bit t b a n))"
      using 1(1) [OF True _ sm tf _ 1(5) succ(1)] x 1(4) w by auto
    have "zero_table_from k (window i 0) st = Some (st\<lparr>phys := m\<rparr>)"
      using m(1) x True by (simp add: zero_table_from.simps [of k] w store_at_def)
    moreover have "bit (m a) n = (bit (phys st a) n \<and> \<not> (\<exists>b. k \<le> b \<and> b < 4096 \<and> byte_bit t b a n))"
      if "n < 32" for a n
    proof -
      have "bit (phys ?st a) n \<longleftrightarrow> bit (phys st a) n \<and> \<not> byte_bit t k a n"
        using bits [OF that] by (auto simp: byte_bit_def)
      then show ?thesis using m(2) [OF that] succ(2) True by auto
    qed
    ultimately show ?thesis by blast
  next
    case False
    then have "\<not> (\<exists>b. k \<le> b \<and> b < 4096 \<and> byte_bit t b a n)" for a n by auto
    moreover have "st = st\<lparr>phys := phys st\<rparr>" by simp
    ultimately show ?thesis
      using False by (intro exI [of _ "phys st"]) (simp add: zero_table_from.simps [of k])
  qed
qed

text \<open>After the loop every word of the table is 0 and no other word has changed.\<close>

lemma zero_table_spec:
  assumes "self_mapped st" and "table_frame st i = Some t" and "t \<noteq> cr3 st" and "i < 1024"
  obtains m where "zero_table (window i 0) st = Some (st\<lparr>phys := m\<rparr>)"
    and "\<And>j. j < 1024 \<Longrightarrow> m (t + 4 * j) = 0"
    and "\<And>a. \<not> (\<exists>k<4096. a = t + k) \<Longrightarrow> m a = phys st a"
proof -
  obtain m where m: "zero_table_from 0 (window i 0) st = Some (st\<lparr>phys := m\<rparr>)"
    "\<And>a n. n < 32 \<Longrightarrow> bit (m a) n = (bit (phys st a) n \<and> \<not> (\<exists>b. b < 4096 \<and> byte_bit t b a n))"
    using zero_table_from_spec [OF assms, of 0] by auto
  have "m (t + 4 * j) = 0" if "j < 1024" for j
  proof (rule bit_eqI)
    fix n assume "possible_bit TYPE(32 word) n"
    then have n: "n < 32" by simp
    let ?b = "4 * j + of_nat (n div 8)"
    have b8: "unat (of_nat (n div 8) :: u32) = n div 8" using n by (simp add: unat_of_nat)
    have j: "unat j < 1024" using that by (simp add: word_less_nat_alt)
    have b: "unat ?b = 4 * unat j + n div 8"
      using index_offset(2) [OF that] b8 j n by (intro trans [OF unat_plus_le]) auto
    have "word_part ?b = 4 * j"
    proof (rule word_nat_eqI)
      have "unat ?b div 4 = unat j" unfolding b using n by auto
      then show "unat (word_part ?b) = unat (4 * j)"
        using index_offset(2) [OF that] by (simp add: unat_word_part)
    qed
    moreover have "unat ?b mod 4 = n div 8" unfolding b using n by auto
    moreover have "?b < 4096" using b j n by (simp add: word_less_nat_alt)
    ultimately have "\<exists>b. b < 4096 \<and> byte_bit t b (t + 4 * j) n"
      by (intro exI [of _ ?b]) (simp add: byte_bit_def)
    then show "bit (m (t + 4 * j)) n \<longleftrightarrow> bit 0 n" using m(2) [OF n, of "t + 4 * j"] by simp
  qed
  moreover have "m a = phys st a" if "\<not> (\<exists>k<4096. a = t + k)" for a
  proof (rule bit_eqI)
    fix n assume "possible_bit TYPE(32 word) n"
    then have n: "n < 32" by simp
    have "\<not> (b < 4096 \<and> byte_bit t b a n)" for b
      using that window_word_part(3) [of 0 b] by (auto simp: byte_bit_def)
    then show "bit (m a) n \<longleftrightarrow> bit (phys st a) n" using m(2) [OF n, of a] by auto
  qed
  ultimately show ?thesis using m(1) that by (simp add: zero_table_def)
qed

section \<open>The invariant and the operations\<close>

definition vm_ok :: "vm \<Rightarrow> bool" where
  "vm_ok st \<longleftrightarrow> self_mapped st \<and> accounted (phyMem st) \<and>
     (\<forall>i t. i < 1024 \<longrightarrow> table_frame st i = Some t \<longrightarrow> t \<in> held_frames (phyMem st)) \<and>
     (\<forall>i j t. i < 1024 \<longrightarrow> j < 1024 \<longrightarrow> i \<noteq> j \<longrightarrow>
        table_frame st i = Some t \<longrightarrow> table_frame st j \<noteq> Some t)"

lemma vm_okD:
  assumes "vm_ok st"
  shows "self_mapped st" and "accounted (phyMem st)" and "4096 dvd unat (cr3 st)"
    and "table_frame st 1023 = Some (cr3 st)"
    and "i < 1024 \<Longrightarrow> table_frame st i = Some t \<Longrightarrow> t \<in> held_frames (phyMem st)"
    and "i < 1024 \<Longrightarrow> j < 1024 \<Longrightarrow> i \<noteq> j \<Longrightarrow> table_frame st i = Some t \<Longrightarrow> table_frame st j \<noteq> Some t"
  using assms unfolding vm_ok_def self_mapped_def by blast+

lemma less_1023: "(i :: u32) < 1023 \<Longrightarrow> i < 1024" "(i :: u32) < 1023 \<Longrightarrow> i \<noteq> 1023"
  by (auto simp: word_less_nat_alt)

lemma vm_ok_table_not_directory:
  "vm_ok st \<Longrightarrow> i < 1023 \<Longrightarrow> table_frame st i = Some t \<Longrightarrow> t \<noteq> cr3 st"
  using vm_okD(4) [of st] vm_okD(6) [of st i 1023 t] less_1023 [of i] by auto

text \<open>The directory entry that names a new page table.\<close>

definition table_pde :: "u32 \<Rightarrow> bool \<Rightarrow> bool \<Rightarrow> u32 \<Rightarrow> u32" where
  "table_pde p rw user w = pde_put PD_present 1 (pde_put PD_pageSize FOUR_KB
     (pde_put PD_isUser (of_bool32 user) (pde_put PD_readWrite (of_bool32 rw)
       (pde_put PD_frame (p div PAGE_SIZE) w))))"

lemma of_bool32_mod [simp]: "of_bool32 b mod 2 = of_bool32 b"
  by (simp add: of_bool32_def)

lemma frame_number_fits:
  assumes "4096 dvd unat p"
  shows "take_bit 20 (p div PAGE_SIZE) = p div PAGE_SIZE" and "p div PAGE_SIZE * 4096 = p"
proof -
  have u: "unat (p div PAGE_SIZE) = unat p div 4096" by (simp add: PAGE_SIZE_def unat_div_distrib)
  have "unat p div 4096 < 1048576" using u32_lt [of p] by simp
  then have "unat (take_bit 20 (p div PAGE_SIZE)) = unat (p div PAGE_SIZE)"
    unfolding unsigned_take_bit_eq u by (simp add: take_bit_nat_eq_self)
  then show "take_bit 20 (p div PAGE_SIZE) = p div PAGE_SIZE" by (rule word_nat_eqI)
  have "unat (p div PAGE_SIZE * 4096) = unat p"
    using assms u u32_lt [of p] by (simp add: unat_word_ariths)
  then show "p div PAGE_SIZE * 4096 = p" by (rule word_nat_eqI)
qed

lemma table_pde_fields:
  assumes "4096 dvd unat p"
  shows "entry_table (table_pde p rw user w) = Some p"
    and "pde_get PD_readWrite (table_pde p rw user w) = of_bool32 rw"
    and "pde_get PD_isUser (table_pde p rw user w) = of_bool32 user"
  using frame_number_fits [OF assms]
  by (simp_all add: table_pde_def entry_table_def pde_get_put FOUR_KB_def FOUR_MB_def)

lemma GetPageForAddress_existing:
  assumes "self_mapped st" and "table_frame st (PAGEDIR_INDEX va) = Some t"
  shows "GetPageForAddress va c rw user st =
    Some (window (PAGEDIR_INDEX va) (4 * PAGETBL_INDEX va), st)"
proof -
  let ?i = "PAGEDIR_INDEX va"
  have tf: "table_frame st 1023 = Some (cr3 st)" using assms(1) by (simp add: self_mapped_def)
  have k: "4 * ?i < 4096" by (rule index_offset(1) [OF PAGEDIR_INDEX_less])
  have "vread st (window 1023 (4 * ?i)) = Some (phys st (cr3 st + 4 * ?i))"
    by (rule vread_window [OF assms(1) tf _ k]) simp
  moreover have "pde_get PD_present (phys st (cr3 st + 4 * ?i)) \<noteq> 0"
    using assms(2) by (auto simp: table_frame_def entry_table_def split: if_splits)
  ultimately show ?thesis
    by (simp add: GetPageForAddress_def Let_def directory_window
        GetPageTableAddress_window [OF PAGEDIR_INDEX_less])
qed

text \<open>The five stores that fill in a directory entry.\<close>

lemma table_pde_stores:
  assumes "self_mapped st" and "i < 1023"
  shows "do {
      st \<leftarrow> pde_store (window 1023 (4 * i)) PD_frame (p div PAGE_SIZE) st;
      st \<leftarrow> pde_store (window 1023 (4 * i)) PD_readWrite (of_bool32 rw) st;
      st \<leftarrow> pde_store (window 1023 (4 * i)) PD_isUser (of_bool32 user) st;
      st \<leftarrow> pde_store (window 1023 (4 * i)) PD_pageSize FOUR_KB st;
      st \<leftarrow> pde_store (window 1023 (4 * i)) PD_present 1 st;
      f st
    } = f (store_at (cr3 st + 4 * i) (table_pde p rw user (phys st (cr3 st + 4 * i))) st)"
proof -
  have i: "i < 1024" "i \<noteq> 1023" using assms(2) less_1023 by auto
  then have ne: "4 * i \<noteq> 4 * 1023" using index_offset_eq [of i 1023] by auto
  have "self_mapped (store_at (cr3 st + 4 * i) w st)" for w
    using assms(1) ne index_offset(1) [OF i(1)]
    by (intro self_mapped_store) (auto simp: self_mapped_def)
  then show ?thesis
    using assms by (simp add: pde_store_window table_pde_def)
qed

lemma GetPageForAddress_fill:
  assumes sm: "self_mapped st" and i: "PAGEDIR_INDEX va < 1023"
    and absent: "pde_get PD_present (phys st (cr3 st + 4 * PAGEDIR_INDEX va)) = 0"
    and al: "alloc_frame st = (t, st\<lparr>phyMem := fr\<rparr>)" and at: "4096 dvd unat t" and tc: "t \<noteq> cr3 st"
  obtains m where
    "GetPageForAddress va True rw user st =
       Some (window (PAGEDIR_INDEX va) (4 * PAGETBL_INDEX va), st\<lparr>phys := m, phyMem := fr\<rparr>)"
    "m (cr3 st + 4 * PAGEDIR_INDEX va) = table_pde t rw user (phys st (cr3 st + 4 * PAGEDIR_INDEX va))"
    "\<And>j. j < 1024 \<Longrightarrow> j \<noteq> PAGEDIR_INDEX va \<Longrightarrow> m (cr3 st + 4 * j) = phys st (cr3 st + 4 * j)"
    "\<And>j. j < 1024 \<Longrightarrow> m (t + 4 * j) = 0"
    "\<And>a. a \<noteq> cr3 st + 4 * PAGEDIR_INDEX va \<Longrightarrow> \<not> (\<exists>k<4096. a = t + k) \<Longrightarrow> m a = phys st a"
proof -
  let ?i = "PAGEDIR_INDEX va" and ?st1 = "st\<lparr>phyMem := fr\<rparr>"
  note i4 = PAGEDIR_INDEX_less [of va]
  have k: "4 * ?i < 4096" by (rule index_offset(1) [OF i4])
  have ac: "4096 dvd unat (cr3 st)" and self: "table_frame st 1023 = Some (cr3 st)"
    using sm by (simp_all add: self_mapped_def)
  define w where "w = table_pde t rw user (phys st (cr3 st + 4 * ?i))"
  define st2 where "st2 = store_at (cr3 st + 4 * ?i) w ?st1"
  have sm1: "self_mapped ?st1" using sm by (simp add: self_mapped_def table_frame_def)
  have ne: "4 * ?i \<noteq> 4 * 1023" using less_1023 [OF i] index_offset_eq [OF i4, of 1023] by auto
  have sm2: "self_mapped st2"
    unfolding st2_def using sm1 ac k ne self_mapped_store [of ?st1 "cr3 st" "4 * ?i"] by simp
  have tf2: "table_frame st2 ?i = Some t"
    using table_pde_fields(1) [OF at] by (simp add: st2_def table_frame_def w_def)
  have c2: "cr3 st2 = cr3 st" "phyMem st2 = fr" by (simp_all add: st2_def)
  obtain m where m: "zero_table (window ?i 0) st2 = Some (st2\<lparr>phys := m\<rparr>)"
    "\<And>j. j < 1024 \<Longrightarrow> m (t + 4 * j) = 0"
    "\<And>a. \<not> (\<exists>k<4096. a = t + k) \<Longrightarrow> m a = phys st2 a"
    using zero_table_spec [OF sm2 tf2 _ i4] tc c2 by metis
  have dir: "m (cr3 st + 4 * j) = phys st2 (cr3 st + 4 * j)" if "j < 1024" for j
    using page_offset_eq [OF ac at index_offset(1) [OF that]] tc by (intro m(3)) auto
  have "vread st (window 1023 (4 * ?i)) = Some (phys st (cr3 st + 4 * ?i))"
    by (rule vread_window [OF sm self _ k]) simp
  then have run: "GetPageForAddress va True rw user st =
      Some (window ?i (4 * PAGETBL_INDEX va), st2\<lparr>phys := m\<rparr>)"
    using absent m(1)
    by (simp add: GetPageForAddress_def Let_def directory_window al window_plus
        GetPageTableAddress_window [OF i4, of 0, simplified] table_pde_stores [OF sm1 i]
        flip: st2_def w_def)
  show ?thesis
  proof (rule that [of m])
    show "GetPageForAddress va True rw user st =
        Some (window ?i (4 * PAGETBL_INDEX va), st\<lparr>phys := m, phyMem := fr\<rparr>)"
      unfolding run by (simp add: st2_def store_at_def)
    show "m (cr3 st + 4 * ?i) = table_pde t rw user (phys st (cr3 st + 4 * ?i))"
      using dir [OF i4] by (simp add: st2_def w_def)
    show "m (cr3 st + 4 * j) = phys st (cr3 st + 4 * j)" if "j < 1024" "j \<noteq> ?i" for j
      using dir [OF that(1)] index_offset_eq [OF that(1) i4] that(2) by (simp add: st2_def)
    show "m a = phys st a" if "a \<noteq> cr3 st + 4 * ?i" "\<not> (\<exists>k<4096. a = t + k)" for a
      using m(3) [OF that(2)] that(1) by (simp add: st2_def)
  qed (rule m(2))
qed

lemma GetPageForAddress_new:
  assumes ok: "vm_ok st" and i: "PAGEDIR_INDEX va < 1023"
    and absent: "pde_get PD_present (phys st (cr3 st + 4 * PAGEDIR_INDEX va)) = 0"
    and free: "FreeBlocks (phyMem st) \<noteq> 0"
  obtains t st' where
    "GetPageForAddress va True rw user st = Some (window (PAGEDIR_INDEX va) (4 * PAGETBL_INDEX va), st')"
    "vm_ok st'" "cr3 st' = cr3 st" "table_frame st' (PAGEDIR_INDEX va) = Some t"
    "\<And>j. j < 1024 \<Longrightarrow> j \<noteq> PAGEDIR_INDEX va \<Longrightarrow> phys st' (cr3 st + 4 * j) = phys st (cr3 st + 4 * j)"
    "\<And>j. j < 1024 \<Longrightarrow> phys st' (t + 4 * j) = 0"
    "\<And>a. a \<noteq> cr3 st + 4 * PAGEDIR_INDEX va \<Longrightarrow> \<not> (\<exists>k<4096. a = t + k) \<Longrightarrow> phys st' a = phys st a"
    "t \<notin> held_frames (phyMem st)" "held_frames (phyMem st') = insert t (held_frames (phyMem st))"
    "FreeBlocks (phyMem st') = FreeBlocks (phyMem st) - 1"
proof -
  let ?i = "PAGEDIR_INDEX va"
  note i4 = PAGEDIR_INDEX_less [of va] and acc = vm_okD(2) [OF ok]
  obtain t fr where al: "AllocateBlock (phyMem st) = (t, fr)" "t \<noteq> 0"
      "FreeBlocks fr = FreeBlocks (phyMem st) - 1"
    by (rule AllocateBlock_some [OF acc free])
  note fresh = lpm.alloc_fresh [OF acc al(1,2)] and held = lpm.alloc_held [OF acc al(1,2)]
    and at = lpm.alloc_aligned [OF acc al(1,2)]
  have tc: "t \<noteq> cr3 st" using fresh vm_okD(5) [OF ok _ vm_okD(4) [OF ok]] by auto
  have af: "alloc_frame st = (t, st\<lparr>phyMem := fr\<rparr>)" by (simp add: alloc_frame_def al(1))
  obtain m where m:
    "GetPageForAddress va True rw user st = Some (window ?i (4 * PAGETBL_INDEX va), st\<lparr>phys := m, phyMem := fr\<rparr>)"
    "m (cr3 st + 4 * ?i) = table_pde t rw user (phys st (cr3 st + 4 * ?i))"
    "\<And>j. j < 1024 \<Longrightarrow> j \<noteq> ?i \<Longrightarrow> m (cr3 st + 4 * j) = phys st (cr3 st + 4 * j)"
    "\<And>j. j < 1024 \<Longrightarrow> m (t + 4 * j) = 0"
    "\<And>a. a \<noteq> cr3 st + 4 * ?i \<Longrightarrow> \<not> (\<exists>k<4096. a = t + k) \<Longrightarrow> m a = phys st a"
    by (rule GetPageForAddress_fill [OF vm_okD(1) [OF ok] i absent af at tc, of rw user]) blast
  let ?st' = "st\<lparr>phys := m, phyMem := fr\<rparr>"
  have tf: "table_frame ?st' j = (if j = ?i then Some t else table_frame st j)" if "j < 1024" for j
    using m(2) m(3) [OF that] table_pde_fields(1) [OF at] by (simp add: table_frame_def)
  have "vm_ok ?st'"
    unfolding vm_ok_def
  proof (intro conjI allI impI)
    show "self_mapped ?st'"
      using vm_okD(3,4) [OF ok] tf [of 1023] less_1023(2) [OF i] by (simp add: self_mapped_def)
    show "accounted (phyMem ?st')" using lpm.alloc_inv [OF acc al(1)] by simp
    fix j u assume j: "j < 1024" and u: "table_frame ?st' j = Some u"
    show "u \<in> held_frames (phyMem ?st')"
      using u tf [OF j] vm_okD(5) [OF ok j] held by (auto split: if_splits)
    fix l assume l: "l < 1024" "j \<noteq> l"
    show "table_frame ?st' l \<noteq> Some u"
      using u l tf [OF j] tf [OF l(1)] vm_okD(5) [OF ok j] vm_okD(5) [OF ok l(1)]
        vm_okD(6) [OF ok j l(1)] fresh by (auto split: if_splits)
  qed
  then show ?thesis
    using m(3-5) tf [OF i4] fresh held al(3) by (intro that [OF m(1), of t]) simp_all
qed

section \<open>Changing one page\<close>

lemma same_page_iff:
  "va div PAGE_SIZE = vb div PAGE_SIZE \<longleftrightarrow>
     PAGEDIR_INDEX va = PAGEDIR_INDEX vb \<and> PAGETBL_INDEX va = PAGETBL_INDEX vb"
proof -
  have split: "x = y \<longleftrightarrow> x div 1024 = y div 1024 \<and> x mod 1024 = y mod (1024 :: nat)" for x y
    by (metis div_mult_mod_eq)
  show ?thesis
    using split [of "unat va div 4096" "unat vb div 4096"]
    by (simp add: word_unat_eq_iff unat_PAGEDIR_INDEX unat_PAGETBL_INDEX PAGE_SIZE_def unat_div_distrib
        flip: div_mult2_eq)
qed

lemma translate_cong:
  assumes "cr3 st' = cr3 st"
    and "phys st' (cr3 st + 4 * PAGEDIR_INDEX va) = phys st (cr3 st + 4 * PAGEDIR_INDEX va)"
    and "\<And>t. table_frame st (PAGEDIR_INDEX va) = Some t \<Longrightarrow>
      phys st' (t + 4 * PAGETBL_INDEX va) = phys st (t + 4 * PAGETBL_INDEX va)"
  shows "translate st' va = translate st va"
  using assms by (auto simp: translate_def page_walk_def table_frame_def entry_table_def Let_def)

lemma translate_absent:
  "pde_get PD_present (phys st (cr3 st + 4 * PAGEDIR_INDEX va)) = 0 \<Longrightarrow> translate st va = None"
  by (simp add: translate_def page_walk_def)

text \<open>The effect of storing word \<open>w\<close> as the entry of \<open>virt\<close> in its page table.\<close>

lemma entry_store:
  fixes w :: u32
  assumes ok: "vm_ok st" and i: "PAGEDIR_INDEX virt < 1023" and t: "table_frame st (PAGEDIR_INDEX virt) = Some t"
  defines st': "st' \<equiv> store_at (t + 4 * PAGETBL_INDEX virt) w st"
  shows "vm_ok st'" and "j < 1024 \<Longrightarrow> phys st' (cr3 st + 4 * j) = phys st (cr3 st + 4 * j)"
    and "va div PAGE_SIZE = virt div PAGE_SIZE \<Longrightarrow> translate st' va =
      (if pte_get PT_present w = 0 then None else Some (pte_get PT_frame w * 4096 + PAGEFRAME_INDEX va))"
    and "va div PAGE_SIZE \<noteq> virt div PAGE_SIZE \<Longrightarrow> PAGEDIR_INDEX va \<noteq> 1023 \<Longrightarrow>
      translate st' va = translate st va"
proof -
  note i4 = PAGEDIR_INDEX_less [of virt] and j4 = index_offset(1) [OF PAGETBL_INDEX_less]
  have tc: "t \<noteq> cr3 st" by (rule vm_ok_table_not_directory [OF ok i t])
  have at: "4096 dvd unat t" by (rule table_frame_aligned [OF t])
  note ac = vm_okD(3) [OF ok]
  show pde: "phys st' (cr3 st + 4 * j) = phys st (cr3 st + 4 * j)" if "j < 1024" for j
    using page_offset_eq [OF ac at index_offset(1) [OF that] j4] tc by (simp add: st')
  have tf: "table_frame st' j = table_frame st j" if "j < 1024" for j
    using pde [OF that] by (simp add: table_frame_def st')
  have "self_mapped st'"
    unfolding st' using vm_okD(1) [OF ok] at j4 tc by (intro self_mapped_store) auto
  then show "vm_ok st'"
    using ok tf by (auto simp: vm_ok_def st')
  show "translate st' va = (if pte_get PT_present w = 0 then None
      else Some (pte_get PT_frame w * 4096 + PAGEFRAME_INDEX va))"
    if "va div PAGE_SIZE = virt div PAGE_SIZE"
    using that tf [OF i4] t translate_table [of st' va t]
    by (auto simp: same_page_iff st' Let_def)
  show "translate st' va = translate st va"
    if diff: "va div PAGE_SIZE \<noteq> virt div PAGE_SIZE" and nw: "PAGEDIR_INDEX va \<noteq> 1023"
  proof (rule translate_cong)
    show "cr3 st' = cr3 st" by (simp add: st')
    show "phys st' (cr3 st + 4 * PAGEDIR_INDEX va) = phys st (cr3 st + 4 * PAGEDIR_INDEX va)"
      by (rule pde [OF PAGEDIR_INDEX_less])
    fix u assume u: "table_frame st (PAGEDIR_INDEX va) = Some u"
    have "u + 4 * PAGETBL_INDEX va \<noteq> t + 4 * PAGETBL_INDEX virt"
    proof
      assume "u + 4 * PAGETBL_INDEX va = t + 4 * PAGETBL_INDEX virt"
      then have "u = t" "4 * PAGETBL_INDEX va = 4 * PAGETBL_INDEX virt"
        using page_offset_eq [OF table_frame_aligned [OF u] at j4 j4] by auto
      then have "PAGETBL_INDEX va = PAGETBL_INDEX virt" "PAGEDIR_INDEX va \<noteq> PAGEDIR_INDEX virt"
        using index_offset_eq [OF PAGETBL_INDEX_less PAGETBL_INDEX_less] diff by (auto simp: same_page_iff)
      with \<open>u = t\<close> u t vm_okD(6) [OF ok PAGEDIR_INDEX_less i4] show False by blast
    qed
    then show "phys st' (u + 4 * PAGETBL_INDEX va) = phys st (u + 4 * PAGETBL_INDEX va)"
      by (simp add: st')
  qed
qed

text \<open>\<open>GetPageForAddress\<close> with creation, in one statement: afterwards the page has a table, and
  no translation outside the window has changed.\<close>

definition can_map :: "vm \<Rightarrow> u32 \<Rightarrow> bool" where
  "can_map st va \<longleftrightarrow> PAGEDIR_INDEX va < 1023 \<and> (table_frame st (PAGEDIR_INDEX va) \<noteq> None \<or>
     pde_get PD_present (phys st (cr3 st + 4 * PAGEDIR_INDEX va)) = 0 \<and> FreeBlocks (phyMem st) \<noteq> 0)"

lemma GetPageForAddress_create:
  assumes ok: "vm_ok st" and can: "can_map st virt"
  obtains t st' where
    "GetPageForAddress virt True rw user st = Some (window (PAGEDIR_INDEX virt) (4 * PAGETBL_INDEX virt), st')"
    "vm_ok st'" "cr3 st' = cr3 st" "table_frame st' (PAGEDIR_INDEX virt) = Some t"
    "\<And>va. PAGEDIR_INDEX va \<noteq> 1023 \<Longrightarrow> translate st' va = translate st va"
    "\<And>j. j < 1024 \<Longrightarrow> j \<noteq> PAGEDIR_INDEX virt \<Longrightarrow>
      phys st' (cr3 st + 4 * j) = phys st (cr3 st + 4 * j)"
    "held_frames (phyMem st) \<subseteq> held_frames (phyMem st')"
    "FreeBlocks (phyMem st') = (if table_frame st (PAGEDIR_INDEX virt) = None
       then FreeBlocks (phyMem st) - 1 else FreeBlocks (phyMem st))"
proof (cases "table_frame st (PAGEDIR_INDEX virt)")
  case (Some t)
  then show ?thesis using that [of st t] GetPageForAddress_existing [OF vm_okD(1) [OF ok]] ok by simp
next
  case None
  let ?i = "PAGEDIR_INDEX virt"
  have i: "?i < 1023" and absent: "pde_get PD_present (phys st (cr3 st + 4 * ?i)) = 0"
    and free: "FreeBlocks (phyMem st) \<noteq> 0" using can None by (auto simp: can_map_def)
  obtain t st' where new:
    "GetPageForAddress virt True rw user st = Some (window ?i (4 * PAGETBL_INDEX virt), st')"
    "vm_ok st'" "cr3 st' = cr3 st" "table_frame st' ?i = Some t"
    "\<And>j. j < 1024 \<Longrightarrow> j \<noteq> ?i \<Longrightarrow> phys st' (cr3 st + 4 * j) = phys st (cr3 st + 4 * j)"
    "\<And>j. j < 1024 \<Longrightarrow> phys st' (t + 4 * j) = 0"
    "\<And>a. a \<noteq> cr3 st + 4 * ?i \<Longrightarrow> \<not> (\<exists>k<4096. a = t + k) \<Longrightarrow> phys st' a = phys st a"
    "t \<notin> held_frames (phyMem st)" "held_frames (phyMem st') = insert t (held_frames (phyMem st))"
    "FreeBlocks (phyMem st') = FreeBlocks (phyMem st) - 1"
    by (rule GetPageForAddress_new [OF ok i absent free, of rw user]) blast
  note at = table_frame_aligned [OF new(4)] and ac = vm_okD(3) [OF ok]
  have tc: "t \<noteq> cr3 st" using vm_okD(5) [OF ok _ vm_okD(4) [OF ok]] new(8) by auto
  have same: "translate st' va = translate st va" if nw: "PAGEDIR_INDEX va \<noteq> 1023" for va
  proof (cases "PAGEDIR_INDEX va = ?i")
    case True
    then have "translate st' va = None"
      using new(4) new(6) [OF PAGETBL_INDEX_less [of va]] translate_table [of st' va t]
      by (simp add: pte_get_def get_bits_def)
    moreover have "translate st va = None" using absent True by (intro translate_absent) simp
    ultimately show ?thesis by simp
  next
    case False
    have d: "4 * PAGEDIR_INDEX va \<noteq> 4 * ?i"
      using index_offset_eq [OF PAGEDIR_INDEX_less PAGEDIR_INDEX_less] False by simp
    show ?thesis
    proof (rule translate_cong)
      show "phys st' (cr3 st + 4 * PAGEDIR_INDEX va) = phys st (cr3 st + 4 * PAGEDIR_INDEX va)"
        using d tc page_offset_eq [OF ac at index_offset(1) [OF PAGEDIR_INDEX_less]] by (intro new(7)) auto
      fix u assume u: "table_frame st (PAGEDIR_INDEX va) = Some u"
      have au: "4096 dvd unat u" by (rule table_frame_aligned [OF u])
      have "u \<noteq> cr3 st"
        using vm_okD(6) [OF ok PAGEDIR_INDEX_less _ nw u, of] vm_okD(4) [OF ok] by auto
      moreover have "u \<noteq> t" using vm_okD(5) [OF ok PAGEDIR_INDEX_less u] new(8) by auto
      ultimately show "phys st' (u + 4 * PAGETBL_INDEX va) = phys st (u + 4 * PAGETBL_INDEX va)"
        using page_offset_eq [OF au at index_offset(1) [OF PAGETBL_INDEX_less]]
          page_offset_eq [OF au ac index_offset(1) [OF PAGETBL_INDEX_less] index_offset(1) [OF PAGEDIR_INDEX_less]]
        by (intro new(7)) auto
    qed (rule new(3))
  qed
  show ?thesis by (rule that [OF new(1-4) same new(5)]) (use new None in auto)
qed

text \<open>A run of bit-field stores into one entry.\<close>

lemma pte_store_entry:
  assumes "vm_ok st" and "PAGEDIR_INDEX va < 1023" and "table_frame st (PAGEDIR_INDEX va) = Some t"
  shows "pte_store (window (PAGEDIR_INDEX va) (4 * PAGETBL_INDEX va)) f v st =
    Some (store_at (t + 4 * PAGETBL_INDEX va) (pte_put f v (phys st (t + 4 * PAGETBL_INDEX va))) st)"
  by (rule pte_store_window [OF vm_okD(1) [OF assms(1)] assms(3) PAGEDIR_INDEX_less
        index_offset(1) [OF PAGETBL_INDEX_less]])

lemma pte_stores:
  assumes "vm_ok st" and "PAGEDIR_INDEX va < 1023" and "table_frame st (PAGEDIR_INDEX va) = Some t"
  defines "e \<equiv> window (PAGEDIR_INDEX va) (4 * PAGETBL_INDEX va)"
  shows "do {
      st \<leftarrow> pte_store e f1 v1 st;
      st \<leftarrow> pte_store e f2 v2 st;
      st \<leftarrow> pte_store e f3 v3 st;
      pte_store e f4 v4 st
    } = Some (store_at (t + 4 * PAGETBL_INDEX va) (pte_put f4 v4 (pte_put f3 v3 (pte_put f2 v2
          (pte_put f1 v1 (phys st (t + 4 * PAGETBL_INDEX va)))))) st)"
  using assms(1-3) entry_store(1,2) [OF assms(1-3)] PAGEDIR_INDEX_less [of va]
  by (simp add: e_def pte_store_entry table_frame_def)

text \<open>In the window the walk reads the directory as if it were a table.\<close>

lemma translate_in_window:
  assumes "self_mapped st" and "PAGEDIR_INDEX va = 1023"
  shows "translate st va = (let pte = phys st (cr3 st + 4 * PAGETBL_INDEX va) in
     if pte_get PT_present pte = 0 then None else Some (pte_get PT_frame pte * 4096 + PAGEFRAME_INDEX va))"
  using translate_table [of st va "cr3 st"] assms by (simp add: self_mapped_def)

text \<open>The page of the window in which the table of an address is seen.\<close>

definition window_page :: "u32 \<Rightarrow> u32" where
  "window_page va = GetPageTableAddress (ucast (PAGEDIR_INDEX va)) div PAGE_SIZE"

lemma window_page_iff:
  "va div PAGE_SIZE = window_page virt \<longleftrightarrow> PAGEDIR_INDEX va = 1023 \<and> PAGETBL_INDEX va = PAGEDIR_INDEX virt"
proof -
  have "GetPageTableAddress (ucast (PAGEDIR_INDEX virt)) = window (PAGEDIR_INDEX virt) 0"
    using GetPageTableAddress_window [OF PAGEDIR_INDEX_less, of virt 0] by simp
  then show ?thesis
    using window_indices [OF PAGEDIR_INDEX_less, of 0 virt] by (simp add: window_page_def same_page_iff)
qed

lemma MapVirtualToPhysical_effect:
  assumes ok: "vm_ok st" and can: "can_map st virt"
  obtains st' where "MapVirtualToPhysical physAddr virt krnl writeable st = Some st'" "vm_ok st'"
    "\<And>va. va div PAGE_SIZE = virt div PAGE_SIZE \<Longrightarrow>
      translate st' va = Some (physAddr div PAGE_SIZE * PAGE_SIZE + PAGEFRAME_INDEX va)"
    "\<And>va. va div PAGE_SIZE \<noteq> virt div PAGE_SIZE \<Longrightarrow>
      table_frame st (PAGEDIR_INDEX virt) = None \<longrightarrow> va div PAGE_SIZE \<noteq> window_page virt \<Longrightarrow>
      translate st' va = translate st va"
proof -
  have i: "PAGEDIR_INDEX virt < 1023" using can by (simp add: can_map_def)
  obtain t s1 where g:
    "GetPageForAddress virt True writeable (\<not> krnl) st =
       Some (window (PAGEDIR_INDEX virt) (4 * PAGETBL_INDEX virt), s1)"
    "vm_ok s1" "table_frame s1 (PAGEDIR_INDEX virt) = Some t"
    "\<And>va. PAGEDIR_INDEX va \<noteq> 1023 \<Longrightarrow> translate s1 va = translate st va"
    and s1: "cr3 s1 = cr3 st"
    "\<And>j. j < 1024 \<Longrightarrow> j \<noteq> PAGEDIR_INDEX virt \<Longrightarrow> phys s1 (cr3 st + 4 * j) = phys st (cr3 st + 4 * j)"
    by (rule GetPageForAddress_create [OF ok can, of writeable "\<not> krnl"]) blast
  have old: "s1 = st" if "table_frame st (PAGEDIR_INDEX virt) \<noteq> None"
    using that GetPageForAddress_existing [OF vm_okD(1) [OF ok]] g(1) by auto
  define w where "w = pte_put PT_present 1 (pte_put PT_readWrite (of_bool32 writeable)
    (pte_put PT_isUser (of_bool32 (\<not> krnl)) (pte_put PT_frame (physAddr div PAGE_SIZE)
      (phys s1 (t + 4 * PAGETBL_INDEX virt)))))"
  define st' where "st' = store_at (t + 4 * PAGETBL_INDEX virt) w s1"
  have "MapVirtualToPhysical physAddr virt krnl writeable st = Some st'"
    using g(1) pte_stores [OF g(2) i g(3)] by (simp add: MapVirtualToPhysical_def w_def st'_def)
  moreover have "take_bit 20 (physAddr div PAGE_SIZE) = physAddr div PAGE_SIZE"
  proof (rule word_nat_eqI)
    have u: "unat (physAddr div PAGE_SIZE) = unat physAddr div 4096"
      by (simp add: PAGE_SIZE_def unat_div_distrib)
    have "unat physAddr div 4096 < 1048576" using u32_lt [of physAddr] by simp
    then show "unat (take_bit 20 (physAddr div PAGE_SIZE)) = unat (physAddr div PAGE_SIZE)"
      unfolding unsigned_take_bit_eq u by (simp add: take_bit_nat_eq_self)
  qed
  then have w: "pte_get PT_present w = 1" "pte_get PT_frame w = physAddr div PAGE_SIZE"
    by (simp_all add: w_def pte_get_put)
  note es = entry_store [OF g(2) i g(3), where w = w, folded st'_def]
  have "translate st' va = translate st va"
    if "va div PAGE_SIZE \<noteq> virt div PAGE_SIZE" and
      v: "table_frame st (PAGEDIR_INDEX virt) = None \<longrightarrow> va div PAGE_SIZE \<noteq> window_page virt" for va
  proof (cases "PAGEDIR_INDEX va = 1023")
    case True
    have "PAGETBL_INDEX va \<noteq> PAGEDIR_INDEX virt \<or> s1 = st" using v old True by (auto simp: window_page_iff)
    then have "phys s1 (cr3 st + 4 * PAGETBL_INDEX va) = phys st (cr3 st + 4 * PAGETBL_INDEX va)"
      using s1(2) [OF PAGETBL_INDEX_less] by auto
    then have "phys st' (cr3 st + 4 * PAGETBL_INDEX va) = phys st (cr3 st + 4 * PAGETBL_INDEX va)"
      using es(2) [OF PAGETBL_INDEX_less] s1(1) by simp
    moreover have "cr3 st' = cr3 st" using s1(1) by (simp add: st'_def)
    ultimately show ?thesis
      using translate_in_window [OF vm_okD(1) [OF es(1)] True] translate_in_window [OF vm_okD(1) [OF ok] True] by simp
  next
    case False
    then show ?thesis using es(4) [OF that(1)] g(4) by simp
  qed
  then show ?thesis
    using es(1,3) w calculation by (intro that [of st']) (auto simp: PAGE_SIZE_def)
qed

lemma alloc_frame_some:
  assumes ok: "vm_ok st" and free: "FreeBlocks (phyMem st) \<noteq> 0"
  obtains p st' where "alloc_frame st = (p, st')" "p \<noteq> 0" "4096 dvd unat p" "vm_ok st'"
    "cr3 st' = cr3 st" "phys st' = phys st" "p \<notin> held_frames (phyMem st)"
    "held_frames (phyMem st') = insert p (held_frames (phyMem st))"
    "FreeBlocks (phyMem st') = FreeBlocks (phyMem st) - 1"
proof -
  note acc = vm_okD(2) [OF ok]
  obtain p fr where al: "AllocateBlock (phyMem st) = (p, fr)" "p \<noteq> 0"
      "FreeBlocks fr = FreeBlocks (phyMem st) - 1"
    by (rule AllocateBlock_some [OF acc free])
  have "vm_ok (st\<lparr>phyMem := fr\<rparr>)"
    using ok lpm.alloc_inv [OF acc al(1)] lpm.alloc_held [OF acc al(1,2)]
    by (auto simp: vm_ok_def self_mapped_def table_frame_def)
  then show ?thesis
    using lpm.alloc_fresh [OF acc al(1,2)] lpm.alloc_held [OF acc al(1,2)] lpm.alloc_aligned [OF acc al(1,2)] al
    by (intro that [of p "st\<lparr>phyMem := fr\<rparr>"]) (simp_all add: alloc_frame_def)
qed

text \<open>One round of the loop that backs the kernel heap.\<close>

lemma back_page:
  assumes ok: "vm_ok st" and can: "can_map st virt"
    and free: "FreeBlocks (phyMem st) \<noteq> 0" "table_frame st (PAGEDIR_INDEX virt) = None \<Longrightarrow> FreeBlocks (phyMem st) \<noteq> 1"
  obtains p st' where
    "(do { (page, st) \<leftarrow> GetPageForAddress virt True True False st; AllocatePage page True True st }) = Some st'"
    "vm_ok st'" "cr3 st' = cr3 st" "p \<notin> held_frames (phyMem st)" "p \<in> held_frames (phyMem st')"
    "held_frames (phyMem st) \<subseteq> held_frames (phyMem st')"
    "\<And>va. va div PAGE_SIZE = virt div PAGE_SIZE \<Longrightarrow> translate st' va = Some (p + PAGEFRAME_INDEX va)"
    "\<And>va. va div PAGE_SIZE \<noteq> virt div PAGE_SIZE \<Longrightarrow> PAGEDIR_INDEX va \<noteq> 1023 \<Longrightarrow>
      translate st' va = translate st va"
    "table_frame st' (PAGEDIR_INDEX virt) \<noteq> None"
    "\<And>j. j < 1024 \<Longrightarrow> j \<noteq> PAGEDIR_INDEX virt \<Longrightarrow>
      phys st' (cr3 st + 4 * j) = phys st (cr3 st + 4 * j)"
    "FreeBlocks (phyMem st') = FreeBlocks (phyMem st) -
       (if table_frame st (PAGEDIR_INDEX virt) = None then 2 else 1)" "4096 dvd unat p"
proof -
  have i: "PAGEDIR_INDEX virt < 1023" using can by (simp add: can_map_def)
  obtain t s1 where g:
    "GetPageForAddress virt True True False st = Some (window (PAGEDIR_INDEX virt) (4 * PAGETBL_INDEX virt), s1)"
    "vm_ok s1" "cr3 s1 = cr3 st" "table_frame s1 (PAGEDIR_INDEX virt) = Some t"
    "\<And>va. PAGEDIR_INDEX va \<noteq> 1023 \<Longrightarrow> translate s1 va = translate st va"
    "\<And>j. j < 1024 \<Longrightarrow> j \<noteq> PAGEDIR_INDEX virt \<Longrightarrow>
      phys s1 (cr3 st + 4 * j) = phys st (cr3 st + 4 * j)"
    "held_frames (phyMem st) \<subseteq> held_frames (phyMem s1)"
    "FreeBlocks (phyMem s1) = (if table_frame st (PAGEDIR_INDEX virt) = None
       then FreeBlocks (phyMem st) - 1 else FreeBlocks (phyMem st))"
    by (rule GetPageForAddress_create [OF ok can, of True False]) blast
  have free1: "FreeBlocks (phyMem s1) \<noteq> 0" using g(8) free by (auto split: if_splits)
  obtain p s2 where a: "alloc_frame s1 = (p, s2)" "p \<noteq> 0" "4096 dvd unat p" "vm_ok s2" "cr3 s2 = cr3 s1"
    "phys s2 = phys s1" "p \<notin> held_frames (phyMem s1)"
    "held_frames (phyMem s2) = insert p (held_frames (phyMem s1))"
    "FreeBlocks (phyMem s2) = FreeBlocks (phyMem s1) - 1"
    by (rule alloc_frame_some [OF g(2) free1])
  have tf: "table_frame s2 j = table_frame s1 j" and tr: "translate s2 va = translate s1 va" for j va
    using a(5,6) by (simp_all add: table_frame_def translate_def)
  have t2: "table_frame s2 (PAGEDIR_INDEX virt) = Some t" using g(4) tf by simp
  define w where "w = pte_put PT_frame (p div PAGE_SIZE) (pte_put PT_isUser (of_bool32 (\<not> True))
    (pte_put PT_readWrite (of_bool32 True) (pte_put PT_present 1 (phys s2 (t + 4 * PAGETBL_INDEX virt)))))"
  define st' where "st' = store_at (t + 4 * PAGETBL_INDEX virt) w s2"
  have run: "(do { (page, st) \<leftarrow> GetPageForAddress virt True True False st; AllocatePage page True True st }) = Some st'"
    using g(1) a(1,2) pte_stores [OF a(4) i t2] by (simp add: AllocatePage_def w_def st'_def)
  have w: "pte_get PT_present w = 1" "pte_get PT_frame w * 4096 = p"
    using frame_number_fits [OF a(3)] by (simp_all add: w_def pte_get_put)
  note e = entry_store [OF a(4) i t2, where w = w, folded st'_def]
  show ?thesis
  proof (rule that [OF run e(1), of p])
    show "translate st' va = Some (p + PAGEFRAME_INDEX va)" if "va div PAGE_SIZE = virt div PAGE_SIZE" for va
      using e(3) [OF that] w by simp
    show "table_frame st' (PAGEDIR_INDEX virt) \<noteq> None"
      using e(2) [OF PAGEDIR_INDEX_less] t2 by (simp add: table_frame_def st'_def)
    show "phys st' (cr3 st + 4 * j) = phys st (cr3 st + 4 * j)" if "j < 1024" "j \<noteq> PAGEDIR_INDEX virt" for j
      using e(2) [OF that(1)] a(5,6) g(3) g(6) [OF that] by simp
  qed (use g a e(4) tr in \<open>auto simp: st'_def\<close>)
qed

section \<open>Backing the kernel heap\<close>

definition heap_end :: u32 where "heap_end = KERNEL_HEAP_START + KERNEL_HEAP_SIZE"

definition heap_dirs :: "u32 set" where "heap_dirs = {769..772}"

text \<open>The heap's directory entries that have no page table yet.\<close>

definition missing_tables :: "vm \<Rightarrow> u32 set" where
  "missing_tables st = {d \<in> heap_dirs. table_frame st d = None}"

definition heap_mappable :: "vm \<Rightarrow> bool" where
  "heap_mappable st \<longleftrightarrow> (\<forall>d\<in>heap_dirs. table_frame st d \<noteq> None \<or>
     pde_get PD_present (phys st (cr3 st + 4 * d)) = 0)"

lemma unat_heap_end: "unat heap_end = 0xC1400000"
  by (simp add: heap_end_def KERNEL_HEAP_START_def KERNEL_HEAP_SIZE_def)

lemma heap_dir:
  assumes "KERNEL_HEAP_START \<le> va" and "va < heap_end"
  shows "PAGEDIR_INDEX va \<in> heap_dirs" and "PAGEDIR_INDEX va < 1023"
proof -
  have "0xC0400000 \<le> unat va" "unat va < 0xC1400000"
    using assms by (simp_all add: word_le_nat_alt word_less_nat_alt unat_heap_end KERNEL_HEAP_START_def)
  then have "769 \<le> unat va div 4194304" "unat va div 4194304 \<le> 772" by linarith+
  then show "PAGEDIR_INDEX va \<in> heap_dirs" "PAGEDIR_INDEX va < 1023"
    by (simp_all add: heap_dirs_def word_le_nat_alt word_less_nat_alt unat_PAGEDIR_INDEX)
qed

lemma heap_dirs_less: "d \<in> heap_dirs \<Longrightarrow> d < 1024"
  by (auto simp: heap_dirs_def word_le_nat_alt word_less_nat_alt)

definition heap_page :: "u32 \<Rightarrow> u32 \<Rightarrow> bool" where
  "heap_page i va \<longleftrightarrow> i \<le> va \<and> va < heap_end"

lemma heap_page_step:
  assumes "4096 dvd unat i" and "i < heap_end"
  shows "heap_page i va \<longleftrightarrow> va div PAGE_SIZE = i div PAGE_SIZE \<or> heap_page (i + PAGE_SIZE) va"
    and "heap_page (i + PAGE_SIZE) va \<Longrightarrow> va div PAGE_SIZE \<noteq> i div PAGE_SIZE"
    and "unat (i + PAGE_SIZE) = unat i + 4096" and "unat (i + PAGE_SIZE) \<le> unat heap_end"
proof -
  show s: "unat (i + PAGE_SIZE) = unat i + 4096"
    using heap_step [of i] assms(2) by (simp add: heap_end_def)
  obtain q where q: "unat i = 4096 * q" using assms(1) by (elim dvdE)
  have lt: "4096 * q < 4096 * 0xC1400" using assms(2) q by (simp add: word_less_nat_alt unat_heap_end)
  then have qe: "q < 0xC1400" by simp
  have d: "va div PAGE_SIZE = i div PAGE_SIZE \<longleftrightarrow> unat va div 4096 = q"
    by (simp add: word_unat_eq_iff PAGE_SIZE_def unat_div_distrib q)
  have split: "x div 4096 = q \<longleftrightarrow> 4096 * q \<le> x \<and> x < 4096 * q + 4096" for x :: nat by auto
  show "heap_page i va \<longleftrightarrow> va div PAGE_SIZE = i div PAGE_SIZE \<or> heap_page (i + PAGE_SIZE) va"
    using s q qe unfolding d split heap_page_def word_le_nat_alt word_less_nat_alt unat_heap_end by auto
  show "va div PAGE_SIZE \<noteq> i div PAGE_SIZE" if "heap_page (i + PAGE_SIZE) va"
    using that s q unfolding d split heap_page_def word_le_nat_alt by auto
  show "unat (i + PAGE_SIZE) \<le> unat heap_end" unfolding s q unat_heap_end using qe by simp
qed

text \<open>What holds at the head of the loop: \<open>FreeBlocks\<close> covers the pages still to back and the
  page tables still to create.\<close>

definition heap_loop_inv :: "u32 \<Rightarrow> vm \<Rightarrow> bool" where
  "heap_loop_inv i st \<longleftrightarrow> vm_ok st \<and> heap_mappable st \<and> 4096 dvd unat i \<and>
     KERNEL_HEAP_START \<le> i \<and> i \<le> heap_end \<and>
     (unat heap_end - unat i) div 4096 + card (missing_tables st) \<le> unat (FreeBlocks (phyMem st))"

lemma finite_missing [simp]: "finite (missing_tables st)"
  by (rule finite_subset [OF subset_UNIV]) simp

lemma heap_budget:
  assumes inv: "heap_loop_inv i st" and i: "i < heap_end"
  shows "FreeBlocks (phyMem st) \<noteq> 0"
    and "table_frame st (PAGEDIR_INDEX i) = None \<Longrightarrow> 2 \<le> unat (FreeBlocks (phyMem st))"
    and "(unat heap_end - unat i) div 4096 = (unat heap_end - unat (i + PAGE_SIZE)) div 4096 + 1"
proof -
  have al: "4096 dvd unat i" and lo: "KERNEL_HEAP_START \<le> i"
    and budget: "(unat heap_end - unat i) div 4096 + card (missing_tables st) \<le> unat (FreeBlocks (phyMem st))"
    using inv by (auto simp: heap_loop_inv_def)
  show pages: "(unat heap_end - unat i) div 4096 = (unat heap_end - unat (i + PAGE_SIZE)) div 4096 + 1"
    using heap_page_step(3,4) [OF al i] by linarith
  show "FreeBlocks (phyMem st) \<noteq> 0" using budget pages by (auto simp: unat_eq_zero)
  show "2 \<le> unat (FreeBlocks (phyMem st))" if "table_frame st (PAGEDIR_INDEX i) = None"
  proof -
    have "PAGEDIR_INDEX i \<in> missing_tables st" using that heap_dir [OF lo i] by (simp add: missing_tables_def)
    then have "0 < card (missing_tables st)" by (auto simp: card_gt_0_iff)
    then show ?thesis using budget pages by linarith
  qed
qed

lemma heap_loop_inv_step:
  assumes inv: "heap_loop_inv i st" and i: "i < heap_end" and ok: "vm_ok s1" and c: "cr3 s1 = cr3 st"
    and tab: "table_frame s1 (PAGEDIR_INDEX i) \<noteq> None"
    and dirs: "\<And>j. j < 1024 \<Longrightarrow> j \<noteq> PAGEDIR_INDEX i \<Longrightarrow> phys s1 (cr3 st + 4 * j) = phys st (cr3 st + 4 * j)"
    and free: "FreeBlocks (phyMem s1) = FreeBlocks (phyMem st) -
      (if table_frame st (PAGEDIR_INDEX i) = None then 2 else 1)"
  shows "heap_loop_inv (i + PAGE_SIZE) s1"
proof -
  let ?d = "PAGEDIR_INDEX i"
  have al: "4096 dvd unat i" and lo: "KERNEL_HEAP_START \<le> i" and mappable: "heap_mappable st"
    and budget: "(unat heap_end - unat i) div 4096 + card (missing_tables st) \<le> unat (FreeBlocks (phyMem st))"
    using inv by (auto simp: heap_loop_inv_def)
  have dir: "?d \<in> heap_dirs" by (rule heap_dir(1) [OF lo i])
  note b = heap_budget [OF inv i]
  have pde: "phys s1 (cr3 s1 + 4 * d) = phys st (cr3 st + 4 * d)" if "d \<in> heap_dirs" "d \<noteq> ?d" for d
    using dirs [OF heap_dirs_less [OF that(1)] that(2)] c by simp
  then have tf: "table_frame s1 d = table_frame st d" if "d \<in> heap_dirs" "d \<noteq> ?d" for d
    using that by (simp add: table_frame_def)
  have "heap_mappable s1"
    using mappable tab pde tf unfolding heap_mappable_def by metis
  moreover have ms: "missing_tables s1 = missing_tables st - {?d}"
  proof (rule set_eqI)
    show "d \<in> missing_tables s1 \<longleftrightarrow> d \<in> missing_tables st - {?d}" for d
      using tf [of d] tab by (cases "d = ?d") (auto simp: missing_tables_def)
  qed
  have "(unat heap_end - unat (i + PAGE_SIZE)) div 4096 + card (missing_tables s1)
      \<le> unat (FreeBlocks (phyMem s1))"
  proof (cases "table_frame st ?d = None")
    case True
    then have "?d \<in> missing_tables st" using dir by (simp add: missing_tables_def)
    then have "card (missing_tables s1) + 1 = card (missing_tables st)"
      unfolding ms using card_Suc_Diff1 [OF finite_missing] by simp
    moreover have "unat (FreeBlocks (phyMem s1)) = unat (FreeBlocks (phyMem st)) - 2"
      using free True b(2) by (simp add: unat_minus_le word_le_nat_alt)
    ultimately show ?thesis using budget b(3) by linarith
  next
    case False
    then have "card (missing_tables s1) = card (missing_tables st)"
      unfolding ms by (simp add: missing_tables_def)
    moreover have "unat (FreeBlocks (phyMem s1)) = unat (FreeBlocks (phyMem st)) - 1"
      using free False b(1) by (simp add: unat_minus_one)
    ultimately show ?thesis using budget b(3) by linarith
  qed
  moreover have "4096 dvd unat (i + PAGE_SIZE)" "KERNEL_HEAP_START \<le> i + PAGE_SIZE" "i + PAGE_SIZE \<le> heap_end"
    using al lo heap_page_step(3,4) [OF al i] by (simp_all add: word_le_nat_alt)
  ultimately show ?thesis using ok by (simp add: heap_loop_inv_def)
qed

text \<open>\<open>F\<close> gives the frame behind each page from \<open>i\<close> to the end of the heap.\<close>

definition heap_backed :: "u32 \<Rightarrow> (u32 \<Rightarrow> u32) \<Rightarrow> vm \<Rightarrow> u32 set \<Rightarrow> bool" where
  "heap_backed i F st new \<longleftrightarrow>
     (\<forall>va. heap_page i va \<longrightarrow> translate st va = Some (F (va div PAGE_SIZE) + PAGEFRAME_INDEX va) \<and>
        F (va div PAGE_SIZE) \<in> new) \<and>
     (\<forall>va vb. heap_page i va \<longrightarrow> heap_page i vb \<longrightarrow>
        F (va div PAGE_SIZE) = F (vb div PAGE_SIZE) \<longrightarrow> va div PAGE_SIZE = vb div PAGE_SIZE)"

lemma heap_backed_extend:
  assumes F: "heap_backed (i + PAGE_SIZE) F st new" and i: "4096 dvd unat i" "i < heap_end"
    and p: "p \<notin> new" "p \<in> new'" "new \<subseteq> new'"
    and tr: "\<And>va. va div PAGE_SIZE = i div PAGE_SIZE \<Longrightarrow> translate st va = Some (p + PAGEFRAME_INDEX va)"
  shows "heap_backed i (F(i div PAGE_SIZE := p)) st new'"
  using F p tr unfolding heap_backed_def heap_page_step(1) [OF i] by auto

lemma map_heap_from_spec:
  assumes "heap_loop_inv i st"
  shows "\<exists>st' F. map_heap_from i st = Some st' \<and> vm_ok st' \<and>
    held_frames (phyMem st) \<subseteq> held_frames (phyMem st') \<and>
    heap_backed i F st' (held_frames (phyMem st') - held_frames (phyMem st)) \<and>
    (\<forall>va. \<not> heap_page i va \<longrightarrow> PAGEDIR_INDEX va \<noteq> 1023 \<longrightarrow> translate st' va = translate st va) \<and>
    cr3 st' = cr3 st \<and>
    (\<forall>j<1024. j \<notin> heap_dirs \<longrightarrow> phys st' (cr3 st + 4 * j) = phys st (cr3 st + 4 * j))"
  using assms
proof (induction i st rule: map_heap_from.induct)
  case (1 i st)
  note inv = 1(2)
  have ok: "vm_ok st" and mappable: "heap_mappable st" and al: "4096 dvd unat i"
    and lo: "KERNEL_HEAP_START \<le> i" and hi: "i \<le> heap_end"
    using inv by (auto simp: heap_loop_inv_def)
  show ?case
  proof (cases "i < heap_end")
    case False
    then have "i = heap_end" using hi by simp
    then have "\<not> heap_page i va" for va by (simp add: heap_page_def not_less)
    moreover have "map_heap_from i st = Some st" using False by (simp add: map_heap_from.simps [of i] heap_end_def)
    ultimately show ?thesis using ok by (auto simp: heap_backed_def)
  next
    case True
    note dir = heap_dir [OF lo True] and budget = heap_budget [OF inv True]
    have can: "can_map st i"
      using mappable dir budget(1) by (auto simp: can_map_def heap_mappable_def)
    obtain p s1 where b:
      "(do { (page, st) \<leftarrow> GetPageForAddress i True True False st; AllocatePage page True True st }) = Some s1"
      "vm_ok s1" "cr3 s1 = cr3 st" "p \<notin> held_frames (phyMem st)" "p \<in> held_frames (phyMem s1)"
      "held_frames (phyMem st) \<subseteq> held_frames (phyMem s1)"
      "\<And>va. va div PAGE_SIZE = i div PAGE_SIZE \<Longrightarrow> translate s1 va = Some (p + PAGEFRAME_INDEX va)"
      "\<And>va. va div PAGE_SIZE \<noteq> i div PAGE_SIZE \<Longrightarrow> PAGEDIR_INDEX va \<noteq> 1023 \<Longrightarrow>
        translate s1 va = translate st va"
      "table_frame s1 (PAGEDIR_INDEX i) \<noteq> None"
      "\<And>j. j < 1024 \<Longrightarrow> j \<noteq> PAGEDIR_INDEX i \<Longrightarrow> phys s1 (cr3 st + 4 * j) = phys st (cr3 st + 4 * j)"
      "FreeBlocks (phyMem s1) = FreeBlocks (phyMem st) - (if table_frame st (PAGEDIR_INDEX i) = None then 2 else 1)"
      by (rule back_page [OF ok can budget(1)]) (use budget(2) in \<open>auto simp: word_unat_eq_iff\<close>)
    obtain page sp where g: "GetPageForAddress i True True False st = Some (page, sp)"
      "AllocatePage page True True sp = Some s1"
      using b(1) by (cases "GetPageForAddress i True True False st") auto
    have inv1: "heap_loop_inv (i + PAGE_SIZE) s1"
      by (rule heap_loop_inv_step [OF inv True b(2,3,9,10,11)])
    obtain st' F where ih: "map_heap_from (i + PAGE_SIZE) s1 = Some st'" "vm_ok st'"
      "held_frames (phyMem s1) \<subseteq> held_frames (phyMem st')"
      "heap_backed (i + PAGE_SIZE) F st' (held_frames (phyMem st') - held_frames (phyMem s1))"
      "\<And>va. \<not> heap_page (i + PAGE_SIZE) va \<Longrightarrow> PAGEDIR_INDEX va \<noteq> 1023 \<Longrightarrow> translate st' va = translate s1 va"
      "cr3 st' = cr3 s1"
      "\<And>j. j < 1024 \<Longrightarrow> j \<notin> heap_dirs \<Longrightarrow> phys st' (cr3 s1 + 4 * j) = phys s1 (cr3 s1 + 4 * j)"
      using 1(1) [OF _ g(1) _ g(2) inv1] True by (auto simp: heap_end_def)
    have "map_heap_from i st = Some st'"
      using True g ih(1) by (simp add: map_heap_from.simps [of i] heap_end_def)
    moreover have "translate st' va = Some (p + PAGEFRAME_INDEX va)"
      if va: "va div PAGE_SIZE = i div PAGE_SIZE" for va
    proof -
      have "PAGEDIR_INDEX va \<noteq> 1023" using va dir(2) less_1023(2) by (auto simp: same_page_iff)
      moreover have "\<not> heap_page (i + PAGE_SIZE) va" using va heap_page_step(2) [OF al True] by blast
      ultimately show ?thesis using ih(5) b(7) [OF va] by simp
    qed
    then have "heap_backed i (F(i div PAGE_SIZE := p)) st' (held_frames (phyMem st') - held_frames (phyMem st))"
      using b(4-6) ih(3) by (intro heap_backed_extend [OF ih(4) al True]) auto
    moreover have "translate st' va = translate st va" if "\<not> heap_page i va" "PAGEDIR_INDEX va \<noteq> 1023" for va
      using that ih(5) [of va] b(8) [of va] heap_page_step(1) [OF al True, of va] by auto
    moreover have "phys st' (cr3 st + 4 * j) = phys st (cr3 st + 4 * j)" if "j < 1024" "j \<notin> heap_dirs" for j
      using ih(7) [OF that] b(3) b(10) [OF that(1)] that(2) dir(1) by auto
    moreover have "cr3 st' = cr3 st" using ih(6) b(3) by simp
    ultimately show ?thesis using ih(2,3) b(6) by blast
  qed
qed

section \<open>The table for the first 4 MB\<close>

text \<open>The kernel sees its directory at \<open>pd\<close> through a 4 MB page other than the first.\<close>

definition directory_visible :: "u32 \<Rightarrow> vm \<Rightarrow> bool" where
  "directory_visible pd st \<longleftrightarrow> PAGEDIR_INDEX pd \<noteq> 0 \<and>
     table_frame st (PAGEDIR_INDEX pd) = None \<and> translate st pd = Some (cr3 st)"

lemma directory_visible_store:
  "directory_visible pd st \<Longrightarrow> directory_visible pd (store_at (cr3 st) w st)"
proof -
  assume v: "directory_visible pd st"
  have "4 * PAGEDIR_INDEX pd \<noteq> 4 * 0"
    using v index_offset_eq [OF PAGEDIR_INDEX_less, of 0 pd] by (auto simp: directory_visible_def)
  then have e: "phys (store_at (cr3 st) w st) (cr3 st + 4 * PAGEDIR_INDEX pd) = phys st (cr3 st + 4 * PAGEDIR_INDEX pd)"
    by simp
  have "translate (store_at (cr3 st) w st) pd = translate st pd"
    by (rule translate_cong) (use e v in \<open>auto simp: directory_visible_def\<close>)
  with v e show ?thesis by (simp add: directory_visible_def table_frame_def)
qed

lemma pde_store_visible:
  "directory_visible pd st \<Longrightarrow>
     pde_store pd f v st = Some (store_at (cr3 st) (pde_put f v (phys st (cr3 st))) st)"
  by (simp add: directory_visible_def pde_store_def vread_def vwrite_def store_at_def)

lemma install_low_table_spec:
  assumes sm: "self_mapped st" and vis: "directory_visible pd st"
    and al: "alloc_frame st = (p, st\<lparr>phyMem := fr\<rparr>)" and tc: "take_bit 20 p * 4096 \<noteq> cr3 st"
  obtains m where "install_low_table pd st = Some (st\<lparr>phys := m, phyMem := fr\<rparr>)"
    and "table_frame (st\<lparr>phys := m, phyMem := fr\<rparr>) 0 = Some (take_bit 20 p * 4096)"
    and "\<And>j. j < 1024 \<Longrightarrow> m (take_bit 20 p * 4096 + 4 * j) = 0"
    and "\<And>a. a \<noteq> cr3 st \<Longrightarrow> \<not> (\<exists>k<4096. a = take_bit 20 p * 4096 + k) \<Longrightarrow> m a = phys st a"
proof -
  let ?st1 = "st\<lparr>phyMem := fr\<rparr>" and ?t = "take_bit 20 p * 4096"
  define w where "w = pde_put PD_isUser 1 (pde_put PD_readWrite 1 (pde_put PD_present 1
    (pde_put PD_pageSize FOUR_KB (pde_put PD_frame p (phys st (cr3 st))))))"
  define st2 where "st2 = store_at (cr3 st) w ?st1"
  have v1: "directory_visible pd ?st1"
    using vis by (simp add: directory_visible_def table_frame_def translate_def)
  note v = directory_visible_store [OF v1, simplified]
  have sm1: "self_mapped ?st1" using sm by (simp add: self_mapped_def table_frame_def)
  then have sm2: "self_mapped st2"
    using self_mapped_store [OF sm1, of "cr3 st" 0] sm by (simp add: st2_def self_mapped_def)
  have w: "entry_table w = Some ?t"
    by (simp add: w_def entry_table_def pde_get_put FOUR_KB_def FOUR_MB_def)
  then have tf2: "table_frame st2 0 = Some ?t" by (simp add: st2_def table_frame_def)
  obtain m where m: "zero_table (window 0 0) st2 = Some (st2\<lparr>phys := m\<rparr>)"
    "\<And>j. j < 1024 \<Longrightarrow> m (?t + 4 * j) = 0"
    "\<And>a. \<not> (\<exists>k<4096. a = ?t + k) \<Longrightarrow> m a = phys st2 a"
    using zero_table_spec [OF sm2 tf2] tc by (auto simp: st2_def)
  have at: "4096 dvd unat ?t" by (rule entry_table_aligned [OF w])
  have "m (cr3 st) = phys st2 (cr3 st)"
    using page_offset_eq [of "cr3 st" ?t 0] sm at tc by (intro m(3)) (auto simp: self_mapped_def)
  then have "table_frame (st\<lparr>phys := m, phyMem := fr\<rparr>) 0 = Some ?t"
    using w by (simp add: table_frame_def st2_def)
  moreover have "GetPageTableAddress 0 = window 0 0"
    using GetPageTableAddress_window [of 0 0] by simp
  then have "install_low_table pd st = Some (st\<lparr>phys := m, phyMem := fr\<rparr>)"
    using m(1) v1 v by (simp add: install_low_table_def al pde_store_visible st2_def w_def store_at_def)
  moreover have "m a = phys st a" if "a \<noteq> cr3 st" "\<not> (\<exists>k<4096. a = ?t + k)" for a
    using m(3) [OF that(2)] that(1) by (simp add: st2_def)
  ultimately show ?thesis using that m(2) by blast
qed

lemma unat_low_table:
  fixes p :: u32
  assumes "4096 dvd unat p"
  shows "unat (take_bit 20 p * 4096) = unat p div 4096 mod 256 * 2 ^ 24"
proof -
  obtain q where q: "unat p = 4096 * q" using assms by (elim dvdE)
  have "unat (take_bit 20 p) = 4096 * q mod 2 ^ 20"
    unfolding unsigned_take_bit_eq q by (simp add: take_bit_eq_mod)
  also have "\<dots> = 4096 * (q mod 256)" using mult_mod_right [of 4096 q 256] by simp
  finally have "unat (take_bit 20 p) = 4096 * (q mod 256)" .
  moreover have "q mod 256 < 256" by simp
  ultimately have "unat (take_bit 20 p * 4096) = 4096 * (q mod 256) * 4096"
    by (simp add: unat_word_ariths)
  then show ?thesis by (simp add: q)
qed

section \<open>Properties\<close>

text \<open>A machine for the witnesses: the directory in frame 0, with only the entry that maps itself.\<close>

definition demo_vm :: "u32 \<Rightarrow> vm" where
  "demo_vm n = \<lparr>phys = (\<lambda>_. 0)(0xFFC := 3), cr3 = 0, phyMem = demo_phymem n\<rparr>"

lemma entry_table_0 [simp]: "entry_table 0 = None"
  by (simp add: entry_table_def pde_get_def get_bits_def)

lemma demo_table_frame: "i < 1024 \<Longrightarrow> table_frame (demo_vm n) i = (if i = 1023 then Some 0 else None)"
proof -
  assume i: "i < 1024"
  have "4 * i = 0xFFC \<longleftrightarrow> i = 1023" using index_offset_eq [OF i, of 1023] by simp
  moreover have "entry_table 3 = Some 0"
    by (simp add: entry_table_def pde_get_def get_bits_def FOUR_MB_def)
  ultimately show ?thesis by (auto simp: table_frame_def demo_vm_def)
qed

lemma demo_vm_ok: "1 < unat n \<Longrightarrow> unat n \<le> 2 ^ 20 \<Longrightarrow> vm_ok (demo_vm n)"
proof -
  assume n: "1 < unat n" "unat n \<le> 2 ^ 20"
  have "(0 :: u32) \<in> held_frames (demo_phymem n)"
    by (auto simp: held_frames_def intro!: image_eqI [of _ _ 0])
  then show ?thesis
    using accounted_demo [OF n] demo_table_frame [of _ n] unfolding vm_ok_def self_mapped_def
    by (auto simp: demo_vm_def split: if_splits)
qed

lemma demo_vm_free: "FreeBlocks (phyMem (demo_vm n)) = n - 1"
  by (simp add: demo_vm_def demo_phymem_def FreeBlocks_def)

text \<open>
  C27. The pointer \<open>GetPageForAddress\<close> returns is the entry the processor uses: through the
  recursive mapping it leads to the word of the page table that translates the address.
  Creating a missing table keeps the invariant and changes no translation outside the window.
\<close>

theorem GetPageForAddress_finds_entry:
  assumes "vm_ok st" and "can_map st virt"
  shows "\<exists>e st' t. GetPageForAddress virt True rw user st = Some (e, st') \<and> vm_ok st' \<and>
    translate st' e = Some (t + 4 * PAGETBL_INDEX virt) \<and>
    translate st' virt = (let pte = phys st' (t + 4 * PAGETBL_INDEX virt) in
      if pte_get PT_present pte = 0 then None else Some (pte_get PT_frame pte * 4096 + PAGEFRAME_INDEX virt)) \<and>
    (\<forall>va. PAGEDIR_INDEX va \<noteq> 1023 \<longrightarrow> translate st' va = translate st va)"
proof -
  obtain t st' where g:
    "GetPageForAddress virt True rw user st = Some (window (PAGEDIR_INDEX virt) (4 * PAGETBL_INDEX virt), st')"
    "vm_ok st'" "table_frame st' (PAGEDIR_INDEX virt) = Some t"
    "\<And>va. PAGEDIR_INDEX va \<noteq> 1023 \<Longrightarrow> translate st' va = translate st va"
    by (rule GetPageForAddress_create [OF assms, of rw user]) blast
  have "translate st' (window (PAGEDIR_INDEX virt) (4 * PAGETBL_INDEX virt)) = Some (t + 4 * PAGETBL_INDEX virt)"
    by (rule translate_window [OF vm_okD(1) [OF g(2)] g(3) PAGEDIR_INDEX_less index_offset(1) [OF PAGETBL_INDEX_less]])
  then show ?thesis using g(1,2,4) translate_table [OF g(3)] by blast
qed

lemma demo_can_map: "can_map (demo_vm 64) 0x40001234"
proof -
  have "PAGEDIR_INDEX 0x40001234 = 256" by (simp add: PAGEDIR_INDEX_def)
  then show ?thesis
    using demo_vm_free [of 64] by (simp add: can_map_def) (simp add: demo_vm_def pde_get_def get_bits_def)
qed

theorem GetPageForAddress_finds_entry_witness:
  "\<exists>e st'. GetPageForAddress 0x40001234 True True True (demo_vm 64) = Some (e, st') \<and> vm_ok st'"
  using GetPageForAddress_finds_entry [OF demo_vm_ok demo_can_map, of True True] by auto



text \<open>
  The loop of \<open>Init\<close> backs the whole kernel heap when enough frames are free: each of its
  4096 pages is mapped to a frame of its own, none of which was in use before, the loop ends
  without a fault, and no other translation outside the window changes.
\<close>

lemma Init_backs_kernel_heap:
  assumes "vm_ok st" and "heap_mappable st" and "4096 + card (missing_tables st) \<le> unat (FreeBlocks (phyMem st))"
  shows "\<exists>st' F. map_heap_from KERNEL_HEAP_START st = Some st' \<and> vm_ok st' \<and>
    heap_backed KERNEL_HEAP_START F st' (held_frames (phyMem st') - held_frames (phyMem st)) \<and>
    (\<forall>va. \<not> heap_page KERNEL_HEAP_START va \<longrightarrow> PAGEDIR_INDEX va \<noteq> 1023 \<longrightarrow>
       translate st' va = translate st va)"
proof -
  have "heap_loop_inv KERNEL_HEAP_START st"
    using assms unat_heap_end
    by (auto simp: heap_loop_inv_def KERNEL_HEAP_START_def word_le_nat_alt)
  from map_heap_from_spec [OF this] show ?thesis by blast
qed

theorem Init_backs_kernel_heap_witness:
  "\<exists>st' a. map_heap_from KERNEL_HEAP_START (demo_vm 5000) = Some st' \<and>
     translate st' 0xC0400000 = Some a \<and> a \<in> held_frames (phyMem st') - held_frames (demo_phymem 5000)"
proof -
  have ok: "vm_ok (demo_vm 5000)" by (rule demo_vm_ok) simp_all
  have m: "heap_mappable (demo_vm 5000)"
    unfolding heap_mappable_def
  proof
    fix d assume "d \<in> heap_dirs"
    then have "d < 1024" "d \<noteq> 1023" by (auto simp: heap_dirs_def word_le_nat_alt word_less_nat_alt)
    then have "4 * d \<noteq> 0xFFC" using index_offset_eq [of d 1023] by simp
    then show "table_frame (demo_vm 5000) d \<noteq> None \<or>
        pde_get PD_present (phys (demo_vm 5000) (cr3 (demo_vm 5000) + 4 * d)) = 0"
      by (simp add: demo_vm_def pde_get_def get_bits_def)
  qed
  have "missing_tables (demo_vm 5000) \<subseteq> {769, 770, 771, 772}"
    by (auto simp: missing_tables_def heap_dirs_def word_le_nat_alt word_unat_eq_iff)
  then have "card (missing_tables (demo_vm 5000)) \<le> card {769, 770, 771, 772 :: u32}"
    by (intro card_mono) simp_all
  then have "4096 + card (missing_tables (demo_vm 5000)) \<le> unat (FreeBlocks (phyMem (demo_vm 5000)))"
    by (simp add: demo_vm_free)
  from Init_backs_kernel_heap [OF ok m this] obtain st' F where
    "map_heap_from KERNEL_HEAP_START (demo_vm 5000) = Some st'"
    and b: "heap_backed KERNEL_HEAP_START F st' (held_frames (phyMem st') - held_frames (phyMem (demo_vm 5000)))"
    by blast
  moreover have "heap_page KERNEL_HEAP_START 0xC0400000"
    by (simp add: heap_page_def KERNEL_HEAP_START_def word_less_nat_alt unat_heap_end)
  ultimately show ?thesis
    by (auto simp: heap_backed_def PAGEFRAME_INDEX_def demo_vm_def)
qed

text \<open>
  The table for the first 4 MB is put in the wrong place. \<open>Init\<close> stores the byte address
  of the new frame in the 20-bit frame field, so the entry names the physical address
  16 MB * (frame number mod 256), never the frame that was allocated, and that memory is
  cleared although nobody allocated it.
\<close>

lemma Init_low_table_misplaced:
  assumes "self_mapped st" and "directory_visible pd st"
    and "alloc_frame st = (p, st\<lparr>phyMem := fr\<rparr>)" and "p \<noteq> 0" and "4096 dvd unat p"
    and "take_bit 20 p * 4096 \<noteq> cr3 st"
  shows "\<exists>st' t. install_low_table pd st = Some st' \<and> table_frame st' 0 = Some t \<and>
    unat t = unat p div 4096 mod 256 * 2 ^ 24 \<and> t \<noteq> p \<and> (\<forall>j<1024. phys st' (t + 4 * j) = 0)"
proof -
  let ?t = "take_bit 20 p * 4096"
  obtain m where m: "install_low_table pd st = Some (st\<lparr>phys := m, phyMem := fr\<rparr>)"
    "table_frame (st\<lparr>phys := m, phyMem := fr\<rparr>) 0 = Some ?t" "\<And>j. j < 1024 \<Longrightarrow> m (?t + 4 * j) = 0"
    by (rule install_low_table_spec [OF assms(1-3,6)]) blast
  have t: "unat ?t = unat p div 4096 mod 256 * 2 ^ 24" by (rule unat_low_table [OF assms(5)])
  have "?t \<noteq> p"
  proof
    assume eq: "?t = p"
    obtain q where q: "unat p = 4096 * q" using assms(5) by (elim dvdE)
    have e: "q = q mod 256 * 4096" using t unfolding eq q by simp
    then have "q = 256 * (q mod 256 * 16)" by simp
    then have "q mod 256 = 0" by (metis mod_mult_self1_is_0)
    then have "q = 0" using e by simp
    then show False using q assms(4) by (simp add: unat_eq_zero)
  qed
  with m t show ?thesis by (intro exI [of _ "st\<lparr>phys := m, phyMem := fr\<rparr>"] exI [of _ ?t]) auto
qed

theorem Init_low_table_misplaced_witness:
  "\<exists>st fr st'. alloc_frame st = (4096, st\<lparr>phyMem := fr\<rparr>) \<and> install_low_table 0xC0000000 st = Some st' \<and>
     table_frame st' 0 = Some 0x1000000"
proof -
  define st where "st = \<lparr>phys = (\<lambda>_. 0)(0xC00 := 0x83, 0xFFC := 3), cr3 = 0, phyMem = demo_phymem 64\<rparr>"
  obtain fr where fr: "alloc_frame st = (4096, st\<lparr>phyMem := fr\<rparr>)"
    using demo_first_frame by (auto simp: alloc_frame_def st_def)
  have "self_mapped st"
    by (simp add: self_mapped_def st_def table_frame_def entry_table_def pde_get_def get_bits_def FOUR_MB_def)
  moreover have "directory_visible 0xC0000000 st"
    by (simp add: directory_visible_def st_def table_frame_def entry_table_def translate_def page_walk_def
        PAGEDIR_INDEX_def pde_get_def get_bits_def FOUR_MB_def)
  moreover have "take_bit 20 (4096 :: u32) * 4096 \<noteq> cr3 st" by (simp add: st_def)
  moreover have "(4096 :: u32) \<noteq> 0" "4096 dvd unat (4096 :: u32)" by simp_all
  ultimately have "\<exists>st' t. install_low_table 0xC0000000 st = Some st' \<and> table_frame st' 0 = Some t \<and>
      unat t = unat (4096 :: u32) div 4096 mod 256 * 2 ^ 24 \<and> t \<noteq> 4096 \<and> (\<forall>j<1024. phys st' (t + 4 * j) = 0)"
    using fr by (intro Init_low_table_misplaced)
  then obtain st' t where t: "install_low_table 0xC0000000 st = Some st'" "table_frame st' 0 = Some t"
    "unat t = unat (4096 :: u32) div 4096 mod 256 * 2 ^ 24" by blast
  have "t = 0x1000000" by (rule word_nat_eqI) (simp add: t(3))
  with t fr show ?thesis by blast
qed

text \<open>
  Out of frames, \<open>GetPageForAddress\<close> does not notice that \<open>AllocateBlock\<close> returned null:
  it installs physical frame 0 as the page table, present, and clears it.
\<close>

lemma GetPageForAddress_out_of_memory:
  assumes "self_mapped st" and "PAGEDIR_INDEX virt < 1023" and "cr3 st \<noteq> 0"
    and "pde_get PD_present (phys st (cr3 st + 4 * PAGEDIR_INDEX virt)) = 0"
    and "FreeBlocks (phyMem st) = 0"
  shows "\<exists>e st'. GetPageForAddress virt True rw user st = Some (e, st') \<and>
    table_frame st' (PAGEDIR_INDEX virt) = Some 0 \<and> (\<forall>j<1024. phys st' (4 * j) = 0)"
proof -
  have al: "alloc_frame st = (0, st\<lparr>phyMem := phyMem st\<rparr>)"
    using assms(5) by (simp add: alloc_frame_def AllocateBlock_def)
  obtain m where m:
    "GetPageForAddress virt True rw user st = Some (window (PAGEDIR_INDEX virt) (4 * PAGETBL_INDEX virt),
       st\<lparr>phys := m, phyMem := phyMem st\<rparr>)"
    "m (cr3 st + 4 * PAGEDIR_INDEX virt) = table_pde 0 rw user (phys st (cr3 st + 4 * PAGEDIR_INDEX virt))"
    "\<And>j. j < 1024 \<Longrightarrow> m (0 + 4 * j) = 0"
    by (rule GetPageForAddress_fill [OF assms(1,2,4) al _ assms(3) [symmetric], of rw user]) (simp, blast)
  then show ?thesis using table_pde_fields(1) [of 0] by (auto simp: table_frame_def)
qed

theorem GetPageForAddress_out_of_memory_witness:
  "\<exists>st e st'. FreeBlocks (phyMem st) = 0 \<and> GetPageForAddress 0x40001234 True True False st = Some (e, st') \<and>
     table_frame st' 256 = Some 0"
proof -
  define st where "st = \<lparr>phys = (\<lambda>_. 0)(0x1FFC := 0x1003), cr3 = 0x1000, phyMem = demo_phymem 1\<rparr>"
  have "self_mapped st"
    by (simp add: self_mapped_def st_def table_frame_def entry_table_def pde_get_def get_bits_def FOUR_MB_def)
  moreover have "PAGEDIR_INDEX 0x40001234 = 256" by (simp add: PAGEDIR_INDEX_def)
  moreover have f: "FreeBlocks (phyMem st) = 0" by (simp add: st_def demo_phymem_def FreeBlocks_def)
  moreover have "cr3 st \<noteq> 0" "pde_get PD_present (phys st (cr3 st + 4 * 256)) = 0"
    by (simp_all add: st_def pde_get_def get_bits_def)
  ultimately have "\<exists>e st'. GetPageForAddress 0x40001234 True True False st = Some (e, st') \<and>
      table_frame st' 256 = Some 0"
    using GetPageForAddress_out_of_memory [of st "0x40001234" True False] by auto
  with f show ?thesis by blast
qed

end
