(* ===== verification/OS_Heap.thy ===== *)
theory OS_Heap
  imports OS_Linked OS_Virtmem
begin

unbundle bit_operations_syntax

section \<open>The kernel heap (mem/heap.h, mem/heap.cpp)\<close>

text \<open>
  The heap is a list of blocks in memory, each one a 20 byte \<open>MemoryHeader\<close> followed
  by its payload, linked both ways through the headers. The model keeps the headers
  where the code keeps them, in main memory: a field is the word at its offset in the
  packed struct, so a header can be overwritten by a write to a payload that covers it.

  Contents: the operations \<open>Initialize\<close>, \<open>FirstFree\<close>, \<open>InternalAllocate\<close> and
  \<open>free\<close>; the abstract heap, a list of blocks, with \<open>alloc_blocks\<close> and
  \<open>release\<close>; the representation \<open>heap_rep\<close> and the proof that the operations
  implement the abstract ones.
\<close>

subsection \<open>Data\<close>

definition MEMORY_HEADER_MAGIC :: u32 where "MEMORY_HEADER_MAGIC = 1234567890"

definition MINIMAL_SPLIT_SIZE :: u32 where "MINIMAL_SPLIT_SIZE = 4"

definition align_up :: "u32 \<Rightarrow> u32 \<Rightarrow> u32" where
  "align_up num align = (num + (align - 1)) AND NOT (align - 1)"

text \<open>The fields of the packed \<open>struct MemoryHeader\<close> and their offsets.\<close>

datatype MemoryHeader = H_magic | H_next | H_prev | H_allocated | H_size

fun offset :: "MemoryHeader \<Rightarrow> u32" where
  "offset H_magic = 0"
| "offset H_next = 4"
| "offset H_prev = 8"
| "offset H_allocated = 12"
| "offset H_size = 16"

definition sizeof_MemoryHeader :: u32 where "sizeof_MemoryHeader = 20"

definition hread :: "memory \<Rightarrow> u32 \<Rightarrow> MemoryHeader \<Rightarrow> u32" where
  "hread m a f = m (a + offset f)"

definition hwrite :: "u32 \<Rightarrow> MemoryHeader \<Rightarrow> u32 \<Rightarrow> memory \<Rightarrow> memory" where
  "hwrite a f v m = m(a + offset f := v)"

text \<open>The static members of \<open>class Heap\<close>, with the memory the headers live in.\<close>

record heap =
  startAddress :: u32
  endAddress :: u32
  firstHeader :: u32
  ram :: memory

text \<open>The messages after which the heap spins forever.\<close>

datatype heap_halt = StartOrEndNotAligned | OutOfHeapSpace | DoubleFreeDetected

subsection \<open>Operations\<close>

definition Initialize :: "u32 \<Rightarrow> u32 \<Rightarrow> heap \<Rightarrow> heap_halt + heap" where
  "Initialize start stop h =
     (if start mod PAGE_SIZE \<noteq> 0 \<or> stop mod PAGE_SIZE \<noteq> 0 then Inl StartOrEndNotAligned
      else let
        h = h\<lparr>startAddress := start, endAddress := stop\<rparr>;
        m = ram h;
        m = hwrite start H_allocated 0 m;
        m = hwrite start H_prev 0 m;
        m = hwrite start H_next 0 m;
        m = hwrite start H_size (stop - start - sizeof_MemoryHeader) m;
        m = hwrite start H_magic MEMORY_HEADER_MAGIC m
      in Inr (h\<lparr>firstHeader := start, ram := m\<rparr>))"

text \<open>The search follows the next pointers and may not end on a cyclic list.\<close>

partial_function (option) FirstFree_from :: "memory \<Rightarrow> u32 \<Rightarrow> u32 \<Rightarrow> u32 option" where
  "FirstFree_from m block sz =
     (if block \<noteq> 0 \<and> hread m block H_magic = MEMORY_HEADER_MAGIC
      then if hread m block H_allocated \<noteq> 0 \<or> hread m block H_size < sz
        then FirstFree_from m (hread m block H_next) sz
        else Some block
      else Some 0)"

definition FirstFree :: "u32 \<Rightarrow> heap \<Rightarrow> u32 option" where
  "FirstFree sz h = FirstFree_from (ram h) (firstHeader h) sz"

text \<open>The writes that cut the remainder off a free block, in the order of the code.\<close>

definition split_block :: "u32 \<Rightarrow> u32 \<Rightarrow> memory \<Rightarrow> memory" where
  "split_block freeBlock sz m = (let
     nextBlock = freeBlock + sz + sizeof_MemoryHeader;
     m = hwrite nextBlock H_allocated 0 m;
     m = hwrite nextBlock H_size (hread m freeBlock H_size - sz - sizeof_MemoryHeader) m;
     m = hwrite nextBlock H_prev freeBlock m;
     m = hwrite nextBlock H_next (hread m freeBlock H_next) m;
     m = (if hread m freeBlock H_next \<noteq> 0
          then hwrite (hread m freeBlock H_next) H_prev nextBlock m else m);
     m = hwrite nextBlock H_magic MEMORY_HEADER_MAGIC m
   in hwrite freeBlock H_next nextBlock m)"

definition InternalAllocate :: "u32 \<Rightarrow> heap \<Rightarrow> (heap_halt + u32 \<times> heap) option" where
  "InternalAllocate sz h = (let sz = align_up sz 4 in do {
     freeBlock \<leftarrow> FirstFree sz h;
     Some (if freeBlock = 0 then Inl OutOfHeapSpace
       else let
         m = ram h;
         m = (if sz + sizeof_MemoryHeader + MINIMAL_SPLIT_SIZE \<le> hread m freeBlock H_size
              then split_block freeBlock sz m else m);
         m = hwrite freeBlock H_allocated 1 m;
         m = hwrite freeBlock H_size sz m
       in Inr (freeBlock + sizeof_MemoryHeader, h\<lparr>ram := m\<rparr>))
   })"

definition merge_prev :: "u32 \<Rightarrow> memory \<Rightarrow> memory \<times> u32" where
  "merge_prev block m =
     (if hread m block H_prev \<noteq> 0 \<and> hread m (hread m block H_prev) H_allocated = 0
      then let
        m = hwrite (hread m block H_prev) H_next (hread m block H_next) m;
        m = hwrite (hread m block H_prev) H_size
              (hread m (hread m block H_prev) H_size +
                (hread m block H_size + sizeof_MemoryHeader)) m;
        m = (if hread m block H_next \<noteq> 0
             then hwrite (hread m block H_next) H_prev (hread m block H_prev) m else m)
      in (m, hread m block H_prev)
      else (m, block))"

definition merge_next :: "u32 \<Rightarrow> memory \<Rightarrow> memory" where
  "merge_next block m =
     (if hread m block H_next \<noteq> 0 \<and> hread m (hread m block H_next) H_allocated = 0
      then let
        m = hwrite block H_size
              (hread m block H_size +
                (hread m (hread m block H_next) H_size + sizeof_MemoryHeader)) m;
        m = hwrite block H_next (hread m (hread m block H_next) H_next) m
      in (if hread m block H_next \<noteq> 0
          then hwrite (hread m block H_next) H_prev block m else m)
      else m)"

definition heap_free :: "u32 \<Rightarrow> heap \<Rightarrow> heap_halt + heap" where
  "heap_free ptr h = (let block = ptr - sizeof_MemoryHeader; m = ram h in
     if hread m block H_magic \<noteq> MEMORY_HEADER_MAGIC \<or> hread m block H_allocated = 0
     then Inl DoubleFreeDetected
     else let
       m = hwrite block H_allocated 0 m;
       (m, block) = merge_prev block m;
       m = merge_next block m
     in Inr (h\<lparr>ram := m\<rparr>))"

subsection \<open>The abstract heap\<close>

datatype blk = Blk (badr: u32) (bused: bool) (bsize: u32)

fun alloc_blocks :: "u32 \<Rightarrow> blk list \<Rightarrow> (u32 \<times> blk list) option" where
  "alloc_blocks n [] = None"
| "alloc_blocks n (b # bs) =
     (if bused b \<or> bsize b < n
      then map_option (\<lambda>(p, bs'). (p, b # bs')) (alloc_blocks n bs)
      else Some (badr b + 20,
        if n + 24 \<le> bsize b
        then Blk (badr b) True n # Blk (badr b + n + 20) False (bsize b - n - 20) # bs
        else Blk (badr b) True n # bs))"

fun absorb :: "blk \<Rightarrow> blk list \<Rightarrow> blk list" where
  "absorb b [] = [b]"
| "absorb b (c # cs) =
     (if bused c then b # c # cs
      else Blk (badr b) (bused b) (bsize b + (bsize c + 20)) # cs)"

fun release :: "u32 \<Rightarrow> blk list \<Rightarrow> blk list" where
  "release a [] = []"
| "release a [b] = (if badr b = a then [Blk a False (bsize b)] else [b])"
| "release a (b # c # cs) =
     (if badr b = a then absorb (Blk a False (bsize b)) (c # cs)
      else if badr c = a \<and> \<not> bused b
      then absorb (Blk (badr b) False (bsize b + (bsize c + 20))) cs
      else b # release a (c # cs))"

fun coalesced :: "blk list \<Rightarrow> bool" where
  "coalesced (b # c # bs) \<longleftrightarrow> (bused b \<or> bused c) \<and> coalesced (c # bs)"
| "coalesced _ \<longleftrightarrow> True"

text \<open>
  The blocks lie between \<open>lo\<close> and \<open>hi\<close> in ascending order without overlap. A block
  handed out whole keeps only the size that was asked for, so there may be gaps.
\<close>

fun laid_out :: "nat \<Rightarrow> blk list \<Rightarrow> nat \<Rightarrow> bool" where
  "laid_out lo [] hi \<longleftrightarrow> lo \<le> hi"
| "laid_out lo (b # bs) hi \<longleftrightarrow>
     lo \<le> unat (badr b) \<and> 4 dvd unat (badr b) \<and> 4 dvd unat (bsize b) \<and>
     laid_out (unat (badr b) + 20 + unat (bsize b)) bs hi"

definition block_in :: "memory \<Rightarrow> blk \<Rightarrow> bool" where
  "block_in m b \<longleftrightarrow> hread m (badr b) H_magic = MEMORY_HEADER_MAGIC \<and>
     hread m (badr b) H_allocated = (if bused b then 1 else 0) \<and> hread m (badr b) H_size = bsize b"

definition heap_rep :: "memory \<Rightarrow> nat \<Rightarrow> blk list \<Rightarrow> nat \<Rightarrow> bool" where
  "heap_rep m lo bs hi \<longleftrightarrow>
     dseg (\<lambda>a. hread m a H_next) (\<lambda>a. hread m a H_prev) 0 (map badr bs) 0 \<and>
     (\<forall>b\<in>set bs. block_in m b) \<and> laid_out lo bs hi \<and> 0 < lo \<and> hi < 2 ^ 32"

definition heap_ok :: "heap \<Rightarrow> blk list \<Rightarrow> bool" where
  "heap_ok h bs \<longleftrightarrow> bs \<noteq> [] \<and> firstHeader h = startAddress h \<and> badr (hd bs) = startAddress h \<and>
     heap_rep (ram h) (unat (startAddress h)) bs (unat (endAddress h)) \<and> coalesced bs"

subsection \<open>Reading fields after writes\<close>

definition apart :: "u32 \<Rightarrow> u32 \<Rightarrow> bool" where
  "apart a b \<longleftrightarrow> unat a + 20 \<le> 2 ^ 32 \<and> unat b + 20 \<le> 2 ^ 32 \<and>
     (unat a + 20 \<le> unat b \<or> unat b + 20 \<le> unat a)"

lemma apart_sym: "apart a b \<Longrightarrow> apart b a"
  by (auto simp: apart_def)

lemma apart_neq: "apart a b \<Longrightarrow> a \<noteq> b"
  by (auto simp: apart_def)

lemma unat_offset: "unat (offset f) < 20"
  by (cases f) simp_all

lemma offset_inject [simp]: "offset f = offset g \<longleftrightarrow> f = g"
  by (cases f; cases g) simp_all

lemma unat_field: "unat a + 20 \<le> 2 ^ 32 \<Longrightarrow> unat (a + offset f) = unat a + unat (offset f)"
  using unat_offset [of f] by (intro unat_plus_le) simp

lemma field_apart:
  assumes "apart a b" shows "a + offset f \<noteq> b + offset g"
proof
  assume "a + offset f = b + offset g"
  then have "unat (a + offset f) = unat (b + offset g)" by simp
  with assms unat_offset [of f] unat_offset [of g] show False
    by (auto simp: apart_def unat_field)
qed

lemma hread_hwrite_same [simp]:
  "hread (hwrite a f v m) a g = (if f = g then v else hread m a g)"
  by (auto simp: hread_def hwrite_def)

lemma hread_hwrite_apart [simp]: "apart a b \<Longrightarrow> hread (hwrite a f v m) b g = hread m b g"
  using field_apart [of b a g f] by (simp add: hread_def hwrite_def apart_sym)

text \<open>Words outside a header.\<close>

definition off_header :: "u32 \<Rightarrow> u32 \<Rightarrow> bool" where
  "off_header a b \<longleftrightarrow> (\<forall>f. a \<noteq> b + offset f)"

lemma hwrite_off [simp]: "off_header a b \<Longrightarrow> hwrite b f v m a = m a"
  by (simp add: off_header_def hwrite_def)

lemma hread_hwrite:
  "a = b \<or> apart a b \<Longrightarrow> hread (hwrite a f v m) b g = (if a = b \<and> f = g then v else hread m b g)"
  by (auto dest: apart_neq)

subsection \<open>Layout\<close>

lemma laid_out_append:
  "laid_out lo (xs @ ys) hi \<longleftrightarrow> (\<exists>mid. laid_out lo xs mid \<and> laid_out mid ys hi)"
proof (induction xs arbitrary: lo)
  case Nil
  have "laid_out lo ys hi" if "lo \<le> mid" "laid_out mid ys hi" for mid
    using that by (cases ys) auto
  then show ?case by auto
qed auto

lemma laid_out_le: "laid_out lo bs hi \<Longrightarrow> lo \<le> hi"
  by (induction bs arbitrary: lo) fastforce+

lemma laid_out_block:
  assumes "laid_out lo bs hi" and "b \<in> set bs"
  shows "lo \<le> unat (badr b)" and "unat (badr b) + 20 + unat (bsize b) \<le> hi"
    and "4 dvd unat (badr b)" and "4 dvd unat (bsize b)"
proof -
  have "lo \<le> unat (badr b) \<and> unat (badr b) + 20 + unat (bsize b) \<le> hi \<and>
    4 dvd unat (badr b) \<and> 4 dvd unat (bsize b)"
    using assms
  proof (induction bs arbitrary: lo)
    case (Cons a bs)
    show ?case
    proof (cases "b \<in> set bs")
      case True
      with Cons.IH [of "unat (badr a) + 20 + unat (bsize a)"] Cons.prems show ?thesis by simp
    next
      case False
      with Cons.prems show ?thesis by (auto dest: laid_out_le)
    qed
  qed simp
  then show "lo \<le> unat (badr b)" and "unat (badr b) + 20 + unat (bsize b) \<le> hi"
    and "4 dvd unat (badr b)" and "4 dvd unat (bsize b)"
    by auto
qed

text \<open>Two blocks of the heap: the earlier one ends before the later one starts.\<close>

lemma laid_out_sorted:
  "laid_out lo bs hi \<Longrightarrow>
     sorted_wrt (\<lambda>b c. unat (badr b) + 20 + unat (bsize b) \<le> unat (badr c)) bs"
  by (induction bs arbitrary: lo) (auto dest: laid_out_block(1))

lemma laid_out_order:
  assumes "laid_out lo bs hi" and "b \<in> set bs" and "c \<in> set bs"
  shows "c = b \<or> unat (badr c) + 20 + unat (bsize c) \<le> unat (badr b) \<or>
    unat (badr b) + 20 + unat (bsize b) \<le> unat (badr c)"
proof -
  obtain xs ys where "bs = xs @ b # ys" using assms(2) by (auto simp: in_set_conv_decomp)
  then show ?thesis
    using laid_out_sorted [OF assms(1)] assms(3) by (auto simp: sorted_wrt_append)
qed

lemma laid_out_apart:
  assumes "laid_out lo (xs @ b # ys) hi" and "hi < 2 ^ 32" and "c \<in> set xs \<union> set ys"
  shows "apart (badr b) (badr c)"
proof -
  have "unat (badr c) + 20 + unat (bsize c) \<le> unat (badr b) \<or>
    unat (badr b) + 20 + unat (bsize b) \<le> unat (badr c)"
    using laid_out_sorted [OF assms(1)] assms(3) by (auto simp: sorted_wrt_append)
  then show ?thesis
    using laid_out_block(2) [OF assms(1), of b] laid_out_block(2) [OF assms(1), of c] assms(2,3)
    by (auto simp: apart_def)
qed

lemma laid_out_pair:
  assumes "laid_out lo bs hi" and "hi < 2 ^ 32" and "a \<in> set (map badr bs)" and "c \<in> set (map badr bs)"
  shows "a = c \<or> apart a c"
proof -
  from assms(3) obtain b where b: "b \<in> set bs" "a = badr b" by auto
  then obtain xs ys where bs: "bs = xs @ b # ys" by (auto simp: in_set_conv_decomp)
  show ?thesis
    using assms b laid_out_apart [of lo xs b ys hi] unfolding bs by auto
qed

lemma laid_out_distinct:
  assumes "laid_out lo bs hi"
  shows "distinct (map badr bs)"
  using laid_out_sorted [OF assms]
  by (induction bs) (force dest: arg_cong [of _ _ unat])+

lemma laid_out_nonzero: "laid_out lo bs hi \<Longrightarrow> 0 < lo \<Longrightarrow> 0 \<notin> set (map badr bs)"
  using laid_out_block(1) by force

subsection \<open>Searching for a free block\<close>

lemma FirstFree_find:
  assumes "dseg (\<lambda>a. hread m a H_next) pv p (map badr bs) 0"
    and "\<And>b. b \<in> set bs \<Longrightarrow> block_in m b" and "0 \<notin> set (map badr bs)"
  shows "FirstFree_from m (hd_or (map badr bs) 0) n =
    Some (case find (\<lambda>b. \<not> bused b \<and> n \<le> bsize b) bs of None \<Rightarrow> 0 | Some b \<Rightarrow> badr b)"
  using assms
proof (induction bs arbitrary: p)
  case Nil
  then show ?case by (subst FirstFree_from.simps) simp
next
  case (Cons b bs)
  have b: "block_in m b" "badr b \<noteq> 0" "hread m (badr b) H_next = hd_or (map badr bs) 0"
    using Cons.prems by auto
  have "FirstFree_from m (hd_or (map badr bs) 0) n =
    Some (case find (\<lambda>b. \<not> bused b \<and> n \<le> bsize b) bs of None \<Rightarrow> 0 | Some b \<Rightarrow> badr b)"
    using Cons.prems by (intro Cons.IH [of "badr b"]) auto
  with b show ?case
    by (subst FirstFree_from.simps) (auto simp: block_in_def not_less)
qed

lemma FirstFree_refines:
  assumes "heap_ok h bs"
  shows "FirstFree n h =
    Some (case find (\<lambda>b. \<not> bused b \<and> n \<le> bsize b) bs of None \<Rightarrow> 0 | Some b \<Rightarrow> badr b)"
proof -
  have "hd_or (map badr bs) 0 = firstHeader h"
    using assms by (cases bs) (auto simp: heap_ok_def)
  with assms FirstFree_find [of "ram h" "\<lambda>a. hread (ram h) a H_prev" 0 bs n]
    laid_out_nonzero [of "unat (startAddress h)" bs "unat (endAddress h)"]
  show ?thesis
    by (simp add: FirstFree_def heap_ok_def heap_rep_def)
qed

lemma alloc_blocks_None:
  "alloc_blocks n bs = None \<longleftrightarrow> find (\<lambda>b. \<not> bused b \<and> n \<le> bsize b) bs = None"
  by (induction bs) (auto simp: not_less)

lemma alloc_blocks_Some:
  assumes "find (\<lambda>b. \<not> bused b \<and> n \<le> bsize b) bs = Some b"
  obtains xs ys where "bs = xs @ b # ys" and "\<not> bused b" and "n \<le> bsize b"
    and "\<forall>x\<in>set xs. bused x \<or> bsize x < n"
    and "alloc_blocks n bs = Some (badr b + 20, xs @ (if n + 24 \<le> bsize b
        then Blk (badr b) True n # Blk (badr b + n + 20) False (bsize b - n - 20) # ys
        else Blk (badr b) True n # ys))"
proof -
  have "\<exists>xs ys. bs = xs @ b # ys \<and> \<not> bused b \<and> n \<le> bsize b \<and>
    (\<forall>x\<in>set xs. bused x \<or> bsize x < n) \<and>
    alloc_blocks n bs = Some (badr b + 20, xs @ (if n + 24 \<le> bsize b
        then Blk (badr b) True n # Blk (badr b + n + 20) False (bsize b - n - 20) # ys
        else Blk (badr b) True n # ys))"
    using assms
  proof (induction bs)
    case (Cons c cs)
    show ?case
    proof (cases "bused c \<or> bsize c < n")
      case True
      with Cons.prems have "find (\<lambda>b. \<not> bused b \<and> n \<le> bsize b) cs = Some b"
        by (auto simp: not_less split: if_splits)
      from Cons.IH [OF this] obtain xs ys where "cs = xs @ b # ys \<and> \<not> bused b \<and> n \<le> bsize b \<and>
        (\<forall>x\<in>set xs. bused x \<or> bsize x < n) \<and>
        alloc_blocks n cs = Some (badr b + 20, xs @ (if n + 24 \<le> bsize b
          then Blk (badr b) True n # Blk (badr b + n + 20) False (bsize b - n - 20) # ys
          else Blk (badr b) True n # ys))"
        by blast
      with True show ?thesis by (intro exI [of _ "c # xs"] exI [of _ ys]) auto
    next
      case False
      with Cons.prems show ?thesis by (intro exI [of _ "[]"] exI [of _ cs]) (auto simp: not_less)
    qed
  qed simp
  then show thesis using that by blast
qed

subsection \<open>Changing the representation\<close>

lemma laid_out_mono: "laid_out lo bs hi \<Longrightarrow> lo' \<le> lo \<Longrightarrow> laid_out lo' bs hi"
  by (cases bs) auto

lemma heap_rep_cong:
  assumes "heap_rep m lo bs hi" and "map badr bs' = map badr bs" and "laid_out lo bs' hi"
    and "\<And>b. b \<in> set bs' \<Longrightarrow> block_in m' b"
    and "\<And>a. a \<in> set (map badr bs) \<Longrightarrow> hread m' a H_next = hread m a H_next"
    and "\<And>a. a \<in> set (map badr bs) \<Longrightarrow> hread m' a H_prev = hread m a H_prev"
  shows "heap_rep m' lo bs' hi"
proof -
  have "dseg (\<lambda>a. hread m' a H_next) (\<lambda>a. hread m' a H_prev) 0 (map badr bs') 0"
    unfolding assms(2)
    by (rule dseg_cong [of "\<lambda>a. hread m a H_next" "\<lambda>a. hread m a H_prev"])
      (use assms in \<open>auto simp: heap_rep_def\<close>)
  with assms show ?thesis by (auto simp: heap_rep_def)
qed

lemma laid_out_resize:
  assumes "laid_out lo (xs @ b # ys) hi" and "n \<le> bsize b" and "4 dvd unat n"
  shows "laid_out lo (xs @ Blk (badr b) u n # ys) hi"
proof -
  have "laid_out (unat (badr b) + 20 + unat n) ys hi"
    if "laid_out (unat (badr b) + 20 + unat (bsize b)) ys hi"
    using laid_out_mono [OF that] assms(2) by (simp add: word_le_nat_alt)
  with assms show ?thesis by (auto simp: laid_out_append)
qed

lemma heap_rep_neighbours:
  assumes "heap_rep m lo (xs @ b # ys) hi"
  shows "hread m (badr b) H_next = hd_or (map badr ys) 0"
    and "hread m (badr b) H_prev = last_or (map badr xs) 0"
    and "block_in m b"
  using assms dseg_middle [of _ _ 0 "map badr xs" "badr b" "map badr ys" 0]
  by (auto simp: heap_rep_def)

text \<open>Handing out a block whole, or freeing one without merging.\<close>

lemma heap_rep_set_used:
  assumes rep: "heap_rep m lo (xs @ b # ys) hi" and n: "n \<le> bsize b" "4 dvd unat n"
  shows "heap_rep (hwrite (badr b) H_size n (hwrite (badr b) H_allocated (if u then 1 else 0) m))
           lo (xs @ Blk (badr b) u n # ys) hi" (is "heap_rep ?m lo _ hi")
proof (rule heap_rep_cong [OF rep])
  have ap: "apart (badr b) (badr c)" if "c \<in> set xs \<union> set ys" for c
    using rep that laid_out_apart by (auto simp: heap_rep_def)
  show "laid_out lo (xs @ Blk (badr b) u n # ys) hi"
    using rep n by (auto simp: heap_rep_def intro: laid_out_resize)
  show "block_in ?m c" if "c \<in> set (xs @ Blk (badr b) u n # ys)" for c
    using that rep ap by (auto simp: heap_rep_def block_in_def)
  show "hread ?m a H_next = hread m a H_next" if "a \<in> set (map badr (xs @ b # ys))" for a
    using that ap by auto
  show "hread ?m a H_prev = hread m a H_prev" if "a \<in> set (map badr (xs @ b # ys))" for a
    using that ap by auto
qed simp

text \<open>What \<open>split_block\<close> leaves in the headers; it writes no other word.\<close>

lemma split_block_memory:
  assumes "nx = hread m fb H_next" and "nb = fb + n + 20" and "apart fb nb"
  shows "split_block fb n m = hwrite fb H_next nb (hwrite nb H_magic MEMORY_HEADER_MAGIC
     ((if nx \<noteq> 0 then hwrite nx H_prev nb else id) (hwrite nb H_next nx (hwrite nb H_prev fb
       (hwrite nb H_size (hread m fb H_size - n - 20) (hwrite nb H_allocated 0 m))))))"
  using apart_sym [OF assms(3)]
  unfolding split_block_def Let_def sizeof_MemoryHeader_def assms(2) [symmetric]
  by (simp add: assms(1) [symmetric])

lemma split_block_reads:
  assumes nx: "nx = hread m fb H_next" and nb: "nb = fb + n + 20" and "apart fb nb"
    and "nx \<noteq> 0 \<Longrightarrow> apart fb nx \<and> apart nb nx"
    and "a = fb \<or> apart fb a" and "a = nb \<or> apart nb a" and "nx \<noteq> 0 \<Longrightarrow> a = nx \<or> apart nx a"
  shows "hread (split_block fb n m) a f =
    (if a = fb \<and> f = H_next then nb
     else if a = nb then (case f of H_magic \<Rightarrow> MEMORY_HEADER_MAGIC | H_next \<Rightarrow> nx | H_prev \<Rightarrow> fb
       | H_allocated \<Rightarrow> 0 | H_size \<Rightarrow> hread m fb H_size - n - 20)
     else if nx \<noteq> 0 \<and> a = nx \<and> f = H_prev then nb else hread m a f)"
proof -
  have [simp]: "apart nb fb" using assms(3) by (rule apart_sym)
  have ne [simp]: "fb \<noteq> nb" "nb \<noteq> fb" using assms(3) by (auto dest: apart_neq)
  have nxne: "nx \<noteq> 0 \<Longrightarrow> fb \<noteq> nx \<and> nb \<noteq> nx \<and> nx \<noteq> fb \<and> nx \<noteq> nb \<and> apart nx fb \<and> apart nx nb"
    using assms(4) by (auto dest: apart_neq intro: apart_sym)
  note sb = split_block_memory [OF nx nb assms(3)]
  show ?thesis
    using assms(3-) nxne unfolding sb
    by (cases "nx = 0"; cases f) (auto simp: hread_hwrite)
qed

lemma split_arith:
  assumes "heap_rep m lo (xs @ b # ys) hi" and "n \<le> bsize b" and "n + 24 \<le> bsize b"
  shows "unat n + 24 \<le> unat (bsize b)"
    and "unat (badr b + n + 20) = unat (badr b) + unat n + 20"
    and "unat (bsize b - n - 20) = unat (bsize b) - unat n - 20"
proof -
  have lay: "laid_out lo (xs @ b # ys) hi" and lo: "0 < lo" and hi: "hi < 2 ^ 32"
    using assms(1) by (auto simp: heap_rep_def)
  have b: "lo \<le> unat (badr b)" "unat (badr b) + 20 + unat (bsize b) \<le> hi" "4 dvd unat (badr b)"
    using laid_out_block [OF lay, of b] by auto
  have "4 \<le> unat (badr b)" using b(1,3) lo by (intro dvd_imp_le) auto
  then have sz: "unat (bsize b) + 24 < 2 ^ 32" using b(2) hi by simp
  have n: "unat n \<le> unat (bsize b)" using assms(2) by (simp add: word_le_nat_alt)
  have "unat (n + 24) = unat n + 24"
    using n sz by (subst unat_plus_le) auto
  with assms(3) show 1: "unat n + 24 \<le> unat (bsize b)" by (simp add: word_le_nat_alt)
  have an: "unat (badr b + n) = unat (badr b) + unat n"
    using 1 b(2) hi by (intro unat_plus_le) simp
  then show "unat (badr b + n + 20) = unat (badr b) + unat n + 20"
    using 1 b(2) hi by (subst unat_plus_le) auto
  have "unat (bsize b - n) = unat (bsize b) - unat n"
    using assms(2) by (rule unat_minus_le)
  then show "unat (bsize b - n - 20) = unat (bsize b) - unat n - 20"
    using 1 by (subst unat_minus_le) (auto simp: word_le_nat_alt)
qed

lemma laid_out_split:
  assumes rep: "heap_rep m lo (xs @ b # ys) hi" and n: "n \<le> bsize b" "n + 24 \<le> bsize b" "4 dvd unat n"
  shows "laid_out lo (xs @ Blk (badr b) True n #
           Blk (badr b + n + 20) False (bsize b - n - 20) # ys) hi"
proof -
  have lay: "laid_out lo (xs @ b # ys) hi" using rep by (simp add: heap_rep_def)
  note ar = split_arith [OF rep n(1,2)]
  from lay obtain mid where mid: "laid_out lo xs mid" "mid \<le> unat (badr b)" "4 dvd unat (badr b)"
    "4 dvd unat (bsize b)" "laid_out (unat (badr b) + 20 + unat (bsize b)) ys hi"
    by (auto simp: laid_out_append)
  have "4 dvd unat (badr b) + unat n + 20" using mid(3) n(3) by (simp add: dvd_add)
  moreover have "4 dvd unat (bsize b) - unat n - 20" using mid(4) n(3) by (simp add: dvd_diff_nat)
  moreover have "laid_out (unat (badr b) + unat n + 20 + 20 + (unat (bsize b) - unat n - 20)) ys hi"
  proof -
    have "unat (badr b) + unat n + 20 + 20 + (unat (bsize b) - unat n - 20)
      = unat (badr b) + 20 + unat (bsize b)" using ar(1) by simp
    then show ?thesis by (simp only: mid(5))
  qed
  ultimately have "laid_out mid (Blk (badr b) True n #
    Blk (badr b + n + 20) False (bsize b - n - 20) # ys) hi"
    using mid(2,3) n(3) by (simp add: ar(2,3))
  with mid(1) show ?thesis by (auto simp: laid_out_append)
qed

lemma heap_rep_split:
  assumes rep: "heap_rep m lo (xs @ b # ys) hi" and n: "n \<le> bsize b" "n + 24 \<le> bsize b" "4 dvd unat n"
  shows "heap_rep (hwrite (badr b) H_size n (hwrite (badr b) H_allocated 1 (split_block (badr b) n m)))
           lo (xs @ Blk (badr b) True n # Blk (badr b + n + 20) False (bsize b - n - 20) # ys) hi"
    (is "heap_rep ?m lo ?new hi")
proof -
  let ?fb = "badr b" and ?nb = "badr b + n + 20" and ?nx = "hread m (badr b) H_next"
  have lay: "laid_out lo ?new hi" using rep n by (rule laid_out_split)
  have hi: "hi < 2 ^ 32" "0 < lo" using rep by (auto simp: heap_rep_def)
  note nbs = heap_rep_neighbours [OF rep]
  have pair: "a = c \<or> apart a c" if "a \<in> set (map badr ?new)" "c \<in> set (map badr ?new)" for a c
    by (rule laid_out_pair [OF lay hi(1) that])
  have dist: "distinct (map badr ?new)" by (rule laid_out_distinct [OF lay])
  have fn: "apart ?fb ?nb" using pair [of ?fb ?nb] dist by simp
  have nx: "?nx \<noteq> 0 \<Longrightarrow> ?nx \<in> set (map badr ?new) \<and> ?nx \<noteq> ?fb \<and> ?nx \<noteq> ?nb"
    using nbs(1) dist by (cases ys) auto
  have reads: "hread ?m a f =
    (if a = ?fb \<and> f = H_size then n else if a = ?fb \<and> f = H_allocated then 1
     else if a = ?fb \<and> f = H_next then ?nb
     else if a = ?nb then (case f of H_magic \<Rightarrow> MEMORY_HEADER_MAGIC | H_next \<Rightarrow> ?nx | H_prev \<Rightarrow> ?fb
       | H_allocated \<Rightarrow> 0 | H_size \<Rightarrow> bsize b - n - 20)
     else if ?nx \<noteq> 0 \<and> a = ?nx \<and> f = H_prev then ?nb else hread m a f)"
    if a: "a \<in> set (map badr ?new)" for a f
  proof -
    have 1: "?fb = a \<or> apart ?fb a" by (rule pair [OF _ a]) simp
    have 2: "a = ?nb \<or> apart ?nb a" using pair [OF _ a, of ?nb] by auto
    have 3: "a = ?nx \<or> apart ?nx a" if "?nx \<noteq> 0" using pair [OF _ a, of ?nx] nx that by auto
    have 4: "?nx \<noteq> 0 \<Longrightarrow> apart ?fb ?nx \<and> apart ?nb ?nx"
      using pair [of ?fb ?nx] pair [of ?nb ?nx] nx by auto
    have hsz: "hread m ?fb H_size = bsize b" using nbs(3) by (simp add: block_in_def)
    have sp: "hread (split_block ?fb n m) a f =
      (if a = ?fb \<and> f = H_next then ?nb
       else if a = ?nb then (case f of H_magic \<Rightarrow> MEMORY_HEADER_MAGIC | H_next \<Rightarrow> ?nx | H_prev \<Rightarrow> ?fb
         | H_allocated \<Rightarrow> 0 | H_size \<Rightarrow> bsize b - n - 20)
       else if ?nx \<noteq> 0 \<and> a = ?nx \<and> f = H_prev then ?nb else hread m a f)"
      by (rule split_block_reads [OF refl refl fn 4 _ 2 3, unfolded hsz]) (use 1 in auto)
    show ?thesis
    proof (cases "?fb = a")
      case True
      then show ?thesis using sp by (cases f) simp_all
    next
      case False
      with 1 have "apart ?fb a" by simp
      with False sp show ?thesis by simp
    qed
  qed
  let ?A = "map badr xs @ [?fb]" and ?B = "map badr ys"
  have nz: "0 \<notin> set (map badr ?new)" by (rule laid_out_nonzero [OF lay hi(2)])
  have nx0: "?nx \<noteq> 0 \<longleftrightarrow> ?B \<noteq> []" "?B \<noteq> [] \<Longrightarrow> ?nx = hd ?B"
    using nbs(1) nz by (cases ys; simp)+
  have "dseg (\<lambda>a. hread m a H_next) (\<lambda>a. hread m a H_prev) 0 (?A @ ?B) 0"
    using rep by (simp add: heap_rep_def)
  then have "dseg (link_nx ?A ?nb ((\<lambda>a. hread m a H_next)(?nb := ?nx)))
    (link_pv ?B ?nb ((\<lambda>a. hread m a H_prev)(?nb := ?fb))) 0 (?A @ ?nb # ?B) 0"
    using dseg_link_insert [of _ _ 0 ?A ?B 0 ?nb] dist by (simp add: nbs(1))
  then have "dseg (\<lambda>a. hread ?m a H_next) (\<lambda>a. hread ?m a H_prev) 0 (?A @ ?nb # ?B) 0"
  proof (rule dseg_cong)
    fix a assume "a \<in> set (?A @ ?nb # ?B)"
    then have a: "a \<in> set (map badr ?new)" by simp
    show "hread ?m a H_next = link_nx ?A ?nb ((\<lambda>a. hread m a H_next)(?nb := ?nx)) a"
      using reads [OF a, of H_next] by (simp add: link_nx_def)
    have "?B \<noteq> [] \<Longrightarrow> hd ?B \<noteq> ?nb" using dist by (cases ys) auto
    then show "hread ?m a H_prev = link_pv ?B ?nb ((\<lambda>a. hread m a H_prev)(?nb := ?fb)) a"
      using reads [OF a, of H_prev] nx0 fn by (auto simp: link_pv_def dest: apart_neq)
  qed
  moreover have "block_in ?m c" if c: "c \<in> set ?new" for c
  proof -
    have "badr c \<in> set (map badr ?new)" using c by auto
    note r = reads [OF this]
    have "badr c \<noteq> ?fb \<and> badr c \<noteq> ?nb" if "c \<in> set xs \<union> set ys"
    proof -
      have "badr c \<in> set (map badr xs) \<union> set (map badr ys)" using that by auto
      then show ?thesis using dist by auto
    qed
    moreover have "block_in m c" if "c \<in> set xs \<union> set ys"
      using that rep by (auto simp: heap_rep_def)
    moreover have "?fb \<noteq> ?nb" using fn by (rule apart_neq)
    ultimately show ?thesis
      using c nbs(3) by (auto simp: block_in_def r)
  qed
  ultimately show ?thesis
    using lay hi by (simp add: heap_rep_def)
qed

subsection \<open>Rounding the request\<close>

lemma unat_align_up: "unat (align_up n 4) = (unat n + 3) mod 2 ^ 32 div 4 * 4"
proof -
  have m: "(4 - 1 :: u32) = mask 2" by (simp add: mask_eq_decr_exp)
  have "unat (align_up n 4) = unat (n + mask 2) div 2 ^ 2 * 2 ^ 2"
    unfolding align_up_def m by (rule unat_and_not_mask)
  then show ?thesis
    by (simp add: unat_word_ariths mask_eq_decr_exp)
qed

lemma align_up_dvd: "4 dvd unat (align_up n 4)"
  by (simp add: unat_align_up)

lemma align_up_bounds:
  assumes "n \<le> 0xFFFFFFFC"
  shows "unat n \<le> unat (align_up n 4)" and "unat (align_up n 4) < unat n + 4"
proof -
  have "unat n + 3 < 2 ^ 32" using assms by (simp add: word_le_nat_alt)
  then have "unat (align_up n 4) = (unat n + 3) div 4 * 4" by (simp add: unat_align_up)
  then show "unat n \<le> unat (align_up n 4)" and "unat (align_up n 4) < unat n + 4" by auto
qed

lemma align_up_huge: "0xFFFFFFFC < n \<Longrightarrow> align_up n 4 = 0"
proof -
  assume huge: "0xFFFFFFFC < n"
  have "unat n + 3 - 2 ^ 32 < 4" "2 ^ 32 \<le> unat n + 3"
    using huge u32_lt [of n] by (simp_all add: word_less_nat_alt)
  then have "(unat n + 3) mod 2 ^ 32 < 4"
    using u32_lt [of n] by (simp add: le_mod_geq)
  then have "unat (align_up n 4) = 0" by (simp add: unat_align_up)
  then show ?thesis by (simp add: unat_eq_zero)
qed

text \<open>A block that is large enough for the request is large enough for the request rounded up.\<close>

lemma align_up_fits:
  assumes "n \<le> 0xFFFFFFFC" and "unat n \<le> unat k" and "4 dvd unat k"
  shows "align_up n 4 \<le> k"
proof -
  obtain i j where k: "unat k = 4 * i" and a: "unat (align_up n 4) = 4 * j"
    using assms(3) align_up_dvd [of n] by (auto elim!: dvdE)
  then have "4 * j < 4 * i + 4" using align_up_bounds(2) [OF assms(1)] assms(2) by simp
  then show ?thesis by (simp add: word_le_nat_alt k a)
qed

subsection \<open>InternalAllocate implements alloc_blocks\<close>

lemma coalesced_append:
  "coalesced (xs @ ys) \<longleftrightarrow> coalesced xs \<and> coalesced ys \<and>
     (xs \<noteq> [] \<and> ys \<noteq> [] \<longrightarrow> bused (last xs) \<or> bused (hd ys))"
  by (induction xs rule: coalesced.induct) (cases ys; auto)+

lemma InternalAllocate_run:
  assumes ok: "heap_ok h (xs @ b # ys)" and n: "n = align_up sz 4"
    and found: "find (\<lambda>b. \<not> bused b \<and> n \<le> bsize b) (xs @ b # ys) = Some b"
  shows "InternalAllocate sz h = Some (Inr (badr b + 20, h\<lparr>ram := hwrite (badr b) H_size n
    (hwrite (badr b) H_allocated 1 (if n + 24 \<le> bsize b then split_block (badr b) n (ram h) else ram h))\<rparr>))"
proof -
  have rep: "heap_rep (ram h) (unat (startAddress h)) (xs @ b # ys) (unat (endAddress h))"
    using ok by (simp add: heap_ok_def)
  have nz: "badr b \<noteq> 0"
    using rep laid_out_nonzero [of "unat (startAddress h)" "xs @ b # ys"] by (auto simp: heap_rep_def)
  have sz: "hread (ram h) (badr b) H_size = bsize b"
    using heap_rep_neighbours(3) [OF rep] by (simp add: block_in_def)
  show ?thesis
    using FirstFree_refines [OF ok, of n] found nz
    by (simp add: InternalAllocate_def n [symmetric] sizeof_MemoryHeader_def MINIMAL_SPLIT_SIZE_def sz
        add.assoc)
qed

lemma InternalAllocate_refines:
  assumes ok: "heap_ok h bs" and n: "n = align_up sz 4"
  shows "case alloc_blocks n bs of
      None \<Rightarrow> InternalAllocate sz h = Some (Inl OutOfHeapSpace)
    | Some (p, bs') \<Rightarrow> \<exists>m. InternalAllocate sz h = Some (Inr (p, h\<lparr>ram := m\<rparr>)) \<and> heap_ok (h\<lparr>ram := m\<rparr>) bs'"
proof (cases "find (\<lambda>b. \<not> bused b \<and> n \<le> bsize b) bs")
  case None
  then show ?thesis
    using alloc_blocks_None [of n bs] FirstFree_refines [OF ok, of n]
    by (simp add: InternalAllocate_def n [symmetric])
next
  case (Some b)
  obtain xs ys where bs: "bs = xs @ b # ys" and b: "\<not> bused b" "n \<le> bsize b"
    and alloc: "alloc_blocks n bs = Some (badr b + 20, xs @ (if n + 24 \<le> bsize b
        then Blk (badr b) True n # Blk (badr b + n + 20) False (bsize b - n - 20) # ys
        else Blk (badr b) True n # ys))"
    using alloc_blocks_Some [OF Some] by blast
  have rep: "heap_rep (ram h) (unat (startAddress h)) (xs @ b # ys) (unat (endAddress h))"
    and co: "coalesced (xs @ b # ys)"
    and hd: "firstHeader h = startAddress h" "badr (hd (xs @ b # ys)) = startAddress h"
    using ok bs by (auto simp: heap_ok_def)
  have dv: "4 dvd unat n" unfolding n by (rule align_up_dvd)
  let ?m0 = "if n + 24 \<le> bsize b then split_block (badr b) n (ram h) else ram h"
  let ?m = "hwrite (badr b) H_size n (hwrite (badr b) H_allocated 1 ?m0)"
  let ?new = "xs @ (if n + 24 \<le> bsize b
        then Blk (badr b) True n # Blk (badr b + n + 20) False (bsize b - n - 20) # ys
        else Blk (badr b) True n # ys)"
  have run: "InternalAllocate sz h = Some (Inr (badr b + 20, h\<lparr>ram := ?m\<rparr>))"
    by (rule InternalAllocate_run [OF ok [unfolded bs] n Some [unfolded bs]])
  have "heap_rep ?m (unat (startAddress h)) ?new (unat (endAddress h))"
    using heap_rep_split [OF rep b(2) _ dv] heap_rep_set_used [OF rep b(2) dv, of True] by simp
  moreover have "coalesced ?new"
    using co b(1) by (cases ys) (auto simp: coalesced_append)
  moreover have "badr (hd ?new) = startAddress h"
    using hd(2) by (cases xs) auto
  ultimately have "heap_ok (h\<lparr>ram := ?m\<rparr>) ?new"
    using hd(1) by (auto simp: heap_ok_def)
  with run alloc show ?thesis by auto
qed

subsection \<open>Merging two neighbours\<close>

lemma merge_arith:
  assumes "laid_out lo (xs @ b # c # ys) hi" and "hi < 2 ^ 32"
  shows "unat (bsize b + (bsize c + 20)) = unat (bsize b) + (unat (bsize c) + 20)"
    and "unat (badr b) + 20 + unat (bsize b) \<le> unat (badr c)"
proof -
  have c: "unat (badr b) + 20 + unat (bsize b) \<le> unat (badr c)"
    "unat (badr c) + 20 + unat (bsize c) \<le> hi"
    using laid_out_sorted [OF assms(1)] laid_out_block(2) [OF assms(1), of c]
    by (auto simp: sorted_wrt_append)
  have "unat (bsize c + 20) = unat (bsize c) + 20"
    using c assms(2) by (subst unat_plus_le) auto
  moreover from this have "unat (bsize b + (bsize c + 20)) = unat (bsize b) + unat (bsize c + 20)"
    using c assms(2) by (intro unat_plus_le) auto
  ultimately show "unat (bsize b + (bsize c + 20)) = unat (bsize b) + (unat (bsize c) + 20)"
    by simp
  show "unat (badr b) + 20 + unat (bsize b) \<le> unat (badr c)" by (fact c(1))
qed

lemma laid_out_merge:
  assumes lay: "laid_out lo (xs @ b # c # ys) hi" and "hi < 2 ^ 32"
  shows "laid_out lo (xs @ Blk (badr b) u (bsize b + (bsize c + 20)) # ys) hi"
proof -
  note ar = merge_arith [OF assms]
  from lay obtain mid where mid: "laid_out lo xs mid" "mid \<le> unat (badr b)" "4 dvd unat (badr b)"
    "4 dvd unat (bsize b)" "4 dvd unat (bsize c)"
    "laid_out (unat (badr c) + 20 + unat (bsize c)) ys hi"
    by (auto simp: laid_out_append)
  have "laid_out (unat (badr b) + 20 + (unat (bsize b) + (unat (bsize c) + 20))) ys hi"
    using laid_out_mono [OF mid(6)] ar(2) by simp
  moreover have "4 dvd unat (bsize b) + (unat (bsize c) + 20)"
    using mid(4,5) by (simp add: dvd_add)
  ultimately have "laid_out mid (Blk (badr b) u (bsize b + (bsize c + 20)) # ys) hi"
    using mid(2,3) by (simp add: ar(1))
  with mid(1) show ?thesis by (auto simp: laid_out_append)
qed

lemma heap_rep_merge:
  assumes rep: "heap_rep m lo (xs @ b # c # ys) hi"
    and reads: "\<And>a f. a \<in> set (map badr (xs @ b # ys)) \<Longrightarrow> hread m' a f =
      (if a = badr b \<and> f = H_next then hd_or (map badr ys) 0
       else if a = badr b \<and> f = H_size then bsize b + (bsize c + 20)
       else if ys \<noteq> [] \<and> a = badr (hd ys) \<and> f = H_prev then badr b else hread m a f)"
  shows "heap_rep m' lo (xs @ Blk (badr b) (bused b) (bsize b + (bsize c + 20)) # ys) hi"
    (is "heap_rep _ _ ?new _")
proof -
  have lay: "laid_out lo (xs @ b # c # ys) hi" and hi: "hi < 2 ^ 32" "0 < lo"
    using rep by (auto simp: heap_rep_def)
  let ?A = "map badr xs @ [badr b]" and ?B = "map badr ys"
  have dist: "distinct (?A @ badr c # ?B)" using laid_out_distinct [OF lay] by simp
  have "dseg (\<lambda>a. hread m a H_next) (\<lambda>a. hread m a H_prev) 0 (?A @ badr c # ?B) 0"
    using rep by (simp add: heap_rep_def)
  then have "dseg (link_nx ?A (hd_or ?B 0) (\<lambda>a. hread m a H_next))
    (link_pv ?B (badr b) (\<lambda>a. hread m a H_prev)) 0 (?A @ ?B) 0"
    using dseg_link_delete [of _ _ 0 ?A "badr c" ?B 0] dist by simp
  then have "dseg (\<lambda>a. hread m' a H_next) (\<lambda>a. hread m' a H_prev) 0 (?A @ ?B) 0"
    by (rule dseg_cong) (auto simp: reads link_nx_def link_pv_def hd_map)
  moreover have "block_in m' d" if d: "d \<in> set ?new" for d
  proof -
    have "badr d \<noteq> badr b" if "d \<in> set xs \<union> set ys"
    proof -
      have "badr b \<notin> badr ` (set xs \<union> set ys)" using dist by auto
      then show ?thesis using that by (metis imageI)
    qed
    then show ?thesis
      using d rep by (auto simp: heap_rep_def block_in_def reads)
  qed
  ultimately show ?thesis
    using laid_out_merge [OF lay hi(1)] hi by (simp add: heap_rep_def)
qed

lemma heap_rep_merged_memory:
  assumes rep: "heap_rep m lo (xs @ b # c # ys) hi"
    and m': "m' = (if hd_or (map badr ys) 0 \<noteq> 0 then hwrite (hd_or (map badr ys) 0) H_prev (badr b) else id) m''"
    and m'': "m'' = hwrite (badr b) H_next (hd_or (map badr ys) 0)
        (hwrite (badr b) H_size (bsize b + (bsize c + 20)) m) \<or>
      m'' = hwrite (badr b) H_size (bsize b + (bsize c + 20))
        (hwrite (badr b) H_next (hd_or (map badr ys) 0) m)"
  shows "heap_rep m' lo (xs @ Blk (badr b) (bused b) (bsize b + (bsize c + 20)) # ys) hi"
proof (rule heap_rep_merge [OF rep])
  fix a f assume "a \<in> set (map badr (xs @ b # ys))"
  then have a: "a \<in> set (map badr (xs @ b # c # ys))" by auto
  have lay: "laid_out lo (xs @ b # c # ys) hi" and hi: "hi < 2 ^ 32" "0 < lo"
    using rep by (auto simp: heap_rep_def)
  have 1: "badr b = a \<or> apart (badr b) a"
    by (rule laid_out_pair [OF lay hi(1) _ a]) simp
  have 2: "badr (hd ys) = a \<or> apart (badr (hd ys)) a" if "ys \<noteq> []"
    by (rule laid_out_pair [OF lay hi(1) _ a]) (use that in auto)
  have 3: "hd_or (map badr ys) 0 \<noteq> 0 \<longleftrightarrow> ys \<noteq> []"
    using laid_out_nonzero [OF lay hi(2)] by (cases ys) auto
  have 4: "badr (hd ys) \<noteq> badr b" if "ys \<noteq> []"
    using laid_out_distinct [OF lay] that by (cases ys) auto
  have "hread m'' a f = (if a = badr b \<and> f = H_next then hd_or (map badr ys) 0
    else if a = badr b \<and> f = H_size then bsize b + (bsize c + 20) else hread m a f)"
    using m'' 1 by (auto simp: hread_hwrite)
  then show "hread m' a f =
      (if a = badr b \<and> f = H_next then hd_or (map badr ys) 0
       else if a = badr b \<and> f = H_size then bsize b + (bsize c + 20)
       else if ys \<noteq> [] \<and> a = badr (hd ys) \<and> f = H_prev then badr b else hread m a f)"
    using 2 3 4 unfolding m' by (cases "ys = []") (auto simp: hread_hwrite hd_map)
qed

text \<open>The two halves of \<open>free\<close> on the block list.\<close>

lemma merge_next_memory:
  assumes rep: "heap_rep m lo (xs @ b # c # zs) hi" and free: "\<not> bused c"
  shows "merge_next (badr b) m =
    (if hd_or (map badr zs) 0 \<noteq> 0 then hwrite (hd_or (map badr zs) 0) H_prev (badr b) else id)
      (hwrite (badr b) H_next (hd_or (map badr zs) 0) (hwrite (badr b) H_size (bsize b + (bsize c + 20)) m))"
proof -
  have rep': "heap_rep m lo ((xs @ [b]) @ c # zs) hi" using rep by simp
  have lay: "laid_out lo (xs @ b # c # zs) hi" and hi: "hi < 2 ^ 32" "0 < lo"
    using rep by (auto simp: heap_rep_def)
  have "badr c \<noteq> 0" "apart (badr b) (badr c)"
    using laid_out_nonzero [OF lay hi(2)] laid_out_apart [OF lay hi(1), of c] by auto
  then show ?thesis
    using heap_rep_neighbours [OF rep] heap_rep_neighbours [OF rep'] free
    by (simp add: merge_next_def block_in_def sizeof_MemoryHeader_def Let_def)
qed

lemma merge_next_refines:
  assumes rep: "heap_rep m lo (xs @ b # ys) hi"
  shows "heap_rep (merge_next (badr b) m) lo (xs @ absorb b ys) hi"
proof (cases ys)
  case Nil
  then show ?thesis
    using rep heap_rep_neighbours(1) [OF rep] by (simp add: merge_next_def)
next
  case (Cons c zs)
  have rep': "heap_rep m lo ((xs @ [b]) @ c # zs) hi" using rep Cons by simp
  note nb = heap_rep_neighbours [OF rep] heap_rep_neighbours [OF rep']
  have lay: "laid_out lo (xs @ b # c # zs) hi" and hi: "hi < 2 ^ 32" "0 < lo"
    using rep Cons by (auto simp: heap_rep_def)
  have nz: "badr c \<noteq> 0" using laid_out_nonzero [OF lay hi(2)] by auto
  have al: "hread m (badr c) H_allocated = 0 \<longleftrightarrow> \<not> bused c" using nb(6) by (auto simp: block_in_def)
  show ?thesis
  proof (cases "bused c")
    case True
    then show ?thesis using rep Cons al nb(1) by (simp add: merge_next_def)
  next
    case False
    have "heap_rep (merge_next (badr b) m) lo
      (xs @ Blk (badr b) (bused b) (bsize b + (bsize c + 20)) # zs) hi"
      using heap_rep_merged_memory [of m lo xs b c zs hi] merge_next_memory [of m lo xs b c zs hi] rep Cons False by blast
    then show ?thesis using Cons False by simp
  qed
qed

lemma merge_next_off:
  assumes "heap_rep m lo (xs @ b # ys) hi" and "\<And>c. c \<in> set (b # ys) \<Longrightarrow> off_header a (badr c)"
  shows "merge_next (badr b) m a = m a"
proof (cases "ys = [] \<or> bused (hd ys)")
  case True
  then have "merge_next (badr b) m = m"
  proof (cases ys)
    case (Cons c zs)
    then have "heap_rep m lo ((xs @ [b]) @ c # zs) hi" using assms(1) by simp
    from heap_rep_neighbours(3) [OF this] heap_rep_neighbours(1) [OF assms(1)] True Cons show ?thesis
      by (simp add: merge_next_def block_in_def)
  qed (use heap_rep_neighbours(1) [OF assms(1)] in \<open>simp add: merge_next_def\<close>)
  then show ?thesis by simp
next
  case False
  then obtain c zs where "ys = c # zs" "\<not> bused c" by (cases ys) auto
  with assms merge_next_memory [of m lo xs b c zs hi] show ?thesis by (cases zs) auto
qed

lemma merge_prev_free:
  assumes rep: "heap_rep m lo (xs @ p # b # ys) hi" and free: "\<not> bused p"
  obtains m' where "merge_prev (badr b) m = (m', badr p)"
    and "heap_rep m' lo (xs @ Blk (badr p) False (bsize p + (bsize b + 20)) # ys) hi"
    and "hread m' (badr b) H_allocated = hread m (badr b) H_allocated"
    and "\<And>a. (\<And>c. c \<in> set (p # b # ys) \<Longrightarrow> off_header a (badr c)) \<Longrightarrow> m' a = m a"
proof -
  have rep': "heap_rep m lo ((xs @ [p]) @ b # ys) hi" using rep by simp
  note nb = heap_rep_neighbours [OF rep] heap_rep_neighbours [OF rep']
  have lay: "laid_out lo (xs @ p # b # ys) hi" and hi: "hi < 2 ^ 32" "0 < lo"
    using rep by (auto simp: heap_rep_def)
  have nz: "badr p \<noteq> 0" using laid_out_nonzero [OF lay hi(2)] by auto
  let ?nx = "hd_or (map badr ys) 0"
  have ap: "apart (badr p) (badr b)" using laid_out_apart [OF lay hi(1), of b] by simp
  have nx: "?nx \<noteq> 0 \<Longrightarrow> apart (badr p) ?nx \<and> apart ?nx (badr b)"
  proof (cases ys)
    case (Cons c zs)
    then show ?thesis
      using laid_out_apart [of lo "xs @ [p]" b ys hi c] laid_out_apart [OF lay hi(1), of c] lay hi
      by (auto intro: apart_sym)
  qed simp
  let ?m2 = "hwrite (badr p) H_size (bsize p + (bsize b + 20)) (hwrite (badr p) H_next ?nx m)"
  let ?m3 = "(if ?nx \<noteq> 0 then hwrite ?nx H_prev (badr p) else id) ?m2"
  have "merge_prev (badr b) m = (?m3, badr p)"
    using nb nz free ap nx
    by (cases "?nx = 0") (simp_all add: merge_prev_def block_in_def sizeof_MemoryHeader_def Let_def)
  moreover have "heap_rep ?m3 lo (xs @ Blk (badr p) (bused p) (bsize p + (bsize b + 20)) # ys) hi"
    using heap_rep_merged_memory [OF rep] by blast
  moreover have "hread ?m3 (badr b) H_allocated = hread m (badr b) H_allocated"
    using ap nx by simp
  moreover have "?m3 a = m a" if "\<And>c. c \<in> set (p # b # ys) \<Longrightarrow> off_header a (badr c)" for a
    using that by (cases ys) auto
  ultimately show thesis using that free by simp
qed

text \<open>Merging leaves the \<open>allocated\<close> field of every header outside the heap list alone.\<close>

lemma merge_next_allocated:
  assumes rep: "heap_rep m lo (xs @ b # ys) hi" and "apart (badr b) d"
    and ys: "\<And>c. c \<in> set ys \<Longrightarrow> apart (badr c) d"
  shows "hread (merge_next (badr b) m) d H_allocated = hread m d H_allocated"
proof (cases ys)
  case (Cons c zs)
  have rep': "heap_rep m lo ((xs @ [b]) @ c # zs) hi" using rep Cons by simp
  have "apart (badr b) (badr c)"
    using rep Cons laid_out_apart [of lo xs b ys hi c] by (auto simp: heap_rep_def)
  then show ?thesis
    using heap_rep_neighbours(1) [OF rep] heap_rep_neighbours(1) [OF rep'] assms(2) ys Cons
    by (cases zs) (auto simp: merge_next_def Let_def)
qed (use heap_rep_neighbours(1) [OF rep] in \<open>simp add: merge_next_def\<close>)

subsection \<open>free implements release\<close>

lemma release_here:
  "xs = [] \<or> bused (last xs) \<Longrightarrow> badr b \<notin> set (map badr xs) \<Longrightarrow>
     release (badr b) (xs @ b # ys) = xs @ absorb (Blk (badr b) False (bsize b)) ys"
proof (induction xs rule: induct_list012)
  case 1
  show ?case by (cases ys) auto
next
  case (2 x)
  then show ?case by (cases ys) auto
qed auto

lemma release_with_prev:
  "\<not> bused p \<Longrightarrow> badr b \<notin> set (map badr (xs @ [p])) \<Longrightarrow>
     release (badr b) (xs @ p # b # ys) =
       xs @ absorb (Blk (badr p) False (bsize p + (bsize b + 20))) ys"
  by (induction xs rule: induct_list012) auto

lemma coalesced_absorb:
  assumes "coalesced ys" and "xs = [] \<or> bused (last xs)" and "coalesced xs"
  shows "coalesced (xs @ absorb (Blk a False s) ys)"
proof (cases ys)
  case (Cons c cs)
  have "coalesced (absorb (Blk a False s) ys)"
    using assms(1) Cons by (cases cs) auto
  moreover have "absorb (Blk a False s) ys \<noteq> []" using Cons by simp
  ultimately show ?thesis using assms(2,3) by (auto simp: coalesced_append)
qed (use assms in \<open>auto simp: coalesced_append\<close>)

lemma heap_free_refines:
  assumes ok: "heap_ok h (xs @ b # ys)" and used: "bused b"
  obtains m where "heap_free (badr b + 20) h = Inr (h\<lparr>ram := m\<rparr>)"
    and "heap_ok (h\<lparr>ram := m\<rparr>) (release (badr b) (xs @ b # ys))"
    and "hread m (badr b) H_allocated = 0"
    and "\<And>a. (\<And>c. c \<in> set (xs @ b # ys) \<Longrightarrow> off_header a (badr c)) \<Longrightarrow> m a = ram h a"
proof -
  let ?lo = "unat (startAddress h)" and ?hi = "unat (endAddress h)"
  let ?b = "Blk (badr b) False (bsize b)"
  let ?m1 = "hwrite (badr b) H_allocated 0 (ram h)"
  have rep: "heap_rep (ram h) ?lo (xs @ b # ys) ?hi" and co: "coalesced (xs @ b # ys)"
    and hd: "firstHeader h = startAddress h" "badr (hd (xs @ b # ys)) = startAddress h"
    using ok by (auto simp: heap_ok_def)
  have lay: "laid_out ?lo (xs @ b # ys) ?hi" using rep by (simp add: heap_rep_def)
  have dist: "distinct (map badr (xs @ b # ys))" by (rule laid_out_distinct [OF lay])
  have dv: "4 dvd unat (bsize b)" by (rule laid_out_block(4) [OF lay]) simp
  have bin: "block_in (ram h) b" using heap_rep_neighbours(3) [OF rep] .
  have "hwrite (badr b) H_size (bsize b) ?m1 = ?m1"
    using bin by (auto simp: hwrite_def hread_def block_in_def fun_eq_iff)
  then have rep1: "heap_rep ?m1 ?lo (xs @ ?b # ys) ?hi"
    using heap_rep_set_used [OF rep order.refl dv, of False] by simp
  have check: "hread (ram h) (badr b) H_magic = MEMORY_HEADER_MAGIC"
    "hread (ram h) (badr b) H_allocated \<noteq> 0"
    using bin used by (auto simp: block_in_def)
  have run: "heap_free (badr b + 20) h =
    Inr (h\<lparr>ram := (case merge_prev (badr b) ?m1 of (m, block) \<Rightarrow> merge_next block m)\<rparr>)"
    using check by (simp add: heap_free_def sizeof_MemoryHeader_def split: prod.splits)
  note coys = co [unfolded coalesced_append]
  have first: "badr (hd (release (badr b) (xs @ b # ys))) = startAddress h"
    "release (badr b) (xs @ b # ys) \<noteq> []"
    if "release (badr b) (xs @ b # ys) = zs @ absorb (Blk (badr p) False s) ys"
      "xs @ b # ys = zs @ p # ws" for zs p s ws
    using that hd(2) by (cases zs; cases ys; auto)+
  show thesis
  proof (cases "xs = [] \<or> bused (last xs)")
    case True
    have "merge_prev (badr b) ?m1 = (?m1, badr b)"
    proof (cases xs rule: rev_cases)
      case Nil
      then show ?thesis using heap_rep_neighbours(2) [OF rep1] by (simp add: merge_prev_def)
    next
      case (snoc zs p)
      have rep2: "heap_rep ?m1 ?lo (zs @ p # ?b # ys) ?hi" using rep1 snoc by simp
      show ?thesis
        using heap_rep_neighbours(2) [OF rep1] heap_rep_neighbours(3) [OF rep2] True snoc
        by (simp add: merge_prev_def block_in_def)
    qed
    moreover have "heap_rep (merge_next (badr b) ?m1) ?lo (xs @ absorb ?b ys) ?hi"
      using merge_next_refines [OF rep1] by simp
    moreover have rel: "release (badr b) (xs @ b # ys) = xs @ absorb ?b ys"
      using True dist by (intro release_here) auto
    moreover have "coalesced (xs @ absorb ?b ys)"
      using coys True by (intro coalesced_absorb) (cases ys; auto)+
    moreover have "hread (merge_next (badr b) ?m1) (badr b) H_allocated = 0"
    proof -
      have "\<exists>s. Blk (badr b) False s \<in> set (absorb ?b ys)" by (cases ys) auto
      then obtain s where "Blk (badr b) False s \<in> set (xs @ absorb ?b ys)" by auto
      with \<open>heap_rep (merge_next (badr b) ?m1) ?lo (xs @ absorb ?b ys) ?hi\<close>
      have "block_in (merge_next (badr b) ?m1) (Blk (badr b) False s)" by (simp add: heap_rep_def)
      then show ?thesis by (simp add: block_in_def)
    qed
    moreover have "merge_next (badr b) ?m1 a = ram h a"
      if off: "\<And>c. c \<in> set (xs @ b # ys) \<Longrightarrow> off_header a (badr c)" for a
    proof -
      have "merge_next (badr b) ?m1 a = ?m1 a" using merge_next_off [of ?m1 ?lo xs ?b ys ?hi a] rep1 off by force
      then show ?thesis using off by simp
    qed
    ultimately show thesis
      using that run first [OF rel refl] hd(1) by (auto simp: heap_ok_def)
  next
    case False
    then obtain zs p where xs: "xs = zs @ [p]" "\<not> bused p"
      by (cases xs rule: rev_cases) auto
    have rep2: "heap_rep ?m1 ?lo (zs @ p # ?b # ys) ?hi" using rep1 xs by simp
    let ?p = "Blk (badr p) False (bsize p + (bsize b + 20))"
    obtain m2 where m2: "merge_prev (badr b) ?m1 = (m2, badr p)"
      and rep3: "heap_rep m2 ?lo (zs @ ?p # ys) ?hi"
      and al2: "hread m2 (badr b) H_allocated = 0"
      and off2: "\<And>a. (\<And>c. c \<in> set (p # ?b # ys) \<Longrightarrow> off_header a (badr c)) \<Longrightarrow> m2 a = ?m1 a"
      by (rule merge_prev_free [OF rep2 xs(2)]) simp
    have "apart (badr c) (badr b)" if "c \<in> insert p (set ys)" for c
      using laid_out_apart [OF lay, of c] that xs rep by (auto simp: heap_rep_def intro: apart_sym)
    then have "hread (merge_next (badr p) m2) (badr b) H_allocated = 0"
      using merge_next_allocated [OF rep3, of "badr b"] al2 by simp
    moreover
    have "heap_rep (merge_next (badr p) m2) ?lo (zs @ absorb ?p ys) ?hi"
      using merge_next_refines [OF rep3] by simp
    moreover have rel: "release (badr b) (xs @ b # ys) = zs @ absorb ?p ys"
      using release_with_prev [of p b zs ys] xs dist by auto
    moreover have "coalesced (zs @ absorb ?p ys)"
      using coys xs by (intro coalesced_absorb) (cases ys; auto simp: coalesced_append)+
    moreover have "xs @ b # ys = zs @ p # b # ys" using xs by simp
    moreover have "merge_next (badr p) m2 a = ram h a"
      if "\<And>c. c \<in> set (xs @ b # ys) \<Longrightarrow> off_header a (badr c)" for a
    proof -
      have "merge_next (badr p) m2 a = m2 a" using merge_next_off [OF rep3] that xs by force
      also have "\<dots> = ?m1 a" using that xs by (intro off2) auto
      also have "\<dots> = ram h a" using that by simp
      finally show ?thesis .
    qed
    ultimately show thesis
      using that run m2 first [OF rel] hd(1) by (auto simp: heap_ok_def)
  qed
qed

subsection \<open>The regions handed out\<close>

definition used_blocks :: "blk list \<Rightarrow> (u32 \<times> u32) set" where
  "used_blocks bs = {(badr b + 20, bsize b) | b. b \<in> set bs \<and> bused b}"

definition disjoint_regions :: "u32 \<times> u32 \<Rightarrow> u32 \<times> u32 \<Rightarrow> bool" where
  "disjoint_regions r s \<longleftrightarrow>
     unat (fst r) + unat (snd r) \<le> unat (fst s) \<or> unat (fst s) + unat (snd s) \<le> unat (fst r)"

lemma used_blocks_simps [simp]:
  "used_blocks [] = {}"
  "used_blocks (b # bs) = (if bused b then insert (badr b + 20, bsize b) (used_blocks bs) else used_blocks bs)"
  "used_blocks (xs @ ys) = used_blocks xs \<union> used_blocks ys"
  by (auto simp: used_blocks_def)

lemma used_blocks_absorb [simp]:
  "used_blocks (absorb (Blk a False s) ys) = used_blocks ys"
  by (cases ys) auto

lemma used_blocks_alloc:
  "alloc_blocks n bs = Some (p, bs') \<Longrightarrow> used_blocks bs' = insert (p, n) (used_blocks bs)"
  by (induction bs arbitrary: bs') (auto split: if_splits)

lemma used_blocks_release:
  assumes "badr b \<notin> set (map badr (xs @ ys))" and "bused b"
  shows "used_blocks (release (badr b) (xs @ b # ys)) = used_blocks xs \<union> used_blocks ys"
proof (cases "xs = [] \<or> bused (last xs)")
  case True
  then show ?thesis using assms by (subst release_here) auto
next
  case False
  then obtain zs p where "xs = zs @ [p]" "\<not> bused p" by (cases xs rule: rev_cases) auto
  then show ?thesis using assms release_with_prev [of p b zs ys] by auto
qed

lemma heap_ok_block:
  assumes "heap_ok h bs" and "b \<in> set bs"
  shows "unat (badr b + 20) = unat (badr b) + 20"
    and "unat (startAddress h) \<le> unat (badr b)"
    and "unat (badr b) + 20 + unat (bsize b) \<le> unat (endAddress h)"
    and "4 dvd unat (badr b)" and "4 dvd unat (bsize b)"
proof -
  have lay: "laid_out (unat (startAddress h)) bs (unat (endAddress h))"
    and hi: "unat (endAddress h) < 2 ^ 32"
    using assms(1) by (auto simp: heap_ok_def heap_rep_def)
  note b = laid_out_block [OF lay assms(2)]
  show "unat (badr b + 20) = unat (badr b) + 20"
    using b(2) hi by (subst unat_plus_le) auto
  show "unat (startAddress h) \<le> unat (badr b)"
    and "unat (badr b) + 20 + unat (bsize b) \<le> unat (endAddress h)"
    and "4 dvd unat (badr b)" and "4 dvd unat (bsize b)"
    using b by auto
qed

lemma heap_ok_disjoint:
  assumes ok: "heap_ok h bs" and b: "b \<in> set bs" and c: "c \<in> set bs" and "badr b \<noteq> badr c"
  shows "disjoint_regions (badr b + 20, bsize b) (badr c + 20, bsize c)"
    and "badr b + 20 \<noteq> badr c + 20"
proof -
  have "laid_out (unat (startAddress h)) bs (unat (endAddress h))"
    using ok by (auto simp: heap_ok_def heap_rep_def)
  from laid_out_sorted [OF this] b c assms(4)
  have "unat (badr b) + 20 + unat (bsize b) \<le> unat (badr c) \<or>
    unat (badr c) + 20 + unat (bsize c) \<le> unat (badr b)"
    by (auto simp: in_set_conv_decomp sorted_wrt_append)
      (auto simp: append_eq_append_conv2 append_eq_Cons_conv Cons_eq_append_conv)
  then show "disjoint_regions (badr b + 20, bsize b) (badr c + 20, bsize c)"
    using heap_ok_block(1) [OF ok b] heap_ok_block(1) [OF ok c] by (auto simp: disjoint_regions_def)
  show "badr b + 20 \<noteq> badr c + 20" using assms(4) by simp
qed

lemma used_blocks_fresh:
  assumes "heap_ok h bs" and "alloc_blocks n bs = Some (p, bs')"
  shows "p \<notin> fst ` used_blocks bs"
proof -
  from assms(2) have "find (\<lambda>b. \<not> bused b \<and> n \<le> bsize b) bs \<noteq> None"
    using alloc_blocks_None [of n bs] by auto
  then obtain b where "find (\<lambda>b. \<not> bused b \<and> n \<le> bsize b) bs = Some b" by auto
  from alloc_blocks_Some [OF this] obtain xs ys where bs: "bs = xs @ b # ys" "\<not> bused b"
    and p: "p = badr b + 20"
    using assms(2) by (metis option.inject prod.inject)
  have "distinct (map badr bs)"
    using assms(1) laid_out_distinct by (auto simp: heap_ok_def heap_rep_def simp del: distinct_map)
  then have "badr c \<noteq> badr b" if "c \<in> set bs" "bused c" for c
    using that bs by (auto dest: arg_cong [of _ _ badr]) (metis imageI)+
  then show ?thesis by (force simp: used_blocks_def p)
qed

lemma alloc_disjoint:
  assumes ok: "heap_ok h bs" and ok': "heap_ok h' bs'" and al: "alloc_blocks n bs = Some (p, bs')"
    and r: "r \<in> used_blocks bs"
  shows "disjoint_regions (p, n) r"
proof -
  have "(p, n) \<in> used_blocks bs'" "r \<in> used_blocks bs'"
    using used_blocks_alloc [OF al] r by auto
  then obtain b c where "b \<in> set bs'" "(p, n) = (badr b + 20, bsize b)"
    "c \<in> set bs'" "r = (badr c + 20, bsize c)"
    by (auto simp: used_blocks_def)
  moreover have "fst r \<noteq> p" using used_blocks_fresh [OF ok al] r by force
  ultimately show ?thesis using heap_ok_disjoint(1) [OF ok', of b c] by auto
qed

subsection \<open>The interface the rest of the kernel uses\<close>

text \<open>
  \<open>Heap::malloc\<close> without its optional second argument, and \<open>Heap::free\<close>, as the
  callers see them: \<open>None\<close> is a call that does not return.
\<close>

definition kmalloc :: "u32 \<Rightarrow> heap \<Rightarrow> (u32 \<times> heap) option" where
  "kmalloc sz h = (case InternalAllocate sz h of Some (Inr r) \<Rightarrow> Some r | _ \<Rightarrow> None)"

definition kfree :: "u32 \<Rightarrow> heap \<Rightarrow> heap option" where
  "kfree p h = (case heap_free p h of Inr h' \<Rightarrow> Some h' | Inl _ \<Rightarrow> None)"

text \<open>
  \<open>Heap::malloc\<close> with both arguments: a caller that asks for it gets the physical address
  of the region, read from the page-table entry of its first page. The operators that the
  compiler calls for \<open>new\<close> and \<open>delete\<close> are calls of these two functions.
\<close>

definition Heap_malloc :: "u32 \<Rightarrow> bool \<Rightarrow> heap \<Rightarrow> vm \<Rightarrow> (u32 \<times> u32 option \<times> heap \<times> vm) option" where
  "Heap_malloc sz physReturn h virtMem = do {
     (addr, h) \<leftarrow> kmalloc sz h;
     if physReturn
     then do {
       (page, virtMem) \<leftarrow> GetPageForAddress addr False True False virtMem;
       w \<leftarrow> vread virtMem page;
       Some (addr, Some (pte_get PT_frame w * PAGE_SIZE + (addr AND 0xFFF)), h, virtMem)
     }
     else Some (addr, None, h, virtMem)
   }"

definition operator_new :: "u32 \<Rightarrow> heap \<Rightarrow> (u32 \<times> heap) option" where
  "operator_new sz h = kmalloc sz h"

definition operator_new_at :: "u32 \<Rightarrow> u32 \<Rightarrow> u32" where
  "operator_new_at sz ptr = ptr"

definition operator_delete :: "u32 \<Rightarrow> heap \<Rightarrow> heap option" where
  "operator_delete p h = kfree p h"

text \<open>
  The contract: \<open>holds s R\<close> says that \<open>R\<close> is the set of live regions, as pairs
  of address and size.
\<close>

locale region_allocator =
  fixes holds :: "'s \<Rightarrow> (u32 \<times> u32) set \<Rightarrow> bool"
    and grants :: "u32 \<Rightarrow> u32 \<Rightarrow> bool"
    and alloc :: "u32 \<Rightarrow> 's \<Rightarrow> (u32 \<times> 's) option"
    and dealloc :: "u32 \<Rightarrow> 's \<Rightarrow> 's option"
  assumes alloc_law: "holds s R \<Longrightarrow> alloc n s = Some (p, s') \<Longrightarrow>
      \<exists>k. grants n k \<and> p \<notin> fst ` R \<and> (\<forall>r\<in>R. disjoint_regions (p, k) r) \<and> holds s' (insert (p, k) R)"
    and dealloc_law: "holds s R \<Longrightarrow> (p, k) \<in> R \<Longrightarrow> \<exists>s'. dealloc p s = Some s' \<and> holds s' (R - {(p, k)})"
begin

lemma alloc_then_dealloc:
  assumes "holds s R" and "alloc n s = Some (p, s')"
  obtains s'' where "dealloc p s' = Some s''" and "holds s'' R"
proof -
  obtain k where k: "p \<notin> fst ` R" "holds s' (insert (p, k) R)"
    using alloc_law [OF assms] by blast
  obtain s'' where "dealloc p s' = Some s''" "holds s'' (insert (p, k) R - {(p, k)})"
    using dealloc_law [OF k(2), of p k] by auto
  moreover have "insert (p, k) R - {(p, k)} = R" using k(1) by force
  ultimately show thesis using that by simp
qed

lemma two_allocs:
  assumes "holds s R" and "alloc n s = Some (p, s1)" and "alloc n' s1 = Some (q, s2)"
  obtains k k' where "grants n k" and "grants n' k'" and "p \<noteq> q"
    and "disjoint_regions (q, k') (p, k)" and "holds s2 (insert (q, k') (insert (p, k) R))"
proof -
  obtain k where k: "grants n k" "holds s1 (insert (p, k) R)"
    using alloc_law [OF assms(1,2)] by blast
  obtain k' where "grants n' k'" "q \<notin> fst ` insert (p, k) R"
    "\<forall>r\<in>insert (p, k) R. disjoint_regions (q, k') r" "holds s2 (insert (q, k') (insert (p, k) R))"
    using alloc_law [OF k(2) assms(3)] by blast
  with k that show thesis by auto
qed

end

definition heap_holds :: "heap \<Rightarrow> (u32 \<times> u32) set \<Rightarrow> bool" where
  "heap_holds h R \<longleftrightarrow> (\<exists>bs. heap_ok h bs \<and> R = used_blocks bs)"

definition heap_grants :: "u32 \<Rightarrow> u32 \<Rightarrow> bool" where
  "heap_grants n k \<longleftrightarrow> 4 dvd unat k \<and> (if n \<le> 0xFFFFFFFC then n \<le> k \<and> unat k < unat n + 4 else k = 0)"

lemma kmalloc_cases:
  assumes ok: "heap_ok h bs"
  shows "kmalloc n h = Some (p, h') \<longleftrightarrow>
    (\<exists>bs'. alloc_blocks (align_up n 4) bs = Some (p, bs') \<and> InternalAllocate n h = Some (Inr (p, h')))"
  using InternalAllocate_refines [OF ok refl, of n]
  by (auto simp: kmalloc_def split: option.splits)

interpretation lheap: region_allocator heap_holds heap_grants kmalloc kfree
proof unfold_locales
  fix h R n p h'
  assume "heap_holds h R" and run: "kmalloc n h = Some (p, h')"
  then obtain bs where ok: "heap_ok h bs" and R: "R = used_blocks bs"
    by (auto simp: heap_holds_def)
  let ?k = "align_up n 4"
  obtain bs' where al: "alloc_blocks ?k bs = Some (p, bs')" and ok': "heap_ok h' bs'"
    using kmalloc_cases [OF ok] run InternalAllocate_refines [OF ok refl, of n] by fastforce
  have "heap_grants n ?k"
    using align_up_bounds [of n] align_up_huge [of n] align_up_dvd [of n]
    by (auto simp: heap_grants_def word_le_nat_alt word_less_nat_alt not_le)
  then show "\<exists>k. heap_grants n k \<and> p \<notin> fst ` R \<and> (\<forall>r\<in>R. disjoint_regions (p, k) r) \<and>
      heap_holds h' (insert (p, k) R)"
    using used_blocks_fresh [OF ok al] alloc_disjoint [OF ok ok' al] used_blocks_alloc [OF al] ok' R
    unfolding heap_holds_def by (intro exI [of _ ?k]) metis
next
  fix h R p k
  assume "heap_holds h R" "(p, k) \<in> R"
  then obtain bs b where ok: "heap_ok h bs" and R: "R = used_blocks bs"
    and b: "b \<in> set bs" "bused b" "p = badr b + 20" "k = bsize b"
    by (auto simp: heap_holds_def used_blocks_def)
  then obtain xs ys where bs: "bs = xs @ b # ys" by (auto simp: in_set_conv_decomp)
  have dist: "distinct (map badr bs)"
    using ok laid_out_distinct by (auto simp: heap_ok_def heap_rep_def simp del: distinct_map)
  obtain m where "heap_free p h = Inr (h\<lparr>ram := m\<rparr>)" "heap_ok (h\<lparr>ram := m\<rparr>) (release (badr b) bs)"
    using heap_free_refines [of h xs b ys] ok b bs by auto
  moreover have "used_blocks (release (badr b) bs) = R - {(p, k)}"
  proof -
    have "badr b \<notin> set (map badr (xs @ ys))" using dist bs by auto
    then have "used_blocks (release (badr b) bs) = used_blocks xs \<union> used_blocks ys"
      using b(2) bs used_blocks_release by simp
    moreover have "(p, k) \<notin> used_blocks xs \<union> used_blocks ys"
      using \<open>badr b \<notin> _\<close> by (auto simp: used_blocks_def b)
    ultimately show ?thesis using R bs b by auto
  qed
  ultimately show "\<exists>h'. kfree p h = Some h' \<and> heap_holds h' (R - {(p, k)})"
    by (auto simp: kfree_def heap_holds_def)
qed

subsection \<open>Properties\<close>

lemma alloc_blocks_first_fit:
  "\<forall>x\<in>set xs. bused x \<or> bsize x < n \<Longrightarrow> \<not> bused b \<Longrightarrow> n \<le> bsize b \<Longrightarrow>
    alloc_blocks n (xs @ b # ys) = Some (badr b + 20, xs @ (if n + 24 \<le> bsize b
        then Blk (badr b) True n # Blk (badr b + n + 20) False (bsize b - n - 20) # ys
        else Blk (badr b) True n # ys))"
  by (induction xs) (auto simp: not_less)

lemma kmalloc_refines:
  assumes ok: "heap_ok h bs" and al: "alloc_blocks (align_up n 4) bs = Some (p, bs')"
  obtains m where "kmalloc n h = Some (p, h\<lparr>ram := m\<rparr>)" and "heap_ok (h\<lparr>ram := m\<rparr>) bs'"
  using InternalAllocate_refines [OF ok refl, of n] al by (auto simp: kmalloc_def)

lemma page_aligned_dvd: "a mod PAGE_SIZE = 0 \<Longrightarrow> 4096 dvd unat a"
  by (simp add: PAGE_SIZE_def word_unat_eq_iff unat_mod_distrib dvd_eq_mod_eq_0)

lemma Initialize_effect:
  assumes "0 < start" and "start < stop"
  shows "if start mod PAGE_SIZE = 0 \<and> stop mod PAGE_SIZE = 0
    then \<exists>h'. Initialize start stop h = Inr h' \<and> heap_ok h' [Blk start False (stop - start - 20)]
    else Initialize start stop h = Inl StartOrEndNotAligned"
proof (cases "start mod PAGE_SIZE = 0 \<and> stop mod PAGE_SIZE = 0")
  case True
  have dv: "4096 dvd unat start" "4096 dvd unat stop"
    using True by (simp_all add: page_aligned_dvd)
  have lt: "unat start < unat stop" and pos: "0 < unat start"
    using assms by (simp_all add: word_less_nat_alt)
  have "4096 dvd unat stop - unat start" using dv by (simp add: dvd_diff_nat)
  then have "4096 \<le> unat stop - unat start" using lt by (intro dvd_imp_le) auto
  moreover have d: "unat (stop - start) = unat stop - unat start"
    using assms(2) by (intro unat_minus_le) simp
  ultimately have sz: "unat (stop - start - 20) = unat stop - unat start - 20"
    and room: "20 \<le> unat stop - unat start"
    by (auto simp: unat_minus_le word_le_nat_alt)
  have "4 dvd unat start" "4 dvd unat stop"
    using dv by (auto elim: dvd_trans [rotated])
  then have "4 dvd unat stop - unat start - 20" by (simp add: dvd_diff_nat)
  then have "laid_out (unat start) [Blk start False (stop - start - 20)] (unat stop)"
    using \<open>4 dvd unat start\<close> room lt by (simp add: sz)
  then show ?thesis
    using True pos u32_lt [of stop]
    by (auto simp: Initialize_def Let_def heap_ok_def heap_rep_def block_in_def sizeof_MemoryHeader_def)
qed (auto simp: Initialize_def)

text \<open>
  On page-aligned, non-empty bounds \<open>Initialize\<close> sets up a well-formed heap of one
  free block that covers everything after its header; on other bounds it stops.
\<close>

lemma Initialize_establishes:
  assumes "0 < start" and "start < stop"
  shows "if start mod PAGE_SIZE = 0 \<and> stop mod PAGE_SIZE = 0
    then \<exists>h'. Initialize start stop h = Inr h' \<and> heap_ok h' [Blk start False (stop - start - 20)]
    else Initialize start stop h = Inl StartOrEndNotAligned"
  by (rule Initialize_effect [OF assms])

definition blank_heap :: heap where
  "blank_heap = \<lparr>startAddress = 0, endAddress = 0, firstHeader = 0, ram = (\<lambda>_. 0)\<rparr>"

theorem Initialize_establishes_witness:
  "(\<exists>h. Initialize 0xC0400000 0xC0401000 blank_heap = Inr h \<and>
     heap_ok h [Blk 0xC0400000 False 4076]) \<and>
   Initialize 0xC0400001 0xC0401000 blank_heap = Inl StartOrEndNotAligned"
  using Initialize_establishes [of "0xC0400000" "0xC0401000" blank_heap]
    Initialize_establishes [of "0xC0400001" "0xC0401000" blank_heap]
  by (simp add: PAGE_SIZE_def)

lemma wit_heap:
  obtains h where "heap_ok h [Blk 0xC0400000 False 4076]"
  using Initialize_effect [of "0xC0400000" "0xC0401000" blank_heap] by (auto simp: PAGE_SIZE_def)

text \<open>
  C16. \<open>InternalAllocate\<close> on a well-formed heap always returns. It reports that the heap
  is exhausted exactly when no free block is large enough; otherwise it takes the first
  one that is, cuts the rest off when at least 24 bytes are left, returns the address
  after the header and leaves a well-formed heap with exactly that block changed.
\<close>

theorem InternalAllocate_implements:
  assumes "heap_ok h bs"
  shows "case alloc_blocks (align_up sz 4) bs of
      None \<Rightarrow> InternalAllocate sz h = Some (Inl OutOfHeapSpace)
    | Some (p, bs') \<Rightarrow> \<exists>m. InternalAllocate sz h = Some (Inr (p, h\<lparr>ram := m\<rparr>)) \<and> heap_ok (h\<lparr>ram := m\<rparr>) bs'"
  by (rule InternalAllocate_refines [OF assms refl])

theorem InternalAllocate_implements_witness:
  "\<exists>h m. InternalAllocate 100 h = Some (Inr (0xC0400014, h\<lparr>ram := m\<rparr>)) \<and>
     heap_ok (h\<lparr>ram := m\<rparr>) [Blk 0xC0400000 True 100, Blk 0xC0400078 False 3956] \<and>
     InternalAllocate 5000 h = Some (Inl OutOfHeapSpace)"
proof -
  obtain h where h: "heap_ok h [Blk 0xC0400000 False 4076]" by (rule wit_heap)
  show ?thesis
    using InternalAllocate_implements [OF h, of 100] InternalAllocate_implements [OF h, of 5000]
    by (auto simp: align_up_def)
qed

text \<open>
  C7. Memory safety of the allocator: the region that \<open>malloc\<close> returns lies inside the heap, is aligned and
  overlaps no region that is in use; the regions in use afterwards are the earlier ones and the new
  one. Its size is the request rounded up to a multiple of four, except for the three requests above 0xFFFFFFFC: there the
  rounding wraps, and the region has no bytes at all.
\<close>

theorem kmalloc_fresh_region:
  assumes "heap_holds h R" and "kmalloc n h = Some (p, h')"
  shows "\<exists>k. 4 dvd unat k \<and> (if n \<le> 0xFFFFFFFC then n \<le> k \<and> unat k < unat n + 4 else k = 0) \<and>
    4 dvd unat p \<and> unat (startAddress h) + 20 \<le> unat p \<and>
    unat p + unat k \<le> unat (endAddress h) \<and> p \<notin> fst ` R \<and>
    (\<forall>r\<in>R. disjoint_regions (p, k) r) \<and> heap_holds h' (insert (p, k) R)"
proof -
  obtain k where k: "heap_grants n k" "p \<notin> fst ` R" "\<forall>r\<in>R. disjoint_regions (p, k) r"
    "heap_holds h' (insert (p, k) R)"
    using lheap.alloc_law [OF assms] by blast
  obtain bs where ok: "heap_ok h bs" using assms(1) by (auto simp: heap_holds_def)
  then obtain m where h': "h' = h\<lparr>ram := m\<rparr>"
    using kmalloc_cases [OF ok] assms(2) InternalAllocate_refines [OF ok refl, of n] by fastforce
  obtain bs' where "heap_ok h' bs'" "(p, k) \<in> used_blocks bs'"
    using k(4) unfolding heap_holds_def by blast
  then obtain b where b: "heap_ok h' bs'" "b \<in> set bs'" "p = badr b + 20" "k = bsize b"
    by (auto simp: used_blocks_def)
  have "4 dvd unat p" using heap_ok_block(1,4) [OF b(1,2)] by (simp add: b(3))
  with heap_ok_block(1-3) [OF b(1,2)] h' k b(3,4) show ?thesis
    by (intro exI [of _ k] conjI) (auto simp: heap_grants_def)
qed

theorem kmalloc_fresh_region_witness:
  "\<exists>h h' k. kmalloc 100 h = Some (0xC0400014, h') \<and> 100 \<le> k \<and> unat k < 104 \<and>
     0xC0400014 + unat k \<le> unat (endAddress h) \<and> heap_holds h' {(0xC0400014, k)}"
proof -
  obtain h where h: "heap_ok h [Blk 0xC0400000 False 4076]" by (rule wit_heap)
  then have "heap_holds h {}" by (auto simp: heap_holds_def intro!: exI [of _ "[Blk 0xC0400000 False 4076]"])
  moreover obtain m where "kmalloc 100 h = Some (0xC0400014, h\<lparr>ram := m\<rparr>)"
    by (rule kmalloc_refines [OF h, of 100]) (simp add: align_up_def)
  ultimately show ?thesis using kmalloc_fresh_region [of h "{}" 100 "0xC0400014"] by fastforce
qed

text \<open>
  C17. Freeing a live region succeeds, merges the block with a free neighbour on either
  side and removes exactly that region from those in use.
\<close>

theorem free_implements:
  assumes "heap_ok h (xs @ b # ys)" and "bused b"
  shows "\<exists>m. heap_free (badr b + 20) h = Inr (h\<lparr>ram := m\<rparr>) \<and>
    heap_ok (h\<lparr>ram := m\<rparr>) (release (badr b) (xs @ b # ys)) \<and>
    used_blocks (release (badr b) (xs @ b # ys)) = used_blocks xs \<union> used_blocks ys"
proof -
  have "distinct (map badr (xs @ b # ys))"
    using assms(1) laid_out_distinct [of "unat (startAddress h)" "xs @ b # ys"]
    by (auto simp: heap_ok_def heap_rep_def simp del: distinct_map)
  then have "badr b \<notin> set (map badr (xs @ ys))" by auto
  then have "used_blocks (release (badr b) (xs @ b # ys)) = used_blocks xs \<union> used_blocks ys"
    using assms(2) by (rule used_blocks_release)
  then show ?thesis
    using heap_free_refines [OF assms] by metis
qed

theorem free_implements_witness:
  "\<exists>h m. heap_ok h [Blk 0xC0400000 True 100, Blk 0xC0400078 False 3956] \<and>
     heap_free 0xC0400014 h = Inr (h\<lparr>ram := m\<rparr>) \<and> heap_ok (h\<lparr>ram := m\<rparr>) [Blk 0xC0400000 False 4076]"
proof -
  obtain h where h: "heap_ok h [Blk 0xC0400000 False 4076]" by (rule wit_heap)
  obtain h1 where h1: "heap_ok h1 [Blk 0xC0400000 True 100, Blk 0xC0400078 False 3956]"
    by (rule kmalloc_refines [OF h, of 100]) (auto simp: align_up_def)
  then obtain m where "heap_free 0xC0400014 h1 = Inr (h1\<lparr>ram := m\<rparr>)"
    "heap_ok (h1\<lparr>ram := m\<rparr>) [Blk 0xC0400000 False 4076]"
    using free_implements [of h1 "[]" "Blk 0xC0400000 True 100" "[Blk 0xC0400078 False 3956]"] by auto
  with h1 show ?thesis by blast
qed

text \<open>
  A second \<open>free\<close> of the same pointer right after the first is always caught, also
  when the block has been merged into its predecessor and its header is stale.
\<close>

lemma double_free_detected:
  assumes "heap_holds h R" and "(p, k) \<in> R"
  shows "\<exists>h'. heap_free p h = Inr h' \<and> heap_free p h' = Inl DoubleFreeDetected"
proof -
  obtain bs b where ok: "heap_ok h bs" and b: "b \<in> set bs" "bused b" "p = badr b + 20"
    using assms by (auto simp: heap_holds_def used_blocks_def)
  then obtain xs ys where "bs = xs @ b # ys" by (auto simp: in_set_conv_decomp)
  with ok b obtain m where "heap_free p h = Inr (h\<lparr>ram := m\<rparr>)" "hread m (badr b) H_allocated = 0"
    using heap_free_refines [of h xs b ys] by auto
  then show ?thesis
    by (simp add: b(3) heap_free_def [of _ "h\<lparr>ram := m\<rparr>"] sizeof_MemoryHeader_def)
qed

theorem double_free_detected_witness:
  "\<exists>h p h' h''. kmalloc 100 h = Some (p, h') \<and> heap_free p h' = Inr h'' \<and>
     heap_free p h'' = Inl DoubleFreeDetected"
proof -
  obtain h where h: "heap_ok h [Blk 0xC0400000 False 4076]" by (rule wit_heap)
  obtain m where m: "kmalloc 100 h = Some (0xC0400014, h\<lparr>ram := m\<rparr>)"
    "heap_ok (h\<lparr>ram := m\<rparr>) [Blk 0xC0400000 True 100, Blk 0xC0400078 False 3956]"
    by (rule kmalloc_refines [OF h, of 100]) (auto simp: align_up_def)
  then have "heap_holds (h\<lparr>ram := m\<rparr>) {(0xC0400014, 100)}"
    by (auto simp: heap_holds_def intro!: exI)
  from double_free_detected [OF this, of "0xC0400014" 100] m(1) show ?thesis by auto
qed

text \<open>
  C38. Allocating and freeing again: the block list is back to what it was when the block
  was split, but a block that was handed out whole comes back with only the requested
  size, and the few bytes behind it are lost for good.
\<close>

theorem malloc_free_roundtrip:
  assumes ok: "heap_ok h (xs @ b # ys)" and n: "n = align_up sz 4" "n \<le> bsize b" "\<not> bused b"
    and first: "list_all (\<lambda>x. bused x \<or> bsize x < n) xs"
  shows "\<exists>h1 h2. kmalloc sz h = Some (badr b + 20, h1) \<and> kfree (badr b + 20) h1 = Some h2 \<and>
    heap_ok h2 (xs @ Blk (badr b) False (if n + 24 \<le> bsize b then bsize b else n) # ys)"
proof -
  let ?a = "Blk (badr b) True n"
  let ?zs = "if n + 24 \<le> bsize b then Blk (badr b + n + 20) False (bsize b - n - 20) # ys else ys"
  have "alloc_blocks (align_up sz 4) (xs @ b # ys) = Some (badr b + 20, xs @ ?a # ?zs)"
    using alloc_blocks_first_fit [of xs n b ys] n first by (auto simp: list_all_iff)
  then obtain m where m: "kmalloc sz h = Some (badr b + 20, h\<lparr>ram := m\<rparr>)"
    "heap_ok (h\<lparr>ram := m\<rparr>) (xs @ ?a # ?zs)"
    using kmalloc_refines [OF ok] by blast
  have co: "coalesced (xs @ b # ys)" using ok by (simp add: heap_ok_def)
  then have last: "xs = [] \<or> bused (last xs)" and hd: "ys = [] \<or> bused (hd ys)"
    using n(3) by (cases ys; auto simp: coalesced_append)+
  have "distinct (map badr (xs @ b # ys))"
    using ok laid_out_distinct [of "unat (startAddress h)" "xs @ b # ys"]
    by (auto simp: heap_ok_def heap_rep_def simp del: distinct_map)
  then have "badr ?a \<notin> set (map badr xs)" by auto
  from release_here [OF last this, of ?zs]
  have "release (badr b) (xs @ ?a # ?zs) = xs @ absorb (Blk (badr b) False n) ?zs" by simp
  also have "absorb (Blk (badr b) False n) ?zs =
    Blk (badr b) False (if n + 24 \<le> bsize b then bsize b else n) # ys"
    using hd by (cases ys) auto
  finally have rel: "release (badr b) (xs @ ?a # ?zs) =
    xs @ Blk (badr b) False (if n + 24 \<le> bsize b then bsize b else n) # ys" .
  obtain m2 where "heap_free (badr b + 20) (h\<lparr>ram := m\<rparr>) = Inr (h\<lparr>ram := m2\<rparr>)"
    "heap_ok (h\<lparr>ram := m2\<rparr>) (release (badr b) (xs @ ?a # ?zs))"
    using heap_free_refines [OF m(2)] by auto
  then show ?thesis using m(1) rel by (auto simp: kfree_def)
qed

theorem malloc_free_roundtrip_witness:
  "\<exists>h h1 h2. heap_ok h [Blk 0xC0400000 False 4076] \<and> kmalloc 4056 h = Some (0xC0400014, h1) \<and>
     kfree 0xC0400014 h1 = Some h2 \<and> heap_ok h2 [Blk 0xC0400000 False 4056]"
proof -
  obtain h where h: "heap_ok h [Blk 0xC0400000 False 4076]" by (rule wit_heap)
  show ?thesis
    using malloc_free_roundtrip [of h "[]" "Blk 0xC0400000 False 4076" "[]" 4056 4056] h
    by (auto simp: align_up_def)
qed

text \<open>
  A request within 3 bytes of the 32-bit limit wraps to 0 when it is rounded up, and
  \<open>malloc\<close> answers it with a region of no bytes instead of stopping.
\<close>

lemma huge_request_gets_empty_region:
  assumes ok: "heap_ok h bs" and huge: "0xFFFFFFFC < sz" and free: "list_ex (\<lambda>b. \<not> bused b) bs"
  shows "\<exists>p h' bs'. kmalloc sz h = Some (p, h') \<and> heap_ok h' bs' \<and> (p, 0) \<in> used_blocks bs'"
proof -
  have z: "align_up sz 4 = 0" by (rule align_up_huge [OF huge])
  have "find (\<lambda>b. \<not> bused b \<and> 0 \<le> bsize b) bs \<noteq> None"
    using free by (auto simp: find_None_iff list_ex_iff)
  then obtain p bs' where al: "alloc_blocks (align_up sz 4) bs = Some (p, bs')"
    using alloc_blocks_None [of 0 bs] unfolding z by (cases "alloc_blocks 0 bs") auto
  obtain m where "kmalloc sz h = Some (p, h\<lparr>ram := m\<rparr>)" "heap_ok (h\<lparr>ram := m\<rparr>) bs'"
    by (rule kmalloc_refines [OF ok al])
  moreover have "(p, 0) \<in> used_blocks bs'" using used_blocks_alloc [OF al] z by simp
  ultimately show ?thesis by blast
qed

theorem huge_request_gets_empty_region_witness:
  "\<exists>h p h' bs'. heap_ok h [Blk 0xC0400000 False 4076] \<and> kmalloc 0xFFFFFFFD h = Some (p, h') \<and>
     heap_ok h' bs' \<and> (p, 0) \<in> used_blocks bs'"
proof -
  obtain h where h: "heap_ok h [Blk 0xC0400000 False 4076]" by (rule wit_heap)
  show ?thesis using huge_request_gets_empty_region [OF h, of "0xFFFFFFFD"] h by auto
qed

text \<open>The heap lives in the headers of its blocks alone.\<close>

lemma heap_ok_headers:
  assumes ok: "heap_ok h bs" and hd: "\<And>c f. c \<in> set bs \<Longrightarrow> hread m (badr c) f = hread (ram h) (badr c) f"
  shows "heap_ok (h\<lparr>ram := m\<rparr>) bs"
proof -
  let ?lo = "unat (startAddress h)" and ?hi = "unat (endAddress h)"
  have rep: "heap_rep (ram h) ?lo bs ?hi" using ok by (simp add: heap_ok_def)
  then have lay: "laid_out ?lo bs ?hi" by (simp add: heap_rep_def)
  have "heap_rep m ?lo bs ?hi"
  proof (rule heap_rep_cong [OF rep refl lay])
    show "block_in m c" if "c \<in> set bs" for c
      using that rep hd by (auto simp: heap_rep_def block_in_def)
  qed (use hd in auto)
  with ok show ?thesis by (simp add: heap_ok_def)
qed

text \<open>
  A client that writes only inside a region it owns never damages the heap: any two
  memories that agree outside the payload of one block represent the same heap.
\<close>

lemma payload_writes_safe:
  assumes ok: "heap_ok h bs" and b: "b \<in> set bs"
    and same: "\<And>a. unat a < unat (badr b) + 20 \<or> unat (badr b) + 20 + unat (bsize b) \<le> unat a \<Longrightarrow>
      m a = ram h a"
  shows "heap_ok (h\<lparr>ram := m\<rparr>) bs"
proof (rule heap_ok_headers [OF ok])
  fix c f assume c: "c \<in> set bs"
  have "laid_out (unat (startAddress h)) bs (unat (endAddress h))" using ok by (simp add: heap_ok_def heap_rep_def)
  note o = laid_out_order [OF this b c]
  have "unat (badr c + offset f) = unat (badr c) + unat (offset f)"
    using heap_ok_block(3) [OF ok c] u32_lt [of "endAddress h"] by (intro unat_field) simp
  moreover have "unat (badr c) + 20 \<le> unat (badr b) + 20 \<or> unat (badr b) + 20 + unat (bsize b) \<le> unat (badr c)"
    using o by auto
  ultimately have "m (badr c + offset f) = ram h (badr c + offset f)"
    using unat_offset [of f] by (intro same) linarith
  then show "hread m (badr c) f = hread (ram h) (badr c) f" by (simp add: hread_def)
qed

theorem payload_writes_safe_witness:
  "\<exists>h. heap_ok h [Blk 0xC0400000 False 4076] \<and>
     heap_ok (h\<lparr>ram := (ram h)(0xC0400014 := 99)\<rparr>) [Blk 0xC0400000 False 4076]"
proof -
  obtain h where h: "heap_ok h [Blk 0xC0400000 False 4076]" by (rule wit_heap)
  have "heap_ok (h\<lparr>ram := (ram h)(0xC0400014 := 99)\<rparr>) [Blk 0xC0400000 False 4076]"
    by (rule payload_writes_safe [OF h, of "Blk 0xC0400000 False 4076"]) auto
  with h show ?thesis by blast
qed

text \<open>
  The physical address that \<open>malloc\<close> reports is the one the processor uses: when the
  region's first page is mapped, it is the translation of the returned pointer, and the
  page tables are left alone.
\<close>

lemma malloc_physical_address:
  assumes "kmalloc sz h = Some (addr, h')" and "self_mapped st"
    and "table_frame st (PAGEDIR_INDEX addr) = Some t" and "translate st addr = Some a"
  shows "Heap_malloc sz True h st = Some (addr, Some a, h', st)"
proof -
  have r: "vread st (window (PAGEDIR_INDEX addr) (4 * PAGETBL_INDEX addr)) = Some (phys st (t + 4 * PAGETBL_INDEX addr))"
    by (rule vread_window [OF assms(2,3) PAGEDIR_INDEX_less index_offset(1) [OF PAGETBL_INDEX_less]])
  have "a = pte_get PT_frame (phys st (t + 4 * PAGETBL_INDEX addr)) * 4096 + PAGEFRAME_INDEX addr"
    using assms(4) translate_table [OF assms(3)] by (auto simp: Let_def split: if_splits)
  then show ?thesis
    using assms(1) GetPageForAddress_existing [OF assms(2,3)] r
    by (simp add: Heap_malloc_def PAGE_SIZE_def PAGEFRAME_INDEX_def)
qed

theorem malloc_physical_address_witness:
  "\<exists>h h' st. Heap_malloc 100 True h st = Some (0xC0400014, Some 0x5014, h', st)"
proof -
  obtain h where h: "heap_ok h [Blk 0xC0400000 False 4076]" by (rule wit_heap)
  obtain m where m: "kmalloc 100 h = Some (0xC0400014, h\<lparr>ram := m\<rparr>)"
    by (rule kmalloc_refines [OF h, of 100]) (simp add: align_up_def)
  define st where "st = \<lparr>phys = (\<lambda>_. 0)(0xFFC := 3, 0xC04 := 0x1003, 0x1000 := 0x5003), cr3 = 0, phyMem = demo_phymem 64\<rparr>"
  have "self_mapped st"
    by (simp add: self_mapped_def st_def table_frame_def entry_table_def pde_get_def get_bits_def FOUR_MB_def)
  moreover have "table_frame st (PAGEDIR_INDEX 0xC0400014) = Some 0x1000"
    by (simp add: st_def table_frame_def entry_table_def pde_get_def get_bits_def FOUR_MB_def PAGEDIR_INDEX_def)
  moreover have "translate st 0xC0400014 = Some 0x5014"
    by (simp add: st_def translate_def page_walk_def pde_get_def pte_get_def get_bits_def FOUR_MB_def
        PAGEDIR_INDEX_def PAGETBL_INDEX_def PAGEFRAME_INDEX_def)
  ultimately show ?thesis using malloc_physical_address [OF m] by blast
qed

end
