(* ===== verification/OS_Regions.thy ===== *)
theory OS_Regions
  imports OS_Heap
begin

text \<open>
  Objects in the heap (mem/heap.cpp): what the allocator promises about the contents of memory, and
  what follows for code that keeps objects in the regions it was given.

  \<^item> \<open>placed R pl\<close>: \<open>pl\<close> gives for every object its address and size; each lies in a live region of its
    own.
  \<^item> The locale \<open>memory_regions\<close> extends the contract of the allocator: neither allocating nor freeing
    touches the contents of other live regions, and writing inside a live region does not harm the
    allocator. The client's lemmas are proved in it once; the heap is its interpretation \<open>rheap\<close>.
  \<^item> \<open>room\<close>: a free block is left, so that the allocation returns.
\<close>

section \<open>Objects in regions\<close>

definition in_region :: "u32 \<Rightarrow> u32 \<times> u32 \<Rightarrow> bool" where
  "in_region a r \<longleftrightarrow> unat (fst r) \<le> unat a \<and> unat a < unat (fst r) + unat (snd r)"

definition owns :: "(u32 \<times> u32) set \<Rightarrow> u32 \<Rightarrow> u32 \<Rightarrow> bool" where
  "owns R p n \<longleftrightarrow> (\<exists>k. (p, k) \<in> R \<and> n \<le> k)"

definition placed :: "(u32 \<times> u32) set \<Rightarrow> ('r \<rightharpoonup> u32 \<times> u32) \<Rightarrow> bool" where
  "placed R pl \<longleftrightarrow> (\<forall>r p n. pl r = Some (p, n) \<longrightarrow> owns R p n) \<and>
     (\<forall>r r' p n n'. pl r = Some (p, n) \<longrightarrow> pl r' = Some (p, n') \<longrightarrow> r = r')"

lemma in_region_mono: "in_region a (p, n) \<Longrightarrow> n \<le> k \<Longrightarrow> in_region a (p, k)"
  by (auto simp: in_region_def word_le_nat_alt)

lemma in_region_disjoint: "disjoint_regions r s \<Longrightarrow> in_region a r \<Longrightarrow> \<not> in_region a s"
  by (auto simp: disjoint_regions_def in_region_def)

lemma placedD:
  assumes "placed R pl" and "pl r = Some (p, n)"
  obtains k where "(p, k) \<in> R" and "n \<le> k"
  using assms unfolding placed_def owns_def by blast

lemma placed_inj: "placed R pl \<Longrightarrow> pl r = Some (p, n) \<Longrightarrow> pl r' = Some (p, n') \<Longrightarrow> r = r'"
  unfolding placed_def by blast

lemma placed_mono:
  assumes "placed R pl" and "R \<subseteq> R'" and "pl' \<subseteq>\<^sub>m pl"
  shows "placed R' pl'"
proof -
  have "pl r = Some x" if "pl' r = Some x" for r x
    using assms(3) that by (auto simp: map_le_def dom_def)
  then have "pl r = Some x \<and> pl r' = Some y" if "pl' r = Some x" "pl' r' = Some y" for r r' x y
    using that by blast
  with assms(1,2) show ?thesis unfolding placed_def owns_def by (meson subsetD)
qed

lemma placed_new:
  assumes "placed R pl" and "p \<notin> fst ` R" and "n \<le> k"
  shows "placed (insert (p, k) R) (pl(r \<mapsto> (p, n)))"
proof -
  have "q \<noteq> p" if "pl s = Some (q, l)" for s q l
    using assms(1,2) that unfolding placed_def owns_def by force
  with assms(1,3) show ?thesis unfolding placed_def owns_def by (fastforce split: if_splits)
qed

lemma placed_delete:
  assumes "placed R pl" and "pl r = Some (p, n)"
  shows "placed (R - {(p, k)}) (pl(r := None))"
proof -
  have "q \<noteq> p" if "pl s = Some (q, l)" "s \<noteq> r" for s q l
    using placed_inj [OF assms(1) _ assms(2)] that by blast
  with assms(1) show ?thesis unfolding placed_def owns_def by (auto split: if_splits)
qed

section \<open>The contract\<close>

locale memory_regions = region_allocator +
  fixes contents :: "'a \<Rightarrow> memory"
    and put :: "memory \<Rightarrow> 'a \<Rightarrow> 'a"
  assumes grants_law: "grants n k \<Longrightarrow> n \<le> 0xFFFFFFFC \<Longrightarrow> n \<le> k"
    and unique_law: "holds s R \<Longrightarrow> (p, k) \<in> R \<Longrightarrow> (p, l) \<in> R \<Longrightarrow> k = l"
    and disjoint_law: "holds s R \<Longrightarrow> (p, k) \<in> R \<Longrightarrow> (q, l) \<in> R \<Longrightarrow> p \<noteq> q \<Longrightarrow> disjoint_regions (p, k) (q, l)"
    and alloc_keeps: "holds s R \<Longrightarrow> alloc n s = Some (p, s') \<Longrightarrow> r \<in> R \<Longrightarrow> in_region a r \<Longrightarrow>
      contents s' a = contents s a"
    and dealloc_keeps: "holds s R \<Longrightarrow> (p, k) \<in> R \<Longrightarrow> dealloc p s = Some s' \<Longrightarrow> r \<in> R \<Longrightarrow> in_region a r \<Longrightarrow>
      contents s' a = contents s a"
    and contents_put: "contents (put m s) = m"
    and put_law: "holds s R \<Longrightarrow> r \<in> R \<Longrightarrow> (\<And>a. \<not> in_region a r \<Longrightarrow> m a = contents s a) \<Longrightarrow> holds (put m s) R"
begin

lemma new_object:
  assumes "holds s R" and "placed R pl" and "alloc n s = Some (p, s')" and "n \<le> 0xFFFFFFFC"
  obtains k where "n \<le> k" and "p \<notin> fst ` R" and "holds s' (insert (p, k) R)"
    and "placed (insert (p, k) R) (pl(r \<mapsto> (p, n)))"
    and "\<And>q a. q \<in> R \<Longrightarrow> in_region a q \<Longrightarrow> contents s' a = contents s a"
proof -
  obtain k where k: "grants n k" "p \<notin> fst ` R" "holds s' (insert (p, k) R)"
    using alloc_law [OF assms(1,3)] by blast
  have "n \<le> k" using grants_law [OF k(1) assms(4)] .
  with that k placed_new [OF assms(2) k(2)] alloc_keeps [OF assms(1,3)] show thesis by blast
qed

lemma delete_object:
  assumes "holds s R" and "placed R pl" and "pl r = Some (p, n)"
  obtains k s' where "(p, k) \<in> R" and "n \<le> k" and "dealloc p s = Some s'" and "holds s' (R - {(p, k)})"
    and "placed (R - {(p, k)}) (pl(r := None))"
    and "\<And>q a. q \<in> R \<Longrightarrow> in_region a q \<Longrightarrow> contents s' a = contents s a"
proof -
  obtain k where k: "(p, k) \<in> R" "n \<le> k" by (rule placedD [OF assms(2,3)])
  then obtain s' where "dealloc p s = Some s'" "holds s' (R - {(p, k)})"
    using dealloc_law [OF assms(1)] by blast
  with that k placed_delete [OF assms(2,3)] dealloc_keeps [OF assms(1) k(1)] show thesis by blast
qed

lemma write_object:
  assumes "holds s R" and "placed R pl" and "pl r = Some (p, n)"
    and same: "\<And>a. \<not> in_region a (p, n) \<Longrightarrow> m a = contents s a"
  shows "holds (put m s) R"
    and "pl r' = Some (q, l) \<Longrightarrow> r' \<noteq> r \<Longrightarrow> in_region a (q, l) \<Longrightarrow> m a = contents s a"
proof -
  obtain k where k: "(p, k) \<in> R" "n \<le> k" by (rule placedD [OF assms(2,3)])
  have out: "\<not> in_region a (p, n)" if "\<not> in_region a (p, k)" for a
    using that k(2) in_region_mono by blast
  show "holds (put m s) R" by (rule put_law [OF assms(1) k(1)]) (rule same [OF out])
  show "m a = contents s a" if r': "pl r' = Some (q, l)" "r' \<noteq> r" "in_region a (q, l)"
  proof -
    obtain k' where k': "(q, k') \<in> R" "l \<le> k'" by (rule placedD [OF assms(2) r'(1)])
    have "q \<noteq> p" using placed_inj [OF assms(2) r'(1)] r'(2) assms(3) by blast
    then have "disjoint_regions (q, k') (p, k)" by (rule disjoint_law [OF assms(1) k'(1) k(1)])
    then have "\<not> in_region a (p, k)" by (rule in_region_disjoint) (rule in_region_mono [OF r'(3) k'(2)])
    then show ?thesis by (rule same [OF out])
  qed
qed

text \<open>Allocated, written to and given back.\<close>

lemma object_life:
  assumes "holds s R" and "alloc n s = Some (p, s')" and "n \<le> 0xFFFFFFFC"
  obtains k where "n \<le> k" and "p \<notin> fst ` R" and "holds s' (insert (p, k) R)"
    and "\<And>q a. q \<in> R \<Longrightarrow> in_region a q \<Longrightarrow> contents s' a = contents s a"
    and "\<And>m. (\<And>a. \<not> in_region a (p, n) \<Longrightarrow> m a = contents s' a) \<Longrightarrow> holds (put m s') (insert (p, k) R) \<and>
      (\<exists>s''. dealloc p (put m s') = Some s'' \<and> holds s'' R \<and> (\<forall>q\<in>R. \<forall>a. in_region a q \<longrightarrow> contents s'' a = contents s a))"
proof -
  have "placed R Map.empty" by (simp add: placed_def)
  from new_object [OF assms(1) this assms(2,3), of "()"] obtain k where k: "n \<le> k" "p \<notin> fst ` R"
    "holds s' (insert (p, k) R)" "placed (insert (p, k) R) [() \<mapsto> (p, n)]"
    "\<And>q a. q \<in> R \<Longrightarrow> in_region a q \<Longrightarrow> contents s' a = contents s a" by blast
  have "holds (put m s') (insert (p, k) R) \<and>
      (\<exists>s''. dealloc p (put m s') = Some s'' \<and> holds s'' R \<and> (\<forall>q\<in>R. \<forall>a. in_region a q \<longrightarrow> contents s'' a = contents s a))"
    if m: "\<And>a. \<not> in_region a (p, n) \<Longrightarrow> m a = contents s' a" for m
  proof -
    have w: "holds (put m s') (insert (p, k) R)" by (rule write_object(1) [OF k(3,4) _ m]) simp
    obtain l s'' where d: "(p, l) \<in> insert (p, k) R" "dealloc p (put m s') = Some s''" "holds s'' (insert (p, k) R - {(p, l)})"
      "\<And>q a. q \<in> insert (p, k) R \<Longrightarrow> in_region a q \<Longrightarrow> contents s'' a = contents (put m s') a"
      by (rule delete_object [OF w k(4), of "()" p n]) (simp, rule that)
    have "l = k" by (rule unique_law [OF w d(1)]) simp
    then have "insert (p, k) R - {(p, l)} = R" using k(2) by force
    moreover have "contents s'' a = contents s a" if q: "q \<in> R" "in_region a q" for q a
    proof -
      have "fst q \<noteq> p" using q(1) k(2) by force
      then have "disjoint_regions (fst q, snd q) (p, k)" using q(1) by (intro disjoint_law [OF k(3)]) simp_all
      then have "\<not> in_region a (p, k)" using in_region_disjoint q(2) by (metis prod.collapse)
      then have "m a = contents s' a" using in_region_mono [OF _ k(1)] by (intro m) blast
      then show ?thesis using d(4) [of q a] k(5) [OF q] q by (simp add: contents_put)
    qed
    ultimately show ?thesis using w d(2,3) by simp
  qed
  with that [of k] k(1-3,5) show thesis by blast
qed

end

section \<open>The heap keeps it\<close>

lemma used_block:
  assumes "r \<in> used_blocks bs"
  obtains b where "b \<in> set bs" and "bused b" and "r = (badr b + 20, bsize b)"
  using assms by (auto simp: used_blocks_def)

lemma payload_off_header:
  assumes ok: "heap_ok h bs" and b: "b \<in> set bs" and a: "in_region a (badr b + 20, bsize b)" and c: "c \<in> set bs"
  shows "off_header a (badr c)"
  unfolding off_header_def
proof (intro allI notI)
  fix f assume f: "a = badr c + offset f"
  have "laid_out (unat (startAddress h)) bs (unat (endAddress h))" using ok by (simp add: heap_ok_def heap_rep_def)
  note o = laid_out_order [OF this b c]
  have "unat a = unat (badr c) + unat (offset f)"
    unfolding f using heap_ok_block(3) [OF ok c] u32_lt [of "endAddress h"] by (intro unat_field) simp
  then show False using o a unat_offset [of f] heap_ok_block(1) [OF ok b] by (auto simp: in_region_def)
qed

lemma kmalloc_keeps_payload:
  assumes ok: "heap_ok h bs" and run: "kmalloc sz h = Some (p, h')" and b: "b \<in> set bs" "bused b"
    and a: "in_region a (badr b + 20, bsize b)"
  shows "ram h' a = ram h a"
proof -
  define n where "n = align_up sz 4"
  obtain bs' where "alloc_blocks n bs = Some (p, bs')" and go: "InternalAllocate sz h = Some (Inr (p, h'))"
    using run unfolding kmalloc_cases [OF ok] n_def by blast
  then obtain c where fd: "find (\<lambda>b. \<not> bused b \<and> n \<le> bsize b) bs = Some c"
    using alloc_blocks_None [of n bs] by fastforce
  obtain xs ys where bs: "bs = xs @ c # ys" and c: "\<not> bused c" "n \<le> bsize c" by (rule alloc_blocks_Some [OF fd])
  have h': "ram h' = hwrite (badr c) H_size n (hwrite (badr c) H_allocated 1
      (if n + 24 \<le> bsize c then split_block (badr c) n (ram h) else ram h))"
    using InternalAllocate_run [OF ok [unfolded bs] n_def fd [unfolded bs]] go by auto
  have off: "off_header a (badr d)" if "d \<in> set bs" for d by (rule payload_off_header [OF ok b(1) a that])
  have "split_block (badr c) n (ram h) a = ram h a" if split: "n + 24 \<le> bsize c"
  proof -
    let ?nb = "badr c + n + 20" and ?nx = "hread (ram h) (badr c) H_next"
    have rep: "heap_rep (ram h) (unat (startAddress h)) (xs @ c # ys) (unat (endAddress h))"
      using ok bs by (simp add: heap_ok_def)
    note ar = split_arith [OF rep c(2) split]
    have cs: "c \<in> set bs" "b \<noteq> c" using bs b(2) c(1) by auto
    have "laid_out (unat (startAddress h)) bs (unat (endAddress h))" using ok by (simp add: heap_ok_def heap_rep_def)
    note ord = laid_out_order [OF this cs(1) b(1)]
    have hi: "unat (badr c) + 20 + unat (bsize c) < 2 ^ 32"
      using heap_ok_block(3) [OF ok cs(1)] u32_lt [of "endAddress h"] by simp
    have nb: "off_header a ?nb" unfolding off_header_def
    proof (intro allI notI)
      fix f assume f: "a = ?nb + offset f"
      have "unat a = unat ?nb + unat (offset f)" unfolding f using ar hi by (intro unat_field) simp
      then show False using ord cs(2) a ar unat_offset [of f] heap_ok_block(1) [OF ok b(1)]
        by (auto simp: in_region_def)
    qed
    have "apart (badr c) ?nb" using ar hi by (simp add: apart_def)
    from split_block_memory [OF refl refl this] show ?thesis
      using off [OF cs(1)] nb heap_rep_neighbours(1) [OF rep] off bs by (cases ys) simp_all
  qed
  then show ?thesis using off [of c] bs by (simp add: h')
qed

lemma kfree_keeps_payload:
  assumes ok: "heap_ok h bs" and d: "d \<in> set bs" "bused d" and run: "kfree (badr d + 20) h = Some h'"
    and b: "b \<in> set bs" and a: "in_region a (badr b + 20, bsize b)"
  shows "ram h' a = ram h a"
proof -
  obtain xs ys where bs: "bs = xs @ d # ys" using d(1) by (auto simp: in_set_conv_decomp)
  obtain m where m: "heap_free (badr d + 20) h = Inr (h\<lparr>ram := m\<rparr>)"
    "\<And>a. (\<And>c. c \<in> set (xs @ d # ys) \<Longrightarrow> off_header a (badr c)) \<Longrightarrow> m a = ram h a"
    by (rule heap_free_refines [OF ok [unfolded bs] d(2)]) metis
  then have "ram h' = m" using run by (auto simp: kfree_def)
  then show ?thesis using m(2) payload_off_header [OF ok b a] bs by simp
qed

text \<open>Writes that respect the heap: below it, or in live regions.\<close>

definition tame :: "heap \<Rightarrow> (u32 \<times> u32) set \<Rightarrow> memory \<Rightarrow> bool" where
  "tame h R m \<longleftrightarrow> (\<forall>a. m a \<noteq> ram h a \<longrightarrow> unat a < unat (startAddress h) \<or> (\<exists>r\<in>R. in_region a r))"

lemma tame_blocks:
  assumes ok: "heap_ok h bs" and t: "tame h (used_blocks bs) m"
  shows "heap_ok (h\<lparr>ram := m\<rparr>) bs"
proof (rule heap_ok_headers [OF ok])
  fix c f assume c: "c \<in> set bs"
  have "unat (badr c + offset f) = unat (badr c) + unat (offset f)"
    using heap_ok_block(3) [OF ok c] u32_lt [of "endAddress h"] by (intro unat_field) simp
  then have "\<not> unat (badr c + offset f) < unat (startAddress h)" using heap_ok_block(2) [OF ok c] by simp
  moreover have "\<not> in_region (badr c + offset f) r" if "r \<in> used_blocks bs" for r
    using used_block [OF that] payload_off_header [OF ok _ _ c] unfolding off_header_def by metis
  ultimately show "hread m (badr c) f = hread (ram h) (badr c) f" using t unfolding tame_def hread_def by blast
qed

lemma payload_writes_harmless:
  assumes "heap_ok h bs" and "b \<in> set bs" and "\<And>a. \<not> in_region a (badr b + 20, bsize b) \<Longrightarrow> m a = ram h a"
  shows "heap_ok (h\<lparr>ram := m\<rparr>) bs"
  using assms(3) heap_ok_block(1) [OF assms(1,2)] by (intro payload_writes_safe [OF assms(1,2)]) (auto simp: in_region_def)

interpretation rheap: memory_regions heap_holds heap_grants kmalloc kfree ram "\<lambda>m h. h\<lparr>ram := m\<rparr>"
proof
  fix n k assume "heap_grants n k" "n \<le> 0xFFFFFFFC"
  then show "n \<le> k" by (simp add: heap_grants_def)
next
  fix h R p k l assume "heap_holds h R" "(p, k) \<in> R" "(p, l) \<in> R"
  then obtain bs b c where ok: "heap_ok h bs" and b: "b \<in> set bs" "p = badr b + 20" "k = bsize b"
    and c: "c \<in> set bs" "p = badr c + 20" "l = bsize c"
    by (auto simp: heap_holds_def used_blocks_def)
  have "distinct (map badr bs)" using ok laid_out_distinct by (auto simp: heap_ok_def heap_rep_def simp del: distinct_map)
  moreover have "badr b = badr c" using b(2) c(2) by simp
  ultimately show "k = l" using b c by (metis distinct_map inj_on_def)
next
  fix h R p k q l assume "heap_holds h R" "(p, k) \<in> R" "(q, l) \<in> R" "p \<noteq> q"
  then show "disjoint_regions (p, k) (q, l)"
    unfolding heap_holds_def by (auto simp: used_blocks_def intro: heap_ok_disjoint(1))
next
  fix h R n p h' r a assume "heap_holds h R" "kmalloc n h = Some (p, h')" "r \<in> R" "in_region a r"
  then show "ram h' a = ram h a"
    unfolding heap_holds_def by (auto elim!: used_block intro: kmalloc_keeps_payload)
next
  fix h R p k h' r a assume "heap_holds h R" "(p, k) \<in> R" "kfree p h = Some h'" "r \<in> R" "in_region a r"
  then show "ram h' a = ram h a"
    unfolding heap_holds_def by (auto elim!: used_block intro: kfree_keeps_payload)
next
  show "ram (h\<lparr>ram := m\<rparr>) = m" for h :: heap and m by simp
next
  fix h R r m assume "heap_holds h R" "r \<in> R" "\<And>a. \<not> in_region a r \<Longrightarrow> m a = ram h a"
  then show "heap_holds (h\<lparr>ram := m\<rparr>) R"
    unfolding heap_holds_def by (blast elim!: used_block intro: payload_writes_harmless)
qed

section \<open>Room for an allocation\<close>

definition room :: "heap \<Rightarrow> nat \<Rightarrow> bool" where
  "room h n \<longleftrightarrow> (\<exists>bs. heap_ok h bs \<and> list_ex (\<lambda>b. \<not> bused b \<and> n \<le> unat (bsize b)) bs)"

lemma room_mono: "room h n \<Longrightarrow> m \<le> n \<Longrightarrow> room h m"
  unfolding room_def list_ex_iff by (meson order.trans)

lemma alloc_blocks_room:
  assumes "list_ex (\<lambda>b. \<not> bused b \<and> unat n + 20 + r \<le> unat (bsize b)) bs" and "4 \<le> r"
  shows "\<exists>p bs'. alloc_blocks n bs = Some (p, bs') \<and> list_ex (\<lambda>b. \<not> bused b \<and> r \<le> unat (bsize b)) bs'"
  using assms(1)
proof (induction bs)
  case (Cons b bs)
  show ?case
  proof (cases "bused b \<or> bsize b < n")
    case True
    then have "list_ex (\<lambda>b. \<not> bused b \<and> unat n + 20 + r \<le> unat (bsize b)) bs"
      using Cons.prems by (auto simp: word_less_nat_alt)
    with Cons.IH True show ?thesis by auto
  next
    case False
    show ?thesis
    proof (cases "unat n + 20 + r \<le> unat (bsize b)")
      case big: True
      have "unat (n + 24) = unat n + 24" using big assms(2) u32_lt [of "bsize b"] by (intro trans [OF unat_plus_le]) simp_all
      then have "n + 24 \<le> bsize b" using big assms(2) by (simp add: word_le_nat_alt)
      moreover have "unat (bsize b - n - 20) = unat (bsize b) - unat n - 20"
        using big by (simp add: unat_minus_le word_le_nat_alt)
      moreover have "r \<le> unat (bsize b) - (unat n + 20)" using big by simp
      ultimately show ?thesis using False by simp
    next
      case small: False
      then have "list_ex (\<lambda>b. \<not> bused b \<and> r \<le> unat (bsize b)) bs"
        using Cons.prems by (auto simp: list_ex_iff)
      then show ?thesis using False by simp
    qed
  qed
qed simp

lemma kmalloc_room:
  assumes "room h (unat n + 24 + r)" and "4 \<le> r" and "n \<le> 0xFFFFFFFC"
  obtains p m where "kmalloc n h = Some (p, h\<lparr>ram := m\<rparr>)" and "room (h\<lparr>ram := m\<rparr>) r"
proof -
  obtain bs where ok: "heap_ok h bs" and "list_ex (\<lambda>b. \<not> bused b \<and> unat n + 24 + r \<le> unat (bsize b)) bs"
    using assms(1) by (auto simp: room_def)
  then have "list_ex (\<lambda>b. \<not> bused b \<and> unat (align_up n 4) + 20 + r \<le> unat (bsize b)) bs"
    using align_up_bounds(2) [OF assms(3)] by (auto simp: list_ex_iff)
  from alloc_blocks_room [OF this assms(2)] obtain p bs' where
    "alloc_blocks (align_up n 4) bs = Some (p, bs')" and "list_ex (\<lambda>b. \<not> bused b \<and> r \<le> unat (bsize b)) bs'" by blast
  note al = this
  obtain m where "kmalloc n h = Some (p, h\<lparr>ram := m\<rparr>)" "heap_ok (h\<lparr>ram := m\<rparr>) bs'"
    by (rule kmalloc_refines [OF ok al(1)])
  with al(2) that show thesis unfolding room_def by blast
qed

text \<open>Whether a request is granted depends on nothing but a free block of its size.\<close>

lemma kmalloc_fits:
  assumes "room h (unat n)" and "n \<le> 0xFFFFFFFC"
  obtains p h' where "kmalloc n h = Some (p, h')"
proof -
  obtain bs b where ok: "heap_ok h bs" and b: "b \<in> set bs" "\<not> bused b" "unat n \<le> unat (bsize b)"
    using assms(1) by (auto simp: room_def list_ex_iff)
  have "align_up n 4 \<le> bsize b" by (rule align_up_fits [OF assms(2) b(3) heap_ok_block(5) [OF ok b(1)]])
  then have "find (\<lambda>b. \<not> bused b \<and> align_up n 4 \<le> bsize b) bs \<noteq> None" using b by (auto simp: find_None_iff)
  then obtain p bs' where "alloc_blocks (align_up n 4) bs = Some (p, bs')"
    using alloc_blocks_None [of "align_up n 4" bs] by (cases "alloc_blocks (align_up n 4) bs") auto
  then show thesis by (rule kmalloc_refines [OF ok]) (rule that)
qed

lemma kmalloc_fails:
  assumes "heap_ok h bs" and "\<not> room h (unat n)" and "n \<le> 0xFFFFFFFC"
  shows "InternalAllocate n h = Some (Inl OutOfHeapSpace)"
proof -
  have "\<not> align_up n 4 \<le> bsize b" if "b \<in> set bs" "\<not> bused b" for b
  proof
    assume "align_up n 4 \<le> bsize b"
    then have "unat n \<le> unat (bsize b)" using align_up_bounds(1) [OF assms(3)] by (simp add: word_le_nat_alt)
    then show False using assms(1,2) that by (auto simp: room_def list_ex_iff)
  qed
  then have "alloc_blocks (align_up n 4) bs = None" by (auto simp: alloc_blocks_None find_None_iff)
  then show ?thesis using InternalAllocate_refines [OF assms(1) refl, of n] by simp
qed

text \<open>The memory determines the blocks.\<close>

lemma dseg_unique:
  "dseg nx pv p as 0 \<Longrightarrow> dseg nx pv q bs 0 \<Longrightarrow> hd_or as 0 = hd_or bs 0 \<Longrightarrow> 0 \<notin> set as \<Longrightarrow> 0 \<notin> set bs \<Longrightarrow> as = bs"
proof (induction as arbitrary: p q bs)
  case Nil
  then show ?case by (cases bs) auto
next
  case (Cons a as)
  then show ?case by (cases bs) auto
qed

lemma heap_ok_unique:
  assumes "heap_ok h bs" and "heap_ok h cs"
  shows "bs = cs"
proof -
  have d: "map badr bs = map badr cs"
  proof (rule dseg_unique)
    show "dseg (\<lambda>a. hread (ram h) a H_next) (\<lambda>a. hread (ram h) a H_prev) 0 (map badr bs) 0"
      "dseg (\<lambda>a. hread (ram h) a H_next) (\<lambda>a. hread (ram h) a H_prev) 0 (map badr cs) 0"
      "hd_or (map badr bs) 0 = hd_or (map badr cs) 0"
      using assms by (simp_all add: heap_ok_def heap_rep_def hd_map)
    show "0 \<notin> set (map badr bs)" "0 \<notin> set (map badr cs)"
      using assms laid_out_nonzero by (auto simp: heap_ok_def heap_rep_def simp del: set_map)
  qed
  have b: "\<forall>b\<in>set bs. block_in (ram h) b" "\<forall>b\<in>set cs. block_in (ram h) b"
    using assms by (simp_all add: heap_ok_def heap_rep_def)
  show ?thesis
  proof (rule nth_equalityI)
    show len: "length bs = length cs" using arg_cong [OF d, of length] by simp
    fix i assume i: "i < length bs"
    have "badr (bs ! i) = badr (cs ! i)" using arg_cong [OF d, of "\<lambda>xs. xs ! i"] i len by simp
    moreover have "block_in (ram h) (bs ! i)" "block_in (ram h) (cs ! i)" using b i len by simp_all
    ultimately show "bs ! i = cs ! i" by (auto simp: block_in_def intro!: blk.expand split: if_splits)
  qed
qed

text \<open>The words of the headers: freeing touches no others, and makes no new headers.\<close>

definition heap_headers :: "heap \<Rightarrow> u32 set" where
  "heap_headers h = {badr b + offset f | b f bs. heap_ok h bs \<and> b \<in> set bs}"

lemma off_headers:
  assumes "heap_ok h bs" and "a \<notin> heap_headers h" and "b \<in> set bs"
  shows "off_header a (badr b)"
  using assms by (auto simp: heap_headers_def off_header_def)

lemma heap_headers_blocks: "heap_ok h bs \<Longrightarrow> heap_headers h = {badr b + offset f | b f. b \<in> set bs}"
  unfolding heap_headers_def using heap_ok_unique by blast

lemma absorb_addresses: "badr ` set (absorb b cs) \<subseteq> badr ` set (b # cs)"
  by (cases cs) auto

lemma release_addresses: "badr ` set (release a bs) \<subseteq> badr ` set bs"
proof (induction a bs rule: release.induct)
  case (3 a b c cs)
  show ?case
  proof (cases "badr b = a \<or> badr c = a \<and> \<not> bused b")
    case True
    then show ?thesis
      using absorb_addresses [of "Blk a False (bsize b)" "c # cs"]
        absorb_addresses [of "Blk (badr b) False (bsize b + (bsize c + 20))" cs] by auto
  next
    case False
    then show ?thesis using 3 by auto
  qed
qed auto

lemma kfree_headers:
  assumes "heap_holds h R" and "(p, k) \<in> R" and run: "kfree p h = Some h'"
  shows "heap_headers h' \<subseteq> heap_headers h" and "a \<notin> heap_headers h \<Longrightarrow> ram h' a = ram h a"
proof -
  obtain bs d where ok: "heap_ok h bs" and d: "d \<in> set bs" "bused d" "p = badr d + 20"
    using assms(1,2) by (auto simp: heap_holds_def used_blocks_def)
  then obtain xs ys where bs: "bs = xs @ d # ys" by (auto simp: in_set_conv_decomp)
  obtain m where m: "heap_free (badr d + 20) h = Inr (h\<lparr>ram := m\<rparr>)"
    "heap_ok (h\<lparr>ram := m\<rparr>) (release (badr d) (xs @ d # ys))"
    "\<And>a. (\<And>c. c \<in> set (xs @ d # ys) \<Longrightarrow> off_header a (badr c)) \<Longrightarrow> m a = ram h a"
    by (rule heap_free_refines [OF ok [unfolded bs] d(2)]) metis
  have h': "h' = h\<lparr>ram := m\<rparr>" using run m(1) by (simp add: kfree_def d(3))
  show "heap_headers h' \<subseteq> heap_headers h"
    unfolding h' heap_headers_blocks [OF m(2)] heap_headers_blocks [OF ok]
    using release_addresses [of "badr d" "xs @ d # ys"] by (fastforce simp: bs image_iff)
  show "ram h' a = ram h a" if "a \<notin> heap_headers h"
    using m(3) [of a] off_headers [OF ok that] by (simp add: h' bs)
qed

lemma tame_heap:
  assumes "heap_holds h R" and "tame h R m"
  shows "heap_holds (h\<lparr>ram := m\<rparr>) R" and "room h n \<Longrightarrow> room (h\<lparr>ram := m\<rparr>) n"
proof -
  obtain bs where bs: "heap_ok h bs" "R = used_blocks bs" using assms(1) by (auto simp: heap_holds_def)
  then have ok: "heap_ok (h\<lparr>ram := m\<rparr>) bs" using assms(2) by (auto intro: tame_blocks)
  then show "heap_holds (h\<lparr>ram := m\<rparr>) R" using bs(2) by (auto simp: heap_holds_def)
  show "room (h\<lparr>ram := m\<rparr>) n" if "room h n"
    using that bs(1) ok heap_ok_unique unfolding room_def by blast
qed

lemma put_room:
  assumes "heap_holds h R" and "r \<in> R" and "\<And>a. \<not> in_region a r \<Longrightarrow> m a = ram h a" and "room h n"
  shows "room (h\<lparr>ram := m\<rparr>) n"
  using assms by (intro tame_heap(2)) (auto simp: tame_def)

section \<open>Allocations that interrupts cut in two\<close>

text \<open>What \<open>InternalAllocate\<close> does with the block that it found, for a size that is already rounded up.\<close>

definition claim_block :: "u32 \<Rightarrow> u32 \<Rightarrow> heap \<Rightarrow> u32 \<times> heap" where
  "claim_block sz freeBlock h = (let
     m = ram h;
     m = (if sz + sizeof_MemoryHeader + MINIMAL_SPLIT_SIZE \<le> hread m freeBlock H_size
          then split_block freeBlock sz m else m);
     m = hwrite freeBlock H_allocated 1 m;
     m = hwrite freeBlock H_size sz m
   in (freeBlock + sizeof_MemoryHeader, h\<lparr>ram := m\<rparr>))"

lemma InternalAllocate_steps:
  "InternalAllocate n h = do {
     freeBlock \<leftarrow> FirstFree (align_up n 4) h;
     Some (if freeBlock = 0 then Inl OutOfHeapSpace else Inr (claim_block (align_up n 4) freeBlock h))
   }"
  by (cases "FirstFree (align_up n 4) h") (simp_all add: InternalAllocate_def claim_block_def Let_def)

lemma found_block:
  assumes ok: "heap_ok h bs" and f: "FirstFree (align_up n 4) h = Some b" and "b \<noteq> 0"
  obtains h' where "InternalAllocate n h = Some (Inr (b + 20, h'))" and "hread (ram h') b H_size = align_up n 4"
    and "unat b + 20 + unat (align_up n 4) < 2 ^ 32"
proof -
  obtain x where x: "find (\<lambda>b. \<not> bused b \<and> align_up n 4 \<le> bsize b) bs = Some x" "b = badr x"
    using f assms(3) unfolding FirstFree_refines [OF ok] by (auto split: option.splits)
  then obtain xs ys where bs: "bs = xs @ x # ys" "align_up n 4 \<le> bsize x"
    by (auto simp: find_Some_iff in_set_conv_decomp dest!: nth_mem)
  have "laid_out (unat (startAddress h)) bs (unat (endAddress h))" using ok by (simp add: heap_ok_def heap_rep_def)
  from laid_out_block(2) [OF this, of x] have "unat b + 20 + unat (bsize x) \<le> unat (endAddress h)" by (simp add: x(2) bs(1))
  then have "unat b + 20 + unat (align_up n 4) < 2 ^ 32" using bs(2) u32_lt [of "endAddress h"] by (simp add: word_le_nat_alt)
  then show thesis
    using that [OF InternalAllocate_run [OF ok [unfolded bs(1)] refl x(1) [unfolded bs(1)], folded x(2)]] by simp
qed

lemma claim_block_result:
  assumes "hread (ram h) b H_size = k" and "unat b + 20 + unat k < 2 ^ 32"
  shows "fst (claim_block n b h) = b + 20"
    and "unat n + 24 \<le> unat k \<Longrightarrow> hread (ram (snd (claim_block n b h))) (b + n + 20) H_magic = MEMORY_HEADER_MAGIC"
    and "unat n + 24 \<le> unat k \<Longrightarrow> in_region (b + n + 20 + offset H_magic) (b + 20, k)"
proof -
  show "fst (claim_block n b h) = b + 20" by (simp add: claim_block_def Let_def sizeof_MemoryHeader_def)
  assume n: "unat n + 24 \<le> unat k"
  have "unat (n + 24) = unat n + 24" using n u32_lt [of k] by (intro trans [OF unat_plus_le]) simp_all
  then have split: "n + 20 + 4 \<le> hread (ram h) b H_size" using n assms(1) by (simp add: word_le_nat_alt add.assoc)
  have "unat (b + n) = unat b + unat n" using n assms(2) by (intro unat_plus_le) simp
  then have u: "unat (b + n + 20) = unat b + unat n + 20" using n assms(2) by (intro trans [OF unat_plus_le]) simp_all
  then have ap: "apart b (b + n + 20)" using n assms(2) by (simp add: apart_def)
  show "hread (ram (snd (claim_block n b h))) (b + n + 20) H_magic = MEMORY_HEADER_MAGIC"
    using split ap by (simp add: claim_block_def Let_def sizeof_MemoryHeader_def MINIMAL_SPLIT_SIZE_def split_block_def)
  have "unat (b + n + 20 + offset H_magic) = unat (b + n + 20) + unat (offset H_magic)"
    using u n assms(2) by (intro unat_field) simp
  moreover have "unat (b + 20) = unat b + 20" using assms(2) by (intro trans [OF unat_plus_le]) simp_all
  ultimately show "in_region (b + n + 20 + offset H_magic) (b + 20, k)"
    using u n unat_offset [of H_magic] by (simp add: in_region_def)
qed

section \<open>Properties\<close>

text \<open>
  C8. What clients keep in the heap is theirs. A request of up to 0xFFFFFFFC bytes succeeds when some free block has that many
  bytes, an exact fit included, and otherwise stops with the message that the heap is exhausted. When it succeeds, no word
  of any live region changes; whatever the owner of the new region writes into the bytes it asked for,
  the heap stays well formed, freeing the region succeeds, and then all other regions hold what they held before.
\<close>

theorem heap_leaves_contents:
  assumes "heap_holds h R" and "n \<le> 0xFFFFFFFC"
  shows "if room h (unat n)
    then \<exists>p k h'. kmalloc n h = Some (p, h') \<and> n \<le> k \<and> p \<notin> fst ` R \<and> heap_holds h' (insert (p, k) R) \<and>
      (\<forall>r\<in>R. \<forall>a. in_region a r \<longrightarrow> ram h' a = ram h a) \<and>
      (\<forall>m. (\<forall>a. \<not> in_region a (p, n) \<longrightarrow> m a = ram h' a) \<longrightarrow> heap_holds (h'\<lparr>ram := m\<rparr>) (insert (p, k) R) \<and>
         (\<exists>h''. kfree p (h'\<lparr>ram := m\<rparr>) = Some h'' \<and> heap_holds h'' R \<and>
            (\<forall>r\<in>R. \<forall>a. in_region a r \<longrightarrow> ram h'' a = ram h a)))
    else InternalAllocate n h = Some (Inl OutOfHeapSpace)"
proof (cases "room h (unat n)")
  case True
  then obtain p h' where run: "kmalloc n h = Some (p, h')" by (rule kmalloc_fits [OF _ assms(2)])
  show ?thesis unfolding if_P [OF True]
    by (rule rheap.object_life [OF assms(1) run assms(2)]) (use run in blast)
next
  case False
  then show ?thesis using kmalloc_fails assms by (auto simp: heap_holds_def)
qed

theorem heap_leaves_contents_witness:
  "\<exists>h h' h''. kmalloc 4076 h = Some (0xC0400014, h') \<and> kfree 0xC0400014 (h'\<lparr>ram := (ram h')(0xC0400018 := 7)\<rparr>) = Some h'' \<and>
     heap_holds h'' {} \<and> InternalAllocate 4077 h = Some (Inl OutOfHeapSpace)"
proof -
  obtain h where h: "heap_ok h [Blk 0xC0400000 False 4076]" by (rule wit_heap)
  have room: "room h n \<longleftrightarrow> n \<le> 4076" for n
  proof
    assume "room h n"
    then obtain bs where "heap_ok h bs" "list_ex (\<lambda>b. \<not> bused b \<and> n \<le> unat (bsize b)) bs" by (auto simp: room_def)
    moreover from this have "bs = [Blk 0xC0400000 False 4076]" using heap_ok_unique [OF h] by blast
    ultimately show "n \<le> 4076" by simp
  next
    assume "n \<le> 4076"
    then show "room h n" using h unfolding room_def by (intro exI [of _ "[Blk 0xC0400000 False 4076]"]) simp
  qed
  have hh: "heap_holds h {}" using h by (auto simp: heap_holds_def)
  from heap_leaves_contents [OF hh, of 4076] obtain p k h' where 1: "kmalloc 4076 h = Some (p, h')"
    "\<forall>m. (\<forall>a. \<not> in_region a (p, 4076) \<longrightarrow> m a = ram h' a) \<longrightarrow> heap_holds (h'\<lparr>ram := m\<rparr>) {(p, k)} \<and>
       (\<exists>h''. kfree p (h'\<lparr>ram := m\<rparr>) = Some h'' \<and> heap_holds h'' {} \<and> (\<forall>r\<in>{}. \<forall>a. in_region a r \<longrightarrow> ram h'' a = ram h a))"
    by (auto simp: room)
  obtain m where "kmalloc 4076 h = Some (0xC0400014, h\<lparr>ram := m\<rparr>)"
    by (rule kmalloc_refines [OF h, of 4076]) (simp add: align_up_def)
  then have p: "p = 0xC0400014" using 1(1) by simp
  have "\<forall>a. \<not> in_region a (p, 4076) \<longrightarrow> ((ram h')(0xC0400018 := 7)) a = ram h' a" by (auto simp: in_region_def p)
  then obtain h'' where "kfree p (h'\<lparr>ram := (ram h')(0xC0400018 := 7)\<rparr>) = Some h''" "heap_holds h'' {}" using 1(2) by blast
  with 1(1) heap_leaves_contents [OF hh, of 4077] show ?thesis unfolding p by (auto simp: room)
qed

text \<open>
  C5. \<open>malloc\<close> masks no interrupt, so a switch can cut it in two. A thread that asks for \<open>n\<close> bytes finds the
  first free block \<open>b\<close>, and before it claims the block another thread asks for \<open>k\<close> bytes for which
  \<open>b\<close> is the first fit as well. The second thread gets \<open>b + 20\<close>; then, whatever it wrote into its region, the first
  thread goes on and gets the same address. When its request is 24 or more bytes smaller, it also overwrites a word inside
  the region of the second thread with the magic number of a block header.
\<close>

theorem interrupted_allocation_overwrites:
  assumes "heap_ok h bs" and "FirstFree (align_up n 4) h = Some b" and "FirstFree (align_up k 4) h = Some b" and "b \<noteq> 0"
  shows "\<exists>h1. InternalAllocate k h = Some (Inr (b + 20, h1)) \<and>
    (\<forall>m. (\<forall>a. \<not> in_region a (b + 20, align_up k 4) \<longrightarrow> m a = ram h1 a) \<longrightarrow>
      (\<exists>h2. claim_block (align_up n 4) b (h1\<lparr>ram := m\<rparr>) = (b + 20, h2) \<and>
        (unat (align_up n 4) + 24 \<le> unat (align_up k 4) \<longrightarrow>
          (\<exists>a. in_region a (b + 20, align_up k 4) \<and> ram h2 a = MEMORY_HEADER_MAGIC))))"
proof -
  obtain h1 where h1: "InternalAllocate k h = Some (Inr (b + 20, h1))" "hread (ram h1) b H_size = align_up k 4"
    "unat b + 20 + unat (align_up k 4) < 2 ^ 32"
    by (rule found_block [OF assms(1,3,4)]) (rule that)
  have "\<exists>h2. claim_block (align_up n 4) b (h1\<lparr>ram := m\<rparr>) = (b + 20, h2) \<and>
      (unat (align_up n 4) + 24 \<le> unat (align_up k 4) \<longrightarrow>
        (\<exists>a. in_region a (b + 20, align_up k 4) \<and> ram h2 a = MEMORY_HEADER_MAGIC))"
    if m: "\<forall>a. \<not> in_region a (b + 20, align_up k 4) \<longrightarrow> m a = ram h1 a" for m
  proof -
    have "unat (b + offset H_size) = unat b + 16" using unat_field [of b H_size] h1(3) by simp
    moreover have "unat (b + 20) = unat b + 20" using h1(3) by (intro trans [OF unat_plus_le]) simp_all
    ultimately have "\<not> in_region (b + offset H_size) (b + 20, align_up k 4)" by (simp add: in_region_def)
    then have "hread (ram (h1\<lparr>ram := m\<rparr>)) b H_size = align_up k 4" using m h1(2) by (simp add: hread_def)
    note c = claim_block_result [OF this h1(3), of "align_up n 4"]
    obtain q h2 where q: "claim_block (align_up n 4) b (h1\<lparr>ram := m\<rparr>) = (q, h2)" by fastforce
    with c(1) have "q = b + 20" by simp
    with q c(2,3) show ?thesis by (auto simp: hread_def)
  qed
  with h1(1) show ?thesis by blast
qed

theorem interrupted_allocation_overwrites_witness:
  "\<exists>h h1 h2 a. FirstFree 100 h = Some 0xC0400000 \<and> InternalAllocate 1000 h = Some (Inr (0xC0400014, h1)) \<and>
     claim_block 100 0xC0400000 h1 = (0xC0400014, h2) \<and> in_region a (0xC0400014, 1000) \<and> ram h2 a = MEMORY_HEADER_MAGIC"
proof -
  obtain h where h: "heap_ok h [Blk 0xC0400000 False 4076]" by (rule wit_heap)
  have al: "align_up 100 4 = 100" "align_up 1000 4 = 1000" by (simp_all add: align_up_def)
  have f: "FirstFree (align_up 100 4) h = Some 0xC0400000" "FirstFree (align_up 1000 4) h = Some 0xC0400000"
    unfolding al by (simp_all add: FirstFree_refines [OF h])
  obtain h1 where h1: "InternalAllocate 1000 h = Some (Inr (0xC0400000 + 20, h1))"
    "\<forall>m. (\<forall>a. \<not> in_region a (0xC0400000 + 20, align_up 1000 4) \<longrightarrow> m a = ram h1 a) \<longrightarrow>
      (\<exists>h2. claim_block (align_up 100 4) 0xC0400000 (h1\<lparr>ram := m\<rparr>) = (0xC0400000 + 20, h2) \<and>
        (unat (align_up 100 4) + 24 \<le> unat (align_up 1000 4) \<longrightarrow>
          (\<exists>a. in_region a (0xC0400000 + 20, align_up 1000 4) \<and> ram h2 a = MEMORY_HEADER_MAGIC)))"
    using interrupted_allocation_overwrites [OF h f] by auto
  have "h1\<lparr>ram := ram h1\<rparr> = h1" by simp
  with h1(2) [rule_format, of "ram h1"] obtain h2 a where "claim_block 100 0xC0400000 h1 = (0xC0400014, h2)"
    "in_region a (0xC0400014, 1000)" "ram h2 a = MEMORY_HEADER_MAGIC" by (auto simp: al)
  with f(1) h1(1) show ?thesis by (auto simp: al)
qed

end
