(* ===== verification/OS_Format.thy ===== *)
theory OS_Format
  imports OS_Prelude "HOL-Library.Signed_Division"
begin

text \<open>
  Numbers and formatted output: the second half of src/src/arch/x86/drivers/vga.cpp, which
  src/libc/stdio.h repeats word for word, and src/libc/string.c.

  \<^item> A character array is a \<open>char list\<close>; reading or writing past its end is \<open>None\<close>. A C string
    is an array with a terminator, and \<open>c_string\<close> is its text.
  \<^item> The operations are \<open>swap\<close>, \<open>reverseStr\<close>, \<open>intToString\<close>, \<open>uintToStr\<close>, \<open>strlen\<close> and
    \<open>vprintf\<close>; the last takes \<open>putc\<close> and \<open>puts\<close> as arguments, because the kernel's copy writes
    to the console and the library's to a file descriptor.
  \<^item> A signed \<open>int\<close> is an \<open>int\<close> in its 32-bit range, wrapped by \<open>wrap32\<close> where the code
    negates it; \<open>/\<close> and \<open>%\<close> are the truncating ones.
  \<^item> The reference definitions are \<open>num_str\<close> and \<open>int_str\<close>, the numeral in a base, and
    \<open>num_val\<close> and \<open>int_val\<close>, which read one back.
\<close>

section \<open>Character arrays\<close>

abbreviation NUL :: char where "NUL \<equiv> CHR 0x00"

definition buf_get :: "int \<Rightarrow> char list \<Rightarrow> char option" where
  "buf_get i b = (if 0 \<le> i \<and> i < int (length b) then Some (b ! nat i) else None)"

definition buf_put :: "int \<Rightarrow> char \<Rightarrow> char list \<Rightarrow> char list option" where
  "buf_put i c b = (if 0 \<le> i \<and> i < int (length b) then Some (b[nat i := c]) else None)"

definition c_string :: "char list \<Rightarrow> string" where
  "c_string b = takeWhile (\<lambda>c. c \<noteq> NUL) b"

text \<open>\<open>strlen\<close> counts up to the terminator, and runs off an array that has none.\<close>

fun strlen :: "char list \<Rightarrow> nat option" where
  "strlen [] = None"
| "strlen (c # s) = (if c \<noteq> NUL then map_option Suc (strlen s) else Some 0)"

section \<open>Reversing\<close>

definition swap :: "int \<Rightarrow> int \<Rightarrow> char list \<Rightarrow> char list option" where
  "swap a b s = do {
     tmp \<leftarrow> buf_get a s;
     cb \<leftarrow> buf_get b s;
     s \<leftarrow> buf_put a cb s;
     buf_put b tmp s
   }"

function reverse_from :: "int \<Rightarrow> int \<Rightarrow> char list \<Rightarrow> char list option" where
  "reverse_from pos len s =
     (if pos < len sdiv 2 then swap pos (len - pos - 1) s \<bind> reverse_from (pos + 1) len else Some s)"
  by pat_completeness auto
termination by (relation "measure (\<lambda>(pos, len, s). nat (len sdiv 2 - pos))") auto

declare reverse_from.simps [simp del]

definition reverseStr :: "char list \<Rightarrow> int \<Rightarrow> char list option" where
  "reverseStr str len = reverse_from 0 len str"

section \<open>Numbers\<close>

definition chars :: "char list" where "chars = ''0123456789ABCDEF'' @ [NUL]"

definition wrap32 :: "int \<Rightarrow> int" where "wrap32 v = sint (word_of_int v :: u32)"

partial_function (option) int_digits :: "int \<Rightarrow> int \<Rightarrow> int \<Rightarrow> char list \<Rightarrow> (int \<times> char list) option" where
  "int_digits pos v base str =
     (if v \<noteq> 0 then do {
        c \<leftarrow> buf_get (v smod base) chars;
        str \<leftarrow> buf_put pos c str;
        int_digits (pos + 1) (v sdiv base) base str
      }
      else Some (pos, str))"

definition str_zero :: "char list \<Rightarrow> char list option" where
  "str_zero str = buf_put 0 (CHR ''0'') str \<bind> buf_put 1 NUL"

definition intToString :: "char list \<Rightarrow> int \<Rightarrow> int \<Rightarrow> char list option" where
  "intToString str v base =
     (if v = 0 then str_zero str
      else if v = 0 \<or> base < 2 \<or> base > 16 then str_zero str
      else do {
        let (v, negate) = (if v < 0 then (wrap32 (- v), True) else (v, False));
        (pos, str) \<leftarrow> int_digits 0 v base str;
        (pos, str) \<leftarrow> (if negate then map_option (Pair (pos + 1)) (buf_put pos (CHR ''-'') str) else Some (pos, str));
        str \<leftarrow> buf_put pos NUL str;
        reverseStr str pos
      })"

partial_function (option) uint_digits :: "int \<Rightarrow> u32 \<Rightarrow> int \<Rightarrow> char list \<Rightarrow> (int \<times> char list) option" where
  "uint_digits pos v base str =
     (if v \<noteq> 0 then do {
        c \<leftarrow> buf_get (sint (v mod word_of_int base)) chars;
        str \<leftarrow> buf_put pos c str;
        uint_digits (pos + 1) (v div word_of_int base) base str
      }
      else Some (pos, str))"

definition uintToStr :: "char list \<Rightarrow> u32 \<Rightarrow> int \<Rightarrow> char list option" where
  "uintToStr str v base =
     (if v = 0 then str_zero str
      else if base < 2 \<or> base > 16 then str_zero str
      else do {
        (pos, str) \<leftarrow> uint_digits 0 v base str;
        str \<leftarrow> buf_put pos NUL str;
        reverseStr str pos
      })"

section \<open>Formatted output\<close>

text \<open>
  The loop of \<open>vprintf\<close> over the bytes of the format string, terminator included. Arguments
  are the words on the stack; \<open>deref\<close> gives the array a \<open>char*\<close> points to; \<open>tmp\<close> is the
  static buffer of 36 characters.
\<close>

fun vprintf_loop :: "(char \<Rightarrow> 's \<Rightarrow> 's) \<Rightarrow> (char list \<Rightarrow> 's \<Rightarrow> 's option) \<Rightarrow> (u32 \<Rightarrow> char list option) \<Rightarrow>
    char list \<Rightarrow> u32 list \<Rightarrow> char list \<Rightarrow> 's \<Rightarrow> ('s \<times> char list) option" where
  "vprintf_loop putc puts deref [] args tmp s = None"
| "vprintf_loop putc puts deref (ch # fmt) args tmp s =
     (if ch = NUL then Some (s, tmp)
      else if ch \<noteq> CHR ''%'' then vprintf_loop putc puts deref fmt args tmp (putc ch s)
      else case fmt of [] \<Rightarrow> None
      | ch # fmt \<Rightarrow>
          if ch = CHR ''c'' then
            (case args of [] \<Rightarrow> None
             | a # args \<Rightarrow> vprintf_loop putc puts deref fmt args tmp (putc (char_of (unat (ucast a :: u8))) s))
          else if ch = CHR ''s'' then
            (case args of [] \<Rightarrow> None
             | a # args \<Rightarrow> do {
                 str \<leftarrow> deref a;
                 s \<leftarrow> puts str s;
                 vprintf_loop putc puts deref fmt args tmp s
               })
          else if ch = CHR ''%'' then vprintf_loop putc puts deref fmt args tmp (putc (CHR ''%'') s)
          else if ch = CHR ''n'' then vprintf_loop putc puts deref fmt args tmp (putc (CHR 0x0A) s)
          else if ch = CHR ''d'' then
            (case args of [] \<Rightarrow> None
             | a # args \<Rightarrow> do {
                 tmp \<leftarrow> intToString tmp (sint a) 10;
                 s \<leftarrow> puts tmp s;
                 vprintf_loop putc puts deref fmt args tmp s
               })
          else if ch = CHR ''x'' then
            (case args of [] \<Rightarrow> None
             | a # args \<Rightarrow> do {
                 tmp \<leftarrow> uintToStr tmp a 16;
                 s \<leftarrow> puts tmp s;
                 vprintf_loop putc puts deref fmt args tmp s
               })
          else vprintf_loop putc puts deref fmt args tmp (putc ch s))"

definition vprintf :: "(char \<Rightarrow> 's \<Rightarrow> 's) \<Rightarrow> (char list \<Rightarrow> 's \<Rightarrow> 's option) \<Rightarrow> (u32 \<Rightarrow> char list option) \<Rightarrow>
    char list option \<Rightarrow> u32 list \<Rightarrow> char list \<Rightarrow> 's \<Rightarrow> ('s \<times> char list) option" where
  "vprintf putc puts deref fmt args tmp s =
     (case fmt of None \<Rightarrow> Some (s, tmp) | Some fmt \<Rightarrow> vprintf_loop putc puts deref fmt args tmp s)"

text \<open>A format string without directives is printed as it is.\<close>

lemma vprintf_loop_text:
  "NUL \<notin> set t \<Longrightarrow> CHR ''%'' \<notin> set t \<Longrightarrow>
    vprintf_loop putc puts dr (t @ [NUL]) as tmp s = Some (fold putc t s, tmp)"
  by (induction t arbitrary: s) auto

section \<open>Reversal\<close>

lemma buf_put_some [simp]: "i < length b \<Longrightarrow> buf_put (int i) c b = Some (b[i := c])"
  by (simp add: buf_put_def)

lemma buf_get_some [simp]: "i < length b \<Longrightarrow> buf_get (int i) b = Some (b ! i)"
  by (simp add: buf_get_def)

lemma strlen_c_string: "NUL \<in> set b \<Longrightarrow> strlen b = Some (length (c_string b))"
  by (induction b) (auto simp: c_string_def)

text \<open>What the array holds when the first \<open>k\<close> pairs have been exchanged.\<close>

definition rev_upto :: "nat \<Rightarrow> nat \<Rightarrow> char list \<Rightarrow> char list" where
  "rev_upto k n b = map (\<lambda>i. if i < n \<and> (i < k \<or> n - k \<le> i) then b ! (n - 1 - i) else b ! i) [0..<length b]"

lemma swap_rev_upto:
  assumes "n \<le> length b" and "k < n div 2"
  shows "swap (int k) (int n - int k - 1) (rev_upto k n b) = Some (rev_upto (Suc k) n b)"
proof -
  have k: "k < length b" "n - 1 - k < length b" "int n - int k - 1 = int (n - 1 - k)" using assms by auto
  have "(rev_upto k n b)[k := rev_upto k n b ! (n - 1 - k), n - 1 - k := rev_upto k n b ! k] = rev_upto (Suc k) n b"
    using assms k by (intro nth_equalityI) (auto simp: rev_upto_def nth_list_update)
  moreover have "length (rev_upto k n b) = length b" by (simp add: rev_upto_def)
  ultimately show ?thesis unfolding swap_def k(3) using k(1,2) by simp
qed

lemma sdiv_2: "int n sdiv 2 = int (n div 2)"
  by (cases "n = 0") (simp_all add: signed_divide_int_def zdiv_int)

lemma reverse_from_upto:
  assumes "n \<le> length b" and "k \<le> n div 2"
  shows "reverse_from (int k) (int n) (rev_upto k n b) = Some (rev_upto (n div 2) n b)"
  using assms
proof (induction "n div 2 - k" arbitrary: k)
  case 0
  then show ?case by (subst reverse_from.simps) (simp add: sdiv_2)
next
  case (Suc d)
  then have k: "k < n div 2" by simp
  have "reverse_from (int (Suc k)) (int n) (rev_upto (Suc k) n b) = Some (rev_upto (n div 2) n b)"
    using Suc.hyps(2) k by (intro Suc.hyps(1) Suc.prems) auto
  then show ?case using k swap_rev_upto [OF Suc.prems(1) k]
    by (subst reverse_from.simps) (simp add: sdiv_2 add.commute)
qed

lemma reverseStr_rev:
  assumes "n \<le> length b"
  shows "reverseStr b (int n) = Some (rev (take n b) @ drop n b)"
proof -
  have "rev_upto 0 n b = b" by (intro nth_equalityI) (auto simp: rev_upto_def)
  moreover have "rev_upto (n div 2) n b = rev (take n b) @ drop n b"
  proof (intro nth_equalityI)
    fix i assume "i < length (rev_upto (n div 2) n b)"
    moreover have "n - Suc i = i" if "\<not> i < n div 2" "\<not> n - n div 2 \<le> i" "i < n" using that by presburger
    ultimately show "rev_upto (n div 2) n b ! i = (rev (take n b) @ drop n b) ! i"
      using assms by (auto simp: rev_upto_def nth_append rev_nth)
  qed (use assms in \<open>simp add: rev_upto_def\<close>)
  ultimately show ?thesis using reverse_from_upto [OF assms, of 0] by (simp add: reverseStr_def)
qed

section \<open>Numerals\<close>

text \<open>The digits of a number, least significant first, and its numeral.\<close>

fun digs :: "nat \<Rightarrow> nat \<Rightarrow> string" where
  "digs base n = (if base < 2 \<or> n = 0 then [] else chars ! (n mod base) # digs base (n div base))"

declare digs.simps [simp del]

fun num_str :: "nat \<Rightarrow> nat \<Rightarrow> string" where
  "num_str base n = (if base < 2 \<or> n < base then [chars ! n] else num_str base (n div base) @ [chars ! (n mod base)])"

declare num_str.simps [simp del]

definition int_str :: "nat \<Rightarrow> int \<Rightarrow> string" where
  "int_str base v = (if v < 0 then CHR ''-'' # num_str base (nat (- v)) else num_str base (nat v))"

text \<open>Reading a numeral.\<close>

fun index_of :: "char \<Rightarrow> char list \<Rightarrow> nat" where
  "index_of c [] = 0"
| "index_of c (x # xs) = (if x = c then 0 else Suc (index_of c xs))"

definition num_val :: "nat \<Rightarrow> string \<Rightarrow> nat" where
  "num_val base s = fold (\<lambda>c n. n * base + index_of c chars) s 0"

definition int_val :: "nat \<Rightarrow> string \<Rightarrow> int" where
  "int_val base s = (case s of CHR ''-'' # s' \<Rightarrow> - int (num_val base s') | _ \<Rightarrow> int (num_val base s))"

lemma num_str_digs: "2 \<le> base \<Longrightarrow> 0 < n \<Longrightarrow> num_str base n = rev (digs base n)"
proof (induction base n rule: num_str.induct)
  case (1 base n)
  show ?case
  proof (cases "n < base")
    case True
    then show ?thesis using 1 by (subst num_str.simps, subst digs.simps, subst digs.simps) simp
  next
    case False
    then have "n div base > 0" using 1 by (simp add: div_greater_zero_iff)
    then show ?thesis using 1 False by (subst num_str.simps, subst digs.simps) simp
  qed
qed

lemma length_digs: "2 \<le> base \<Longrightarrow> n < 2 ^ k \<Longrightarrow> length (digs base n) \<le> k"
proof (induction k arbitrary: n)
  case 0
  then show ?case by (subst digs.simps) simp
next
  case (Suc k)
  have "n div base \<le> n div 2" using Suc.prems(1) by (intro div_le_mono2) simp_all
  also have "\<dots> < 2 ^ k" using Suc.prems(2) by (simp add: less_mult_imp_div_less mult.commute)
  finally have "length (digs base (n div base)) \<le> k" by (rule Suc.IH [OF Suc.prems(1)])
  then show ?case by (subst digs.simps) simp
qed

lemma length_chars [simp]: "length chars = 17"
  by (simp add: chars_def)

lemma chars_index: "d < 16 \<Longrightarrow> chars ! d \<noteq> NUL \<and> chars ! d \<noteq> CHR ''-'' \<and> index_of (chars ! d) chars = d"
proof -
  assume "d < 16"
  then have "d \<in> set [0..<16]" by simp
  then show ?thesis by (simp add: upt_rec chars_def) (elim disjE; simp)
qed

lemma mod_below_16: "2 \<le> base \<Longrightarrow> base \<le> 16 \<Longrightarrow> n mod base < (16 :: nat)"
  using mod_less_divisor [of base n] by linarith

lemma digs_chars: "2 \<le> base \<Longrightarrow> base \<le> 16 \<Longrightarrow> c \<in> set (digs base n) \<Longrightarrow> c \<noteq> NUL \<and> c \<noteq> CHR ''-''"
proof (induction base n rule: digs.induct)
  case (1 base n)
  then have "n mod base < 16" by (intro mod_below_16)
  with 1 chars_index [of "n mod base"] show ?case by (subst (asm) (2) digs.simps) (auto split: if_splits)
qed

lemma num_val_digs: "2 \<le> base \<Longrightarrow> base \<le> 16 \<Longrightarrow> num_val base (rev (digs base n)) = n"
proof (induction base n rule: digs.induct)
  case (1 base n)
  then have "n mod base < 16" by (intro mod_below_16)
  then have "index_of (chars ! (n mod base)) chars = n mod base" using chars_index by simp
  with 1 show ?case by (subst digs.simps) (simp add: num_val_def)
qed

lemma num_str_0: "2 \<le> base \<Longrightarrow> num_str base 0 = ''0''"
  by (subst num_str.simps) (simp add: chars_def)

lemma num_val_num_str: "2 \<le> base \<Longrightarrow> base \<le> 16 \<Longrightarrow> num_val base (num_str base n) = n"
  using num_val_digs [of base n] num_str_digs [of base n]
  by (cases "n = 0") (simp_all add: num_str_0 num_val_def chars_def)

section \<open>The conversions\<close>

lemma sint_small: "unat (w :: u32) < 2 ^ 31 \<Longrightarrow> sint w = int (unat w)"
proof -
  assume "unat w < 2 ^ 31"
  then have "int (unat w) < int (2 ^ 31)" by (simp only: of_nat_less_iff)
  then have "uint w < 2 ^ 31" by simp
  moreover have "- (2 ^ 31) \<le> uint w" by (rule order_trans [of _ 0]) simp_all
  ultimately show "sint w = int (unat w)" by (simp add: sint_uint signed_take_bit_int_eq_self_iff)
qed

text \<open>Writing a list of characters from a position on.\<close>

lemma put_next: "pos < length str \<Longrightarrow>
    str[pos := c] = take pos str @ c # drop (Suc pos) str"
  by (rule upd_conv_take_nth_drop)

lemma uint_digits_writes:
  assumes "2 \<le> base" and "base \<le> 16" and "pos + length (digs base (unat v)) \<le> length str"
  shows "uint_digits (int pos) v (int base) str = Some (int (pos + length (digs base (unat v))),
    take pos str @ digs base (unat v) @ drop (pos + length (digs base (unat v))) str)"
  using assms(3)
proof (induction "unat v" arbitrary: v pos str rule: less_induct)
  case less
  show ?case
  proof (cases "v = 0")
    case True
    then show ?thesis by (subst uint_digits.simps, subst (1 2 3) digs.simps) simp
  next
    case False
    let ?b = "of_nat base :: u32" and ?w = "v div of_nat base"
    have ub: "unat ?b = base" using assms(1,2) by (simp add: unat_of_nat take_bit_nat_eq_self)
    have m: "unat (v mod ?b) = unat v mod base" and w: "unat ?w = unat v div base"
      by (simp_all add: unat_mod unat_div ub)
    have v0: "0 < unat v" using False by (simp add: unat_gt_0)
    have "unat v mod base < 16" using assms(1,2) by (intro mod_below_16)
    then have "sint (v mod ?b) = int (unat v mod base)"
      using m sint_small [of "v mod ?b"] by simp
    then have c: "buf_get (sint (v mod ?b)) chars = Some (chars ! (unat v mod base))"
      using \<open>unat v mod base < 16\<close> by simp
    have d: "digs base (unat v) = chars ! (unat v mod base) # digs base (unat ?w)"
      using assms(1) v0 by (subst digs.simps) (simp add: w)
    have pos: "pos < length str" using less.prems by (simp add: d)
    have "unat ?w < unat v" using v0 assms(1) by (simp add: w)
    from less.hyps [OF this, of "Suc pos" "str[pos := chars ! (unat v mod base)]"] less.prems
    have "uint_digits (int (Suc pos)) ?w (int base) (str[pos := chars ! (unat v mod base)]) =
        Some (int (Suc pos + length (digs base (unat ?w))),
          take (Suc pos) (str[pos := chars ! (unat v mod base)]) @ digs base (unat ?w) @
          drop (Suc pos + length (digs base (unat ?w))) str)"
      by (simp add: d)
    moreover have "take (Suc pos) (str[pos := chars ! (unat v mod base)]) = take pos str @ [chars ! (unat v mod base)]"
      using pos by (simp add: take_Suc_conv_app_nth)
    ultimately show ?thesis using False c pos
      by (subst uint_digits.simps) (simp add: d add.commute)
  qed
qed


text \<open>The signed loop on a value that is not negative.\<close>

lemma int_digits_writes:
  assumes "2 \<le> base" and "base \<le> 16" and "pos + length (digs base n) \<le> length str"
  shows "int_digits (int pos) (int n) (int base) str = Some (int (pos + length (digs base n)),
    take pos str @ digs base n @ drop (pos + length (digs base n)) str)"
  using assms(3)
proof (induction n arbitrary: pos str rule: less_induct)
  case (less n)
  show ?case
  proof (cases "n = 0")
    case True
    then show ?thesis by (subst int_digits.simps, subst (1 2 3) digs.simps) simp
  next
    case False
    have m: "int n smod int base = int (n mod base)" and w: "int n sdiv int base = int (n div base)"
      using assms(1) False
      by (simp_all add: signed_divide_int_def signed_modulo_int_def zdiv_int zmod_int minus_div_mult_eq_mod)
    have "n mod base < 16" using assms(1,2) by (intro mod_below_16)
    then have c: "buf_get (int (n mod base)) chars = Some (chars ! (n mod base))" by simp
    have d: "digs base n = chars ! (n mod base) # digs base (n div base)"
      using assms(1) False by (subst digs.simps) simp
    have pos: "pos < length str" using less.prems by (simp add: d)
    have "n div base < n" using False assms(1) by simp
    from less.IH [OF this, of "Suc pos" "str[pos := chars ! (n mod base)]"] less.prems
    have "int_digits (int (Suc pos)) (int (n div base)) (int base) (str[pos := chars ! (n mod base)]) =
        Some (int (Suc pos + length (digs base (n div base))),
          take (Suc pos) (str[pos := chars ! (n mod base)]) @ digs base (n div base) @
          drop (Suc pos + length (digs base (n div base))) str)"
      by (simp add: d)
    moreover have "take (Suc pos) (str[pos := chars ! (n mod base)]) = take pos str @ [chars ! (n mod base)]"
      using pos by (simp add: take_Suc_conv_app_nth)
    ultimately show ?thesis using False c pos unfolding d
      by (subst int_digits.simps) (simp only: m w, simp add: add.commute)
  qed
qed

text \<open>The end of both conversions: terminate the digits and reverse them.\<close>

lemma finish_reverse:
  assumes "length ds < length str" and "NUL \<notin> set ds" and "str' = ds @ drop (length ds) str"
  shows "\<exists>out. buf_put (int (length ds)) NUL str' \<bind> (\<lambda>s. reverseStr s (int (length ds))) = Some out \<and>
    length out = length str \<and> c_string out = rev ds"
proof -
  let ?s = "ds @ NUL # drop (Suc (length ds)) str"
  have "buf_put (int (length ds)) NUL str' = Some ?s"
    using assms(1) unfolding assms(3) by (simp add: Cons_nth_drop_Suc [symmetric])
  moreover have "reverseStr ?s (int (length ds)) = Some (rev ds @ NUL # drop (Suc (length ds)) str)"
    using reverseStr_rev [of "length ds" ?s] by simp
  moreover have "c_string (rev ds @ NUL # drop (Suc (length ds)) str) = rev ds"
  proof -
    have "\<And>c. c \<in> set (rev ds) \<Longrightarrow> c \<noteq> NUL" using assms(2) by auto
    then show ?thesis unfolding c_string_def by (subst takeWhile_append2) auto
  qed
  ultimately show ?thesis using assms(1) by simp
qed

lemma str_zero_writes: "2 \<le> length str \<Longrightarrow> \<exists>out. str_zero str = Some out \<and> length out = length str \<and> c_string out = ''0''"
proof -
  assume "2 \<le> length str"
  then obtain a b r where "str = a # b # r" by (metis Suc_le_length_iff numeral_2_eq_2)
  then show ?thesis by (simp add: str_zero_def buf_put_def c_string_def)
qed

lemma uintToStr_writes:
  assumes "2 \<le> base" and "base \<le> 16" and "33 \<le> length str"
  shows "\<exists>out. uintToStr str v (int base) = Some out \<and> length out = length str \<and> c_string out = num_str base (unat v)"
proof (cases "v = 0")
  case True
  then show ?thesis using str_zero_writes [of str] assms by (simp add: uintToStr_def num_str_0)
next
  case False
  let ?ds = "digs base (unat v)"
  have len: "length ?ds \<le> 32" using u32_lt [of v] by (intro length_digs assms(1)) simp
  have nul: "NUL \<notin> set ?ds" using digs_chars [OF assms(1,2)] by blast
  have "uint_digits (int 0) v (int base) str = Some (int (length ?ds), ?ds @ drop (length ?ds) str)"
    using uint_digits_writes [OF assms(1,2), of 0 v str] len assms(3) by simp
  moreover obtain out where "buf_put (int (length ?ds)) NUL (?ds @ drop (length ?ds) str) \<bind>
      (\<lambda>s. reverseStr s (int (length ?ds))) = Some out" "length out = length str" "c_string out = rev ?ds"
    using finish_reverse [of ?ds str, OF _ nul refl] len assms(3) by auto
  ultimately show ?thesis
    using False assms(1,2) num_str_digs [OF assms(1), of "unat v"] by (simp add: uintToStr_def unat_gt_0)
qed

lemma wrap32_neg: "v < 0 \<Longrightarrow> - (2 ^ 31) < v \<Longrightarrow> wrap32 (- v) = - v"
  unfolding wrap32_def by (subst sint_sbintrunc') (simp add: signed_take_bit_int_eq_self)

lemma intToString_writes:
  assumes "2 \<le> base" and "base \<le> 16" and "34 \<le> length str" and "- (2 ^ 31) < v" and "v < 2 ^ 31"
  shows "\<exists>out. intToString str v (int base) = Some out \<and> length out = length str \<and> c_string out = int_str base v"
proof (cases "v = 0")
  case True
  then show ?thesis using str_zero_writes [of str] assms by (simp add: intToString_def int_str_def num_str_0)
next
  case False
  define n ds where "n = nat \<bar>v\<bar>" and "ds = digs base n"
  let ?es = "ds @ (if v < 0 then ''-'' else [])"
  have len: "length ds \<le> 32" using assms(4,5) unfolding ds_def n_def by (intro length_digs assms(1)) (simp add: nat_less_iff)
  have nul: "NUL \<notin> set ?es" using digs_chars [OF assms(1,2)] by (auto simp: ds_def)
  have ln: "length ?es < length str" using len assms(3) by simp
  have w: "int_digits (int 0) (int n) (int base) str = Some (int (length ds), ds @ drop (length ds) str)"
    using int_digits_writes [OF assms(1,2), of 0 n str] len assms(3) by (simp add: ds_def)
  obtain out where o: "buf_put (int (length ?es)) NUL (?es @ drop (length ?es) str) \<bind>
      (\<lambda>s. reverseStr s (int (length ?es))) = Some out" "length out = length str" "c_string out = rev ?es"
    using finish_reverse [OF ln nul refl] by blast
  have es: "rev ?es = int_str base v"
    using False num_str_digs [OF assms(1), of n] by (auto simp: int_str_def ds_def n_def)
  have mv: "(if v < 0 then (wrap32 (- v), True) else (v, False)) = (int n, v < 0)"
    using wrap32_neg [of v] assms(4) by (auto simp: n_def)
  have minus: "buf_put (int (length ds)) (CHR ''-'') (ds @ drop (length ds) str) =
      Some (ds @ CHR ''-'' # drop (Suc (length ds)) str)"
    using len assms(3) by (simp add: Cons_nth_drop_Suc [symmetric])
  have "intToString str v (int base) = Some out"
    using False assms(1,2) w minus o(1) by (simp add: intToString_def mv add.commute split: if_splits)
  with o(2,3) es show ?thesis by simp
qed


section \<open>Formats\<close>

text \<open>
  What \<open>putc\<close> and \<open>puts\<close> promise, through a view of the state in which the output is a
  sequence of characters: \<open>putc\<close> adds one, \<open>puts\<close> adds the text of a C string that fits.
\<close>

locale char_sink =
  fixes putc :: "char \<Rightarrow> 's \<Rightarrow> 's"
    and puts :: "char list \<Rightarrow> 's \<Rightarrow> 's option"
    and view :: "'s \<Rightarrow> 'v"
    and emit :: "char \<Rightarrow> 'v \<Rightarrow> 'v"
    and fits :: "char list \<Rightarrow> bool"
  assumes putc_law: "view (putc c s) = emit c (view s)"
    and puts_law: "NUL \<in> set b \<Longrightarrow> fits b \<Longrightarrow> \<exists>s'. puts b s = Some s' \<and> view s' = fold emit (c_string b) (view s)"
    and fits_buffer: "length b = 36 \<Longrightarrow> fits b"
begin

lemma puts_number:
  assumes "c_string b = t" and "length t < length b" and "length b = 36"
  obtains s' where "puts b s = Some s'" and "view s' = fold emit t (view s)"
proof -
  have "NUL \<in> set b"
  proof (rule ccontr)
    assume "NUL \<notin> set b"
    then have "c_string b = b" by (auto simp: c_string_def takeWhile_eq_all_conv)
    with assms show False by simp
  qed
  with puts_law [OF _ fits_buffer] assms that show ?thesis by blast
qed

end

text \<open>The pieces of a format string, and what each prints.\<close>

datatype piece = Lit char | Arg_c | Arg_s | Percent | Newline | Arg_d | Arg_x

fun piece_fmt :: "piece \<Rightarrow> string" where
  "piece_fmt (Lit c) = [c]"
| "piece_fmt Arg_c = ''%c''"
| "piece_fmt Arg_s = ''%s''"
| "piece_fmt Percent = ''%%''"
| "piece_fmt Newline = ''%n''"
| "piece_fmt Arg_d = ''%d''"
| "piece_fmt Arg_x = ''%x''"

fun takes_arg :: "piece \<Rightarrow> bool" where
  "takes_arg (Lit c) = False"
| "takes_arg Percent = False"
| "takes_arg Newline = False"
| "takes_arg _ = True"

fun piece_ok :: "(u32 \<Rightarrow> char list option) \<Rightarrow> piece \<Rightarrow> u32 \<Rightarrow> bool" where
  "piece_ok deref (Lit c) a \<longleftrightarrow> c \<noteq> NUL \<and> c \<noteq> CHR ''%''"
| "piece_ok deref Arg_s a \<longleftrightarrow> (\<exists>b. deref a = Some b \<and> NUL \<in> set b)"
| "piece_ok deref Arg_d a \<longleftrightarrow> sint a \<noteq> - (2 ^ 31)"
| "piece_ok deref _ a \<longleftrightarrow> True"

fun piece_out :: "(u32 \<Rightarrow> char list option) \<Rightarrow> piece \<Rightarrow> u32 \<Rightarrow> string" where
  "piece_out deref (Lit c) a = [c]"
| "piece_out deref Arg_c a = [char_of (unat (ucast a :: u8))]"
| "piece_out deref Arg_s a = c_string (the (deref a))"
| "piece_out deref Percent a = ''%''"
| "piece_out deref Newline a = [CHR 0x0A]"
| "piece_out deref Arg_d a = int_str 10 (sint a)"
| "piece_out deref Arg_x a = num_str 16 (unat a)"

definition format_of :: "(piece \<times> u32) list \<Rightarrow> char list" where
  "format_of ps = concat (map (piece_fmt \<circ> fst) ps) @ [NUL]"

definition args_of :: "(piece \<times> u32) list \<Rightarrow> u32 list" where
  "args_of ps = map snd (filter (takes_arg \<circ> fst) ps)"

definition printed :: "(u32 \<Rightarrow> char list option) \<Rightarrow> (piece \<times> u32) list \<Rightarrow> string" where
  "printed deref ps = concat (map (\<lambda>(p, a). piece_out deref p a) ps)"

lemma int_str_length: "- (2 ^ 31) < v \<Longrightarrow> v < 2 ^ 31 \<Longrightarrow> 2 \<le> base \<Longrightarrow> length (int_str base v) \<le> 33"
proof -
  assume v: "- (2 ^ 31) < v" "v < 2 ^ 31" and b: "2 \<le> base"
  have "length (num_str base n) \<le> 32" if "n < 2 ^ 32" for n
    using length_digs [OF b that] num_str_digs [OF b, of n] num_str_0 [OF b] by (cases "n = 0") simp_all
  from this [of "nat (- v)"] this [of "nat v"] show ?thesis
    using v by (cases "v < 0") (simp_all add: int_str_def nat_less_iff)
qed

lemma num_str_length: "2 \<le> base \<Longrightarrow> length (num_str base (unat (v :: u32))) \<le> 32"
  using length_digs [of base "unat v" 32] num_str_digs [of base "unat v"] num_str_0 [of base] u32_lt [of v]
  by (cases "unat v = 0") simp_all

text \<open>The strings behind the \<open>%s\<close> conversions.\<close>

definition strings_fit :: "(char list \<Rightarrow> bool) \<Rightarrow> (u32 \<Rightarrow> char list option) \<Rightarrow> (piece \<times> u32) list \<Rightarrow> bool" where
  "strings_fit fits deref ps \<longleftrightarrow> (\<forall>(p, a)\<in>set ps. p = Arg_s \<longrightarrow> fits (the (deref a)))"

lemma strings_fit_simps [simp]:
  "strings_fit fits deref []"
  "strings_fit fits deref ((p, a) # ps) \<longleftrightarrow> (p = Arg_s \<longrightarrow> fits (the (deref a))) \<and> strings_fit fits deref ps"
  "strings_fit (\<lambda>_. True) deref ps"
  by (auto simp: strings_fit_def)

context char_sink
begin

lemma vprintf_loop_prints:
  assumes "\<forall>(p, a)\<in>set ps. piece_ok deref p a" and "strings_fit fits deref ps" and "length tmp = 36"
  shows "\<exists>s' tmp'. vprintf_loop putc puts deref (format_of ps) (args_of ps) tmp s = Some (s', tmp') \<and>
    view s' = fold emit (printed deref ps) (view s) \<and> length tmp' = 36"
  using assms
proof (induction ps arbitrary: tmp s)
  case Nil
  then show ?case by (simp add: format_of_def printed_def)
next
  case (Cons pa ps)
  obtain p a where pa: "pa = (p, a)" by fastforce
  have ok: "piece_ok deref p a" and rest: "\<forall>(p, a)\<in>set ps. piece_ok deref p a" "strings_fit fits deref ps"
    and fit: "p = Arg_s \<longrightarrow> fits (the (deref a))" using Cons.prems pa by auto
  have f: "format_of (pa # ps) = piece_fmt p @ format_of ps" and
    o: "printed deref (pa # ps) = piece_out deref p a @ printed deref ps" and
    ar: "args_of (pa # ps) = (if takes_arg p then [a] else []) @ args_of ps"
    by (simp_all add: format_of_def printed_def args_of_def pa)
  note IH = Cons.IH [OF rest]
  show ?case
  proof (cases p)
    case (Lit c)
    then show ?thesis using IH [OF Cons.prems(3), of "putc c s"] ok by (simp add: f o ar putc_law)
  next
    case Arg_s
    then obtain b where b: "deref a = Some b" "NUL \<in> set b" using ok by auto
    then obtain s1 where "puts b s = Some s1" "view s1 = fold emit (c_string b) (view s)"
      using puts_law fit Arg_s by fastforce
    then show ?thesis using Arg_s b IH [OF Cons.prems(3), of s1] by (simp add: f o ar)
  next
    case Arg_d
    have r: "- (2 ^ 31) < sint a" "sint a < 2 ^ 31"
      using ok Arg_d sint_ge [of a] sint_lt [of a] by simp_all
    obtain b where b: "intToString tmp (sint a) (int 10) = Some b" "length b = 36" "c_string b = int_str 10 (sint a)"
      using intToString_writes [of 10 tmp "sint a"] r Cons.prems(3) by auto
    obtain s1 where "puts b s = Some s1" "view s1 = fold emit (int_str 10 (sint a)) (view s)"
      using puts_number [OF b(3)] int_str_length [OF r, of 10] b(2) by auto
    then show ?thesis using Arg_d IH [OF b(2), of s1] b(1) by (simp add: f o ar)
  next
    case Arg_x
    obtain b where b: "uintToStr tmp a (int 16) = Some b" "length b = 36" "c_string b = num_str 16 (unat a)"
      using uintToStr_writes [of 16 tmp a] Cons.prems(3) by auto
    obtain s1 where "puts b s = Some s1" "view s1 = fold emit (num_str 16 (unat a)) (view s)"
      using puts_number [OF b(3)] num_str_length [of 16 a] b(2) by auto
    then show ?thesis using Arg_x IH [OF b(2), of s1] b(1) by (simp add: f o ar)
  next
    case Arg_c
    let ?c = "char_of (unat (ucast a :: u8))"
    show ?thesis using Arg_c IH [OF Cons.prems(3), of "putc ?c s"] by (simp add: f o ar putc_law)
  next
    case Percent
    then show ?thesis using IH [OF Cons.prems(3), of "putc (CHR ''%'') s"] by (simp add: f o ar putc_law)
  next
    case Newline
    then show ?thesis using IH [OF Cons.prems(3), of "putc (CHR 0x0A) s"] by (simp add: f o ar putc_law)
  qed
qed

end

section \<open>Properties\<close>

text \<open>
  C34. \<open>intToString\<close> writes the numeral of its argument, sign included, for every base from 2 to 16
  and every \<open>int\<close> but the least, without leaving a buffer of 34 characters (the one \<open>vprintf\<close>
  has holds 36).
\<close>

theorem intToString_numeral:
  assumes "2 \<le> base" and "base \<le> 16" and "34 \<le> length str" and "- (2 ^ 31) < v" and "v < 2 ^ 31"
  shows "\<exists>out. intToString str v (int base) = Some out \<and> length out = length str \<and> c_string out = int_str base v"
  by (rule intToString_writes [OF assms])

theorem intToString_numeral_witness:
  "\<exists>out. intToString (replicate 36 NUL) (- 2023) 10 = Some out \<and> c_string out = ''-2023''"
proof -
  have "int_str 10 (- 2023) = ''-2023''"
    by (simp add: int_str_def num_str.simps chars_def)
  then show ?thesis using intToString_numeral [of 10 "replicate 36 NUL" "- 2023"] by auto
qed

text \<open>
  C33. \<open>uintToStr\<close> round trip: the text it writes reads back as the argument, in every base from
  2 to 16; 33 characters are enough.
\<close>

theorem uintToStr_roundtrip:
  assumes "2 \<le> base" and "base \<le> 16" and "33 \<le> length str"
  shows "\<exists>out. uintToStr str v (int base) = Some out \<and> length out = length str \<and>
    num_val base (c_string out) = unat v"
  using uintToStr_writes [OF assms, of v] num_val_num_str [OF assms(1,2), of "unat v"] by auto

theorem uintToStr_roundtrip_witness:
  "\<exists>out. uintToStr (replicate 36 NUL) 0xC0DE 16 = Some out \<and> num_val 16 (c_string out) = 0xC0DE"
  using uintToStr_roundtrip [of 16 "replicate 36 NUL" "0xC0DE"] by auto

text \<open>
  \<open>intToString\<close> fails on the least \<open>int\<close> in base 10: its negation overflows back to itself,
  so the first digit index is -8 and the code reads in front of the digit table.
\<close>

lemma intToString_least_int:
  "intToString str (- (2 ^ 31)) 10 = None"
proof -
  have "wrap32 (2 ^ 31) = - (2 ^ 31)" by (simp add: wrap32_def)
  moreover have "(- (2 ^ 31) :: int) smod 10 = - 8" by (simp add: signed_modulo_int_def signed_divide_int_def)
  then have "int_digits 0 (- (2 ^ 31)) 10 str = None" by (subst int_digits.simps) (simp add: buf_get_def)
  ultimately show ?thesis by (simp add: intToString_def)
qed

end
