(* ===== verification/OS_Tables.thy ===== *)
theory OS_Tables
  imports OS_Prelude
begin

text \<open>
  The descriptor tables and the interrupt controller: src/src/arch/x86/tables/gdt.cpp and
  idt.cpp with their headers, and src/src/arch/x86/ports.h.

  \<^item> Ports: \<open>outb\<close> appends to a log of the bytes written, in order. \<open>inb\<close> asks the device,
    which is the parameter \<open>dev\<close> (the log so far and the port give the byte read).
  \<^item> GDT: \<open>gdt_entry\<close> is the packed structure, its bit-fields in the 16-bit words that hold
    them; \<open>tss_entry\<close>, \<open>CreateEntry\<close>, \<open>GDT_Init\<close>, \<open>SetTSS\<close>, \<open>CommitGdt\<close>. The addresses of
    the table and of the task-state segment are parameters (the linker chooses them).
  \<^item> IDT: \<open>idt_entry\<close>, \<open>idt_create_entry\<close>, \<open>IDT_Init\<close>, \<open>RemapIRQs\<close>, \<open>AckInt\<close>, \<open>InstallHandler\<close>,
    \<open>int_handler\<close> and \<open>irq_handler\<close>. Handlers and stubs are code addresses, 0 is no handler.
  \<^item> The lemmas read the descriptors back as the processor does: base, limit and rights of a
    segment, offset of a gate.
\<close>

unbundle bit_operations_syntax

section \<open>Ports\<close>

type_synonym port_log = "(u16 \<times> u8) list"
type_synonym device = "port_log \<Rightarrow> u16 \<Rightarrow> u8"

definition outb :: "u16 \<Rightarrow> u8 \<Rightarrow> port_log \<Rightarrow> port_log" where
  "outb port val log = log @ [(port, val)]"

definition inb :: "device \<Rightarrow> u16 \<Rightarrow> port_log \<Rightarrow> u8" where
  "inb dev port log = dev log port"

section \<open>The global descriptor table\<close>

record gdt_decriptor =
  gd_size :: u16
  gd_offset :: u32

text \<open>The four 16-bit words of an entry; the last two are made of bit-fields.\<close>

record gdt_entry =
  limit0 :: u16
  base0 :: u16
  access_word :: u16
  limit_word :: u16

datatype gdt_field =
  G_base1 | G_type | G_s | G_dpl | G_p | G_limit1 | G_avl | G_l | G_d | G_g | G_base2

text \<open>Whether the field is in the third word, its first bit and its length.\<close>

fun gdt_pos :: "gdt_field \<Rightarrow> bool \<times> nat \<times> nat" where
  "gdt_pos G_base1 = (True, 0, 8)"
| "gdt_pos G_type = (True, 8, 4)"
| "gdt_pos G_s = (True, 12, 1)"
| "gdt_pos G_dpl = (True, 13, 2)"
| "gdt_pos G_p = (True, 15, 1)"
| "gdt_pos G_limit1 = (False, 0, 4)"
| "gdt_pos G_avl = (False, 4, 1)"
| "gdt_pos G_l = (False, 5, 1)"
| "gdt_pos G_d = (False, 6, 1)"
| "gdt_pos G_g = (False, 7, 1)"
| "gdt_pos G_base2 = (False, 8, 8)"

definition gdt_get :: "gdt_field \<Rightarrow> gdt_entry \<Rightarrow> u16" where
  "gdt_get f e = (case gdt_pos f of (acc, lo, len) \<Rightarrow>
     get_bits lo len (if acc then access_word e else limit_word e))"

definition gdt_put :: "gdt_field \<Rightarrow> u32 \<Rightarrow> gdt_entry \<Rightarrow> gdt_entry" where
  "gdt_put f v e = (case gdt_pos f of (acc, lo, len) \<Rightarrow>
     if acc then e\<lparr>access_word := put_bits lo len (ucast v) (access_word e)\<rparr>
     else e\<lparr>limit_word := put_bits lo len (ucast v) (limit_word e)\<rparr>)"

record tss_entry =
  tss_prev_tss :: u32
  tss_esp0 :: u32
  tss_ss0 :: u32
  tss_esp1 :: u32
  tss_ss1 :: u32
  tss_esp2 :: u32
  tss_ss2 :: u32
  tss_cr3 :: u32
  tss_eip :: u32
  tss_eflags :: u32
  tss_eax :: u32
  tss_ecx :: u32
  tss_edx :: u32
  tss_ebx :: u32
  tss_esp :: u32
  tss_ebp :: u32
  tss_esi :: u32
  tss_edi :: u32
  tss_es :: u32
  tss_cs :: u32
  tss_ss :: u32
  tss_ds :: u32
  tss_fs :: u32
  tss_gs :: u32
  tss_ldt :: u32
  tss_trap :: u16
  tss_iomap_base :: u16

definition sizeof_tss_entry :: u32 where "sizeof_tss_entry = 104"
definition sizeof_gdt_entry :: u16 where "sizeof_gdt_entry = 8"

text \<open>The three file-level variables, and the processor registers that \<open>CommitGdt\<close> loads.\<close>

record gdt_state =
  descriptor :: gdt_decriptor
  tss :: tss_entry
  gdt :: "nat \<Rightarrow> gdt_entry"
  reg_gdtr :: gdt_decriptor
  reg_cs :: u16
  reg_data :: u16
  reg_tr :: u16

definition CreateEntry :: "nat \<Rightarrow> u32 \<Rightarrow> u32 \<Rightarrow> u32 \<Rightarrow> gdt_state \<Rightarrow> gdt_state" where
  "CreateEntry idx base limit flags st =
     (let e = gdt st idx;
          e = e\<lparr>limit0 := ucast limit\<rparr>;
          e = gdt_put G_limit1 (drop_bit 16 limit AND 0x0F) e;
          e = e\<lparr>base0 := ucast base\<rparr>;
          e = gdt_put G_base1 (drop_bit 16 base AND 0xFF) e;
          e = gdt_put G_base2 (drop_bit 24 base AND 0xFF) e;
          e = gdt_put G_type (flags AND 0x0f) e;
          e = gdt_put G_s (drop_bit 4 flags AND 0x01) e;
          e = gdt_put G_dpl (drop_bit 5 flags AND 0x03) e;
          e = gdt_put G_p (drop_bit 7 flags AND 0x01) e;
          e = gdt_put G_avl (drop_bit 12 flags AND 0x01) e;
          e = gdt_put G_l (drop_bit 13 flags AND 0x01) e;
          e = gdt_put G_d (drop_bit 14 flags AND 0x01) e;
          e = gdt_put G_g (drop_bit 15 flags AND 0x01) e
      in st\<lparr>gdt := (gdt st)(idx := e)\<rparr>)"

definition SetTSS :: "u32 \<Rightarrow> u32 \<Rightarrow> gdt_state \<Rightarrow> gdt_state" where
  "SetTSS ss0 esp0 st = st\<lparr>tss := (tss st)\<lparr>tss_ss0 := ss0, tss_esp0 := esp0\<rparr>\<rparr>"

definition CommitGdt :: "u32 \<Rightarrow> gdt_state \<Rightarrow> gdt_state" where
  "CommitGdt gdt_addr st =
     (let st = st\<lparr>descriptor := \<lparr>gd_size = sizeof_gdt_entry * 6 - 1, gd_offset = gdt_addr\<rparr>\<rparr>
      in st\<lparr>reg_gdtr := descriptor st, reg_data := 0x10, reg_cs := 0x8, reg_tr := 0x2B\<rparr>)"

definition GDT_Init :: "u32 \<Rightarrow> u32 \<Rightarrow> gdt_state \<Rightarrow> gdt_state" where
  "GDT_Init gdt_addr tss_addr st =
     (let st = CreateEntry 0 0 0 0 st;
          st = CreateEntry 1 0 0xfffff 0xc09a st;
          st = CreateEntry 2 0 0xfffff 0xc092 st;
          st = CreateEntry 3 0 0xfffff 0xc0fa st;
          st = CreateEntry 4 0 0xfffff 0xc0f2 st;
          tss_base = tss_addr;
          tss_limit = tss_base + sizeof_tss_entry;
          st = CreateEntry 5 tss_base tss_limit 0x89 st;
          st = st\<lparr>tss := (tss st)\<lparr>tss_ss0 := 0x10, tss_esp0 := 0\<rparr>\<rparr>;
          st = st\<lparr>tss := (tss st)\<lparr>tss_cs := 0x0b\<rparr>\<rparr>;
          st = st\<lparr>tss := (tss st)\<lparr>tss_ss := 0x13, tss_ds := 0x13, tss_es := 0x13,
                                  tss_fs := 0x13, tss_gs := 0x13\<rparr>\<rparr>
      in CommitGdt gdt_addr st)"

section \<open>The interrupt descriptor table\<close>

record idt_entry =
  offset0 :: u16
  selector :: u16
  zero_byte :: u8
  type_attr :: u8
  offset1 :: u16

record idt_descriptor =
  idt_limit :: u16
  idt_base :: u32

text \<open>The registers that the interrupt stubs push, at their offsets in \<open>registers_t\<close>.\<close>

datatype registers =
  R_ds | R_edi | R_esi | R_ebp | R_esp | R_ebx | R_edx | R_ecx | R_eax
| R_int_no | R_err_code | R_eip | R_cs | R_eflags | R_useresp | R_ss

fun reg_offset :: "registers \<Rightarrow> u32" where
  "reg_offset R_ds = 0"
| "reg_offset R_edi = 4"
| "reg_offset R_esi = 8"
| "reg_offset R_ebp = 12"
| "reg_offset R_esp = 16"
| "reg_offset R_ebx = 20"
| "reg_offset R_edx = 24"
| "reg_offset R_ecx = 28"
| "reg_offset R_eax = 32"
| "reg_offset R_int_no = 36"
| "reg_offset R_err_code = 40"
| "reg_offset R_eip = 44"
| "reg_offset R_cs = 48"
| "reg_offset R_eflags = 52"
| "reg_offset R_useresp = 56"
| "reg_offset R_ss = 60"

definition sizeof_registers :: u32 where "sizeof_registers = 64"

text \<open>The file-level variables, the loaded table register, the interrupt flag and the ports.\<close>

record idt_state =
  idt :: "nat \<Rightarrow> idt_entry"
  idt_ptr :: idt_descriptor
  handlers :: "nat \<Rightarrow> u32"
  reg_idtr :: idt_descriptor
  int_enabled :: bool
  ports :: port_log

definition idt_create_entry :: "nat \<Rightarrow> u32 \<Rightarrow> u16 \<Rightarrow> u8 \<Rightarrow> idt_state \<Rightarrow> idt_state" where
  "idt_create_entry idx base sel flags st =
     st\<lparr>idt := (idt st)(idx := (idt st idx)\<lparr>offset0 := ucast (base AND 0xFFFF),
       offset1 := ucast (drop_bit 16 base AND 0xFFFF), selector := sel, type_attr := flags, zero_byte := 0\<rparr>)\<rparr>"

definition RemapIRQs :: "port_log \<Rightarrow> port_log" where
  "RemapIRQs log =
     (let log = outb 0x20 0x11 log;
          log = outb 0xA0 0x11 log;
          log = outb 0x21 0x20 log;
          log = outb 0xA1 0x28 log;
          log = outb 0x21 0x04 log;
          log = outb 0xA1 0x02 log;
          log = outb 0x21 0x01 log;
          log = outb 0xA1 0x01 log;
          log = outb 0x21 0x0 log;
          log = outb 0xA1 0x0 log;
          log = outb 0x21 0xff log
      in outb 0xA1 0xff log)"

definition AckInt :: "int \<Rightarrow> port_log \<Rightarrow> port_log" where
  "AckInt i log = (let log = (if i \<ge> 8 then outb 0xA0 0x20 log else log) in outb 0x20 0x20 log)"

text \<open>A shift count of 32 or more is undefined in C; the processor uses its low five bits.\<close>

definition InstallHandler :: "device \<Rightarrow> int \<Rightarrow> u32 \<Rightarrow> bool \<Rightarrow> idt_state \<Rightarrow> idt_state" where
  "InstallHandler dev i handler isHw st =
     (let st = st\<lparr>handlers := (handlers st)(nat i := handler)\<rparr>
      in if isHw
         then let i = i - 32;
                  (port, i) = (if i < 8 then (0x21 :: u16, i) else (0xA1, i - 8));
                  val = ucast (ucast (inb dev port (ports st)) AND NOT (push_bit (nat (i mod 32)) (1 :: u32)))
              in st\<lparr>ports := outb port val (ports st)\<rparr>
         else st)"

text \<open>The entries \<open>lo\<close> to \<open>hi\<close> with the stubs in \<open>stub\<close>: the code writes out every call.\<close>

definition create_entries :: "(nat \<Rightarrow> u32) \<Rightarrow> nat \<Rightarrow> nat \<Rightarrow> idt_state \<Rightarrow> idt_state" where
  "create_entries stub lo hi st =
     fold (\<lambda>i. idt_create_entry i (stub i) 0x08 0x8E) [lo..<Suc hi] st"

definition IDT_Init :: "device \<Rightarrow> (nat \<Rightarrow> u32) \<Rightarrow> u32 \<Rightarrow> u32 \<Rightarrow> idt_state \<Rightarrow> idt_state" where
  "IDT_Init dev stub idt_addr syscall_handler st =
     (let st = create_entries stub 0 31 st;
          st = st\<lparr>ports := RemapIRQs (ports st)\<rparr>;
          st = create_entries stub 32 47 st;
          st = idt_create_entry 128 (stub 128) 0x08 0xEE st;
          st = st\<lparr>idt_ptr := \<lparr>idt_limit = 8 * 256 - 1, idt_base = idt_addr\<rparr>\<rparr>;
          st = st\<lparr>reg_idtr := idt_ptr st\<rparr>;
          st = st\<lparr>int_enabled := True\<rparr>
      in InstallHandler dev 0x80 syscall_handler True st)"

text \<open>What an interrupt comes to: an exception or an interrupt without a handler stops the
  machine, any other calls the handler with the stack pointer.\<close>

datatype int_halt = Received_exception u32 | Unhandled_IRQ u32

definition int_handler :: "memory \<Rightarrow> u32 \<Rightarrow> int_halt" where
  "int_handler m esp = Received_exception (m (esp + reg_offset R_int_no))"

definition irq_handler :: "memory \<Rightarrow> u32 \<Rightarrow> idt_state \<Rightarrow> ((int_halt + u32) \<times> idt_state) option" where
  "irq_handler m esp st =
     (let int_no = m (esp + reg_offset R_int_no);
          st = st\<lparr>ports := AckInt (sint int_no) (ports st)\<rparr>
      in if unat int_no \<ge> 256 then None
         else if handlers st (unat int_no) = 0 then Some (Inl (Unhandled_IRQ int_no), st)
         else Some (Inr (handlers st (unat int_no)), st))"

section \<open>Descriptors as the processor reads them\<close>

definition seg_base :: "gdt_entry \<Rightarrow> u32" where
  "seg_base e = ucast (base0 e) OR push_bit 16 (ucast (gdt_get G_base1 e)) OR push_bit 24 (ucast (gdt_get G_base2 e))"

definition seg_limit :: "gdt_entry \<Rightarrow> u32" where
  "seg_limit e = ucast (limit0 e) OR push_bit 16 (ucast (gdt_get G_limit1 e))"

definition gate_offset :: "idt_entry \<Rightarrow> u32" where
  "gate_offset e = ucast (offset0 e) OR push_bit 16 (ucast (offset1 e))"

lemma gdt_get_put:
  "gdt_get f (gdt_put g v e) =
     (if f = g then take_bit (snd (snd (gdt_pos f))) (ucast v) else gdt_get f e)"
  by (cases f; cases g; simp add: gdt_get_def gdt_put_def get_put_same get_put_other)

lemma gdt_put_words [simp]:
  "limit0 (gdt_put g v e) = limit0 e" "base0 (gdt_put g v e) = base0 e"
  by (auto simp: gdt_put_def split: prod.split)

lemma gdt_get_words [simp]:
  "gdt_get f (e\<lparr>limit0 := a\<rparr>) = gdt_get f e" "gdt_get f (e\<lparr>base0 := a\<rparr>) = gdt_get f e"
  by (simp_all add: gdt_get_def split: prod.split)

text \<open>The fields of an entry after \<open>CreateEntry\<close>.\<close>

lemma CreateEntry_fields:
  fixes st :: gdt_state and idx :: nat and base limit flags :: u32
  defines "e \<equiv> gdt (CreateEntry idx base limit flags st) idx"
  shows "limit0 e = ucast limit" and "base0 e = ucast base"
    and "gdt_get G_limit1 e = ucast (drop_bit 16 limit AND 0x0F)"
    and "gdt_get G_base1 e = ucast (drop_bit 16 base AND 0xFF)"
    and "gdt_get G_base2 e = ucast (drop_bit 24 base AND 0xFF)"
    and "gdt_get G_type e = ucast (flags AND 0x0f)" and "gdt_get G_s e = ucast (drop_bit 4 flags AND 0x01)"
    and "gdt_get G_dpl e = ucast (drop_bit 5 flags AND 0x03)" and "gdt_get G_p e = ucast (drop_bit 7 flags AND 0x01)"
    and "gdt_get G_avl e = ucast (drop_bit 12 flags AND 0x01)" and "gdt_get G_l e = ucast (drop_bit 13 flags AND 0x01)"
    and "gdt_get G_d e = ucast (drop_bit 14 flags AND 0x01)" and "gdt_get G_g e = ucast (drop_bit 15 flags AND 0x01)"
proof -
  have m: "(0x0F :: u32) = mask 4" "(0xFF :: u32) = mask 8" "(0x01 :: u32) = mask 1" "(0x03 :: u32) = mask 2"
    by (simp_all add: mask_eq_exp_minus_1)
  have tb: "take_bit n (ucast (w AND mask n :: u32) :: u16) = ucast (w AND mask n)" for n w
    by (rule bit_eqI) (auto simp: bit_simps)
  show "limit0 e = ucast limit" "base0 e = ucast base"
    by (simp_all add: e_def CreateEntry_def Let_def)
  show "gdt_get G_limit1 e = ucast (drop_bit 16 limit AND 0x0F)"
    "gdt_get G_base1 e = ucast (drop_bit 16 base AND 0xFF)"
    "gdt_get G_base2 e = ucast (drop_bit 24 base AND 0xFF)"
    "gdt_get G_type e = ucast (flags AND 0x0f)" "gdt_get G_s e = ucast (drop_bit 4 flags AND 0x01)"
    "gdt_get G_dpl e = ucast (drop_bit 5 flags AND 0x03)" "gdt_get G_p e = ucast (drop_bit 7 flags AND 0x01)"
    "gdt_get G_avl e = ucast (drop_bit 12 flags AND 0x01)" "gdt_get G_l e = ucast (drop_bit 13 flags AND 0x01)"
    "gdt_get G_d e = ucast (drop_bit 14 flags AND 0x01)" "gdt_get G_g e = ucast (drop_bit 15 flags AND 0x01)"
    unfolding e_def CreateEntry_def Let_def m by (simp_all add: gdt_get_put tb del: One_nat_def)
qed

lemma CreateEntry_other [simp]:
  "j \<noteq> idx \<Longrightarrow> gdt (CreateEntry idx base limit flags st) j = gdt st j"
  "tss (CreateEntry idx base limit flags st) = tss st"
  by (simp_all add: CreateEntry_def Let_def)

lemma CreateEntry_base:
  fixes base :: u32
  shows "seg_base (gdt (CreateEntry idx base limit flags st) idx) = base"
  unfolding seg_base_def CreateEntry_fields
proof (rule bit_eqI)
  fix n assume "possible_bit TYPE(32 word) n"
  then have n: "n < 32" by simp
  have m: "(0xFF :: u32) = mask 8" by (simp add: mask_eq_exp_minus_1)
  consider "n < 16" | "16 \<le> n" "n < 24" | "24 \<le> n" by linarith
  then show "bit (ucast (ucast base :: u16) OR push_bit 16 (ucast (ucast (drop_bit 16 base AND 0xFF) :: u16)) OR
      push_bit 24 (ucast (ucast (drop_bit 24 base AND 0xFF) :: u16)) :: u32) n = bit base n"
    using n unfolding m by cases (auto simp: bit_simps)
qed

lemma CreateEntry_limit:
  fixes limit :: u32
  shows "seg_limit (gdt (CreateEntry idx base limit flags st) idx) = take_bit 20 limit"
  unfolding seg_limit_def CreateEntry_fields
proof (rule bit_eqI)
  fix n assume "possible_bit TYPE(32 word) n"
  then have n: "n < 32" by simp
  have m: "(0x0F :: u32) = mask 4" by (simp add: mask_eq_exp_minus_1)
  consider "n < 16" | "16 \<le> n" "n < 20" | "20 \<le> n" by linarith
  then show "bit (ucast (ucast limit :: u16) OR push_bit 16 (ucast (ucast (drop_bit 16 limit AND 0x0F) :: u16)) :: u32) n =
      bit (take_bit 20 limit) n"
    using n unfolding m by cases (auto simp: bit_simps)
qed

lemma idt_entry_offset:
  "gate_offset (idt (idt_create_entry idx base sel flags st) idx) = base"
proof (rule bit_eqI)
  fix n assume "possible_bit TYPE(32 word) n"
  then have n: "n < 32" by simp
  have m: "(0xFFFF :: u32) = mask 16" by (simp add: mask_eq_exp_minus_1)
  consider "n < 16" | "16 \<le> n" by linarith
  then show "bit (gate_offset (idt (idt_create_entry idx base sel flags st) idx)) n = bit base n"
    using n unfolding gate_offset_def idt_create_entry_def m by cases (auto simp: bit_simps)
qed

text \<open>A gate of the table: handler address, code selector and type byte.\<close>

definition gate :: "idt_entry \<Rightarrow> u32 \<times> u16 \<times> u8" where
  "gate e = (gate_offset e, selector e, type_attr e)"

lemma gate_create [simp]:
  "gate (idt (idt_create_entry idx base sel flags st) j) = (if j = idx then (base, sel, flags) else gate (idt st j))"
  using idt_entry_offset [of idx base sel flags st] by (simp add: gate_def) (simp add: idt_create_entry_def)

lemma idt_create_entry_fields [simp]:
  "handlers (idt_create_entry idx base sel flags st) = handlers st"
  "ports (idt_create_entry idx base sel flags st) = ports st"
  by (simp_all add: idt_create_entry_def)

lemma create_entries_gate:
  "lo \<le> Suc hi \<Longrightarrow> gate (idt (create_entries stub lo hi st) j) =
     (if lo \<le> j \<and> j \<le> hi then (stub j, 0x08, 0x8E) else gate (idt st j))"
proof (induction "Suc hi" arbitrary: hi)
  case (Suc n)
  show ?case
  proof (cases "lo \<le> n")
    case True
    then show ?thesis
      using Suc by (cases n) (auto simp: create_entries_def le_Suc_eq)
  next
    case False
    then show ?thesis using Suc by (auto simp: create_entries_def)
  qed
qed

lemma create_entries_fields [simp]:
  "handlers (create_entries stub lo hi st) = handlers st"
  "ports (create_entries stub lo hi st) = ports st"
proof -
  have "handlers (fold (\<lambda>i. idt_create_entry i (stub i) 0x08 0x8E) xs st) = handlers st \<and>
    ports (fold (\<lambda>i. idt_create_entry i (stub i) 0x08 0x8E) xs st) = ports st" for xs
    by (induction xs arbitrary: st) auto
  then show "handlers (create_entries stub lo hi st) = handlers st"
    "ports (create_entries stub lo hi st) = ports st" by (simp_all add: create_entries_def)
qed

lemma InstallHandler_fields [simp]:
  "idt (InstallHandler dev i h hw st) = idt st"
  "handlers (InstallHandler dev i h hw st) = (handlers st)(nat i := h)"
  by (simp_all add: InstallHandler_def Let_def split: prod.split)

section \<open>Properties\<close>

text \<open>
  \<open>CreateEntry\<close> encodes: the processor reads back the base, the low 20 bits of the limit
  and the flag bits from the entry, and no other entry changes.
\<close>

lemma CreateEntry_encodes:
  "seg_base (gdt (CreateEntry idx base limit flags st) idx) = base \<and>
   seg_limit (gdt (CreateEntry idx base limit flags st) idx) = take_bit 20 limit \<and>
   gdt_get G_type (gdt (CreateEntry idx base limit flags st) idx) = ucast (flags AND 0xF) \<and>
   gdt_get G_dpl (gdt (CreateEntry idx base limit flags st) idx) = ucast (drop_bit 5 flags AND 3) \<and>
   gdt_get G_p (gdt (CreateEntry idx base limit flags st) idx) = ucast (drop_bit 7 flags AND 1) \<and>
   gdt_get G_g (gdt (CreateEntry idx base limit flags st) idx) = ucast (drop_bit 15 flags AND 1) \<and>
   (\<forall>j. j \<noteq> idx \<longrightarrow> gdt (CreateEntry idx base limit flags st) j = gdt st j)"
  using CreateEntry_base CreateEntry_limit CreateEntry_fields by simp

theorem CreateEntry_encodes_witness:
  "\<forall>st. seg_base (gdt (CreateEntry 5 0xC0105A40 0xC0105AA8 0x89 st) 5) = 0xC0105A40 \<and>
   gdt (CreateEntry 5 0xC0105A40 0xC0105AA8 0x89 st) 4 = gdt st 4"
  using CreateEntry_encodes [of 5 "0xC0105A40" "0xC0105AA8" "0x89"] by simp

definition code_selector :: "u16 \<Rightarrow> bool" where "code_selector sel \<longleftrightarrow> sel = 0x08 \<or> sel = 0x1B"

text \<open>
  The selectors the kernel uses match the table that \<open>Init\<close> builds: 0x08 and 0x1B are
  present code segments, 0x10 and 0x23 present data segments, each with the privilege level
  in its low bits, all of them flat (base 0, 4 GB in pages).
\<close>

lemma GDT_Init_selectors:
  assumes "sel \<in> {0x08, 0x10, 0x1B, 0x23}" and "e = gdt (GDT_Init gdt_addr tss_addr st) (unat sel div 8)"
  shows "seg_base e = 0 \<and> seg_limit e = 0xFFFFF \<and> gdt_get G_g e = 1 \<and> gdt_get G_p e = 1 \<and>
    gdt_get G_s e = 1 \<and> gdt_get G_dpl e = sel AND 3 \<and>
    gdt_get G_type e = (if code_selector sel then 0xA else 0x2)"
proof -
  have g: "gdt (GDT_Init gdt_addr tss_addr st) i =
      gdt (CreateEntry 5 tss_addr (tss_addr + sizeof_tss_entry) 0x89 (CreateEntry 4 0 0xfffff 0xc0f2
        (CreateEntry 3 0 0xfffff 0xc0fa (CreateEntry 2 0 0xfffff 0xc092 (CreateEntry 1 0 0xfffff 0xc09a
          (CreateEntry 0 0 0 0 st)))))) i" for i
    by (simp add: GDT_Init_def CommitGdt_def Let_def)
  show ?thesis
    using assms(1) unfolding assms(2) g
    by (elim insertE emptyE; simp add: code_selector_def CreateEntry_base CreateEntry_limit CreateEntry_fields)
qed

theorem GDT_Init_selectors_witness:
  "\<forall>st. gdt_get G_dpl (gdt (GDT_Init 0xC0105000 0xC0105A40 st) 3) = 3 \<and>
   gdt_get G_type (gdt (GDT_Init 0xC0105000 0xC0105A40 st) 3) = 0xA"
  using GDT_Init_selectors [of "0x1B" _ "0xC0105000" "0xC0105A40", OF _ refl] by (simp add: code_selector_def)

text \<open>
  The limit of the task-state descriptor is wrong: \<open>Init\<close> passes the end address of the
  segment instead of its last offset, so the processor is told a limit of the low 20 bits
  of that address, which is the size of the segment only by accident.
\<close>

lemma TSS_limit_is_address:
  "seg_base (gdt (GDT_Init gdt_addr tss_addr st) 5) = tss_addr \<and>
   seg_limit (gdt (GDT_Init gdt_addr tss_addr st) 5) = take_bit 20 (tss_addr + 104) \<and>
   gdt_get G_g (gdt (GDT_Init gdt_addr tss_addr st) 5) = 0"
  by (simp add: GDT_Init_def CommitGdt_def Let_def CreateEntry_base CreateEntry_limit CreateEntry_fields
      sizeof_tss_entry_def)

text \<open>
  C35. After \<open>IDT::Init\<close> every vector has its gate: 0 to 47 an interrupt gate of the kernel to
  its own stub, 128 one that user code may call, every other is what it was; the handler of
  vector 128 is installed and no other handler changes, and interrupts are on.
\<close>

theorem IDT_Init_gates:
  "gate (idt (IDT_Init dev stub idt_addr h st) i) =
     (if i \<le> 47 then (stub i, 0x08, 0x8E) else if i = 128 then (stub 128, 0x08, 0xEE) else gate (idt st i)) \<and>
   handlers (IDT_Init dev stub idt_addr h st) = (handlers st)(128 := h) \<and>
   idt_base (reg_idtr (IDT_Init dev stub idt_addr h st)) = idt_addr \<and>
   int_enabled (IDT_Init dev stub idt_addr h st)"
proof -
  have "reg_idtr (InstallHandler dev i g hw s) = reg_idtr s" "int_enabled (InstallHandler dev i g hw s) = int_enabled s"
    for i g hw s by (simp_all add: InstallHandler_def Let_def split: prod.split)
  moreover have "gate (idt (IDT_Init dev stub idt_addr h st) i) =
     (if i \<le> 47 then (stub i, 0x08, 0x8E) else if i = 128 then (stub 128, 0x08, 0xEE) else gate (idt st i))"
    by (auto simp: IDT_Init_def Let_def create_entries_gate)
  ultimately show ?thesis by (simp add: IDT_Init_def Let_def)
qed

text \<open>The mask register of a controller: the last byte written to its data port.\<close>

definition last_written :: "port_log \<Rightarrow> u16 \<Rightarrow> u8" where
  "last_written log port = (case filter (\<lambda>(p, v). p = port) (rev log) of [] \<Rightarrow> 0 | (p, v) # _ \<Rightarrow> v)"

text \<open>The 8259A answers a read of its data port with its mask register.\<close>

definition reads_mask :: "device \<Rightarrow> bool" where
  "reads_mask dev \<longleftrightarrow> (\<forall>log. dev log 0x21 = last_written log 0x21 \<and> dev log 0xA1 = last_written log 0xA1)"

lemma last_written_outb [simp]:
  "last_written (outb p v log) q = (if p = q then v else last_written log q)"
  by (simp add: last_written_def outb_def)

text \<open>
  \<open>InstallHandler\<close> for a hardware vector clears exactly the mask bit of its line at the
  controller the line belongs to. For lines 8 to 15 the master keeps its mask, and with it
  bit 2, the line the second controller is cascaded on, which \<open>RemapIRQs\<close> has masked.
\<close>

lemma InstallHandler_unmasks:
  assumes "reads_mask dev" and "32 \<le> i" and "i < 48"
  shows "handlers (InstallHandler dev i h True st) = (handlers st)(nat i := h) \<and>
    last_written (ports (InstallHandler dev i h True st)) 0x21 =
      (if i < 40 then last_written (ports st) 0x21 AND NOT (push_bit (nat (i - 32)) 1)
       else last_written (ports st) 0x21) \<and>
    last_written (ports (InstallHandler dev i h True st)) 0xA1 =
      (if i < 40 then last_written (ports st) 0xA1
       else last_written (ports st) 0xA1 AND NOT (push_bit (nat (i - 40)) 1))"
proof -
  have narrow: "(ucast (ucast (v :: u8) AND NOT (push_bit k (1 :: u32))) :: u8) = v AND NOT (push_bit k 1)" for v k
    by (rule bit_eqI) (auto simp: bit_simps)
  have i: "i mod 32 = i - 32" if "i < 40"
  proof -
    have "i mod 32 = (i - 32) mod 32" by simp
    also have "\<dots> = i - 32" using assms(2) that by (intro mod_pos_pos_trivial) auto
    finally show ?thesis .
  qed
  have "last_written (ports (InstallHandler dev i h True st)) 0x21 =
      (if i < 40 then last_written (ports st) 0x21 AND NOT (push_bit (nat (i - 32)) 1)
       else last_written (ports st) 0x21)"
    using assms i by (simp add: InstallHandler_def Let_def inb_def reads_mask_def narrow del: push_bit_of_1)
  moreover have "last_written (ports (InstallHandler dev i h True st)) 0xA1 =
      (if i < 40 then last_written (ports st) 0xA1
       else last_written (ports st) 0xA1 AND NOT (push_bit (nat (i - 40)) 1))"
    using assms i by (simp add: InstallHandler_def Let_def inb_def reads_mask_def narrow del: push_bit_of_1)
  ultimately show ?thesis by simp
qed

theorem InstallHandler_unmasks_witness:
  "\<forall>h st. \<exists>dev. last_written (RemapIRQs []) 0x21 = 0xFF \<and>
     last_written (ports (InstallHandler dev 32 h True (st\<lparr>ports := RemapIRQs []\<rparr>))) 0x21 = 0xFE \<and>
     last_written (ports (InstallHandler dev 44 h True (st\<lparr>ports := RemapIRQs []\<rparr>))) 0x21 = 0xFF"
proof (intro allI)
  fix h and st :: idt_state
  have dev: "reads_mask last_written" by (simp add: reads_mask_def)
  have "last_written (RemapIRQs []) 0x21 = 0xFF" by (simp add: RemapIRQs_def Let_def)
  then show "\<exists>dev. last_written (RemapIRQs []) 0x21 = 0xFF \<and>
     last_written (ports (InstallHandler dev 32 h True (st\<lparr>ports := RemapIRQs []\<rparr>))) 0x21 = 0xFE \<and>
     last_written (ports (InstallHandler dev 44 h True (st\<lparr>ports := RemapIRQs []\<rparr>))) 0x21 = 0xFF"
    using InstallHandler_unmasks [OF dev, of 32 h "st\<lparr>ports := RemapIRQs []\<rparr>"]
      InstallHandler_unmasks [OF dev, of 44 h "st\<lparr>ports := RemapIRQs []\<rparr>"]
    by (intro exI [of _ last_written]) simp
qed

text \<open>
  C36. Dispatch: \<open>irq_handler\<close> acknowledges and calls the handler of the vector in the frame, or
  stops on a vector without one. It acknowledges by vector number, not by line, so the
  second controller gets an end-of-interrupt for every interrupt of the first one too, and
  for the frame that the stub of vector 128 builds (its number is pushed as a signed byte)
  the table is read out of range.
\<close>

theorem irq_handler_dispatch:
  assumes "n = m (esp + 36)"
  shows "(32 \<le> n \<longrightarrow> n < 48 \<longrightarrow> irq_handler m esp st =
      Some (if handlers st (unat n) = 0 then Inl (Unhandled_IRQ n) else Inr (handlers st (unat n)),
        st\<lparr>ports := ports st @ [(0xA0, 0x20), (0x20, 0x20)]\<rparr>)) \<and>
    (n = 0xFFFFFF80 \<longrightarrow> irq_handler m esp st = None)"
proof -
  have "8 \<le> sint n" if "32 \<le> n" "n < 48"
  proof -
    have u: "32 \<le> uint n" "uint n < 48" using that by (simp_all add: word_le_def word_less_def)
    then have "sint n = uint n"
      unfolding sint_uint by (intro signed_take_bit_int_eq_self) simp_all
    then show ?thesis using u by simp
  qed
  then show ?thesis
    using assms by (auto simp: irq_handler_def Let_def AckInt_def outb_def word_less_nat_alt)
qed

theorem irq_handler_dispatch_witness:
  "\<exists>m st. irq_handler m 0x1000 st = Some (Inr 0xC0101234, st\<lparr>ports := ports st @ [(0xA0, 0x20), (0x20, 0x20)]\<rparr>)"
proof -
  define st :: idt_state where "st = \<lparr>idt = (\<lambda>_. \<lparr>offset0 = 0, selector = 0, zero_byte = 0, type_attr = 0, offset1 = 0\<rparr>),
    idt_ptr = \<lparr>idt_limit = 0, idt_base = 0\<rparr>, handlers = (\<lambda>_. 0)(32 := 0xC0101234),
    reg_idtr = \<lparr>idt_limit = 0, idt_base = 0\<rparr>, int_enabled = True, ports = []\<rparr>"
  show ?thesis
    using irq_handler_dispatch [of 32 "(\<lambda>_. 0)(0x1024 := 32)" "0x1000" st]
    by (intro exI [of _ "(\<lambda>_. 0)(0x1024 := 32)"] exI [of _ st]) (simp add: st_def)
qed

end
