(* ===== verification/OS_Console.thy ===== *)
theory OS_Console
  imports OS_Format OS_Tables
begin

text \<open>
  The text console: src/src/arch/x86/drivers/vga.hpp and the rest of vga.cpp.

  \<^item> The record \<open>VGA\<close> is the class; \<open>cells\<close> are the 16-bit cells from the pointer \<open>fb\<close> on, by
    their index. The cursor position is kept in two bytes, as in the class. Every operation also
    takes the log of port writes, because the hardware cursor is moved through ports.
  \<^item> The operations are \<open>vga_color\<close>, \<open>vga_entry\<close>, \<open>update_cursor\<close>, \<open>VGA_Init\<close>, \<open>vga_put\<close>
    (\<open>_put\<close>), \<open>vga_put_str\<close> (\<open>_put_str\<close>), \<open>vga_print\<close> (\<open>_print\<close>), \<open>set_cur_color\<close>, \<open>GetX\<close>,
    \<open>GetY\<close> and \<open>GoToXY\<close>.
  \<^item> The abstract console is one line of 2000 cells with a position: \<open>screen_pos\<close>.
\<close>

unbundle bit_operations_syntax

section \<open>State\<close>

datatype COLORS = VGA_COLOR_BLACK | VGA_COLOR_BLUE | VGA_COLOR_GREEN | VGA_COLOR_CYAN | VGA_COLOR_RED
| VGA_COLOR_MAGENTA | VGA_COLOR_BROWN | VGA_COLOR_LIGHT_GREY | VGA_COLOR_DARK_GREY | VGA_COLOR_LIGHT_BLUE
| VGA_COLOR_LIGHT_GREEN | VGA_COLOR_LIGHT_CYAN | VGA_COLOR_LIGHT_RED | VGA_COLOR_LIGHT_MAGENTA
| VGA_COLOR_LIGHT_BROWN | VGA_COLOR_WHITE

fun color_code :: "COLORS \<Rightarrow> u8" where
  "color_code VGA_COLOR_BLACK = 0"
| "color_code VGA_COLOR_BLUE = 1"
| "color_code VGA_COLOR_GREEN = 2"
| "color_code VGA_COLOR_CYAN = 3"
| "color_code VGA_COLOR_RED = 4"
| "color_code VGA_COLOR_MAGENTA = 5"
| "color_code VGA_COLOR_BROWN = 6"
| "color_code VGA_COLOR_LIGHT_GREY = 7"
| "color_code VGA_COLOR_DARK_GREY = 8"
| "color_code VGA_COLOR_LIGHT_BLUE = 9"
| "color_code VGA_COLOR_LIGHT_GREEN = 10"
| "color_code VGA_COLOR_LIGHT_CYAN = 11"
| "color_code VGA_COLOR_LIGHT_RED = 12"
| "color_code VGA_COLOR_LIGHT_MAGENTA = 13"
| "color_code VGA_COLOR_LIGHT_BROWN = 14"
| "color_code VGA_COLOR_WHITE = 15"

record VGA =
  fb :: u32
  vga_x :: u8
  vga_y :: u8
  cur_color :: u8
  width :: int
  height :: int
  cells :: "int \<Rightarrow> u16"

type_synonym console = "VGA \<times> port_log"

section \<open>Operations\<close>

definition update_cursor :: "int \<Rightarrow> int \<Rightarrow> port_log \<Rightarrow> port_log" where
  "update_cursor x y log =
     (let pos = (word_of_int (y * 80 + x) :: u16);
          log = outb 0x3D4 0x0F log;
          log = outb 0x3D5 (ucast (pos AND 0xFF)) log;
          log = outb 0x3D4 0x0E log
      in outb 0x3D5 (ucast (drop_bit 8 pos AND 0xFF)) log)"

text \<open>Operands of \<open>|\<close> are promoted to \<open>int\<close>, and the result is cut to the return type.\<close>

definition vga_color :: "u8 \<Rightarrow> u8 \<Rightarrow> u8" where
  "vga_color fg bg = ucast ((ucast fg :: u32) OR push_bit 4 (ucast bg))"

text \<open>\<open>char\<close> is signed on x86: the cast to \<open>uint16_t\<close> extends the sign.\<close>

definition vga_entry :: "char \<Rightarrow> u8 \<Rightarrow> u16" where
  "vga_entry c color = ucast ((ucast (scast (of_char c :: u8) :: u16) :: u32) OR push_bit 8 (ucast (ucast color :: u16)))"

definition store_cell :: "int \<Rightarrow> u16 \<Rightarrow> VGA \<Rightarrow> VGA" where
  "store_cell i v st = st\<lparr>cells := (cells st)(i := v)\<rparr>"

function clear_row :: "int \<Rightarrow> int \<Rightarrow> VGA \<Rightarrow> VGA" where
  "clear_row cur_x cur_y st =
     (if cur_x < width st
      then clear_row (cur_x + 1) cur_y (store_cell (cur_y * width st + cur_x) (vga_entry (CHR '' '') (cur_color st)) st)
      else st)"
  by pat_completeness auto
termination by (relation "measure (\<lambda>(x, y, st). nat (width st - x))") (auto simp: store_cell_def)

declare clear_row.simps [simp del]

lemma clear_row_fields [simp]:
  "width (clear_row x y st) = width st" "height (clear_row x y st) = height st" "cur_color (clear_row x y st) = cur_color st"
  "vga_x (clear_row x y st) = vga_x st" "vga_y (clear_row x y st) = vga_y st"
  by (induction x y st rule: clear_row.induct; subst clear_row.simps; simp add: store_cell_def)+

function clear_rows :: "int \<Rightarrow> VGA \<Rightarrow> VGA" where
  "clear_rows cur_y st = (if cur_y < height st then clear_rows (cur_y + 1) (clear_row 0 cur_y st) else st)"
  by pat_completeness auto
termination by (relation "measure (\<lambda>(y, st). nat (height st - y))") auto

declare clear_rows.simps [simp del]

definition VGA_Init :: "console \<Rightarrow> console" where
  "VGA_Init = (\<lambda>(st, log).
     (let st = st\<lparr>fb := 0xC00B8000\<rparr>;
          st = st\<lparr>vga_x := 0, vga_y := 0\<rparr>;
          st = st\<lparr>cur_color := vga_color (color_code VGA_COLOR_WHITE) (color_code VGA_COLOR_BLACK)\<rparr>;
          st = st\<lparr>width := 80\<rparr>;
          st = st\<lparr>height := 25\<rparr>;
          st = clear_rows 0 st
      in (st, update_cursor 0 0 log)))"

text \<open>\<open>while (x++ % 4);\<close>\<close>

function tab_from :: "u8 \<Rightarrow> u8" where
  "tab_from x = (if x mod 4 \<noteq> 0 then tab_from (x + 1) else x + 1)"
  by pat_completeness auto
termination
proof (relation "measure (\<lambda>x. (256 - unat x) mod 256)")
  fix x :: u8
  assume x: "x mod 4 \<noteq> 0"
  then have "x \<noteq> 0" by auto
  then have p: "0 < unat x" by (simp add: unat_gt_0)
  have l: "unat x < 256" using unsigned_less [of x] by simp
  have "unat (x + 1) = (unat x + 1) mod 256" by (simp add: unat_word_ariths)
  then show "(x + 1, x) \<in> measure (\<lambda>x. (256 - unat x) mod 256)" using p l by (cases "unat x = 255") simp_all
qed simp

declare tab_from.simps [simp del]

definition vga_put :: "char \<Rightarrow> console \<Rightarrow> console" where
  "vga_put c = (\<lambda>(st, log).
     (let st =
        (if c = CHR 0x0A then st\<lparr>vga_x := 0, vga_y := vga_y st + 1\<rparr>
         else if c = CHR 0x0D then st\<lparr>vga_x := 0\<rparr>
         else if c = CHR 0x09 then st\<lparr>vga_x := tab_from (vga_x st)\<rparr>
         else let st = store_cell (uint (vga_y st) * width st + uint (vga_x st)) (vga_entry c (cur_color st)) st;
                  st = st\<lparr>vga_x := vga_x st + 1\<rparr>;
                  st = (if uint (vga_x st) \<ge> width st then st\<lparr>vga_x := 0, vga_y := vga_y st + 1\<rparr> else st)
              in (if uint (vga_y st) \<ge> height st then st\<lparr>vga_x := 0, vga_y := 0\<rparr> else st))
      in (st, update_cursor (uint (vga_x st)) (uint (vga_y st)) log)))"

fun vga_put_str :: "char list \<Rightarrow> console \<Rightarrow> console option" where
  "vga_put_str [] con = None"
| "vga_put_str (c # s) con = (if c \<noteq> NUL then vga_put_str s (vga_put c con) else Some con)"

definition vga_print :: "(u32 \<Rightarrow> char list option) \<Rightarrow> char list option \<Rightarrow> u32 list \<Rightarrow> char list \<Rightarrow> console \<Rightarrow>
    (console \<times> char list) option" where
  "vga_print = vprintf vga_put vga_put_str"

definition set_cur_color :: "u8 \<Rightarrow> u8 \<Rightarrow> console \<Rightarrow> console" where
  "set_cur_color fg bg = (\<lambda>(st, log). (st\<lparr>cur_color := vga_color fg bg\<rparr>, log))"

definition GetX :: "console \<Rightarrow> int" where "GetX con = uint (vga_x (fst con))"

definition GetY :: "console \<Rightarrow> int" where "GetY con = uint (vga_y (fst con))"

definition GoToXY :: "int \<Rightarrow> int \<Rightarrow> console \<Rightarrow> console" where
  "GoToXY nx ny = (\<lambda>(st, log). (st\<lparr>vga_x := word_of_int nx, vga_y := word_of_int ny\<rparr>, log))"

section \<open>The console as a character sink\<close>

lemma vga_put_str_fold: "NUL \<in> set b \<Longrightarrow> vga_put_str b con = Some (fold vga_put (c_string b) con)"
proof (induction b arbitrary: con)
  case (Cons c b)
  then show ?case by (cases "c = NUL") (simp_all add: c_string_def del: split_paired_All)
qed simp

interpretation console: char_sink vga_put vga_put_str "\<lambda>con. con" vga_put "\<lambda>_. True"
  by unfold_locales (simp_all add: vga_put_str_fold)

lemma console_vprintf_loop:
  assumes "\<forall>(p, a)\<in>set ps. piece_ok deref p a" and "length tmp = 36"
  obtains tmp' where "vprintf_loop vga_put vga_put_str deref (format_of ps) (args_of ps) tmp con =
    Some (fold vga_put (printed deref ps) con, tmp')"
  using console.vprintf_loop_prints [OF assms(1) strings_fit_simps(3) assms(2), of con] that by metis

section \<open>The screen as one line of cells\<close>

definition console_ok :: "VGA \<Rightarrow> bool" where
  "console_ok st \<longleftrightarrow> width st = 80 \<and> height st = 25 \<and> uint (vga_x st) < 80 \<and> uint (vga_y st) < 25"

text \<open>Only the size matters to what saves and restores the position.\<close>

definition console_sized :: "VGA \<Rightarrow> bool" where
  "console_sized st \<longleftrightarrow> width st = 80 \<and> height st = 25"

lemma console_ok_sized: "console_ok st \<Longrightarrow> console_sized st"
  by (simp add: console_ok_def console_sized_def)

lemma vga_put_sized [simp]: "console_sized (fst (vga_put c con)) = console_sized (fst con)"
  by (cases con) (simp add: vga_put_def console_sized_def store_cell_def Let_def)

lemma fold_vga_put_sized [simp]: "console_sized (fst (fold vga_put s con)) = console_sized (fst con)"
  by (induction s arbitrary: con) simp_all

lemma VGA_Init_sized [simp]: "console_sized (fst (VGA_Init con))"
proof -
  have "width (clear_rows y st) = width st \<and> height (clear_rows y st) = height st" for y st
    by (induction y st rule: clear_rows.induct) (subst (1 2) clear_rows.simps, simp)
  then show ?thesis by (cases con) (simp add: VGA_Init_def console_sized_def Let_def)
qed

definition screen_pos :: "VGA \<Rightarrow> nat" where
  "screen_pos st = unat (vga_y st) * 80 + unat (vga_x st)"

definition plain :: "char \<Rightarrow> bool" where
  "plain c \<longleftrightarrow> c \<noteq> CHR 0x0A \<and> c \<noteq> CHR 0x0D \<and> c \<noteq> CHR 0x09"

lemma console_ok_unat: "console_ok st \<longleftrightarrow> width st = 80 \<and> height st = 25 \<and> unat (vga_x st) < 80 \<and> unat (vga_y st) < 25"
proof -
  have "uint (w :: u8) < int n \<longleftrightarrow> unat w < n" for w n by (metis of_nat_less_iff of_nat_unat)
  from this [of _ 80] this [of _ 25] show ?thesis by (simp add: console_ok_def)
qed

lemma u8_inc: "unat (w :: u8) < 255 \<Longrightarrow> unat (w + 1) = Suc (unat w)"
  using unat_plus_le [of w 1] by simp

lemma screen_pos_less: "console_ok st \<Longrightarrow> screen_pos st < 2000"
  by (simp add: console_ok_unat screen_pos_def)

text \<open>One plain character: its cell, and the next position, from the last cell back to the first.\<close>

lemma vga_put_plain:
  assumes ok: "console_ok st" and c: "plain c"
  shows "console_ok (fst (vga_put c (st, log)))"
    and "screen_pos (fst (vga_put c (st, log))) = Suc (screen_pos st) mod 2000"
    and "cells (fst (vga_put c (st, log))) = (cells st)(int (screen_pos st) := vga_entry c (cur_color st))"
    and "cur_color (fst (vga_put c (st, log))) = cur_color st"
proof -
  let ?x = "unat (vga_x st)" and ?y = "unat (vga_y st)"
  have b: "width st = 80" "height st = 25" "?x < 80" "?y < 25" using ok by (simp_all add: console_ok_unat)
  have x1: "unat (vga_x st + 1) = Suc ?x" and y1: "unat (vga_y st + 1) = Suc ?y" using b by (simp_all add: u8_inc)
  have uu: "uint w = int (unat w)" for w :: u8 by simp
  have ux: "uint (vga_x st + 1) = int (Suc ?x)" and uy: "uint (vga_y st + 1) = int (Suc ?y)"
    and u0: "uint (vga_y st) = int ?y" "uint (vga_x st) = int ?x"
    by (simp_all only: uu x1 y1)
  let ?st = "store_cell (int ?y * 80 + int ?x) (vga_entry c (cur_color st)) st"
  have put: "fst (vga_put c (st, log)) =
      (if Suc ?x < 80 then ?st\<lparr>vga_x := vga_x st + 1\<rparr>
       else if Suc ?y < 25 then ?st\<lparr>vga_x := 0, vga_y := vga_y st + 1\<rparr>
       else ?st\<lparr>vga_x := 0, vga_y := 0\<rparr>)"
    using c b unfolding vga_put_def plain_def store_cell_def by (simp add: Let_def ux uy u0 del: of_nat_unat)
  show "console_ok (fst (vga_put c (st, log)))" using b unfolding put console_ok_unat by (simp add: x1 y1 store_cell_def)
  show "screen_pos (fst (vga_put c (st, log))) = Suc (screen_pos st) mod 2000"
  proof (cases "Suc ?x < 80")
    case True
    then have "Suc (?y * 80 + ?x) < 2000" using b by linarith
    then show ?thesis using True by (simp add: put screen_pos_def x1 store_cell_def)
  next
    case False
    then have "?x = 79" using b(3) by simp
    then show ?thesis using False b(4) by (cases "?y = 24") (auto simp: put screen_pos_def y1 store_cell_def)
  qed
  show "cells (fst (vga_put c (st, log))) = (cells st)(int (screen_pos st) := vga_entry c (cur_color st))"
    by (simp add: put screen_pos_def store_cell_def)
  show "cur_color (fst (vga_put c (st, log))) = cur_color st" by (simp add: put store_cell_def)
qed

text \<open>
  The place of a text: where the cursor goes for each character on a screen of 25 lines of 80
  cells counted in one line, and which characters land in which cell. \<open>put_fits\<close> leaves out the two
  places where the code does not do this: a line feed on the last row, and a tab in the last three columns.
\<close>

definition next_pos :: "char \<Rightarrow> nat \<Rightarrow> nat" where
  "next_pos c p =
     (if c = CHR 0x0A then (p div 80 + 1) * 80
      else if c = CHR 0x0D then p div 80 * 80
      else if c = CHR 0x09 then p div 80 * 80 + 4 * ((p mod 80 + 3) div 4) + 1
      else Suc p mod 2000)"

definition put_fits :: "char \<Rightarrow> nat \<Rightarrow> bool" where
  "put_fits c p \<longleftrightarrow> (c = CHR 0x0A \<longrightarrow> p < 1920) \<and> (c = CHR 0x09 \<longrightarrow> p mod 80 \<le> 76)"

fun text_end :: "nat \<Rightarrow> string \<Rightarrow> nat" where
  "text_end p [] = p"
| "text_end p (c # s) = text_end (next_pos c p) s"

fun text_fits :: "nat \<Rightarrow> string \<Rightarrow> bool" where
  "text_fits p [] \<longleftrightarrow> True"
| "text_fits p (c # s) \<longleftrightarrow> put_fits c p \<and> text_fits (next_pos c p) s"

fun layout :: "nat \<Rightarrow> string \<Rightarrow> (nat \<times> char) list" where
  "layout p [] = []"
| "layout p (c # s) = (if plain c then [(p, c)] else []) @ layout (next_pos c p) s"

text \<open>The character that a text leaves in a cell is the last one that lands there.\<close>

definition text_at :: "nat \<Rightarrow> string \<Rightarrow> nat \<Rightarrow> char option" where
  "text_at p s k = map_of (rev (layout p s)) k"

lemma text_at_simps [simp]:
  "text_at p [] k = None"
  "text_at p (c # s) k =
     (case text_at (next_pos c p) s k of None \<Rightarrow> if plain c \<and> k = p then Some c else None | Some d \<Rightarrow> Some d)"
  by (simp_all add: text_at_def map_add_def split: option.split)

lemma tab_from_stop: "unat x \<le> 76 \<Longrightarrow> unat (tab_from x) = 4 * ((unat x + 3) div 4) + 1"
proof (induction "76 - unat x" arbitrary: x rule: less_induct)
  case less
  have x1: "unat (x + 1) = Suc (unat x)" using less.prems by (intro u8_inc) simp
  have m: "x mod 4 = 0 \<longleftrightarrow> unat x mod 4 = 0" by (simp add: word_eq_iff_unsigned unat_mod_distrib flip: unat_eq_zero) 
  show ?case
  proof (cases "unat x mod 4 = 0")
    case True
    then have "4 * ((unat x + 3) div 4) = unat x" by presburger
    then show ?thesis using True m x1 by (subst tab_from.simps) simp
  next
    case False
    then have "unat x \<noteq> 76" by (intro notI) simp
    then have l: "unat (x + 1) \<le> 76" "76 - unat (x + 1) < 76 - unat x" using less.prems x1 by simp_all
    have "(Suc (unat x) + 3) div 4 = (unat x + 3) div 4" using False by presburger
    then show ?thesis using False m less.hyps [OF l(2,1)] x1 by (subst tab_from.simps) simp
  qed
qed

lemma screen_pos_xy:
  assumes "console_ok st"
  shows "screen_pos st div 80 = unat (vga_y st)" and "screen_pos st mod 80 = unat (vga_x st)"
  using assms by (simp_all add: screen_pos_def console_ok_unat)

lemma vga_put_control:
  assumes ok: "console_ok st" and c: "\<not> plain c" and f: "put_fits c (screen_pos st)"
  shows "console_ok (fst (vga_put c (st, log)))"
    and "screen_pos (fst (vga_put c (st, log))) = next_pos c (screen_pos st)"
    and "cells (fst (vga_put c (st, log))) = cells st"
    and "cur_color (fst (vga_put c (st, log))) = cur_color st"
proof -
  note xy = screen_pos_xy [OF ok]
  consider (lf) "c = CHR 0x0A" | (cr) "c = CHR 0x0D" | (tab) "c = CHR 0x09" using c by (auto simp: plain_def)
  then have "console_ok (fst (vga_put c (st, log))) \<and> screen_pos (fst (vga_put c (st, log))) = next_pos c (screen_pos st) \<and>
      cells (fst (vga_put c (st, log))) = cells st \<and> cur_color (fst (vga_put c (st, log))) = cur_color st"
  proof cases
    case lf
    have "screen_pos st div 80 < 24" using f lf by (simp add: put_fits_def div_less_iff_less_mult)
    then have y: "unat (vga_y st) < 24" by (simp only: xy)
    then have "unat (vga_y st + 1) = Suc (unat (vga_y st))" by (intro u8_inc) simp
    then show ?thesis using ok lf y xy by (simp add: vga_put_def console_ok_unat next_pos_def screen_pos_def)
  next
    case cr
    then show ?thesis using ok xy by (simp add: vga_put_def console_ok_unat next_pos_def screen_pos_def)
  next
    case tab
    have x: "unat (vga_x st) \<le> 76" using f tab xy by (simp add: put_fits_def)
    then have "4 * ((unat (vga_x st) + 3) div 4) + 1 < 80" by presburger
    then show ?thesis using ok tab xy tab_from_stop [OF x]
      by (simp add: vga_put_def console_ok_unat next_pos_def screen_pos_def)
  qed
  then show "console_ok (fst (vga_put c (st, log)))"
    "screen_pos (fst (vga_put c (st, log))) = next_pos c (screen_pos st)"
    "cells (fst (vga_put c (st, log))) = cells st" "cur_color (fst (vga_put c (st, log))) = cur_color st" by simp_all
qed

lemma next_pos_plain: "plain c \<Longrightarrow> next_pos c p = Suc p mod 2000"
  by (simp add: next_pos_def plain_def)

text \<open>A whole text.\<close>

lemma fold_vga_put:
  assumes "console_ok st" and "text_fits (screen_pos st) s"
  shows "\<exists>st' log'. fold vga_put s (st, log) = (st', log') \<and> console_ok st' \<and> cur_color st' = cur_color st \<and>
    screen_pos st' = text_end (screen_pos st) s \<and>
    (\<forall>k. cells st' (int k) = (case text_at (screen_pos st) s k of None \<Rightarrow> cells st (int k) | Some c \<Rightarrow> vga_entry c (cur_color st))) \<and>
    (\<forall>k<0. cells st' k = cells st k)"
  using assms
proof (induction s arbitrary: st log)
  case (Cons c s)
  obtain st1 log1 where put: "vga_put c (st, log) = (st1, log1)" by fastforce
  have one: "console_ok st1" "screen_pos st1 = next_pos c (screen_pos st)" "cur_color st1 = cur_color st"
    "cells st1 = (if plain c then (cells st)(int (screen_pos st) := vga_entry c (cur_color st)) else cells st)"
    using vga_put_plain [OF Cons.prems(1), of c log] vga_put_control [OF Cons.prems(1), of c log] Cons.prems(2)
    by (cases "plain c"; simp add: put next_pos_plain)+
  have "text_fits (screen_pos st1) s" using Cons.prems(2) one(2) by simp
  from Cons.IH [OF one(1) this, of log1] one show ?case by (fastforce simp: put split: option.split)
qed simp

lemma layout_bound: "p < 2000 \<Longrightarrow> text_fits p s \<Longrightarrow> 2000 \<le> k \<Longrightarrow> text_at p s k = None"
proof (induction s arbitrary: p)
  case (Cons c s)
  have "next_pos c p < 2000"
  proof -
    have "p div 80 < 25" using Cons.prems(1) by (simp add: div_less_iff_less_mult)
    moreover have "p div 80 < 24" if "p < 1920" using that by (simp add: div_less_iff_less_mult)
    moreover have "4 * ((x + 3) div 4) + 1 < 80" if "x \<le> 76" for x :: nat using that by presburger
    ultimately show ?thesis using Cons.prems(2) by (fastforce simp: next_pos_def put_fits_def)
  qed
  then show ?case using Cons by simp
qed simp

text \<open>What is seen of a character: its code in the low byte of the cell, the colour in the high byte.\<close>

definition displays :: "char \<Rightarrow> u8 \<Rightarrow> u16 \<Rightarrow> bool" where
  "displays c color w \<longleftrightarrow> (ucast w :: u8) = of_char c \<and>
     (ucast (drop_bit 8 w) :: u8) = (if of_char c < (128 :: nat) then color else 0xFF)"

text \<open>
  A cell holds the character in its low byte and the colour in its high byte for the 128
  ASCII characters; for any other the sign extension of \<open>char\<close> overwrites the colour with 0xFF.
\<close>

lemma vga_entry_bytes:
  "(ucast (vga_entry c color) :: u8) = of_char c \<and>
   (ucast (drop_bit 8 (vga_entry c color)) :: u8) = (if of_char c < (128 :: nat) then color else 0xFF)"
proof -
  define n where "n = (of_char c :: nat)"
  have n: "n < 256" unfolding n_def using nat_of_char_less_256 [of c] by simp
  have w: "(of_char c :: u8) = of_nat n" unfolding n_def by (rule of_nat_of_char [symmetric])
  have b7: "bit n 7 \<longleftrightarrow> \<not> n < 128"
  proof -
    have "n div 128 = (if n < 128 then 0 else 1)" using n by (auto intro: div_nat_eqI)
    then show ?thesis by (simp add: bit_iff_odd)
  qed
  have ff: "bit (0xFF :: u8) i \<longleftrightarrow> i < 8" for i
  proof -
    have "(0xFF :: u8) = mask 8" by (simp add: mask_eq_exp_minus_1)
    then show ?thesis by (simp only: bit_mask_iff) (simp add: min_def)
  qed
  have e: "bit (vga_entry c color) i \<longleftrightarrow> i < 16 \<and> (bit (of_nat n :: u8) (min 7 i) \<or> 8 \<le> i \<and> bit color (i - 8))" for i
    unfolding vga_entry_def w by (auto simp: bit_simps min_def)
  have m: "min 7 i = i" if "i < 8" for i :: nat using that by simp
  have "(ucast (vga_entry c color) :: u8) = of_nat n"
    by (rule bit_eqI) (auto simp: bit_simps e m)
  moreover have "(ucast (drop_bit 8 (vga_entry c color)) :: u8) = (if n < 128 then color else 0xFF)"
  proof (cases "n < 128")
    case True
    then show ?thesis by (intro bit_eqI) (auto simp: bit_simps e b7)
  next
    case False
    have "(ucast (drop_bit 8 (vga_entry c color)) :: u8) = 0xFF"
      by (rule bit_eqI, unfold ff) (use False in \<open>auto simp: bit_simps e b7\<close>)
    then show ?thesis using False by simp
  qed
  ultimately show ?thesis unfolding w n_def by (rule conjI)
qed

lemma displays_entry: "displays c color (vga_entry c color)"
  using vga_entry_bytes [of c color] by (simp add: displays_def)

section \<open>Clearing\<close>

lemma clear_row_cells:
  "0 \<le> x \<Longrightarrow> cells (clear_row x y st) = (\<lambda>k. if y * width st + x \<le> k \<and> k < y * width st + width st
     then vga_entry (CHR '' '') (cur_color st) else cells st k)"
proof (induction x y st rule: clear_row.induct)
  case (1 x y st)
  show ?case
  proof (cases "x < width st")
    case True
    then have "cells (clear_row (x + 1) y (store_cell (y * width st + x) (vga_entry (CHR '' '') (cur_color st)) st)) =
        (\<lambda>k. if y * width st + (x + 1) \<le> k \<and> k < y * width st + width st then vga_entry (CHR '' '') (cur_color st)
         else (if k = y * width st + x then vga_entry (CHR '' '') (cur_color st) else cells st k))"
      using 1 by (simp add: store_cell_def fun_eq_iff)
    then show ?thesis using True by (subst clear_row.simps) (auto simp: fun_eq_iff)
  next
    case False
    then show ?thesis by (subst clear_row.simps) (auto simp: fun_eq_iff)
  qed
qed

lemma clear_rows_spec:
  "width st = 80 \<Longrightarrow> height st = 25 \<Longrightarrow> 0 \<le> y \<Longrightarrow> y \<le> 25 \<Longrightarrow>
    cells (clear_rows y st) = (\<lambda>k. if 80 * y \<le> k \<and> k < 2000 then vga_entry (CHR '' '') (cur_color st) else cells st k) \<and>
    width (clear_rows y st) = 80 \<and> height (clear_rows y st) = 25 \<and> cur_color (clear_rows y st) = cur_color st \<and>
    vga_x (clear_rows y st) = vga_x st \<and> vga_y (clear_rows y st) = vga_y st"
proof (induction y st rule: clear_rows.induct)
  case (1 y st)
  show ?case
  proof (cases "y < 25")
    case True
    then show ?thesis using 1 clear_row_cells [of 0 y st]
      by (subst (1 2 3 4 5 6) clear_rows.simps) (auto simp: fun_eq_iff)
  next
    case False
    then show ?thesis using 1 by (subst (1 2 3 4 5 6) clear_rows.simps) (auto simp: fun_eq_iff)
  qed
qed

section \<open>Properties\<close>

text \<open>
  \<open>Init\<close> clears the whole screen to white on black blanks and nothing beyond its 2000 cells,
  and puts the cursor, in the class and in the hardware, at the top left.
\<close>

lemma VGA_Init_clears:
  "\<exists>st' log'. VGA_Init (st, log) = (st', log') \<and> console_ok st' \<and> screen_pos st' = 0 \<and>
    (\<forall>k. cells st' k = (if 0 \<le> k \<and> k < 2000 then vga_entry (CHR '' '') 0x0F else cells st k)) \<and>
    log' = log @ [(0x3D4, 0x0F), (0x3D5, 0), (0x3D4, 0x0E), (0x3D5, 0)]"
proof -
  let ?st = "st\<lparr>fb := 0xC00B8000, vga_x := 0, vga_y := 0, cur_color := 0x0F, width := 80, height := 25\<rparr>"
  have "vga_color (color_code VGA_COLOR_WHITE) (color_code VGA_COLOR_BLACK) = 0x0F" by (simp add: vga_color_def)
  then have "VGA_Init (st, log) = (clear_rows 0 ?st, update_cursor 0 0 log)" by (simp add: VGA_Init_def Let_def)
  then show ?thesis using clear_rows_spec [of ?st 0]
    by (simp add: console_ok_def screen_pos_def update_cursor_def outb_def Let_def)
qed


definition demo_console :: VGA where
  "demo_console = \<lparr>fb = 0xC00B8000, vga_x = 78, vga_y = 24, cur_color = 0x0F, width = 80, height = 25, cells = (\<lambda>_. 0)\<rparr>"

lemma demo_console_ok: "console_ok demo_console" and demo_console_pos: "screen_pos demo_console = 1998"
  by (simp_all add: console_ok_def screen_pos_def demo_console_def)

lemma demo_console_fields: "cur_color demo_console = 0x0F" "cells demo_console = (\<lambda>_. 0)"
  by (simp_all add: demo_console_def)


text \<open>
  A line feed on the last row does not wrap: it leaves the cursor on row 25, and the next
  character is stored in cell 2000, behind the screen, before the cursor goes back to the top.
\<close>

lemma newline_leaves_screen:
  assumes "console_ok st" and "vga_y st = 24" and "plain c"
  shows "\<not> console_ok (fst (vga_put (CHR 0x0A) (st, log))) \<and>
    (let st' = fst (vga_put c (vga_put (CHR 0x0A) (st, log)))
     in cells st' = (cells st)(2000 := vga_entry c (cur_color st)) \<and> console_ok st' \<and> screen_pos st' = 0)"
  using assms by (simp add: vga_put_def plain_def console_ok_def screen_pos_def store_cell_def Let_def)

theorem newline_leaves_screen_witness:
  "cells (fst (vga_put (CHR ''x'') (vga_put (CHR 0x0A) (demo_console, [])))) 2000 = vga_entry (CHR ''x'') 0x0F"
  using newline_leaves_screen [OF demo_console_ok, of "CHR ''x''" "[]"]
  by (simp add: demo_console_def plain_def Let_def)

end
