(* ===== verification/OS_Queue.thy ===== *)
theory OS_Queue
  imports OS_Linked
begin

section \<open>The queue template (libc/queue.h)\<close>

text \<open>
  \<open>std::queue<T>\<close> is a doubly linked list. The nodes live in a store from addresses
  to \<open>queue_node\<close> records; a queue is its head and tail pointers and its size. Several
  queues share one store, so every operation takes and returns the store. The address
  that \<open>new queue_node<T>(e)\<close> returns is a parameter of the inserting operations: it
  comes from \<open>Heap::malloc\<close>. \<open>delete\<close> removes the node from the store.

  The abstract specification of a queue is a list. \<open>qrep\<close> relates a queue to the
  addresses of its nodes in order, \<open>qlist\<close> to the elements; the refinement lemmas say
  which list function each operation implements.
\<close>

subsection \<open>Data\<close>

record 'a queue_node =
  q_data :: 'a
  q_next :: u32
  q_prev :: u32

record queue =
  q_head :: u32
  q_tail :: u32
  q_size :: int

type_synonym 'a nodes = "u32 \<rightharpoonup> 'a queue_node"
type_synonym 'a qstate = "'a nodes \<times> queue"

definition queue_init :: queue where
  "queue_init = \<lparr>q_head = 0, q_tail = 0, q_size = 0\<rparr>"

definition new_node :: "'a \<Rightarrow> 'a queue_node" where
  "new_node e = \<lparr>q_data = e, q_next = 0, q_prev = 0\<rparr>"

text \<open>Reading a node, and writing one of its links, through a pointer.\<close>

definition deref :: "'a nodes \<Rightarrow> u32 \<Rightarrow> 'a queue_node option" where
  "deref st p = (if p = 0 then None else st p)"

definition set_next :: "u32 \<Rightarrow> u32 \<Rightarrow> 'a nodes \<Rightarrow> 'a nodes option" where
  "set_next p v st = do { nd \<leftarrow> deref st p; Some (st(p \<mapsto> nd\<lparr>q_next := v\<rparr>)) }"

definition set_prev :: "u32 \<Rightarrow> u32 \<Rightarrow> 'a nodes \<Rightarrow> 'a nodes option" where
  "set_prev p v st = do { nd \<leftarrow> deref st p; Some (st(p \<mapsto> nd\<lparr>q_prev := v\<rparr>)) }"

subsection \<open>Operations\<close>

definition insertInternal :: "u32 \<Rightarrow> 'a \<Rightarrow> u32 \<Rightarrow> 'a qstate \<Rightarrow> (u32 \<times> 'a qstate) option" where
  "insertInternal n e pos s = (case s of (st, q) \<Rightarrow> do {
     let st = st(n \<mapsto> new_node e);
     let q = q\<lparr>q_size := q_size q + 1\<rparr>;
     st \<leftarrow> set_next n pos st;
     (st, q) \<leftarrow>
       (if pos \<noteq> 0 then do {
          nd \<leftarrow> deref st pos;
          st \<leftarrow> set_prev n (q_prev nd) st;
          st \<leftarrow> set_prev pos n st;
          Some (st, q)
        } else do {
          st \<leftarrow> set_prev n (q_tail q) st;
          Some (st, q\<lparr>q_tail := n\<rparr>)
        });
     nd \<leftarrow> deref st n;
     if q_prev nd \<noteq> 0 then do {
       st \<leftarrow> set_next (q_prev nd) n st;
       Some (n, st, q)
     } else Some (n, st, q\<lparr>q_head := n\<rparr>)
   })"

definition push_back :: "u32 \<Rightarrow> 'a \<Rightarrow> 'a qstate \<Rightarrow> 'a qstate option" where
  "push_back n e s = map_option snd (insertInternal n e 0 s)"

definition push_front :: "u32 \<Rightarrow> 'a \<Rightarrow> 'a qstate \<Rightarrow> 'a qstate option" where
  "push_front n e s = map_option snd (insertInternal n e (q_head (snd s)) s)"

definition removeInternal :: "u32 \<Rightarrow> 'a qstate \<Rightarrow> 'a qstate option" where
  "removeInternal pos s = (case s of (st, q) \<Rightarrow>
     if pos \<noteq> 0 then do {
       nd \<leftarrow> deref st pos;
       st \<leftarrow> (if q_prev nd \<noteq> 0 then set_next (q_prev nd) (q_next nd) st else Some st);
       nd \<leftarrow> deref st pos;
       st \<leftarrow> (if q_next nd \<noteq> 0 then set_prev (q_next nd) (q_prev nd) st else Some st);
       nd \<leftarrow> deref st pos;
       let q = (if pos = q_head q then q\<lparr>q_head := q_next nd\<rparr> else q);
       let q = (if pos = q_tail q then q\<lparr>q_tail := q_prev nd\<rparr> else q);
       Some (st(pos := None), q\<lparr>q_size := q_size q - 1\<rparr>)
     } else Some (st, q))"

text \<open>\<open>walk k cur\<close> is the loop \<open>for (i = 0; i < k; ++i) cur = cur->next\<close>.\<close>

fun walk :: "nat \<Rightarrow> u32 \<Rightarrow> 'a nodes \<Rightarrow> u32 option" where
  "walk 0 cur st = Some cur"
| "walk (Suc k) cur st = do { nd \<leftarrow> deref st cur; walk k (q_next nd) st }"

definition RemoveAt :: "int \<Rightarrow> 'a qstate \<Rightarrow> 'a qstate option" where
  "RemoveAt i s = (case s of (st, q) \<Rightarrow> do {
     cur \<leftarrow> walk (nat i) (q_head q) st;
     removeInternal cur (st, q)
   })"

definition GetAt :: "int \<Rightarrow> 'a qstate \<Rightarrow> 'a option" where
  "GetAt i s = (case s of (st, q) \<Rightarrow> do {
     cur \<leftarrow> walk (nat i) (q_head q) st;
     nd \<leftarrow> deref st cur;
     Some (q_data nd)
   })"

function IndexOf_from :: "int \<Rightarrow> 'a \<Rightarrow> 'a qstate \<Rightarrow> int option" where
  "IndexOf_from i e s =
     (if i < q_size (snd s) then do {
        d \<leftarrow> GetAt i s;
        if d = e then Some i else IndexOf_from (i + 1) e s
      } else Some (- 1))"
  by pat_completeness auto
termination
  by (relation "measure (\<lambda>(i, e, s). nat (q_size (snd s) - i))") auto

declare IndexOf_from.simps [simp del]

definition IndexOf :: "'a \<Rightarrow> 'a qstate \<Rightarrow> int option" where
  "IndexOf e s = IndexOf_from 0 e s"

text \<open>\<open>Remove(const T&)\<close> removes while it counts up; the size it compares with shrinks.\<close>

lemma removeInternal_size:
  "removeInternal pos s = Some s' \<Longrightarrow> q_size (snd s') \<le> q_size (snd s)"
  by (cases s) (auto simp: removeInternal_def Let_def split: if_splits elim!: bind_eq_SomeE)

lemma RemoveAt_size: "RemoveAt i s = Some s' \<Longrightarrow> q_size (snd s') \<le> q_size (snd s)"
  by (cases s) (auto simp: RemoveAt_def elim!: bind_eq_SomeE dest: removeInternal_size)

function Remove_from :: "int \<Rightarrow> 'a \<Rightarrow> 'a qstate \<Rightarrow> 'a qstate option" where
  "Remove_from i e s =
     (if i < q_size (snd s) then do {
        d \<leftarrow> GetAt i s;
        s' \<leftarrow> (if d = e then RemoveAt i s else Some s);
        Remove_from (i + 1) e s'
      } else Some s)"
  by pat_completeness auto
termination
  by (relation "measure (\<lambda>(i, e, s). nat (q_size (snd s) - i))")
    (auto split: if_splits dest!: RemoveAt_size)

declare Remove_from.simps [simp del]

definition Remove :: "'a \<Rightarrow> 'a qstate \<Rightarrow> 'a qstate option" where
  "Remove e s = Remove_from 0 e s"

partial_function (option) Clear_from :: "u32 \<Rightarrow> 'a nodes \<Rightarrow> 'a nodes option" where
  "Clear_from current st =
     (if current \<noteq> 0 then do {
        nd \<leftarrow> deref st current;
        Clear_from (q_next nd) (st(current := None))
      } else Some st)"

definition Clear :: "'a qstate \<Rightarrow> 'a qstate option" where
  "Clear s = (case s of (st, q) \<Rightarrow> do {
     st \<leftarrow> Clear_from (q_head q) st;
     Some (st, q\<lparr>q_size := 0, q_head := 0, q_tail := 0\<rparr>)
   })"

text \<open>The operators are names for the operations above; an iterator is a node pointer.\<close>

definition queue_index :: "'a qstate \<Rightarrow> int \<Rightarrow> 'a option" where
  "queue_index s i = GetAt i s"

definition queue_add :: "u32 \<Rightarrow> 'a qstate \<Rightarrow> 'a \<Rightarrow> 'a qstate option" where
  "queue_add n s e = push_back n e s"

definition queue_sub :: "'a qstate \<Rightarrow> 'a \<Rightarrow> 'a qstate option" where
  "queue_sub s e = Remove e s"

definition queue_begin :: "'a qstate \<Rightarrow> u32" where
  "queue_begin s = q_head (snd s)"

definition queue_end :: "'a qstate \<Rightarrow> u32" where
  "queue_end s = 0"

definition iter_deref :: "'a nodes \<Rightarrow> u32 \<Rightarrow> 'a option" where
  "iter_deref st pos = map_option q_data (deref st pos)"

definition iter_inc :: "'a nodes \<Rightarrow> u32 \<Rightarrow> u32 option" where
  "iter_inc st pos = map_option q_next (deref st pos)"

definition iter_dec :: "'a nodes \<Rightarrow> u32 \<Rightarrow> u32 option" where
  "iter_dec st pos = map_option q_prev (deref st pos)"

subsection \<open>Representation\<close>

definition nxt :: "'a nodes \<Rightarrow> u32 \<Rightarrow> u32" where
  "nxt st a = (case st a of None \<Rightarrow> 0 | Some nd \<Rightarrow> q_next nd)"

definition prv :: "'a nodes \<Rightarrow> u32 \<Rightarrow> u32" where
  "prv st a = (case st a of None \<Rightarrow> 0 | Some nd \<Rightarrow> q_prev nd)"

definition dat :: "'a nodes \<Rightarrow> u32 \<Rightarrow> 'a" where
  "dat st a = q_data (the (st a))"

definition qrep :: "'a qstate \<Rightarrow> u32 list \<Rightarrow> bool" where
  "qrep s as \<longleftrightarrow>
     dseg (nxt (fst s)) (prv (fst s)) 0 as 0 \<and> distinct as \<and> 0 \<notin> set as \<and>
     set as \<subseteq> dom (fst s) \<and> q_head (snd s) = hd_or as 0 \<and> q_tail (snd s) = last_or as 0 \<and>
     q_size (snd s) = int (length as)"

definition qlist :: "'a nodes \<Rightarrow> u32 list \<Rightarrow> 'a list" where
  "qlist st as = map (dat st) as"

lemma nxt_upd [simp]: "nxt (st(p \<mapsto> nd)) = (nxt st)(p := q_next nd)"
  by (auto simp: nxt_def)

lemma prv_upd [simp]: "prv (st(p \<mapsto> nd)) = (prv st)(p := q_prev nd)"
  by (auto simp: prv_def)

lemma dat_upd [simp]: "dat (st(p \<mapsto> nd)) = (dat st)(p := q_data nd)"
  by (auto simp: dat_def)

lemma nxt_the: "st p = Some nd \<Longrightarrow> nxt st p = q_next nd"
  by (simp add: nxt_def)

lemma prv_the: "st p = Some nd \<Longrightarrow> prv st p = q_prev nd"
  by (simp add: prv_def)

lemma dat_the: "st p = Some nd \<Longrightarrow> dat st p = q_data nd"
  by (simp add: dat_def)

lemma deref_eq_Some [simp]: "deref st p = Some nd \<longleftrightarrow> p \<noteq> 0 \<and> st p = Some nd"
  by (simp add: deref_def)

lemma deref_Some [simp]: "p \<noteq> 0 \<Longrightarrow> deref st p = st p"
  by (simp add: deref_def)

lemma deref_null [simp]: "deref st 0 = None"
  by (simp add: deref_def)

lemma set_next_Some [simp]:
  "p \<noteq> 0 \<Longrightarrow> st p = Some nd \<Longrightarrow> set_next p v st = Some (st(p \<mapsto> nd\<lparr>q_next := v\<rparr>))"
  by (simp add: set_next_def)

lemma set_prev_Some [simp]:
  "p \<noteq> 0 \<Longrightarrow> st p = Some nd \<Longrightarrow> set_prev p v st = Some (st(p \<mapsto> nd\<lparr>q_prev := v\<rparr>))"
  by (simp add: set_prev_def)

lemma qlist_append [simp]: "qlist st (as @ bs) = qlist st as @ qlist st bs"
  by (simp add: qlist_def)

lemma qlist_Cons [simp]: "qlist st (a # as) = dat st a # qlist st as"
  by (simp add: qlist_def)

lemma qlist_Nil [simp]: "qlist st [] = []"
  by (simp add: qlist_def)

lemma length_qlist [simp]: "length (qlist st as) = length as"
  by (simp add: qlist_def)

lemma qlist_cong: "(\<And>a. a \<in> set as \<Longrightarrow> dat st' a = dat st a) \<Longrightarrow> qlist st' as = qlist st as"
  by (simp add: qlist_def)

text \<open>A queue is untouched by changes to nodes that are not its own.\<close>

lemma qrep_frame:
  assumes "qrep (st, q) as" and same: "\<And>a. a \<in> set as \<Longrightarrow> st' a = st a"
  shows "qrep (st', q) as" and "qlist st' as = qlist st as"
proof -
  have "dseg (nxt st') (prv st') 0 as 0"
    by (rule dseg_cong [of "nxt st" "prv st"])
      (use assms in \<open>auto simp: qrep_def nxt_def prv_def\<close>)
  with assms show "qrep (st', q) as"
    by (auto simp: qrep_def dom_def subset_iff)
  show "qlist st' as = qlist st as"
    by (rule qlist_cong) (simp add: dat_def same)
qed

lemma qrep_init: "qrep (st, queue_init) []"
  by (simp add: qrep_def queue_init_def)

subsection \<open>Insertion and removal at a node\<close>

text \<open>
  What \<open>insertInternal\<close> and \<open>removeInternal\<close> do to the two pointer fields is
  exactly the relinking that \<open>dseg\<close> needs.
\<close>

lemma insertInternal_effect:
  assumes rep: "qrep (st, q) (xs @ ys)" and pos: "pos = hd_or ys 0"
    and n: "n \<noteq> 0" "n \<notin> set (xs @ ys)"
  obtains st' where
    "insertInternal n e pos (st, q) = Some (n, st',
       q\<lparr>q_head := (if xs = [] then n else q_head q),
         q_tail := (if ys = [] then n else q_tail q), q_size := q_size q + 1\<rparr>)"
    and "nxt st' = link_nx xs n ((nxt st)(n := pos))"
    and "prv st' = link_pv ys n ((prv st)(n := last_or xs 0))"
    and "dat st' = (dat st)(n := e)" and "dom st' = insert n (dom st)"
    and "\<And>a. a \<notin> insert n (set (xs @ ys)) \<Longrightarrow> st' a = st a"
proof -
  from rep have seg: "dseg (nxt st) (prv st) 0 (xs @ ys) 0" and dist: "distinct (xs @ ys)"
    and nz: "0 \<notin> set (xs @ ys)" and dom: "set (xs @ ys) \<subseteq> dom st"
    and tl: "q_tail q = last_or ys (last_or xs 0)"
    unfolding qrep_def by (auto simp: last_or_append)
  define l where "l = last_or xs 0"
  have last: "l = last xs \<and> l \<in> set xs \<and> l \<noteq> 0 \<and> l \<noteq> n \<and> n \<noteq> l" if "xs \<noteq> []"
    using that nz n last_in_set [OF that] unfolding l_def by (metis UnCI last_or_last set_append)
  have first: "pos = hd ys \<and> pos \<in> set ys \<and> pos \<noteq> 0 \<and> pos \<noteq> n \<and> n \<noteq> pos \<and> pos \<noteq> l \<and> l \<noteq> pos"
    if "ys \<noteq> []"
  proof -
    have "pos = hd ys \<and> pos \<in> set ys" using that pos by simp
    moreover have "l = 0 \<or> l \<in> set xs" by (cases "xs = []") (auto simp: l_def)
    ultimately show ?thesis using nz n dist by auto
  qed
  obtain pn where pn: "ys \<noteq> [] \<Longrightarrow> st pos = Some pn \<and> q_prev pn = l"
  proof (cases ys)
    case (Cons y zs)
    with seg dom have "prv st y = l" "y \<in> dom st"
      by (auto simp: dseg_append l_def)
    with Cons pos that show thesis by (auto simp: prv_def split: option.splits)
  qed (use that in auto)
  obtain ln where ln: "xs \<noteq> [] \<Longrightarrow> st l = Some ln"
    using last dom by (cases "xs = []") auto
  define stB where "stB = (if ys = [] then st(n \<mapsto> \<lparr>q_data = e, q_next = pos, q_prev = l\<rparr>)
    else st(n \<mapsto> \<lparr>q_data = e, q_next = pos, q_prev = l\<rparr>, pos \<mapsto> pn\<lparr>q_prev := n\<rparr>))"
  define stC where "stC = (if xs = [] then stB else stB(l \<mapsto> ln\<lparr>q_next := n\<rparr>))"
  have tl': "ys = [] \<Longrightarrow> pos = 0 \<and> q_tail q = l" and l0: "xs = [] \<Longrightarrow> l = 0"
    using tl pos by (auto simp: l_def)
  show thesis
  proof (rule that [of stC])
    show "insertInternal n e pos (st, q) = Some (n, stC,
       q\<lparr>q_head := (if xs = [] then n else q_head q),
         q_tail := (if ys = [] then n else q_tail q), q_size := q_size q + 1\<rparr>)"
      using n(1) last first pn ln tl' l0
      by (cases "xs = []"; cases "ys = []")
        (simp_all add: insertInternal_def new_node_def stC_def stB_def Let_def)
    show "nxt stC = link_nx xs n ((nxt st)(n := pos))"
      using last first pn ln by (cases "xs = []"; cases "ys = []")
        (simp_all add: stC_def stB_def link_nx_def fun_eq_iff nxt_the)
    show "prv stC = link_pv ys n ((prv st)(n := last_or xs 0))"
      using last first pn ln unfolding l_def [symmetric] by (cases "xs = []"; cases "ys = []")
        (simp_all add: stC_def stB_def link_pv_def fun_eq_iff prv_the)
    show "dat stC = (dat st)(n := e)"
      using last first pn ln by (cases "xs = []"; cases "ys = []")
        (simp_all add: stC_def stB_def fun_eq_iff dat_the)
    show "dom stC = insert n (dom st)"
      using pn ln by (auto simp: stC_def stB_def)
    show "stC a = st a" if "a \<notin> insert n (set (xs @ ys))" for a
    proof -
      have "a \<noteq> n" "xs \<noteq> [] \<longrightarrow> a \<noteq> l" "ys \<noteq> [] \<longrightarrow> a \<noteq> pos"
        using that last first by auto
      then show ?thesis by (simp add: stC_def stB_def)
    qed
  qed
qed

lemma insertInternal_refines:
  assumes rep: "qrep (st, q) (xs @ ys)" and pos: "pos = hd_or ys 0"
    and n: "n \<noteq> 0" "n \<notin> set (xs @ ys)"
  obtains st' q' where "insertInternal n e pos (st, q) = Some (n, st', q')"
    and "qrep (st', q') (xs @ n # ys)"
    and "qlist st' (xs @ n # ys) = qlist st xs @ e # qlist st ys"
    and "\<And>a. a \<notin> insert n (set (xs @ ys)) \<Longrightarrow> st' a = st a"
    and "dom st' = insert n (dom st)"
proof -
  obtain st' where st': "insertInternal n e pos (st, q) = Some (n, st',
       q\<lparr>q_head := (if xs = [] then n else q_head q),
         q_tail := (if ys = [] then n else q_tail q), q_size := q_size q + 1\<rparr>)" (is "_ = Some (n, _, ?q)")
    and nx: "nxt st' = link_nx xs n ((nxt st)(n := pos))"
    and pv: "prv st' = link_pv ys n ((prv st)(n := last_or xs 0))"
    and dat: "dat st' = (dat st)(n := e)" and dom: "dom st' = insert n (dom st)"
    and frame: "\<And>a. a \<notin> insert n (set (xs @ ys)) \<Longrightarrow> st' a = st a"
    using insertInternal_effect [OF rep pos n] by metis
  have "dseg (nxt st') (prv st') 0 (xs @ n # ys) 0"
    unfolding nx pv pos
    by (rule dseg_link_insert) (use rep n in \<open>auto simp: qrep_def\<close>)
  then have "qrep (st', ?q) (xs @ n # ys)"
    using rep n dom by (auto simp: qrep_def hd_or_append last_or_append)
  moreover have "qlist st' (xs @ n # ys) = qlist st xs @ e # qlist st ys"
    using n by (auto simp: qlist_def dat)
  ultimately show thesis
    using that st' frame dom by blast
qed

lemma removeInternal_effect:
  assumes rep: "qrep (st, q) (xs @ n # ys)"
  obtains st' where
    "removeInternal n (st, q) = Some (st',
       q\<lparr>q_head := (if xs = [] then hd_or ys 0 else q_head q),
         q_tail := (if ys = [] then last_or xs 0 else q_tail q), q_size := q_size q - 1\<rparr>)"
    and "nxt st' = (link_nx xs (hd_or ys 0) (nxt st))(n := 0)"
    and "prv st' = (link_pv ys (last_or xs 0) (prv st))(n := 0)"
    and "\<And>a. a \<noteq> n \<Longrightarrow> dat st' a = dat st a" and "dom st' = dom st - {n}"
    and "\<And>a. a \<notin> set (xs @ n # ys) \<Longrightarrow> st' a = st a"
proof -
  from rep have seg: "dseg (nxt st) (prv st) 0 (xs @ n # ys) 0" and dist: "distinct (xs @ n # ys)"
    and nz: "0 \<notin> set (xs @ n # ys)" and dom: "set (xs @ n # ys) \<subseteq> dom st"
    and hd: "q_head q = hd_or xs n" and tl: "q_tail q = last_or ys n"
    unfolding qrep_def by (auto simp: last_or_append hd_or_append)
  define l where "l = last_or xs 0"
  define r where "r = hd_or ys 0"
  have l0: "xs = [] \<Longrightarrow> l = 0" and r0: "ys = [] \<Longrightarrow> r = 0" by (simp_all add: l_def r_def)
  have last: "l = last xs \<and> l \<in> set xs \<and> l \<noteq> 0 \<and> l \<noteq> n \<and> n \<noteq> l" if "xs \<noteq> []"
  proof -
    have "l = last xs \<and> l \<in> set xs" using that by (simp add: l_def)
    then show ?thesis using nz dist by auto
  qed
  have first: "r = hd ys \<and> r \<in> set ys \<and> r \<noteq> 0 \<and> r \<noteq> n \<and> n \<noteq> r \<and> r \<noteq> l \<and> l \<noteq> r" if "ys \<noteq> []"
  proof -
    have "r = hd ys \<and> r \<in> set ys" using that by (simp add: r_def)
    moreover have "l = 0 \<or> l \<in> set xs" by (cases "xs = []") (auto simp: l_def)
    ultimately show ?thesis using nz dist by auto
  qed
  obtain nd where nd: "st n = Some nd" "q_next nd = r" "q_prev nd = l" "n \<noteq> 0"
  proof -
    have "nxt st n = r" "prv st n = l" "n \<in> dom st"
      using dseg_middle [OF seg] dom by (auto simp: l_def r_def)
    with nz that show thesis by (auto simp: nxt_def prv_def)
  qed
  obtain ln where ln: "xs \<noteq> [] \<Longrightarrow> st l = Some ln"
    using last dom by (cases "xs = []") auto
  obtain rn where rn: "ys \<noteq> [] \<Longrightarrow> st r = Some rn"
    using first dom by (cases "ys = []") auto
  have hd': "n = q_head q \<longleftrightarrow> xs = []"
    using hd dist by (cases xs) auto
  have tl': "n = q_tail q \<longleftrightarrow> ys = []"
    using tl dist last_in_set [of ys] by (cases "ys = []") auto
  define stB where "stB = (if xs = [] then st else st(l \<mapsto> ln\<lparr>q_next := r\<rparr>))"
  define stC where "stC = (if ys = [] then stB else stB(r \<mapsto> rn\<lparr>q_prev := l\<rparr>))"
  show thesis
  proof (rule that [of "stC(n := None)"])
    show "removeInternal n (st, q) = Some (stC(n := None),
       q\<lparr>q_head := (if xs = [] then hd_or ys 0 else q_head q),
         q_tail := (if ys = [] then last_or xs 0 else q_tail q), q_size := q_size q - 1\<rparr>)"
      unfolding l_def [symmetric] r_def [symmetric]
      using last first nd ln rn l0 r0 hd' tl'
      by (cases "xs = []"; cases "ys = []")
        (simp_all add: removeInternal_def stC_def stB_def Let_def)
    show "nxt (stC(n := None)) = (link_nx xs (hd_or ys 0) (nxt st))(n := 0)"
      unfolding r_def [symmetric]
      using last first nd ln rn by (cases "xs = []"; cases "ys = []")
        (auto simp add: stC_def stB_def link_nx_def fun_eq_iff nxt_def)
    show "prv (stC(n := None)) = (link_pv ys (last_or xs 0) (prv st))(n := 0)"
      unfolding l_def [symmetric]
      using last first nd ln rn by (cases "xs = []"; cases "ys = []")
        (auto simp add: stC_def stB_def link_pv_def fun_eq_iff prv_def)
    show "dat (stC(n := None)) a = dat st a" if "a \<noteq> n" for a
      using that last first ln rn by (cases "xs = []"; cases "ys = []")
        (auto simp: stC_def stB_def dat_def)
    show "dom (stC(n := None)) = dom st - {n}"
      using ln rn by (auto simp: stC_def stB_def)
    show "(stC(n := None)) a = st a" if "a \<notin> set (xs @ n # ys)" for a
    proof -
      have "a \<noteq> n" "xs \<noteq> [] \<longrightarrow> a \<noteq> l" "ys \<noteq> [] \<longrightarrow> a \<noteq> r"
        using that last first by auto
      then show ?thesis by (simp add: stC_def stB_def)
    qed
  qed
qed

lemma removeInternal_refines:
  assumes rep: "qrep (st, q) (xs @ n # ys)"
  obtains st' q' where "removeInternal n (st, q) = Some (st', q')"
    and "qrep (st', q') (xs @ ys)"
    and "qlist st' (xs @ ys) = qlist st (xs @ ys)"
    and "\<And>a. a \<notin> set (xs @ n # ys) \<Longrightarrow> st' a = st a"
    and "dom st' = dom st - {n}"
proof -
  obtain st' where st': "removeInternal n (st, q) = Some (st',
       q\<lparr>q_head := (if xs = [] then hd_or ys 0 else q_head q),
         q_tail := (if ys = [] then last_or xs 0 else q_tail q), q_size := q_size q - 1\<rparr>)"
      (is "_ = Some (_, ?q)")
    and nx: "nxt st' = (link_nx xs (hd_or ys 0) (nxt st))(n := 0)"
    and pv: "prv st' = (link_pv ys (last_or xs 0) (prv st))(n := 0)"
    and dat: "\<And>a. a \<noteq> n \<Longrightarrow> dat st' a = dat st a" and dom: "dom st' = dom st - {n}"
    and frame: "\<And>a. a \<notin> set (xs @ n # ys) \<Longrightarrow> st' a = st a"
    using removeInternal_effect [OF rep] by metis
  have dist: "distinct (xs @ n # ys)" and seg: "dseg (nxt st) (prv st) 0 (xs @ n # ys) 0"
    using rep by (simp_all add: qrep_def)
  have "dseg (link_nx xs (hd_or ys 0) (nxt st)) (link_pv ys (last_or xs 0) (prv st)) 0 (xs @ ys) 0"
    using dseg_link_delete [OF seg] dist by simp
  then have "dseg (nxt st') (prv st') 0 (xs @ ys) 0"
    by (rule dseg_cong) (use dist in \<open>auto simp: nx pv\<close>)
  then have "qrep (st', ?q) (xs @ ys)"
    using rep dom by (auto simp: qrep_def hd_or_append last_or_append)
  moreover have "qlist st' (xs @ ys) = qlist st (xs @ ys)"
    using dist by (intro qlist_cong dat) auto
  ultimately show thesis
    using that st' frame dom by blast
qed

subsection \<open>Walking, indexing, searching\<close>

lemma walk_refines:
  assumes "dseg (nxt st) (prv st) p as 0" and "0 \<notin> set as" and "set as \<subseteq> dom st"
    and "k \<le> length as"
  shows "walk k (hd_or as 0) st = Some (hd_or (drop k as) 0)"
  using assms
proof (induction k arbitrary: as p)
  case (Suc k)
  then obtain a bs where as: "as = a # bs" by (cases as) auto
  with Suc.prems obtain nd where "st a = Some nd" "q_next nd = hd_or bs 0" "a \<noteq> 0"
    by (auto simp: nxt_def)
  with Suc.prems as Suc.IH [of a bs] show ?case by simp
qed simp

lemma qrep_walk:
  assumes "qrep (st, q) as" and "0 \<le> i" and "i < int (length as)"
  shows "walk (nat i) (q_head q) st = Some (as ! nat i)"
proof -
  have "walk (nat i) (q_head q) st = Some (hd_or (drop (nat i) as) 0)"
    using assms walk_refines [of st 0 as "nat i"] by (simp add: qrep_def)
  with assms show ?thesis by (simp add: hd_drop_conv_nth)
qed

lemma GetAt_refines:
  assumes rep: "qrep (st, q) as" and i: "0 \<le> i" "i < int (length as)"
  shows "GetAt i (st, q) = Some (qlist st as ! nat i)"
proof -
  have "as ! nat i \<in> set as" using i by simp
  then obtain nd where "st (as ! nat i) = Some nd" "as ! nat i \<noteq> 0"
    using rep unfolding qrep_def by force
  with i show ?thesis
    by (simp add: GetAt_def qrep_walk [OF rep] qlist_def dat_def)
qed

lemma RemoveAt_refines:
  assumes rep: "qrep (st, q) as" and i: "0 \<le> i" "i < int (length as)"
  obtains st' q' where "RemoveAt i (st, q) = Some (st', q')"
    and "qrep (st', q') (take (nat i) as @ drop (Suc (nat i)) as)"
    and "qlist st' (take (nat i) as @ drop (Suc (nat i)) as)
       = take (nat i) (qlist st as) @ drop (Suc (nat i)) (qlist st as)"
    and "\<And>a. a \<notin> set as \<Longrightarrow> st' a = st a"
    and "dom st' = dom st - {as ! nat i}"
proof -
  have split: "as = take (nat i) as @ as ! nat i # drop (Suc (nat i)) as"
    using i by (simp add: id_take_nth_drop)
  then have "qrep (st, q) (take (nat i) as @ as ! nat i # drop (Suc (nat i)) as)"
    using rep by simp
  from removeInternal_refines [OF this] obtain st' q' where
    "removeInternal (as ! nat i) (st, q) = Some (st', q')"
    and "qrep (st', q') (take (nat i) as @ drop (Suc (nat i)) as)"
    and data: "qlist st' (take (nat i) as @ drop (Suc (nat i)) as)
      = qlist st (take (nat i) as @ drop (Suc (nat i)) as)"
    and "\<And>a. a \<notin> set as \<Longrightarrow> st' a = st a" "dom st' = dom st - {as ! nat i}"
    using split by metis
  then show thesis
    using that by (simp add: RemoveAt_def qrep_walk [OF rep i] qlist_def take_map drop_map)
qed

text \<open>
  The list functions that \<open>IndexOf\<close> and \<open>Remove(const T&)\<close> implement. \<open>Remove\<close>
  does not step back after a removal, so the element that moves into the freed index is
  skipped: \<open>remove_skip\<close>.
\<close>

fun index_from :: "int \<Rightarrow> 'a \<Rightarrow> 'a list \<Rightarrow> int" where
  "index_from i e [] = - 1"
| "index_from i e (x # xs) = (if x = e then i else index_from (i + 1) e xs)"

fun remove_skip :: "'a \<Rightarrow> 'a list \<Rightarrow> 'a list" where
  "remove_skip e [] = []"
| "remove_skip e [x] = (if x = e then [] else [x])"
| "remove_skip e (x # y # ys) =
     (if x = e then y # remove_skip e ys else x # remove_skip e (y # ys))"

lemma index_from_notin [simp]: "e \<notin> set xs \<Longrightarrow> index_from i e xs = - 1"
  by (induction xs arbitrary: i) auto

lemma index_from_in:
  assumes "e \<in> set xs"
  shows "i \<le> index_from i e xs" and "index_from i e xs < i + int (length xs)"
    and "xs ! nat (index_from i e xs - i) = e"
proof -
  have "i \<le> index_from i e xs \<and> index_from i e xs < i + int (length xs) \<and>
    xs ! nat (index_from i e xs - i) = e"
    using assms
  proof (induction xs arbitrary: i)
    case (Cons x xs)
    show ?case
    proof (cases "x = e")
      case False
      with Cons have IH: "i + 1 \<le> index_from (i + 1) e xs"
        "index_from (i + 1) e xs < i + 1 + int (length xs)"
        "xs ! nat (index_from (i + 1) e xs - (i + 1)) = e"
        by auto
      then have "nat (index_from (i + 1) e xs - i) = Suc (nat (index_from (i + 1) e xs - (i + 1)))"
        by simp
      with IH False show ?thesis by simp
    qed simp
  qed simp
  then show "i \<le> index_from i e xs" and "index_from i e xs < i + int (length xs)"
    and "xs ! nat (index_from i e xs - i) = e"
    by auto
qed

lemma remove_skip_notin: "e \<notin> set xs \<Longrightarrow> remove_skip e xs = xs"
  by (induction e xs rule: remove_skip.induct) auto

lemma remove_skip_distinct: "distinct xs \<Longrightarrow> remove_skip e xs = remove1 e xs"
  by (induction e xs rule: remove_skip.induct) (auto simp: remove_skip_notin)

lemma IndexOf_from_refines:
  assumes rep: "qrep (st, q) as" and "0 \<le> i" "i \<le> int (length as)"
  shows "IndexOf_from i e (st, q) = Some (index_from i e (drop (nat i) (qlist st as)))"
  using assms(2,3)
proof (induction "length as - nat i" arbitrary: i rule: less_induct)
  case (less i)
  have sz: "q_size q = int (length as)" using rep by (simp add: qrep_def)
  show ?case
  proof (cases "i < int (length as)")
    case True
    have d: "drop (nat i) (qlist st as) = qlist st as ! nat i # drop (nat (i + 1)) (qlist st as)"
      using True less.prems by (simp add: Cons_nth_drop_Suc nat_add_distrib)
    show ?thesis
      using True less.prems less.hyps [of "i + 1"]
      by (subst IndexOf_from.simps) (simp add: sz GetAt_refines [OF rep] d)
  next
    case False
    then show ?thesis by (subst IndexOf_from.simps) (simp add: sz)
  qed
qed

lemma IndexOf_refines:
  "qrep (st, q) as \<Longrightarrow> IndexOf e (st, q) = Some (index_from 0 e (qlist st as))"
  using IndexOf_from_refines [of st q as 0 e] by (simp add: IndexOf_def)

lemma Remove_from_refines:
  assumes "qrep (st, q) as" and "0 \<le> i" "i \<le> int (length as)"
  shows "\<exists>st' q' as'. Remove_from i e (st, q) = Some (st', q') \<and> qrep (st', q') as' \<and>
    qlist st' as' = take (nat i) (qlist st as) @ remove_skip e (drop (nat i) (qlist st as)) \<and>
    set as' \<subseteq> set as \<and> (\<forall>a. a \<notin> set as \<longrightarrow> st' a = st a)"
  using assms
proof (induction "length as - nat i" arbitrary: st q as i rule: less_induct)
  case (less as i st q)
  note rep = less.prems(1)
  have sz: "q_size q = int (length as)" using rep by (simp add: qrep_def)
  let ?xs = "qlist st as" and ?k = "nat i"
  show ?case
  proof (cases "i < int (length as)")
    case False
    then show ?thesis using less.prems by (subst Remove_from.simps) (auto simp: sz)
  next
    case True
    with less.prems have k: "?k < length ?xs" by simp
    have unfold: "Remove_from i e (st, q) =
      (if ?xs ! ?k = e then RemoveAt i (st, q) else Some (st, q)) \<bind> Remove_from (i + 1) e"
      by (subst Remove_from.simps) (simp add: sz True GetAt_refines [OF rep less.prems(2) True])
    have d: "drop ?k ?xs = ?xs ! ?k # drop (Suc ?k) ?xs"
      using k by (simp add: Cons_nth_drop_Suc)
    show ?thesis
    proof (cases "?xs ! ?k = e")
      case False
      have "\<exists>st' q' as'. Remove_from (i + 1) e (st, q) = Some (st', q') \<and> qrep (st', q') as' \<and>
        qlist st' as' = take (nat (i + 1)) ?xs @ remove_skip e (drop (nat (i + 1)) ?xs) \<and>
        set as' \<subseteq> set as \<and> (\<forall>a. a \<notin> set as \<longrightarrow> st' a = st a)"
        using less.prems True by (intro less.hyps) auto
      moreover have "take (nat (i + 1)) ?xs @ remove_skip e (drop (nat (i + 1)) ?xs)
        = take ?k ?xs @ remove_skip e (drop ?k ?xs)"
      proof -
        have "nat (i + 1) = Suc ?k" using less.prems(2) by simp
        then have "take (nat (i + 1)) ?xs @ remove_skip e (drop (nat (i + 1)) ?xs)
          = (take ?k ?xs @ [?xs ! ?k]) @ remove_skip e (drop (Suc ?k) ?xs)"
          by (simp only: take_Suc_conv_app_nth [OF k])
        then show ?thesis using False d by (cases "drop (Suc ?k) ?xs") simp_all
      qed
      ultimately show ?thesis using unfold False by simp
    next
      case hit: True
      obtain st1 q1 where r: "RemoveAt i (st, q) = Some (st1, q1)"
        and rep1: "qrep (st1, q1) (take ?k as @ drop (Suc ?k) as)"
        and data1: "qlist st1 (take ?k as @ drop (Suc ?k) as) = take ?k ?xs @ drop (Suc ?k) ?xs"
        and frame1: "\<And>a. a \<notin> set as \<Longrightarrow> st1 a = st a"
        using RemoveAt_refines [OF rep less.prems(2) True] by metis
      let ?as1 = "take ?k as @ drop (Suc ?k) as"
      have sub: "set ?as1 \<subseteq> set as" using set_take_subset set_drop_subset by fastforce
      have len1: "length ?as1 = length as - 1" using k by simp
      show ?thesis
      proof (cases "drop (Suc ?k) ?xs")
        case Nil
        then have "int (length ?as1) \<le> i" using k less.prems(2) by simp
        then have "Remove_from (i + 1) e (st1, q1) = Some (st1, q1)"
          using rep1 by (subst Remove_from.simps) (simp add: qrep_def)
        moreover have "remove_skip e (drop ?k ?xs) = []" using d hit Nil by simp
        ultimately show ?thesis
          using unfold hit r rep1 data1 frame1 sub Nil by auto
      next
        case (Cons y zs)
        then have bound: "i + 1 \<le> int (length ?as1)"
          using len1 less.prems(2) by (cases "Suc ?k < length ?xs") auto
        have "\<exists>st' q' as'. Remove_from (i + 1) e (st1, q1) = Some (st', q') \<and> qrep (st', q') as' \<and>
          qlist st' as' = take (nat (i + 1)) (qlist st1 ?as1) @
            remove_skip e (drop (nat (i + 1)) (qlist st1 ?as1)) \<and>
          set as' \<subseteq> set ?as1 \<and> (\<forall>a. a \<notin> set ?as1 \<longrightarrow> st' a = st1 a)"
          using rep1 less.prems(2) bound len1 k by (intro less.hyps) auto
        then obtain st' q' as' where run: "Remove_from (i + 1) e (st1, q1) = Some (st', q')"
          and rep': "qrep (st', q') as'"
          and data0: "qlist st' as' = take (nat (i + 1)) (qlist st1 ?as1) @
            remove_skip e (drop (nat (i + 1)) (qlist st1 ?as1))"
          and sub': "set as' \<subseteq> set ?as1" and frame: "\<forall>a. a \<notin> set ?as1 \<longrightarrow> st' a = st1 a"
          by blast
        have "take (nat (i + 1)) (qlist st1 ?as1) = take ?k ?xs @ [y]"
          "drop (nat (i + 1)) (qlist st1 ?as1) = zs"
          unfolding data1 Cons using k less.prems(2) by (simp_all add: nat_add_distrib)
        moreover have "remove_skip e (drop ?k ?xs) = y # remove_skip e zs"
          unfolding d Cons using hit by simp
        ultimately have data': "qlist st' as' = take ?k ?xs @ remove_skip e (drop ?k ?xs)"
          unfolding data0 by simp
        have "Remove_from i e (st, q) = Some (st', q')"
          using unfold hit r run by simp
        moreover have "\<forall>a. a \<notin> set as \<longrightarrow> st' a = st a"
          using frame frame1 contra_subsetD [OF sub] by simp
        moreover have "set as' \<subseteq> set as"
          using sub' sub by (rule order.trans)
        ultimately show ?thesis
          using rep' data' by (intro exI conjI)
      qed
    qed
  qed
qed

lemma Remove_refines_list:
  assumes "qrep (st, q) as"
  obtains st' q' as' where "Remove e (st, q) = Some (st', q')" and "qrep (st', q') as'"
    and "qlist st' as' = remove_skip e (qlist st as)"
    and "set as' \<subseteq> set as" and "\<And>a. a \<notin> set as \<Longrightarrow> st' a = st a"
  using Remove_from_refines [OF assms, of 0 e] by (auto simp: Remove_def)

text \<open>The node that holds an element, and what inserting and removing do to the set of nodes.\<close>

definition node_of :: "'a \<Rightarrow> 'a qstate \<Rightarrow> u32 option" where
  "node_of e s = do { i \<leftarrow> IndexOf e s; walk (nat i) (q_head (snd s)) (fst s) }"

lemma Remove_from_absent:
  assumes "qrep (st, q) as" and "e \<notin> set (qlist st as)" and "0 \<le> i"
  shows "Remove_from i e (st, q) = Some (st, q)"
  using assms(3)
proof (induction "nat (int (length as) - i)" arbitrary: i rule: less_induct)
  case less
  have sz: "q_size q = int (length as)" using assms(1) by (simp add: qrep_def)
  show ?case
  proof (cases "i < int (length as)")
    case True
    have "qlist st as ! nat i \<noteq> e" using assms(2) True less.prems by (metis length_qlist nat_less_iff nth_mem)
    then show ?thesis
      using True less by (subst Remove_from.simps) (simp add: sz GetAt_refines [OF assms(1) less.prems True])
  qed (simp add: Remove_from.simps [of i] sz)
qed

lemma Remove_from_distinct:
  assumes rep: "qrep (st, q) as" and dist: "distinct (qlist st as)" and j: "0 \<le> j" "j < int (length as)" "qlist st as ! nat j = e"
    and "0 \<le> i" "i \<le> j"
  shows "Remove_from i e (st, q) = RemoveAt j (st, q)"
  using assms(6,7)
proof (induction "nat (j - i)" arbitrary: i rule: less_induct)
  case less
  have sz: "q_size q = int (length as)" and i: "i < int (length as)" using rep less.prems j(2) by (simp_all add: qrep_def)
  note get = GetAt_refines [OF rep less.prems(1) i]
  show ?case
  proof (cases "i = j")
    case True
    obtain st' q' where r: "RemoveAt j (st, q) = Some (st', q')" "qrep (st', q') (take (nat j) as @ drop (Suc (nat j)) as)"
      "qlist st' (take (nat j) as @ drop (Suc (nat j)) as) = take (nat j) (qlist st as) @ drop (Suc (nat j)) (qlist st as)"
      by (rule RemoveAt_refines [OF rep j(1,2)])
    have "qlist st as = take (nat j) (qlist st as) @ e # drop (Suc (nat j)) (qlist st as)"
      using j id_take_nth_drop [of "nat j" "qlist st as"] by simp
    then have "e \<notin> set (take (nat j) (qlist st as) @ drop (Suc (nat j)) (qlist st as))" using dist
      by (metis distinct.simps(2) distinct_append disjoint_insert(1) list.set(2) set_append UnE)
    then have "Remove_from (j + 1) e (st', q') = Some (st', q')" using j(1)
      by (intro Remove_from_absent [OF r(2), unfolded r(3)]) simp_all
    then show ?thesis using i j(3) get r(1) True by (subst Remove_from.simps) (simp add: sz)
  next
    case False
    have "qlist st as ! nat i \<noteq> qlist st as ! nat j"
      using dist i j False less.prems by (subst nth_eq_iff_index_eq) auto
    then show ?thesis using less i j(3) get False by (subst Remove_from.simps) (simp add: sz)
  qed
qed

lemma Remove_node:
  assumes "qrep (st, q) as" and "distinct (qlist st as)" and "e \<in> set (qlist st as)"
  obtains n st' q' where "node_of e (st, q) = Some n" and "n \<in> dom st" and "Remove e (st, q) = Some (st', q')"
    and "dom st' = dom st - {n}"
proof -
  let ?j = "index_from 0 e (qlist st as)"
  have j: "0 \<le> ?j" "?j < int (length as)" "qlist st as ! nat ?j = e"
    using index_from_in [OF assms(3), of 0] by simp_all
  obtain st' q' where r: "RemoveAt ?j (st, q) = Some (st', q')" "dom st' = dom st - {as ! nat ?j}"
    by (rule RemoveAt_refines [OF assms(1) j(1,2)])
  have "Remove e (st, q) = Some (st', q')"
    using Remove_from_distinct [OF assms(1,2) j order.refl j(1)] r(1) by (simp add: Remove_def)
  moreover have "node_of e (st, q) = Some (as ! nat ?j)"
    using qrep_walk [OF assms(1) j(1,2)] by (simp add: node_of_def IndexOf_refines [OF assms(1)])
  moreover have "as ! nat ?j \<in> dom st" using assms(1) j(1,2) unfolding qrep_def fst_conv by (metis nat_less_iff nth_mem subsetD)
  ultimately show thesis using that r(2) by blast
qed

lemma Clear_from_refines:
  assumes "dseg (nxt st) (prv st) p as 0" and "distinct as" and "0 \<notin> set as" and "set as \<subseteq> dom st"
  shows "Clear_from (hd_or as 0) st = Some (st |` (- set as))"
  using assms
proof (induction as arbitrary: st p)
  case Nil
  have "st |` UNIV = st" by (simp add: restrict_map_def)
  then show ?case by (subst Clear_from.simps) simp
next
  case (Cons a as)
  then obtain nd where nd: "st a = Some nd" "q_next nd = hd_or as 0" "a \<noteq> 0"
    by (auto simp: nxt_def)
  have "dseg (nxt (st(a := None))) (prv (st(a := None))) a as 0"
  proof (rule dseg_cong)
    show "dseg (nxt st) (prv st) a as 0" using Cons.prems(1) by simp
  qed (use Cons.prems(2) in \<open>auto simp: nxt_def prv_def\<close>)
  then have "Clear_from (hd_or as 0) (st(a := None)) = Some ((st(a := None)) |` (- set as))"
    by (rule Cons.IH) (use Cons.prems in auto)
  moreover have "(st(a := None)) |` (- set as) = st |` (- set (a # as))"
    by (auto simp: restrict_map_def fun_eq_iff)
  ultimately show ?case
    using nd by (subst Clear_from.simps) simp
qed

subsection \<open>The interface the scheduler and the process table use\<close>

text \<open>
  \<open>rel s xs\<close>: the queue \<open>s\<close> holds the elements \<open>xs\<close>. The clients only need
  these five laws; what they derive from them is proved once, here.
\<close>

locale element_queue =
  fixes rel :: "'s \<Rightarrow> 'b list \<Rightarrow> bool"
    and fresh :: "'n \<Rightarrow> 's \<Rightarrow> bool"
    and push :: "'n \<Rightarrow> 'b \<Rightarrow> 's \<Rightarrow> 's option"
    and get :: "int \<Rightarrow> 's \<Rightarrow> 'b option"
    and index :: "'b \<Rightarrow> 's \<Rightarrow> int option"
    and remove :: "'b \<Rightarrow> 's \<Rightarrow> 's option"
    and len :: "'s \<Rightarrow> int"
  assumes push_law: "rel s xs \<Longrightarrow> fresh n s \<Longrightarrow> \<exists>s'. push n e s = Some s' \<and> rel s' (xs @ [e])"
    and get_law: "rel s xs \<Longrightarrow> 0 \<le> i \<Longrightarrow> i < int (length xs) \<Longrightarrow> get i s = Some (xs ! nat i)"
    and index_law: "rel s xs \<Longrightarrow> index e s = Some (index_from 0 e xs)"
    and remove_law: "rel s xs \<Longrightarrow> \<exists>s'. remove e s = Some s' \<and> rel s' (remove_skip e xs)"
    and len_law: "rel s xs \<Longrightarrow> len s = int (length xs)"
begin

lemma index_member:
  assumes "rel s xs" and "e \<in> set xs"
  obtains i where "index e s = Some i" and "0 \<le> i" and "i < len s" and "get i s = Some e"
proof -
  let ?i = "index_from 0 e xs"
  have "0 \<le> ?i" "?i < int (length xs)" "xs ! nat ?i = e"
    using index_from_in [OF assms(2), of 0] by simp_all
  with that [of ?i] assms(1) show thesis
    by (simp add: index_law get_law len_law)
qed

lemma index_missing: "rel s xs \<Longrightarrow> e \<notin> set xs \<Longrightarrow> index e s = Some (- 1)"
  by (simp add: index_law)

lemma remove_distinct:
  "rel s xs \<Longrightarrow> distinct xs \<Longrightarrow> \<exists>s'. remove e s = Some s' \<and> rel s' (remove1 e xs)"
  using remove_law [of s xs e] by (simp add: remove_skip_distinct)

lemma remove_then_missing:
  assumes "rel s xs" and "distinct xs"
  obtains s' where "remove e s = Some s'" and "rel s' (remove1 e xs)" and "index e s' = Some (- 1)"
  using remove_distinct [OF assms, of e] assms(2) by (auto simp: index_law)

lemma push_get:
  assumes "rel s xs" and "fresh n s"
  obtains s' where "push n e s = Some s'" and "rel s' (xs @ [e])" and "get (len s) s' = Some e"
  using push_law [OF assms, of e] get_law [of _ "xs @ [e]" "len s"] assms(1)
  by (auto simp: len_law)

end

definition queue_holds :: "'a qstate \<Rightarrow> 'a list \<Rightarrow> bool" where
  "queue_holds s xs \<longleftrightarrow> (\<exists>as. qrep s as \<and> qlist (fst s) as = xs)"

definition fresh_node :: "u32 \<Rightarrow> 'a qstate \<Rightarrow> bool" where
  "fresh_node n s \<longleftrightarrow> n \<noteq> 0 \<and> n \<notin> dom (fst s)"

lemma queue_holds_push:
  assumes "queue_holds s xs" and "fresh_node n s"
  obtains st q where "push_back n e s = Some (st, q)" and "queue_holds (st, q) (xs @ [e])" and "dom st = insert n (dom (fst s))"
    and "e \<notin> set xs \<Longrightarrow> node_of e (st, q) = Some n"
proof -
  obtain as where as: "qrep (fst s, snd s) (as @ [])" "qlist (fst s) as = xs" "n \<noteq> 0" "n \<notin> set as"
    using assms by (auto simp: queue_holds_def fresh_node_def qrep_def)
  obtain st' q' where "insertInternal n e 0 (fst s, snd s) = Some (n, st', q')"
    and "qrep (st', q') (as @ [n])" and "qlist st' (as @ [n]) = qlist (fst s) as @ [e]" and "dom st' = insert n (dom (fst s))"
    by (rule insertInternal_refines [OF as(1), of 0 n e]) (use as in auto)
  note r = this
  have "queue_holds (st', q') (xs @ [e])"
    unfolding queue_holds_def using r(2,3) as(2) by (intro exI [of _ "as @ [n]"]) simp
  moreover have "push_back n e s = Some (st', q')" using r(1) by (simp add: push_back_def)
  moreover have "node_of e (st', q') = Some n" if "e \<notin> set xs"
  proof -
    have l: "qlist st' (as @ [n]) = xs @ [e]" using r(3) as(2) by simp
    have "index_from i e (xs @ [e]) = i + int (length xs)" for i using that by (induction xs arbitrary: i) auto
    then have "IndexOf e (st', q') = Some (int (length as))"
      using IndexOf_refines [OF r(2), of e] l arg_cong [OF as(2), of length] by simp
    then show ?thesis using qrep_walk [OF r(2), of "int (length as)"] by (simp add: node_of_def)
  qed
  ultimately show thesis using that r(4) by blast
qed

lemma queue_holds_remove:
  assumes "queue_holds s xs" and "distinct xs" and "e \<in> set xs"
  obtains n st q where "node_of e s = Some n" and "n \<in> dom (fst s)" and "Remove e s = Some (st, q)" and "dom st = dom (fst s) - {n}"
proof -
  obtain as where as: "qrep (fst s, snd s) as" "qlist (fst s) as = xs" using assms(1) by (auto simp: queue_holds_def)
  from Remove_node [OF as(1), of e] assms(2,3) as(2) that show thesis by (metis prod.collapse)
qed

interpretation lq: element_queue queue_holds fresh_node push_back GetAt IndexOf Remove
  "\<lambda>s. q_size (snd s)"
proof unfold_locales
  fix s :: "'a qstate" and xs n e
  assume "queue_holds s xs" "fresh_node n s"
  from queue_holds_push [OF this, of e] show "\<exists>s'. push_back n e s = Some s' \<and> queue_holds s' (xs @ [e])" by blast
next
  fix s :: "'a qstate" and xs i
  assume "queue_holds s xs" "0 \<le> i" "i < int (length xs)"
  then show "GetAt i s = Some (xs ! nat i)"
    using GetAt_refines [of "fst s" "snd s"] by (auto simp: queue_holds_def)
next
  fix s :: "'a qstate" and xs e
  assume "queue_holds s xs"
  then show "IndexOf e s = Some (index_from 0 e xs)"
    using IndexOf_refines [of "fst s" "snd s"] by (auto simp: queue_holds_def)
next
  fix s :: "'a qstate" and xs e
  assume "queue_holds s xs"
  then show "\<exists>s'. Remove e s = Some s' \<and> queue_holds s' (remove_skip e xs)"
    using Remove_refines_list [of "fst s" "snd s" _ e] by (fastforce simp: queue_holds_def)
next
  fix s :: "'a qstate" and xs
  assume "queue_holds s xs"
  then show "q_size (snd s) = int (length xs)"
    by (auto simp: queue_holds_def qrep_def)
qed

subsection \<open>Properties\<close>

text \<open>
  C15. Pushing an element at the back of a well-formed queue, with any fresh node address,
  succeeds, appends the element, keeps the queue well formed and leaves every node
  outside the queue (the nodes of other queues in the same store) as it was.
\<close>

theorem push_back_appends:
  assumes "qrep (st, q) as" and "n \<noteq> 0" and "n \<notin> dom st"
  shows "\<exists>st' q'. push_back n e (st, q) = Some (st', q') \<and> qrep (st', q') (as @ [n]) \<and>
    qlist st' (as @ [n]) = qlist st as @ [e] \<and> (\<forall>a. a \<notin> insert n (set as) \<longrightarrow> st' a = st a)"
proof -
  have "n \<notin> set (as @ [])" using assms by (auto simp: qrep_def)
  then obtain st' q' where "insertInternal n e 0 (st, q) = Some (n, st', q')"
    "qrep (st', q') (as @ [n])" "qlist st' (as @ [n]) = qlist st as @ e # qlist st []"
    "\<And>a. a \<notin> insert n (set (as @ [])) \<Longrightarrow> st' a = st a"
    by (rule insertInternal_refines [of st q as "[]" 0 n e, rotated 3]) (use assms in auto)
  then show ?thesis by (auto simp: push_back_def)
qed

text \<open>A one-element queue at addresses that the heap could have returned.\<close>

definition wit_nodes :: "nat nodes" where
  "wit_nodes = [0xC0400014 \<mapsto> \<lparr>q_data = 7, q_next = 0, q_prev = 0\<rparr>]"

definition wit_queue :: queue where
  "wit_queue = \<lparr>q_head = 0xC0400014, q_tail = 0xC0400014, q_size = 1\<rparr>"

lemma wit_qrep: "qrep (wit_nodes, wit_queue) [0xC0400014]"
  by (simp add: qrep_def wit_nodes_def wit_queue_def nxt_def prv_def)

lemma wit_holds: "queue_holds (wit_nodes, wit_queue) [7]"
  unfolding queue_holds_def
  by (intro exI [of _ "[0xC0400014]"] conjI wit_qrep) (simp add: wit_nodes_def dat_def)

theorem push_back_appends_witness:
  "\<exists>st' q'. push_back 0xC0400034 8 (wit_nodes, wit_queue) = Some (st', q') \<and>
    qlist st' [0xC0400014, 0xC0400034] = [7, 8]"
  using push_back_appends [OF wit_qrep, of "0xC0400034" 8]
  by (auto simp: wit_nodes_def dat_def)

text \<open>
  C37. Removing by value from a queue without duplicates takes out the node that holds the value and no other: the
  remaining nodes form a well-formed queue with their elements in order, the removed node alone is deleted from the
  store, nodes of other queues stay as they are, and \<open>IndexOf\<close> no longer finds the value. A value
  that is not in the queue changes nothing.
\<close>

theorem Remove_removes:
  assumes "qrep (st, q) as" and "distinct (qlist st as)"
  shows "if e \<in> set (qlist st as)
    then \<exists>xs n ys st' q'. as = xs @ n # ys \<and> dat st n = e \<and> Remove e (st, q) = Some (st', q') \<and>
      qrep (st', q') (xs @ ys) \<and> qlist st' (xs @ ys) = remove1 e (qlist st as) \<and> dom st' = dom st - {n} \<and>
      (\<forall>a. a \<notin> set as \<longrightarrow> st' a = st a) \<and> IndexOf e (st', q') = Some (- 1)
    else Remove e (st, q) = Some (st, q)"
proof (cases "e \<in> set (qlist st as)")
  case True
  define j where "j = index_from 0 e (qlist st as)"
  have j: "0 \<le> j" "j < int (length as)" "qlist st as ! nat j = e"
    using index_from_in [OF True, of 0] by (simp_all add: j_def)
  let ?xs = "take (nat j) as" and ?ys = "drop (Suc (nat j)) as" and ?n = "as ! nat j"
  have as: "as = ?xs @ ?n # ?ys" using j by (intro id_take_nth_drop) simp
  then have rep: "qrep (st, q) (?xs @ ?n # ?ys)" using assms(1) by simp
  have n: "dat st ?n = e" using j by (simp add: qlist_def nat_less_iff)
  have l: "qlist st as = qlist st ?xs @ e # qlist st ?ys" using n by (subst (1) as) simp
  then have e: "e \<notin> set (qlist st (?xs @ ?ys))" and r1: "remove1 e (qlist st as) = qlist st (?xs @ ?ys)"
    using assms(2) by (simp_all add: l remove1_append)
  obtain st' q' where r: "removeInternal ?n (st, q) = Some (st', q')" "qrep (st', q') (?xs @ ?ys)"
    "qlist st' (?xs @ ?ys) = qlist st (?xs @ ?ys)" "\<And>a. a \<notin> set (?xs @ ?n # ?ys) \<Longrightarrow> st' a = st a" "dom st' = dom st - {?n}"
    by (rule removeInternal_refines [OF rep]) blast
  have "Remove e (st, q) = RemoveAt j (st, q)"
    using Remove_from_distinct [OF assms j order.refl j(1)] by (simp add: Remove_def)
  moreover have "RemoveAt j (st, q) = Some (st', q')"
    using qrep_walk [OF assms(1) j(1,2)] r(1) by (simp add: RemoveAt_def)
  moreover have "IndexOf e (st', q') = Some (- 1)" using IndexOf_refines [OF r(2)] r(3) e by simp
  moreover have "qlist st' (?xs @ ?ys) = remove1 e (qlist st as)" by (simp only: r(3) r1)
  ultimately show ?thesis using True as n r(2,4,5) by (simp only: if_True) (intro exI conjI; simp)
qed (use Remove_from_absent [OF assms(1)] in \<open>simp add: Remove_def\<close>)

theorem Remove_removes_witness:
  "\<exists>q'. Remove 7 (wit_nodes, wit_queue) = Some (Map.empty, q') \<and> qrep (Map.empty :: nat nodes, q') [] \<and>
     Remove 8 (wit_nodes, wit_queue) = Some (wit_nodes, wit_queue)"
proof -
  have l: "qlist wit_nodes [0xC0400014] = [7]" by (simp add: qlist_def wit_nodes_def dat_def)
  then have d: "distinct (qlist wit_nodes [0xC0400014])" by simp
  obtain xs n ys st' q' where r: "[0xC0400014] = xs @ n # ys" "Remove 7 (wit_nodes, wit_queue) = Some (st', q')"
    "qrep (st', q') (xs @ ys)" "dom st' = dom wit_nodes - {n}"
    using Remove_removes [OF wit_qrep d, of 7, unfolded l] by auto
  have "xs = []" "ys = []" "n = 0xC0400014" using r(1) by (auto simp: Cons_eq_append_conv)
  with r have "st' = Map.empty" by (simp add: wit_nodes_def)
  moreover have "Remove 8 (wit_nodes, wit_queue) = Some (wit_nodes, wit_queue)"
    using Remove_removes [OF wit_qrep d, of 8, unfolded l] by simp
  ultimately show ?thesis using r \<open>xs = []\<close> \<open>ys = []\<close> by auto
qed

text \<open>
  \<open>Remove(const T&)\<close> counts on after a removal, so of two adjacent equal elements
  it removes only the first.
\<close>

lemma Remove_keeps_adjacent_duplicate:
  assumes "queue_holds s (xs @ [e, e])" and "e \<notin> set xs"
  shows "\<exists>s'. Remove e s = Some s' \<and> queue_holds s' (xs @ [e])"
proof -
  have "remove_skip e (xs @ [e, e]) = xs @ [e]"
    using assms(2) by (induction e xs rule: remove_skip.induct) auto
  with lq.remove_law [OF assms(1), of e] show ?thesis by simp
qed

theorem Remove_keeps_adjacent_duplicate_witness:
  "\<exists>s s'. push_back 0xC0400034 7 (wit_nodes, wit_queue) = Some s \<and> Remove 7 s = Some s' \<and>
    queue_holds s' [7]"
proof -
  have "fresh_node 0xC0400034 (wit_nodes, wit_queue)"
    by (simp add: fresh_node_def wit_nodes_def)
  from lq.push_law [OF wit_holds this, of 7] obtain s
    where s: "push_back 0xC0400034 7 (wit_nodes, wit_queue) = Some s" "queue_holds s ([] @ [7, 7])"
    by auto
  from Remove_keeps_adjacent_duplicate [OF s(2)] s(1) show ?thesis by auto
qed

text \<open>
  \<open>IndexOf\<close> finds every element of the queue, at an index inside the queue at
  which \<open>GetAt\<close> returns it, and returns -1 for every other value.
\<close>

lemma IndexOf_GetAt:
  assumes "queue_holds s xs"
  shows "if e \<in> set xs
    then \<exists>i. IndexOf e s = Some i \<and> 0 \<le> i \<and> i < q_size (snd s) \<and> GetAt i s = Some e
    else IndexOf e s = Some (- 1)"
  using lq.index_member [OF assms, of e] lq.index_missing [OF assms, of e] by auto

theorem IndexOf_GetAt_witness:
  "(\<exists>i. IndexOf 7 (wit_nodes, wit_queue) = Some i \<and> GetAt i (wit_nodes, wit_queue) = Some 7) \<and>
   IndexOf 8 (wit_nodes, wit_queue) = Some (- 1)"
  using IndexOf_GetAt [OF wit_holds, of 7] IndexOf_GetAt [OF wit_holds, of 8] by auto

text \<open>
  \<open>Clear\<close> terminates on a well-formed queue, deletes exactly its nodes and leaves
  an empty well-formed queue.
\<close>

lemma Clear_empties:
  assumes "qrep (st, q) as"
  shows "Clear (st, q) = Some (st |` (- set as), queue_init) \<and>
    qrep (st |` (- set as), queue_init) []"
  using assms Clear_from_refines [of st 0 as]
  by (auto simp: Clear_def qrep_def queue_init_def)

theorem Clear_empties_witness:
  "Clear (wit_nodes, wit_queue) = Some (Map.empty, queue_init)"
  using Clear_empties [OF wit_qrep] by (simp add: wit_nodes_def)

end
