(* ===== verification/OS_Process.thy ===== *)
theory OS_Process
  imports OS_Queue OS_Virtmem OS_Tables
begin

text \<open>
  Processes and threads: src/src/arch/x86/scheduler/thread.h, thread.cpp, process.h and
  process.cpp.

  \<^item> \<open>Thread\<close> and \<open>Process\<close> are the two structures, \<open>ThreadState\<close>, \<open>BlockedState\<close> and
    \<open>ProcessState\<close> the enumerations. Objects live in stores from addresses to records; the
    addresses that \<open>new\<close> and \<open>Heap::malloc\<close> return are parameters of the creating functions.
    A thread's saved registers are words of main memory at \<open>regsPtr\<close>, in the order of
    \<open>registers_t\<close>.
  \<^item> The operations are \<open>memset\<close>, \<open>memcpy\<close> (byte loops over main memory),
    \<open>CreateKernelProcess\<close>, \<open>CreateFromFunction\<close> and \<open>RemoveThread\<close>. \<open>Create\<close>, which prints
    a message and stops, is in \<open>OS_Kernel\<close>, with the console.
\<close>

unbundle bit_operations_syntax

section \<open>Data\<close>

datatype ThreadState = Blocked | Ready | Stopped | Started

datatype BlockedState = Unknown | SleepMS | ReceiveIPC

datatype ProcessState = Active

record Thread =
  parent :: u32
  stack :: u32
  userStack :: u32
  userStackSize :: u32
  state :: ThreadState
  blockedState :: BlockedState
  regsPtr :: u32
  timeDelta :: u32

record Process =
  pid :: int
  syscallID :: int
  isUserspace :: bool
  args :: u32
  pstate :: ProcessState
  pthreads :: queue
  pageDirPhys :: u32
  memBase :: u32
  memSize :: u32
  heapStart :: u32
  heapEnd :: u32
  filename :: string

definition THREAD_STACK_SIZE :: u32 where "THREAD_STACK_SIZE = 1024 * 4"
definition SEG_USER_DATA :: u32 where "SEG_USER_DATA = 0x23"
definition SEG_USER_CODE :: u32 where "SEG_USER_CODE = 0x1B"
definition SEG_KERNEL_DATA :: u32 where "SEG_KERNEL_DATA = 0x10"
definition SEG_KERNEL_CODE :: u32 where "SEG_KERNEL_CODE = 8"
definition USER_STACK_SIZE :: u32 where "USER_STACK_SIZE = 32 * 1024"
definition USER_STACK :: u32 where "USER_STACK = KERNEL_VIRTUAL_OFFSET - USER_STACK_SIZE"

text \<open>The enumerators are ordered as they are declared.\<close>

fun state_code :: "ThreadState \<Rightarrow> nat" where
  "state_code Blocked = 0"
| "state_code Ready = 1"
| "state_code Stopped = 2"
| "state_code Started = 3"

instantiation ThreadState :: linorder
begin

definition less_eq_ThreadState :: "ThreadState \<Rightarrow> ThreadState \<Rightarrow> bool" where
  "less_eq_ThreadState a b \<longleftrightarrow> state_code a \<le> state_code b"

definition less_ThreadState :: "ThreadState \<Rightarrow> ThreadState \<Rightarrow> bool" where
  "less_ThreadState a b \<longleftrightarrow> state_code a < state_code b"

instance
proof
  fix a b c :: ThreadState
  show "a < b \<longleftrightarrow> a \<le> b \<and> \<not> b \<le> a" by (auto simp: less_eq_ThreadState_def less_ThreadState_def)
  show "a \<le> a" by (simp add: less_eq_ThreadState_def)
  show "a \<le> b \<Longrightarrow> b \<le> c \<Longrightarrow> a \<le> c" by (simp add: less_eq_ThreadState_def)
  show "a \<le> b \<Longrightarrow> b \<le> a \<Longrightarrow> a = b"
    by (cases a; cases b; simp add: less_eq_ThreadState_def)
  show "a \<le> b \<or> b \<le> a" by (auto simp: less_eq_ThreadState_def)
qed

end

section \<open>Copying and filling memory\<close>

function memset_from :: "u32 \<Rightarrow> u32 \<Rightarrow> u32 \<Rightarrow> u32 \<Rightarrow> memory \<Rightarrow> memory" where
  "memset_from i buf v sz m =
     (if i < sz then memset_from (i + 1) buf v sz (wr_byte (buf + i) v m) else m)"
  by pat_completeness auto
termination by (relation "measure (\<lambda>(i, buf, v, sz, m). unat sz - unat i)")
  (auto simp: unat_succ word_less_nat_alt)

definition memset :: "u32 \<Rightarrow> u32 \<Rightarrow> u32 \<Rightarrow> memory \<Rightarrow> memory" where
  "memset buf v sz m = memset_from 0 buf v sz m"

function memcpy_from :: "u32 \<Rightarrow> u32 \<Rightarrow> u32 \<Rightarrow> u32 \<Rightarrow> memory \<Rightarrow> memory" where
  "memcpy_from i dst src sz m =
     (if i < sz then memcpy_from (i + 1) dst src sz (wr_byte (dst + i) (rd_byte m (src + i)) m) else m)"
  by pat_completeness auto
termination by (relation "measure (\<lambda>(i, dst, src, sz, m). unat sz - unat i)")
  (auto simp: unat_succ word_less_nat_alt)

definition memcpy :: "u32 \<Rightarrow> u32 \<Rightarrow> u32 \<Rightarrow> memory \<Rightarrow> memory" where
  "memcpy dst src sz m = memcpy_from 0 dst src sz m"

declare memset_from.simps [simp del] memcpy_from.simps [simp del]

section \<open>Creating and removing\<close>

text \<open>The thread and process stores, the queue nodes and the memory they share.\<close>

record kstate =
  nodes :: "u32 nodes"
  threads :: "u32 \<rightharpoonup> Thread"
  procs :: "u32 \<rightharpoonup> Process"
  mem :: memory
  currentPID :: int
  processes :: queue

definition zero_Process :: Process where
  "zero_Process = \<lparr>pid = 0, syscallID = 0, isUserspace = False, args = 0, pstate = Active,
     pthreads = queue_init, pageDirPhys = 0, memBase = 0, memSize = 0, heapStart = 0, heapEnd = 0,
     filename = replicate 32 (CHR 0x00)\<rparr>"

text \<open>\<open>memcpy(proc->filename, s, 15)\<close>: the string and its terminator over the first bytes.\<close>

definition copy_name :: "string \<Rightarrow> string \<Rightarrow> string" where
  "copy_name s old = s @ CHR 0x00 # drop (Suc (length s)) old"

definition CreateKernelProcess :: "u32 \<Rightarrow> u32 \<Rightarrow> u32 \<Rightarrow> kstate \<Rightarrow> (u32 \<times> kstate) option" where
  "CreateKernelProcess boot_pt proc node s =
     (let p = zero_Process;
          p = p\<lparr>filename := copy_name ''Kernel Process'' (filename p)\<rparr>;
          p = p\<lparr>pid := currentPID s\<rparr>;
          s = s\<lparr>currentPID := currentPID s + 1\<rparr>;
          p = p\<lparr>pageDirPhys := virt2phys boot_pt\<rparr>;
          p = p\<lparr>pstate := Active\<rparr>;
          p = p\<lparr>syscallID := 1\<rparr>;
          p = p\<lparr>heapStart := KERNEL_HEAP_START\<rparr>;
          p = p\<lparr>heapEnd := KERNEL_HEAP_SIZE\<rparr>;
          s = s\<lparr>procs := (procs s)(proc \<mapsto> p)\<rparr>
      in do {
        (ns, q) \<leftarrow> push_back node proc (nodes s, processes s);
        Some (proc, s\<lparr>nodes := ns, processes := q\<rparr>)
      })"

definition set_reg :: "u32 \<Rightarrow> registers \<Rightarrow> u32 \<Rightarrow> memory \<Rightarrow> memory" where
  "set_reg regs r v m = m(regs + reg_offset r := v)"

definition get_reg :: "memory \<Rightarrow> u32 \<Rightarrow> registers \<Rightarrow> u32" where
  "get_reg m regs r = m (regs + reg_offset r)"

text \<open>\<open>new Thread()\<close> zeroes the object; \<open>result\<close> and \<open>stk\<close> are the two addresses obtained.\<close>

definition CreateFromFunction :: "u32 \<Rightarrow> u32 \<Rightarrow> u32 \<Rightarrow> bool \<Rightarrow> u32 \<Rightarrow>
    'a kstate_scheme \<Rightarrow> (u32 \<times> 'a kstate_scheme) option" where
  "CreateFromFunction result stk entryPoint isKernel par s = do {
     let m = memset stk 0 THREAD_STACK_SIZE (mem s);
     ustk \<leftarrow> (if par = 0 then Some USER_STACK
              else do { p \<leftarrow> procs s par; Some (USER_STACK - USER_STACK_SIZE * of_int (q_size (pthreads p))) });
     let regs = stk + THREAD_STACK_SIZE - sizeof_registers;
     let m = set_reg regs R_esp (stk + THREAD_STACK_SIZE) m;
     let m = set_reg regs R_eip entryPoint m;
     let m = set_reg regs R_cs (if isKernel then SEG_KERNEL_CODE else SEG_USER_CODE) m;
     let m = set_reg regs R_ds (if isKernel then SEG_KERNEL_DATA else SEG_USER_DATA) m;
     let m = set_reg regs R_ss (if isKernel then SEG_KERNEL_DATA else SEG_USER_DATA) m;
     let th = \<lparr>parent = par, stack = stk, userStack = ustk, userStackSize = USER_STACK_SIZE,
               state = Ready, blockedState = Unknown, regsPtr = regs, timeDelta = 0\<rparr>;
     Some (result, s\<lparr>threads := (threads s)(result \<mapsto> th), mem := m\<rparr>)
   }"

text \<open>\<open>RemoveThread\<close> gives the stack back to the heap and marks the thread; \<open>free\<close> is the
  heap's, with its own memory.\<close>

definition RemoveThread :: "(u32 \<Rightarrow> 'h \<Rightarrow> 'h option) \<Rightarrow> u32 \<Rightarrow> 'h \<Rightarrow> 'a kstate_scheme \<Rightarrow>
    ('h \<times> 'a kstate_scheme) option" where
  "RemoveThread free t h s = do {
     th \<leftarrow> (if t = 0 then None else threads s t);
     h \<leftarrow> free (stack th) h;
     Some (h, s\<lparr>threads := (threads s)(t \<mapsto> th\<lparr>state := Stopped\<rparr>)\<rparr>)
   }"

section \<open>What the loops do\<close>

lemma offset_step:
  assumes "(i :: u32) < n"
  shows "i \<le> d \<and> d < n \<longleftrightarrow> d = i \<or> i + 1 \<le> d \<and> d < n"
  using assms unat_succ [OF assms] by (auto simp: word_le_nat_alt word_less_nat_alt intro: word_nat_eqI)

lemma add_diff_eq_word: "(a :: u32) = b + i \<longleftrightarrow> a - b = i"
  by (auto simp: algebra_simps)

lemma memset_from_spec:
  "rd_byte (memset_from i buf v n m) a =
     (if i \<le> a - buf \<and> a - buf < n then take_bit 8 v else rd_byte m a)"
proof (induction i buf v n m rule: memset_from.induct)
  case (1 i buf v n m)
  show ?case
    using 1 offset_step [of i n "a - buf"]
    by (cases "i < n") (auto simp: memset_from.simps [of i] rd_wr_byte add_diff_eq_word)
qed

lemma memset_spec: "rd_byte (memset buf v n m) a = (if a - buf < n then take_bit 8 v else rd_byte m a)"
  by (simp add: memset_def memset_from_spec)

lemma memcpy_from_spec:
  assumes "\<forall>j k. j < n \<longrightarrow> k < n \<longrightarrow> dst + j \<noteq> src + k"
  shows "rd_byte (memcpy_from i dst src n m) a =
     (if i \<le> a - dst \<and> a - dst < n then rd_byte m (src + (a - dst)) else rd_byte m a)"
  using assms
proof (induction i dst src n m rule: memcpy_from.induct)
  case (1 i dst src n m)
  show ?case
  proof (cases "i < n")
    case True
    let ?m = "wr_byte (dst + i) (rd_byte m (src + i)) m" and ?d = "a - dst"
    have byte: "take_bit 8 (rd_byte m b) = rd_byte m b" for b
      by (simp add: rd_byte_def get_bits_def)
    have src: "rd_byte ?m (src + k) = rd_byte m (src + k)" if "k < n" for k
    proof -
      have "src + k \<noteq> dst + i" using 1(2) True that by metis
      then show ?thesis by (simp add: rd_wr_byte)
    qed
    have step: "memcpy_from i dst src n m = memcpy_from (i + 1) dst src n ?m"
      using True by (simp add: memcpy_from.simps [of i])
    have ih: "rd_byte (memcpy_from (i + 1) dst src n ?m) a =
        (if i + 1 \<le> ?d \<and> ?d < n then rd_byte ?m (src + ?d) else rd_byte ?m a)"
      by (rule 1(1) [OF True 1(2)])
    show ?thesis
    proof (cases "?d = i")
      case d: True
      then have "a = dst + i" by auto
      then have "rd_byte ?m a = rd_byte m (src + i)" by (simp add: rd_wr_byte byte)
      moreover have "\<not> i + 1 \<le> ?d" using unat_succ [OF True] d by (simp add: word_le_nat_alt)
      ultimately show ?thesis unfolding step ih using d True by simp
    next
      case d: False
      then have "a \<noteq> dst + i" by auto
      then have "rd_byte ?m a = rd_byte m a" by (simp add: rd_wr_byte)
      then show ?thesis unfolding step ih using offset_step [OF True, of ?d] d src [of ?d] by auto
    qed
  next
    case False
    then have "\<not> (i \<le> a - dst \<and> a - dst < n)" by auto
    with False show ?thesis by (auto simp: memcpy_from.simps [of i])
  qed
qed

lemma memcpy_spec:
  assumes "\<forall>j k. j < n \<longrightarrow> k < n \<longrightarrow> dst + j \<noteq> src + k"
  shows "rd_byte (memcpy dst src n m) a =
     (if a - dst < n then rd_byte m (src + (a - dst)) else rd_byte m a)"
  by (simp add: memcpy_def memcpy_from_spec [OF assms])

text \<open>An aligned word is its four bytes.\<close>

lemma bit_of_byte:
  assumes "4 dvd unat a" and "n < 32"
  shows "bit (m a) n \<longleftrightarrow> bit (rd_byte m (a + of_nat (n div 8))) (n mod 8)"
proof -
  let ?k = "of_nat (n div 8) :: u32"
  have k: "unat ?k = n div 8" using assms(2) by (simp add: unat_of_nat)
  obtain q where q: "unat a = 4 * q" using assms(1) by (elim dvdE)
  have "q < 1073741824" using u32_lt [of a] q by simp
  then have "4 * q + n div 8 < 4294967296" using assms(2) by linarith
  then have u: "unat (a + ?k) = 4 * q + n div 8" using q k by (intro trans [OF unat_plus_le]) simp_all
  have "word_part (a + ?k) = a"
    by (rule word_nat_eqI) (use u q assms(2) in \<open>simp add: unat_word_part\<close>)
  moreover have "unat (byte_part (a + ?k)) = n div 8" using u assms(2) by (simp add: unat_byte_part)
  ultimately show ?thesis by (simp add: rd_byte_def bit_get_bits)
qed

lemma word_of_bytes:
  assumes "4 dvd unat a" and "4 dvd unat b" and "\<And>k. k < 4 \<Longrightarrow> rd_byte m (a + k) = rd_byte n (b + k)"
  shows "m a = n b"
proof (rule bit_eqI)
  fix i assume "possible_bit TYPE(32 word) i"
  then have i: "i < 32" by simp
  have "rd_byte m (a + of_nat (i div 8)) = rd_byte n (b + of_nat (i div 8))"
    by (rule assms(3)) (use i in \<open>simp add: word_less_nat_alt unat_of_nat\<close>)
  then show "bit (m a) i \<longleftrightarrow> bit (n b) i" using bit_of_byte [OF _ i] assms(1,2) by simp
qed

lemma word_of_bytes_0:
  assumes "4 dvd unat a" and "\<And>k. k < 4 \<Longrightarrow> rd_byte m (a + k) = 0"
  shows "m a = 0"
  using word_of_bytes [of a a m "\<lambda>_. 0"] assms by (simp add: rd_byte_def get_bits_def)

lemma memcpy_word:
  assumes "\<forall>j k. j < n \<longrightarrow> k < n \<longrightarrow> dst + j \<noteq> src + k"
    and "4 dvd unat (dst + d)" and "4 dvd unat (src + d)" and "unat d + 4 \<le> unat n"
  shows "memcpy dst src n m (dst + d) = m (src + d)"
proof (rule word_of_bytes [OF assms(2,3)])
  fix k :: u32 assume "k < 4"
  then have k: "unat k < 4" by (simp add: word_less_nat_alt)
  have "unat (d + k) = unat d + unat k" using k assms(4) u32_lt [of n] by (intro unat_plus_le) simp
  then have "dst + d + k - dst < n" using k assms(4) by (simp add: word_less_nat_alt algebra_simps)
  then have "rd_byte (memcpy dst src n m) (dst + d + k) = rd_byte m (src + (dst + d + k - dst))"
    by (simp only: memcpy_spec [OF assms(1)] if_True)
  moreover have "src + (dst + d + k - dst) = src + d + k" by simp
  ultimately show "rd_byte (memcpy dst src n m) (dst + d + k) = rd_byte m (src + d + k)" by (simp only:)
qed

lemma memset_word:
  assumes "4 dvd unat a" and "unat buf \<le> unat a" and "unat a + 4 \<le> unat buf + unat n"
  shows "memset buf 0 n m a = 0"
proof (rule word_of_bytes_0 [OF assms(1)])
  fix k :: u32 assume k: "k < 4"
  obtain q where q: "unat a = 4 * q" using assms(1) by (elim dvdE)
  have k4: "unat k < 4" using k by (simp add: word_less_nat_alt)
  have "q < 1073741824" using u32_lt [of a] q by simp
  then have "4 * q + unat k < 4294967296" using k4 by linarith
  then have u: "unat (a + k) = unat a + unat k" using q by (intro unat_plus_le) simp
  have "buf \<le> a + k" using u assms(2) by (simp add: word_le_nat_alt)
  then have "unat (a + k - buf) = unat a + unat k - unat buf" using u by (simp add: unat_minus_le)
  then have "a + k - buf < n" using assms(2,3) k4 by (simp add: word_less_nat_alt)
  then show "rd_byte (memset buf 0 n m) (a + k) = 0" by (simp add: memset_spec)
qed

lemma memset_from_outside:
  assumes "4 dvd unat buf" and "unat buf + unat n \<le> 2 ^ 32" and "\<not> (unat buf \<le> unat a \<and> unat a < unat buf + unat n)"
  shows "memset_from i buf v n m a = m a"
  using assms
proof (induction i buf v n m rule: memset_from.induct)
  case (1 i buf v n m)
  show ?case
  proof (cases "i < n")
    case True
    then have i: "unat i < unat n" by (simp add: word_less_nat_alt)
    then have u: "unat (buf + i) = unat buf + unat i" using 1(3) by (intro unat_plus_le) simp
    obtain q where "unat buf = 4 * q" using 1(2) by (elim dvdE)
    then have "unat buf \<le> unat (word_part (buf + i))" "unat (word_part (buf + i)) \<le> unat (buf + i)"
      by (simp_all add: unat_word_part u)
    then have "word_part (buf + i) \<noteq> a" using 1(4) i u by auto
    then have "wr_byte (buf + i) v m a = m a" by (simp add: wr_byte_def)
    with 1(1) [OF True 1(2-4)] True show ?thesis by (simp add: memset_from.simps [of i])
  qed (simp add: memset_from.simps [of i])
qed

lemma memset_outside:
  assumes "4 dvd unat buf" and "unat buf + unat n \<le> 2 ^ 32" and "\<not> (unat buf \<le> unat a \<and> unat a < unat buf + unat n)"
  shows "memset buf v n m a = m a"
  by (simp add: memset_def memset_from_outside [OF assms])

text \<open>The memory of a new thread, and what \<open>CreateFromFunction\<close> leaves.\<close>

definition first_frame :: "u32 \<Rightarrow> u32 \<Rightarrow> bool \<Rightarrow> memory \<Rightarrow> memory" where
  "first_frame stk entryPoint isKernel m =
     (let f = stk + 4032; d = (if isKernel then SEG_KERNEL_DATA else SEG_USER_DATA) in
      set_reg f R_ss d (set_reg f R_ds d (set_reg f R_cs (if isKernel then SEG_KERNEL_CODE else SEG_USER_CODE)
        (set_reg f R_eip entryPoint (set_reg f R_esp (stk + 4096) (memset stk 0 THREAD_STACK_SIZE m))))))"

lemma CreateFromFunction_result:
  assumes "CreateFromFunction result stk entryPoint isKernel par s = Some (r, s')"
  obtains ustk where "r = result" and "s' = s\<lparr>threads := (threads s)(result \<mapsto>
      \<lparr>parent = par, stack = stk, userStack = ustk, userStackSize = USER_STACK_SIZE, state = Ready,
       blockedState = Unknown, regsPtr = stk + 4032, timeDelta = 0\<rparr>), mem := first_frame stk entryPoint isKernel (mem s)\<rparr>"
    and "par \<noteq> 0 \<Longrightarrow> par \<in> dom (procs s)"
  using assms
  by (auto simp: CreateFromFunction_def Let_def first_frame_def THREAD_STACK_SIZE_def sizeof_registers_def
      add.commute [of 4032 stk] split: if_splits elim!: bind_eq_SomeE)

lemma CreateFromFunction_returns:
  "par = 0 \<or> par \<in> dom (procs s) \<Longrightarrow> CreateFromFunction result stk entryPoint isKernel par s \<noteq> None"
  by (auto simp: CreateFromFunction_def Let_def)

lemma first_frame_outside:
  assumes "4 dvd unat stk" and "unat stk + 4096 \<le> 2 ^ 32" and "\<not> (unat stk \<le> unat a \<and> unat a < unat stk + 4096)"
  shows "first_frame stk entryPoint isKernel m a = m a"
proof -
  have "a \<noteq> stk + 4032 + reg_offset r" for r
  proof
    assume a: "a = stk + 4032 + reg_offset r"
    have r: "unat (reg_offset r) \<le> 60" by (cases r) simp_all
    have "unat (stk + 4032) = unat stk + 4032" using assms(2) by (intro trans [OF unat_plus_le]) simp_all
    then have "unat a = unat stk + 4032 + unat (reg_offset r)"
      unfolding a using assms(2) r by (intro trans [OF unat_plus_le]) simp_all
    then show False using assms(3) r by simp
  qed
  then have "a \<noteq> stk + 4032 + reg_offset r" "a \<noteq> reg_offset r + (stk + 4032)" for r by (simp_all add: add.commute)
  moreover have "memset stk 0 THREAD_STACK_SIZE m a = m a"
    using assms by (intro memset_outside) (simp_all add: THREAD_STACK_SIZE_def)
  ultimately show ?thesis by (simp add: first_frame_def set_reg_def Let_def del: reg_offset.simps)
qed

section \<open>Properties\<close>

text \<open>
  \<open>memcpy\<close> between areas that do not overlap copies every byte and \<open>memset\<close> fills every
  byte, each leaving all memory outside the destination as it was, also when the area
  wraps around the end of the address space.
\<close>

lemma memcpy_memset_bytes:
  "((\<forall>j k. j < n \<longrightarrow> k < n \<longrightarrow> dst + j \<noteq> src + k) \<longrightarrow>
     (\<forall>i<n. rd_byte (memcpy dst src n m) (dst + i) = rd_byte m (src + i)) \<and>
     (\<forall>a. \<not> a - dst < n \<longrightarrow> rd_byte (memcpy dst src n m) a = rd_byte m a)) \<and>
   (\<forall>i<n. rd_byte (memset dst v n m) (dst + i) = take_bit 8 v) \<and>
   (\<forall>a. \<not> a - dst < n \<longrightarrow> rd_byte (memset dst v n m) a = rd_byte m a)"
  by (simp add: memcpy_spec memset_spec)

theorem memcpy_memset_bytes_witness:
  "rd_byte (memcpy 0x2000 0x1000 15 m) 0x2007 = rd_byte m 0x1007 \<and>
   rd_byte (memset 0x2000 (-1) 15 m) 0x2007 = 0xFF \<and> rd_byte (memset 0x2000 (-1) 15 m) 0x1FFF = rd_byte m 0x1FFF"
proof -
  have "(0x2000 :: u32) + j \<noteq> 0x1000 + k" if "j < 15" "k < 15" for j k
  proof
    assume eq: "(0x2000 :: u32) + j = 0x1000 + k"
    then have "k = 0x1000 + j" by simp
    moreover have "unat (0x1000 + j) = 0x1000 + unat j"
      using that by (auto simp: word_less_nat_alt intro!: trans [OF unat_plus_le])
    ultimately show False using that by (simp add: word_less_nat_alt)
  qed
  then have t: "\<forall>i<15. rd_byte (memcpy 0x2000 0x1000 15 m) (0x2000 + i) = rd_byte m (0x1000 + i)"
    "\<forall>i<15. rd_byte (memset 0x2000 (-1) 15 m) (0x2000 + i) = take_bit 8 (-1)"
    "\<forall>a. \<not> a - 0x2000 < 15 \<longrightarrow> rd_byte (memset 0x2000 (-1) 15 m) a = rd_byte m a"
    using memcpy_memset_bytes [of 15 "0x2000" "0x1000" m "-1"] by blast+
  show ?thesis
    using spec [OF t(1), of 7] spec [OF t(2), of 7] spec [OF t(3), of "0x1FFF"]
    by (simp add: mask_eq_exp_minus_1)
qed

text \<open>
  A new thread starts at its entry point with a stack of its own: the saved registers lie
  at the top of the zeroed stack, with the entry point, the stack top and the selectors of
  its ring. The flags stay 0, so the thread begins with interrupts off.
\<close>

lemma CreateFromFunction_initial_frame:
  assumes "4 dvd unat stk" and "unat stk + 4096 \<le> 2 ^ 32"
  defines "regs \<equiv> stk + 4032"
  shows "\<exists>s' th. CreateFromFunction result stk entryPoint isKernel 0 s = Some (result, s') \<and>
    threads s' = (threads s)(result \<mapsto> th) \<and> state th = Ready \<and> regsPtr th = regs \<and> stack th = stk \<and>
    get_reg (mem s') regs R_eip = entryPoint \<and> get_reg (mem s') regs R_esp = stk + 4096 \<and>
    get_reg (mem s') regs R_cs = (if isKernel then 0x08 else 0x1B) \<and>
    get_reg (mem s') regs R_ss = (if isKernel then 0x10 else 0x23) \<and>
    get_reg (mem s') regs R_eflags = 0"
proof -
  have "memset stk 0 THREAD_STACK_SIZE (mem s) (regs + reg_offset R_eflags) = 0"
  proof (rule memset_word)
    have "unat (stk + 4084) = unat stk + 4084" using assms(2) by (intro trans [OF unat_plus_le]) simp_all
    then have u: "unat (regs + reg_offset R_eflags) = unat stk + 4084" by (simp add: regs_def add.commute)
    show "4 dvd unat (regs + reg_offset R_eflags)" unfolding u using assms(1) by (simp add: dvd_add)
    show "unat stk \<le> unat (regs + reg_offset R_eflags)"
      "unat (regs + reg_offset R_eflags) + 4 \<le> unat stk + unat THREAD_STACK_SIZE"
      unfolding u by (simp_all add: THREAD_STACK_SIZE_def)
  qed
  then show ?thesis
    by (simp add: CreateFromFunction_def Let_def get_reg_def set_reg_def regs_def THREAD_STACK_SIZE_def
        sizeof_registers_def SEG_KERNEL_CODE_def SEG_USER_CODE_def SEG_KERNEL_DATA_def SEG_USER_DATA_def)
      (rule exI, rule conjI, rule refl, simp add: add.commute)
qed

definition demo_kstate :: kstate where
  "demo_kstate = \<lparr>nodes = Map.empty, threads = Map.empty, procs = Map.empty, mem = (\<lambda>_. 0),
     currentPID = 1, processes = queue_init\<rparr>"

theorem CreateFromFunction_initial_frame_witness:
  "\<exists>s'. CreateFromFunction 0xC0400014 0xC0400048 0xC0101000 True 0 demo_kstate = Some (0xC0400014, s') \<and>
     get_reg (mem s') 0xC0401008 R_eip = 0xC0101000 \<and> get_reg (mem s') 0xC0401008 R_eflags = 0"
  using CreateFromFunction_initial_frame [of "0xC0400048" "0xC0400014" "0xC0101000" True demo_kstate]
  by auto

text \<open>
  The kernel process gets the next identifier, the boot page directory and its name, and is
  appended to the process list. Its heap ends before it starts: the end is set to the size.
\<close>

lemma CreateKernelProcess_registers:
  assumes "queue_holds (nodes s, processes s) ps" and "node \<noteq> 0" and "node \<notin> dom (nodes s)"
  shows "\<exists>s' p. CreateKernelProcess boot_pt proc node s = Some (proc, s') \<and>
    procs s' = (procs s)(proc \<mapsto> p) \<and> queue_holds (nodes s', processes s') (ps @ [proc]) \<and>
    pid p = currentPID s \<and> currentPID s' = currentPID s + 1 \<and> pageDirPhys p = boot_pt - 0xC0000000 \<and>
    takeWhile (\<lambda>c. c \<noteq> CHR 0x00) (filename p) = ''Kernel Process'' \<and> heapEnd p < heapStart p"
proof -
  have "fresh_node node (nodes s, processes s)" using assms(2,3) by (simp add: fresh_node_def)
  from lq.push_law [OF assms(1) this, of proc] obtain ns q where
    "push_back node proc (nodes s, processes s) = Some (ns, q)" "queue_holds (ns, q) (ps @ [proc])" by auto
  then show ?thesis
    by (simp add: CreateKernelProcess_def Let_def zero_Process_def copy_name_def virt2phys_def
        KERNEL_VIRTUAL_OFFSET_def KERNEL_HEAP_START_def KERNEL_HEAP_SIZE_def)
      (rule exI, rule conjI, rule refl, simp)
qed

theorem CreateKernelProcess_registers_witness:
  "\<exists>s' p. CreateKernelProcess 0xC0102000 0xC0400014 0xC0400080 demo_kstate = Some (0xC0400014, s') \<and>
     procs s' 0xC0400014 = Some p \<and> pid p = 1 \<and> heapEnd p < heapStart p"
proof -
  have "queue_holds (nodes demo_kstate, processes demo_kstate) []"
    using qrep_init [of "nodes demo_kstate"] by (auto simp: demo_kstate_def queue_holds_def intro!: exI [of _ "[]"])
  from CreateKernelProcess_registers [OF this, of "0xC0400080" "0xC0102000" "0xC0400014"] show ?thesis
    by (auto simp: demo_kstate_def)
qed

end
