(* ===== verification/OS_Scheduler.thy ===== *)
theory OS_Scheduler
  imports OS_Process
begin

text \<open>
  The scheduler: src/src/arch/x86/scheduler/scheduler.h and scheduler.cpp.

  \<^item> The record \<open>sched\<close> extends the stores of threads, processes and queue nodes with the
    members of \<open>class Scheduler\<close>, and with what it acts on outside: the page tables (for the
    directory register), the descriptor tables (for the task-state segment) and the ports.
  \<^item> The operations are \<open>sched_init\<close> (the constructor), \<open>GetNextReadyThread\<close>, \<open>HandleInterrupt\<close>,
    \<open>AddThread\<close>, \<open>InitialThreadUserJump\<close>, \<open>ForceSwitch\<close>, \<open>Unblock\<close> and
    \<open>ProcessSleepingThreads\<close>. \<open>CurrentThread\<close>, \<open>CurrentProcess\<close> and \<open>Block\<close> are declared in
    the header but have no code. Messages are left out.
  \<^item> \<open>sched_exit\<close> says how control leaves an operation: back to the caller, to user mode for
    good, or through the software interrupt that \<open>ForceSwitch\<close> raises. \<open>None\<close> is an access
    through a null or dangling pointer, or a search that never ends.
  \<^item> The abstract scheduler is a list of threads and a position in it: \<open>GetNextReadyThread\<close> is
    the first thread after the current one, in cyclic order, that is not blocked.
\<close>

unbundle bit_operations_syntax

section \<open>State\<close>

record sched = kstate +
  threadsList :: queue
  currentThread :: u32
  tickCount :: u32
  switchForced :: bool
  enabled :: bool
  vmem :: vm
  gdts :: gdt_state
  sports :: port_log

datatype sched_exit = Done | Resume u32 | EnterUser u32 u32 u32 | RaiseInt u8

definition fetch_thread :: "sched \<Rightarrow> u32 \<Rightarrow> Thread option" where
  "fetch_thread s t = (if t = 0 then None else threads s t)"

definition fetch_proc :: "sched \<Rightarrow> u32 \<Rightarrow> Process option" where
  "fetch_proc s p = (if p = 0 then None else procs s p)"

definition store_thread :: "u32 \<Rightarrow> Thread \<Rightarrow> sched \<Rightarrow> sched" where
  "store_thread t th s = s\<lparr>threads := (threads s)(t \<mapsto> th)\<rparr>"

abbreviation thread_queue :: "sched \<Rightarrow> u32 qstate" where
  "thread_queue s \<equiv> (nodes s, threadsList s)"

section \<open>Operations\<close>

text \<open>The constructor, after the initializers in the class.\<close>

definition sched_init :: "sched \<Rightarrow> sched option" where
  "sched_init s = do {
     let s = s\<lparr>threadsList := queue_init, currentThread := 0, tickCount := 0, switchForced := False, enabled := True\<rparr>;
     let s = s\<lparr>currentThread := 0\<rparr>;
     (ns, q) \<leftarrow> Clear (thread_queue s);
     Some (s\<lparr>nodes := ns, threadsList := q, enabled := False, switchForced := False\<rparr>)
   }"

text \<open>The loop of \<open>GetNextReadyThread\<close>: it ends only at a thread that is not blocked.\<close>

partial_function (option) skip_blocked :: "int \<Rightarrow> sched \<Rightarrow> int option" where
  "skip_blocked i s = do {
     t \<leftarrow> queue_index (thread_queue s) i;
     th \<leftarrow> fetch_thread s t;
     if state th = Blocked
     then skip_blocked (if i + 1 \<ge> q_size (threadsList s) then 0 else i + 1) s
     else Some i
   }"

definition GetNextReadyThread :: "sched \<Rightarrow> u32 option" where
  "GetNextReadyThread s = do {
     i \<leftarrow> (if currentThread s \<noteq> 0 then IndexOf (currentThread s) (thread_queue s) else Some 0);
     let i = i + 1;
     let i = (if i \<ge> q_size (threadsList s) then 0 else i);
     i \<leftarrow> skip_blocked i s;
     queue_index (thread_queue s) i
   }"

text \<open>\<open>threadsList.Remove(t); delete t\<close>.\<close>

definition drop_thread :: "u32 \<Rightarrow> sched \<Rightarrow> sched option" where
  "drop_thread t s = do {
     (ns, q) \<leftarrow> Remove t (thread_queue s);
     Some (s\<lparr>nodes := ns, threadsList := q, threads := (threads s)(t := None)\<rparr>)
   }"

text \<open>The loop that removes stopped threads until one is left that is not.\<close>

partial_function (option) reap_stopped :: "u32 \<Rightarrow> sched \<Rightarrow> (u32 \<times> sched) option" where
  "reap_stopped nextThread s = do {
     th \<leftarrow> fetch_thread s nextThread;
     if state th = Stopped
     then do {
       s \<leftarrow> drop_thread nextThread s;
       nextThread \<leftarrow> GetNextReadyThread s;
       reap_stopped nextThread s
     }
     else Some (nextThread, s)
   }"

definition ForceSwitch :: "sched \<Rightarrow> sched_exit \<times> sched" where
  "ForceSwitch s = (RaiseInt 0x20, s\<lparr>switchForced := True, enabled := True, tickCount := 29\<rparr>)"

definition Unblock :: "u32 \<Rightarrow> bool \<Rightarrow> sched \<Rightarrow> (sched_exit \<times> sched) option" where
  "Unblock thread forceSwitch s = do {
     th \<leftarrow> fetch_thread s thread;
     let s = store_thread thread (th\<lparr>state := Ready\<rparr>) s;
     Some (if forceSwitch then ForceSwitch s else (Done, s))
   }"

text \<open>One round of \<open>ProcessSleepingThreads\<close>, on thread \<open>t\<close>.\<close>

definition sleep_tick :: "u32 \<Rightarrow> sched \<Rightarrow> sched option" where
  "sleep_tick t s = do {
     th \<leftarrow> fetch_thread s t;
     if state th = Blocked \<and> blockedState th = SleepMS \<and> timeDelta th > 0
     then do {
       let s = store_thread t (th\<lparr>timeDelta := timeDelta th - 1\<rparr>) s;
       if timeDelta th - 1 \<le> 0 then map_option snd (Unblock t False s) else Some s
     }
     else Some s
   }"

lemma store_thread_list [simp]:
  "threadsList (store_thread t th s) = threadsList s" "nodes (store_thread t th s) = nodes s"
  by (simp_all add: store_thread_def)

lemma sleep_tick_list: "sleep_tick t s = Some s' \<Longrightarrow> threadsList s' = threadsList s"
  by (auto simp: sleep_tick_def Unblock_def Let_def split: if_splits elim!: bind_eq_SomeE)

function ProcessSleeping_from :: "int \<Rightarrow> sched \<Rightarrow> sched option" where
  "ProcessSleeping_from i s =
     (if i < q_size (threadsList s)
      then do {
        t \<leftarrow> queue_index (thread_queue s) i;
        s \<leftarrow> sleep_tick t s;
        ProcessSleeping_from (i + 1) s
      }
      else Some s)"
  by pat_completeness auto
termination
  by (relation "measure (\<lambda>(i, s). nat (q_size (threadsList s) - i))") (auto dest: sleep_tick_list)

declare ProcessSleeping_from.simps [simp del]

definition ProcessSleepingThreads :: "sched \<Rightarrow> sched option" where
  "ProcessSleepingThreads s = ProcessSleeping_from 0 s"

definition InitialThreadUserJump :: "u32 \<Rightarrow> sched \<Rightarrow> (sched_exit \<times> sched) option" where
  "InitialThreadUserJump thread s = do {
     th \<leftarrow> fetch_thread s thread;
     let s = s\<lparr>gdts := SetTSS 0x10 (stack th + THREAD_STACK_SIZE) (gdts s)\<rparr>;
     p \<leftarrow> fetch_proc s (parent th);
     let s = s\<lparr>vmem := SwitchPageDirectory (pageDirPhys p) (vmem s)\<rparr>;
     let s = s\<lparr>currentThread := thread\<rparr>;
     let s = s\<lparr>enabled := True\<rparr>;
     let s = s\<lparr>sports := outb 0x20 0x20 (sports s)\<rparr>;
     Some (EnterUser (get_reg (mem s) (regsPtr th) R_eip) (userStack th + userStackSize th)
       (get_reg (mem s) (regsPtr th) R_eflags), s)
   }"

definition AddThread :: "u32 \<Rightarrow> u32 \<Rightarrow> bool \<Rightarrow> sched \<Rightarrow> (sched_exit \<times> sched) option" where
  "AddThread node thread forceSwitch s = do {
     (ns, q) \<leftarrow> push_back node thread (thread_queue s);
     let s = s\<lparr>nodes := ns, threadsList := q\<rparr>;
     if forceSwitch then do {
       th \<leftarrow> fetch_thread s thread;
       user \<leftarrow> (if parent th \<noteq> 0 then map_option isUserspace (fetch_proc s (parent th)) else Some False);
       if user then InitialThreadUserJump thread s else Some (ForceSwitch s)
     }
     else Some (Done, s)
   }"

text \<open>The part of \<open>HandleInterrupt\<close> between choosing the next thread and resuming it: drop
  the current thread if it has stopped, else save its stack pointer.\<close>

definition leave_current :: "u32 \<Rightarrow> sched \<Rightarrow> sched option" where
  "leave_current esp s = do {
     stopped \<leftarrow> (if currentThread s \<noteq> 0
                 then map_option (\<lambda>c. state c = Stopped) (fetch_thread s (currentThread s)) else Some False);
     if stopped then drop_thread (currentThread s) s
     else if esp \<ge> KERNEL_HEAP_START
     then do {
       c \<leftarrow> fetch_thread s (currentThread s);
       Some (store_thread (currentThread s) (c\<lparr>regsPtr := esp\<rparr>) s)
     }
     else Some s
   }"

definition enter_next :: "u32 \<Rightarrow> sched \<Rightarrow> (sched_exit \<times> sched) option" where
  "enter_next nextThread s = do {
     let s = s\<lparr>currentThread := nextThread\<rparr>;
     th \<leftarrow> fetch_thread s nextThread;
     user \<leftarrow> (if state th = Started then map_option isUserspace (fetch_proc s (parent th)) else Some False);
     if user then InitialThreadUserJump nextThread (store_thread nextThread (th\<lparr>state := Ready\<rparr>) s)
     else do {
       let esp = regsPtr th;
       s \<leftarrow> (if parent th \<noteq> 0
             then do {
               p \<leftarrow> fetch_proc s (parent th);
               Some (if pageDirPhys p \<noteq> 0
                     then s\<lparr>vmem := SwitchPageDirectory (pageDirPhys p) (vmem s)\<rparr> else s)
             }
             else Some s);
       Some (Resume esp, s\<lparr>gdts := SetTSS 0x10 (stack th + THREAD_STACK_SIZE) (gdts s)\<rparr>)
     }
   }"

definition HandleInterrupt :: "u32 \<Rightarrow> sched \<Rightarrow> (sched_exit \<times> sched) option" where
  "HandleInterrupt esp s = do {
     let s = s\<lparr>tickCount := tickCount s + 1\<rparr>;
     s \<leftarrow> (if \<not> switchForced s then ProcessSleepingThreads s else Some (s\<lparr>switchForced := False\<rparr>));
     if tickCount s = 30
     then do {
       let s = s\<lparr>tickCount := 0\<rparr>;
       if q_size (threadsList s) > 0 \<and> enabled s
       then do {
         nextThread \<leftarrow> GetNextReadyThread s;
         (nextThread, s) \<leftarrow> reap_stopped nextThread s;
         s \<leftarrow> leave_current esp s;
         enter_next nextThread s
       }
       else Some (Resume esp, s)
     }
     else Some (Resume esp, s)
   }"

section \<open>The abstract scheduler\<close>

definition threads_ok :: "sched \<Rightarrow> u32 list \<Rightarrow> bool" where
  "threads_ok s ths \<longleftrightarrow> queue_holds (thread_queue s) ths \<and> distinct ths \<and> 0 \<notin> set ths \<and>
     set ths \<subseteq> dom (threads s)"

definition sched_ok :: "sched \<Rightarrow> u32 list \<Rightarrow> bool" where
  "sched_ok s ths \<longleftrightarrow> threads_ok s ths \<and> (currentThread s = 0 \<or> currentThread s \<in> set ths)"

definition tstate :: "sched \<Rightarrow> u32 \<Rightarrow> ThreadState" where
  "tstate s t = state (the (threads s t))"

text \<open>The position where the search starts, and the first thread it accepts.\<close>

definition start_index :: "sched \<Rightarrow> u32 list \<Rightarrow> nat" where
  "start_index s ths =
     (let i = (if currentThread s \<noteq> 0 then index_from 0 (currentThread s) ths else 0) + 1
      in if i \<ge> int (length ths) then 0 else nat i)"

definition next_thread :: "sched \<Rightarrow> u32 list \<Rightarrow> u32 option" where
  "next_thread s ths = find (\<lambda>t. tstate s t \<noteq> Blocked) (rotate (start_index s ths) ths)"

lemma threads_okD:
  assumes "threads_ok s ths"
  shows "queue_holds (thread_queue s) ths" and "distinct ths" and "q_size (threadsList s) = int (length ths)"
    and "t \<in> set ths \<Longrightarrow> t \<noteq> 0" and "t \<in> set ths \<Longrightarrow> \<exists>th. threads s t = Some th \<and> fetch_thread s t = Some th"
proof -
  show "queue_holds (thread_queue s) ths" "distinct ths" using assms by (simp_all add: threads_ok_def)
  then show "q_size (threadsList s) = int (length ths)" using lq.len_law by fastforce
  show nz: "t \<noteq> 0" if "t \<in> set ths" using assms that by (auto simp: threads_ok_def)
  show "\<exists>th. threads s t = Some th \<and> fetch_thread s t = Some th" if "t \<in> set ths"
    using assms that nz [OF that] by (auto simp: threads_ok_def fetch_thread_def)
qed

lemma thread_at:
  assumes "threads_ok s ths" and "i < length ths"
  obtains th where "queue_index (thread_queue s) (int i) = Some (ths ! i)" "fetch_thread s (ths ! i) = Some th"
    "state th = tstate s (ths ! i)"
proof -
  have "queue_index (thread_queue s) (int i) = Some (ths ! i)"
    using lq.get_law [OF threads_okD(1) [OF assms(1)], of "int i"] assms(2) by (simp add: queue_index_def)
  with threads_okD(5) [OF assms(1), of "ths ! i"] assms(2) that show ?thesis by (auto simp: tstate_def)
qed

lemma skip_blocked_step:
  assumes ok: "threads_ok s ths" and i: "i < length ths"
  shows "skip_blocked (int i) s = (if tstate s (ths ! i) = Blocked
     then skip_blocked (int (Suc i mod length ths)) s else Some (int i))"
proof -
  obtain th where th: "queue_index (thread_queue s) (int i) = Some (ths ! i)" "fetch_thread s (ths ! i) = Some th"
    "state th = tstate s (ths ! i)" by (rule thread_at [OF assms])
  have "(if int i + 1 \<ge> q_size (threadsList s) then 0 else int i + 1) = int (Suc i mod length ths)"
    using i threads_okD(3) [OF ok] by (auto simp: mod_Suc)
  then show ?thesis using th by (subst skip_blocked.simps) simp
qed

lemma skip_blocked_finds:
  assumes ok: "threads_ok s ths" and "i < length ths"
    and "\<forall>m<k. tstate s (ths ! ((i + m) mod length ths)) = Blocked"
    and "tstate s (ths ! ((i + k) mod length ths)) \<noteq> Blocked"
  shows "skip_blocked (int i) s = Some (int ((i + k) mod length ths))"
  using assms(2-)
proof (induction k arbitrary: i)
  case 0
  then show ?case using skip_blocked_step [OF ok, of i] by simp
next
  case (Suc k)
  let ?n = "length ths" and ?j = "Suc i mod length ths"
  have shift: "(?j + m) mod ?n = (i + Suc m) mod ?n" for m by (simp add: mod_simps)
  have "tstate s (ths ! i) = Blocked" using Suc.prems(1,2) by (auto dest: spec [of _ 0])
  moreover have "skip_blocked (int ?j) s = Some (int ((?j + k) mod ?n))"
  proof (rule Suc.IH)
    show "?j < ?n" using Suc.prems(1) by (intro mod_less_divisor) auto
    show "\<forall>m<k. tstate s (ths ! ((?j + m) mod ?n)) = Blocked"
      unfolding shift using Suc.prems(2) by auto
    show "tstate s (ths ! ((?j + k) mod ?n)) \<noteq> Blocked" unfolding shift by (rule Suc.prems(3))
  qed
  ultimately show ?case using skip_blocked_step [OF ok Suc.prems(1)] unfolding shift by simp
qed

lemma skip_blocked_diverges:
  assumes ok: "threads_ok s ths" and blocked: "\<forall>t\<in>set ths. tstate s t = Blocked" and "i < length ths"
  shows "skip_blocked (int i) s = None"
proof -
  have "skip_blocked k s' = Some j \<Longrightarrow> s' = s \<longrightarrow> \<not> (\<exists>i<length ths. k = int i)" for k s' j
  proof (erule skip_blocked.raw_induct [rotated])
    fix skip k s' j
    assume ih: "\<And>k s' j. skip k s' = Some j \<Longrightarrow> s' = s \<longrightarrow> \<not> (\<exists>i<length ths. k = int i)"
      and body: "do {
        t \<leftarrow> queue_index (thread_queue s') k;
        th \<leftarrow> fetch_thread s' t;
        if state th = Blocked then skip (if k + 1 \<ge> q_size (threadsList s') then 0 else k + 1) s' else Some k
      } = Some j"
    show "s' = s \<longrightarrow> \<not> (\<exists>i<length ths. k = int i)"
    proof (intro impI notI, elim exE conjE)
      fix i assume s: "s' = s" and i: "i < length ths" "k = int i"
      obtain th where th: "queue_index (thread_queue s) (int i) = Some (ths ! i)" "fetch_thread s (ths ! i) = Some th"
        "state th = tstate s (ths ! i)" by (rule thread_at [OF ok i(1)])
      have "tstate s (ths ! i) = Blocked" using blocked i(1) by simp
      then have "skip (if int i + 1 \<ge> q_size (threadsList s) then 0 else int i + 1) s = Some j"
        using body th unfolding s i(2) by simp
      moreover have "(if int i + 1 \<ge> q_size (threadsList s) then 0 else int i + 1) = int (Suc i mod length ths)"
        using i threads_okD(3) [OF ok] by (auto simp: mod_Suc)
      moreover have "Suc i mod length ths < length ths" using i(1) by (intro mod_less_divisor) auto
      ultimately show False using ih by metis
    qed
  qed
  then show ?thesis using assms(3) by (cases "skip_blocked (int i) s") auto
qed

lemma index_from_ge: "- 1 \<le> index_from 0 x xs"
  using index_from_in [of x xs 0] by (cases "x \<in> set xs") auto

lemma start_index_less: "ths \<noteq> [] \<Longrightarrow> start_index s ths < length ths"
  using index_from_ge [of "currentThread s" ths] by (auto simp: start_index_def Let_def nat_less_iff)

text \<open>The search implements \<open>next_thread\<close>; it never returns when every thread is blocked.\<close>

lemma GetNextReadyThread_refines:
  assumes ok: "threads_ok s ths"
  shows "GetNextReadyThread s = next_thread s ths"
proof (cases "ths = []")
  case True
  have "IndexOf (currentThread s) (thread_queue s) = Some (- 1)"
    using lq.index_missing [OF threads_okD(1) [OF ok]] True by simp
  moreover have "queue_index (thread_queue s) 0 = None"
  proof -
    have "q_head (threadsList s) = 0" using ok True by (auto simp: threads_ok_def queue_holds_def qrep_def qlist_def)
    then show ?thesis by (simp add: queue_index_def GetAt_def)
  qed
  then have "skip_blocked 0 s = None" by (subst skip_blocked.simps) simp
  ultimately show ?thesis
    using True threads_okD(3) [OF ok] by (simp add: GetNextReadyThread_def next_thread_def)
next
  case False
  let ?n = "length ths" and ?i = "start_index s ths"
  have i: "?i < ?n" by (rule start_index_less [OF False])
  have "(if currentThread s \<noteq> 0 then IndexOf (currentThread s) (thread_queue s) else Some 0) =
      Some (if currentThread s \<noteq> 0 then index_from 0 (currentThread s) ths else 0)"
    using lq.index_law [OF threads_okD(1) [OF ok]] by simp
  moreover have "- 1 \<le> index_from 0 (currentThread s) ths"
    using index_from_in [of "currentThread s" ths 0] by (cases "currentThread s \<in> set ths") auto
  ultimately have g: "GetNextReadyThread s = do { j \<leftarrow> skip_blocked (int ?i) s; queue_index (thread_queue s) j }"
    using threads_okD(3) [OF ok] by (simp add: GetNextReadyThread_def start_index_def Let_def)
  show ?thesis
  proof (cases "next_thread s ths")
    case None
    then have "\<forall>t\<in>set ths. tstate s t = Blocked"
      by (simp add: next_thread_def find_None_iff)
    from skip_blocked_diverges [OF ok this i] g None show ?thesis by simp
  next
    case (Some t)
    then obtain k where k: "k < ?n" "tstate s (rotate ?i ths ! k) \<noteq> Blocked" "t = rotate ?i ths ! k"
      "\<forall>m<k. tstate s (rotate ?i ths ! m) = Blocked"
      by (auto simp: next_thread_def find_Some_iff)
    have "skip_blocked (int ?i) s = Some (int ((?i + k) mod ?n))"
      using k by (intro skip_blocked_finds [OF ok i]) (auto simp: nth_rotate)
    moreover have "(?i + k) mod ?n < ?n" using i by (intro mod_less_divisor) auto
    then obtain th where "queue_index (thread_queue s) (int ((?i + k) mod ?n)) = Some (ths ! ((?i + k) mod ?n))"
      by (rule thread_at [OF ok])
    ultimately show ?thesis using g Some k(1,3) by (simp add: nth_rotate)
  qed
qed

lemma next_thread_in: "next_thread s ths = Some t \<Longrightarrow> t \<in> set ths"
  by (auto simp: next_thread_def find_Some_iff) (metis length_rotate nth_mem set_rotate)

lemma next_thread_not_blocked: "next_thread s ths = Some t \<Longrightarrow> tstate s t \<noteq> Blocked"
  by (auto simp: next_thread_def find_Some_iff)

text \<open>Removing a thread takes it out of the list and out of the store.\<close>

lemma drop_thread_removes:
  assumes ok: "threads_ok s ths"
  obtains s' where "drop_thread t s = Some s'" and "threads_ok s' (remove1 t ths)"
    and "s' = s\<lparr>nodes := nodes s', threadsList := threadsList s', threads := (threads s)(t := None)\<rparr>"
proof -
  obtain q where q: "Remove t (thread_queue s) = Some q" "queue_holds q (remove1 t ths)"
    using lq.remove_distinct [OF threads_okD(1,2) [OF ok]] by blast
  show ?thesis
  proof (rule that)
    show "drop_thread t s = Some (s\<lparr>nodes := fst q, threadsList := snd q, threads := (threads s)(t := None)\<rparr>)"
      using q(1) by (simp add: drop_thread_def case_prod_beta)
    show "threads_ok (s\<lparr>nodes := fst q, threadsList := snd q, threads := (threads s)(t := None)\<rparr>) (remove1 t ths)"
      using ok q(2) by (auto simp: threads_ok_def)
  qed simp
qed

section \<open>Sleeping threads\<close>

text \<open>What one tick does to a thread.\<close>

definition tick :: "Thread \<Rightarrow> Thread" where
  "tick th = (if state th = Blocked \<and> blockedState th = SleepMS \<and> timeDelta th > 0
     then th\<lparr>timeDelta := timeDelta th - 1, state := (if timeDelta th = 1 then Ready else Blocked)\<rparr>
     else th)"

lemma tick_unblocked [simp]: "state th \<noteq> Blocked \<Longrightarrow> tick th = th"
  by (simp add: tick_def)

lemma fetch_threadD: "fetch_thread s t = Some th \<Longrightarrow> t \<noteq> 0 \<and> threads s t = Some th"
  by (simp add: fetch_thread_def split: if_splits)

lemma sleep_tick_is_tick:
  assumes "fetch_thread s t = Some th"
  shows "sleep_tick t s = Some (s\<lparr>threads := (threads s)(t \<mapsto> tick th)\<rparr>)"
proof -
  have le: "timeDelta th - 1 \<le> 0 \<longleftrightarrow> timeDelta th = 1" by auto
  have keep: "th\<lparr>timeDelta := d, state := Blocked\<rparr> = th\<lparr>timeDelta := d\<rparr>" if "state th = Blocked" for d
    using that by (cases th) simp
  then show ?thesis using fetch_threadD [OF assms] assms unfolding sleep_tick_def tick_def le
    by (auto simp: Unblock_def fetch_thread_def store_thread_def fun_upd_idem Let_def keep)
qed

definition tick_all :: "u32 set \<Rightarrow> sched \<Rightarrow> sched" where
  "tick_all T s = s\<lparr>threads := \<lambda>t. if t \<in> T then map_option tick (threads s t) else threads s t\<rparr>"

lemma tick_all_ok: "threads_ok s ths \<Longrightarrow> threads_ok (tick_all T s) ths"
  by (auto simp: threads_ok_def tick_all_def dom_def split: if_splits)

lemma ProcessSleeping_from_ticks:
  assumes "threads_ok s ths" and "i \<le> length ths"
  shows "ProcessSleeping_from (int i) s = Some (tick_all (set (drop i ths)) s)"
  using assms
proof (induction "length ths - i" arbitrary: i s)
  case 0
  have "tick_all {} s = s" by (simp add: tick_all_def)
  with 0 show ?case using threads_okD(3) [OF "0.prems"(1)] by (subst ProcessSleeping_from.simps) simp
next
  case (Suc k)
  then have i: "i < length ths" by simp
  obtain th where th: "queue_index (thread_queue s) (int i) = Some (ths ! i)" "fetch_thread s (ths ! i) = Some th"
    by (rule thread_at [OF Suc.prems(1) i])
  let ?s = "tick_all {ths ! i} s"
  have s: "s\<lparr>threads := (threads s)(ths ! i \<mapsto> tick th)\<rparr> = ?s"
    using fetch_threadD [OF th(2)] by (auto simp: tick_all_def fun_eq_iff)
  have d: "drop i ths = ths ! i # drop (Suc i) ths" by (simp add: Cons_nth_drop_Suc i)
  have "distinct (drop i ths)" using threads_okD(2) [OF Suc.prems(1)] by simp
  then have nin: "ths ! i \<notin> set (drop (Suc i) ths)" by (simp add: d)
  have "ProcessSleeping_from (int (Suc i)) ?s = Some (tick_all (set (drop (Suc i) ths)) ?s)"
    using Suc.hyps(2) i by (intro Suc.hyps(1) tick_all_ok Suc.prems(1)) simp_all
  also have "tick_all (set (drop (Suc i) ths)) ?s = tick_all (set (drop i ths)) s"
    using nin by (auto simp: tick_all_def d fun_eq_iff)
  finally have "ProcessSleeping_from (int i + 1) ?s = Some (tick_all (set (drop i ths)) s)"
    by (simp add: add.commute)
  then show ?case
    using i th threads_okD(3) [OF Suc.prems(1)] sleep_tick_is_tick [OF th(2)] unfolding s
    by (subst ProcessSleeping_from.simps) simp
qed

lemma ProcessSleepingThreads_ticks:
  "threads_ok s ths \<Longrightarrow> ProcessSleepingThreads s = Some (tick_all (set ths) s)"
  using ProcessSleeping_from_ticks [of s ths 0] by (simp add: ProcessSleepingThreads_def)

section \<open>Switching threads\<close>

lemma threads_ok_cong:
  "threads_ok s ths \<Longrightarrow> nodes s' = nodes s \<Longrightarrow> threadsList s' = threadsList s \<Longrightarrow>
    dom (threads s) \<subseteq> dom (threads s') \<Longrightarrow> threads_ok s' ths"
  unfolding threads_ok_def by (metis subset_trans)

lemma find_append_skip: "find P xs = None \<Longrightarrow> find P (xs @ ys) = find P ys"
  by (induction xs) (auto split: if_splits)

lemma find_append_found: "find P xs = Some y \<Longrightarrow> find P (xs @ ys) = Some y"
  by (induction xs) (auto split: if_splits)

text \<open>The current thread is the last one that the search looks at.\<close>

lemma rotate_start:
  assumes "distinct ths" and "currentThread s \<in> set ths" and "currentThread s \<noteq> 0"
  obtains xs where "rotate (start_index s ths) ths = xs @ [currentThread s]"
proof -
  let ?c = "currentThread s" and ?i = "nat (index_from 0 (currentThread s) ths)"
  have i: "?i < length ths" "ths ! ?i = ?c" "0 \<le> index_from 0 ?c ths"
    using index_from_in [OF assms(2), of 0] by auto
  have st: "start_index s ths = Suc ?i mod length ths"
    using i assms(3) by (auto simp: start_index_def Let_def mod_Suc nat_add_distrib)
  have ne: "rotate (start_index s ths) ths \<noteq> []" using i(1) by auto
  have "last (rotate (start_index s ths) ths) = rotate (start_index s ths) ths ! (length ths - 1)"
    using ne by (simp add: last_conv_nth)
  also have "\<dots> = ths ! ((Suc ?i mod length ths + (length ths - 1)) mod length ths)"
    using i(1) by (simp add: nth_rotate st)
  also have "(Suc ?i mod length ths + (length ths - 1)) mod length ths = ?i"
  proof -
    have "(Suc ?i mod length ths + (length ths - 1)) mod length ths = (Suc ?i + (length ths - 1)) mod length ths"
      by (rule mod_add_left_eq)
    also have "Suc ?i + (length ths - 1) = ?i + length ths" using i(1) by linarith
    finally show ?thesis using i(1) by simp
  qed
  finally have "last (rotate (start_index s ths) ths) = ?c" by (simp add: i(2))
  with append_butlast_last_id [OF ne] show ?thesis by (metis that)
qed

lemma next_is_current:
  assumes "distinct ths" and "currentThread s \<in> set ths" and "currentThread s \<noteq> 0"
    and "next_thread s ths = Some (currentThread s)" and "r \<in> set ths" and "r \<noteq> currentThread s"
  shows "tstate s r = Blocked"
proof -
  obtain xs where xs: "rotate (start_index s ths) ths = xs @ [currentThread s]"
    by (rule rotate_start [OF assms(1-3)])
  have r: "r \<in> set xs" using assms(5,6) xs by (metis Un_iff empty_set set_append set_rotate insert_iff list.set(2) empty_iff)
  have "distinct (xs @ [currentThread s])" using assms(1) unfolding xs [symmetric] by simp
  then have nin: "currentThread s \<notin> set xs" by simp
  have "find (\<lambda>t. tstate s t \<noteq> Blocked) xs = None"
  proof (cases "find (\<lambda>t. tstate s t \<noteq> Blocked) xs")
    case (Some y)
    then have "y \<in> set xs" by (auto simp: find_Some_iff)
    moreover have "next_thread s ths = Some y" unfolding next_thread_def xs using Some by (rule find_append_found)
    ultimately show ?thesis using assms(4) nin by simp
  qed simp
  then show ?thesis using r by (auto simp: find_None_iff)
qed

definition runnable :: "sched \<Rightarrow> u32 \<Rightarrow> bool" where
  "runnable s t \<longleftrightarrow> tstate s t \<noteq> Blocked \<and> tstate s t \<noteq> Stopped"

lemma next_thread_exists:
  assumes "r \<in> set ths" and "tstate s r \<noteq> Blocked"
  obtains t where "next_thread s ths = Some t"
  using assms by (cases "next_thread s ths") (auto simp: next_thread_def find_None_iff)

text \<open>Without the threads in \<open>R\<close>.\<close>

definition without :: "u32 set \<Rightarrow> sched \<Rightarrow> sched \<Rightarrow> bool" where
  "without R s s' \<longleftrightarrow> (\<exists>ns q. s' = s\<lparr>nodes := ns, threadsList := q, threads := threads s |` (- R)\<rparr>)"

lemma restrict_UNIV [simp]: "m |` UNIV = m"
  by (simp add: restrict_map_def)

lemma without_none: "without {} s s"
  unfolding without_def by (intro exI [of _ "nodes s"] exI [of _ "threadsList s"]) (cases s, simp)

lemma without_trans: "without R s s1 \<Longrightarrow> without Q s1 s2 \<Longrightarrow> without (R \<union> Q) s s2"
  unfolding without_def by (elim exE, simp only: restrict_restrict Compl_Un) (intro exI, simp add: Int_commute)

lemma without_one:
  assumes ok: "threads_ok s ths"
  obtains s' where "drop_thread t s = Some s'" and "threads_ok s' (remove1 t ths)" and "without {t} s s'"
proof -
  have "(threads s)(t := None) = threads s |` (- {t})" by (auto simp: restrict_map_def)
  with drop_thread_removes [OF ok, of t] that show ?thesis unfolding without_def by metis
qed

lemma withoutD:
  assumes "without R s s'"
  shows "currentThread s' = currentThread s" and "tickCount s' = tickCount s" and "enabled s' = enabled s"
    and "switchForced s' = switchForced s" and "procs s' = procs s" and "mem s' = mem s" and "vmem s' = vmem s"
    and "gdts s' = gdts s" and "threads s' = threads s |` (- R)"
    and "t \<notin> R \<Longrightarrow> tstate s' t = tstate s t"
  using assms by (auto simp: without_def tstate_def)

text \<open>The order in which the search looks at the threads, and what removing one does to it.\<close>

definition search_order :: "sched \<Rightarrow> u32 list \<Rightarrow> u32 list" where
  "search_order s ths = rotate (start_index s ths) ths"

lemma set_search_order [simp]: "set (search_order s ths) = set ths"
  by (simp add: search_order_def)

lemma next_thread_order: "next_thread s ths = find (\<lambda>t. tstate s t \<noteq> Blocked) (search_order s ths)"
  by (simp add: next_thread_def search_order_def)

lemma search_order_current:
  assumes "distinct (as @ c # bs)" and "currentThread s = c" and "c \<noteq> 0"
  shows "search_order s (as @ c # bs) = bs @ as @ [c]"
proof -
  have "index_from i c (as @ c # bs) = i + int (length as)" for i
    using assms(1) by (induction as arbitrary: i) auto
  then have st: "start_index s (as @ c # bs) = (if bs = [] then 0 else Suc (length as))"
    using assms(2,3) by (auto simp: start_index_def Let_def nat_add_distrib)
  show ?thesis
  proof (cases "bs = []")
    case False
    have "rotate (length (as @ [c])) ((as @ [c]) @ bs) = bs @ as @ [c]" by (simp only: rotate_append)
    then show ?thesis using False st by (simp add: search_order_def)
  next
    case True
    then show ?thesis using st by (simp add: search_order_def)
  qed
qed

lemma search_order_none: "currentThread s = 0 \<Longrightarrow> search_order s (x # xs) = xs @ [x]"
  by (cases xs) (simp_all add: search_order_def start_index_def)

lemma search_order_remove:
  assumes d: "distinct ths" and c: "currentThread s = 0 \<or> currentThread s \<in> set ths" "currentThread s1 = currentThread s"
    and t: "t \<noteq> currentThread s" "t \<in> set ths" "currentThread s = 0 \<longrightarrow> t \<noteq> hd ths"
  shows "search_order s1 (remove1 t ths) = remove1 t (search_order s ths)"
proof (cases "currentThread s = 0")
  case True
  obtain x xs where ths: "ths = x # xs" using t(2) by (cases ths) auto
  then have "t \<noteq> x" using t(3) True by simp
  then show ?thesis using True c(2) t(2) d
    by (simp add: ths search_order_none remove1_append)
next
  case False
  let ?c = "currentThread s"
  obtain as bs where ths: "ths = as @ ?c # bs" using c(1) False by (meson split_list)
  have d': "distinct (as @ ?c # bs)" using d ths by simp
  have o: "search_order s ths = bs @ as @ [?c]" unfolding ths using d' False by (rule search_order_current [OF _ refl])
  show ?thesis
  proof (cases "t \<in> set as")
    case True
    then have "remove1 t ths = remove1 t as @ ?c # bs" by (subst ths) (simp add: remove1_append)
    moreover have "t \<notin> set bs" using True d' by auto
    moreover have "distinct (remove1 t as @ ?c # bs)" using d' set_remove1_subset [of t as] by auto
    ultimately show ?thesis using True False c(2) o by (simp add: search_order_current remove1_append)
  next
    case False2: False
    then have tb: "t \<in> set bs" using t(1,2) by (subst (asm) ths) auto
    then have "remove1 t ths = as @ ?c # remove1 t bs" using t(1) False2 by (subst ths) (simp add: remove1_append)
    moreover have "distinct (as @ ?c # remove1 t bs)" using d' set_remove1_subset [of t bs] by auto
    ultimately show ?thesis using tb False c(2) o by (simp add: search_order_current remove1_append)
  qed
qed

lemma takeWhile_remove1: "P t \<Longrightarrow> set (takeWhile P (remove1 t xs)) \<subseteq> set (takeWhile P xs)"
  by (induction xs) auto

lemma find_takeWhile: "find P xs = Some t \<Longrightarrow> (\<And>u. \<not> P u \<Longrightarrow> Q u) \<Longrightarrow> Q t \<Longrightarrow> t \<in> set (takeWhile Q xs)"
  by (induction xs) (auto split: if_splits)

text \<open>The loop ends at a thread that can run, if there is one; it drops stopped threads only, those that
  stand before that thread in the search order, and never the current one.\<close>

lemma reap_stopped_finds:
  assumes "threads_ok s ths" and "currentThread s = 0 \<or> currentThread s \<in> set ths"
    and "r \<in> set ths" and "runnable s r" and "next_thread s ths = Some t"
  shows "\<exists>t' s' R. reap_stopped t s = Some (t', s') \<and> without R s s' \<and> R \<subseteq> {u. tstate s u = Stopped} \<and>
    R \<subseteq> set ths - {currentThread s} \<and> threads_ok s' (filter (\<lambda>u. u \<notin> R) ths) \<and>
    next_thread s' (filter (\<lambda>u. u \<notin> R) ths) = Some t' \<and> runnable s t' \<and> t' \<notin> R \<and>
    search_order s' (filter (\<lambda>u. u \<notin> R) ths) = filter (\<lambda>u. u \<notin> R) (search_order s ths) \<and>
    R \<subseteq> set (takeWhile (\<lambda>u. \<not> runnable s u) (search_order s ths))"
  using assms
proof (induction "length ths" arbitrary: s ths t rule: less_induct)
  case less
  have t: "t \<in> set ths" "tstate s t \<noteq> Blocked"
    using next_thread_in next_thread_not_blocked less.prems(5) by blast+
  obtain th where th: "threads s t = Some th" "fetch_thread s t = Some th"
    using threads_okD(5) [OF less.prems(1) t(1)] by blast
  then have st: "state th = tstate s t" by (simp add: tstate_def)
  show ?case
  proof (cases "tstate s t = Stopped")
    case False
    then have "reap_stopped t s = Some (t, s)" using th st by (subst reap_stopped.simps) simp
    moreover have "without {} s s" by (rule without_none)
    ultimately show ?thesis using False less.prems(1,5) t by (intro exI [of _ t] exI [of _ s] exI [of _ "{}"]) (simp add: runnable_def)
  next
    case True
    have rt: "r \<noteq> t" using True less.prems(4) by (auto simp: runnable_def)
    have tc: "t \<noteq> currentThread s"
    proof
      assume c: "t = currentThread s"
      have "t \<noteq> 0" using threads_okD(4) [OF less.prems(1) t(1)] .
      then show False using next_is_current [OF threads_okD(2) [OF less.prems(1)], of s r] c rt t less.prems(3-5)
        by (auto simp: runnable_def)
    qed
    obtain s1 where s1: "drop_thread t s = Some s1" "threads_ok s1 (remove1 t ths)" "without {t} s s1"
      by (rule without_one [OF less.prems(1)])
    note w = withoutD [OF s1(3)]
    have ts: "tstate s1 u = tstate s u" if "u \<noteq> t" for u using w(10) [of u] that by simp
    have rm: "remove1 t ths = filter (\<lambda>u. u \<noteq> t) ths"
      using threads_okD(2) [OF less.prems(1)] by (simp add: distinct_remove1_removeAll removeAll_filter_not_eq) metis
    have r1: "r \<in> set (remove1 t ths)" "runnable s1 r"
      using less.prems(3,4) rt w(10) [of r] by (auto simp: runnable_def)
    then obtain t1 where t1: "next_thread s1 (remove1 t ths) = Some t1"
      using next_thread_exists [OF r1(1), of s1] by (auto simp: runnable_def)
    have "\<exists>t' s' R. reap_stopped t1 s1 = Some (t', s') \<and> without R s1 s' \<and> R \<subseteq> {u. tstate s1 u = Stopped} \<and>
      R \<subseteq> set (remove1 t ths) - {currentThread s1} \<and> threads_ok s' (filter (\<lambda>u. u \<notin> R) (remove1 t ths)) \<and>
      next_thread s' (filter (\<lambda>u. u \<notin> R) (remove1 t ths)) = Some t' \<and> runnable s1 t' \<and> t' \<notin> R \<and>
      search_order s' (filter (\<lambda>u. u \<notin> R) (remove1 t ths)) = filter (\<lambda>u. u \<notin> R) (search_order s1 (remove1 t ths)) \<and>
      R \<subseteq> set (takeWhile (\<lambda>u. \<not> runnable s1 u) (search_order s1 (remove1 t ths)))"
    proof (rule less.hyps)
      show "length (remove1 t ths) < length ths" using length_pos_if_in_set [OF t(1)] t(1)
        by (simp add: length_remove1)
      show "currentThread s1 = 0 \<or> currentThread s1 \<in> set (remove1 t ths)" using w(1) less.prems(2) tc by auto
    qed (use r1 t1 s1(2) in simp_all)
    then obtain t' s' R where R: "reap_stopped t1 s1 = Some (t', s')" "without R s1 s'" "R \<subseteq> {u. tstate s1 u = Stopped}"
      "R \<subseteq> set (remove1 t ths) - {currentThread s1}" "threads_ok s' (filter (\<lambda>u. u \<notin> R) (remove1 t ths))"
      "next_thread s' (filter (\<lambda>u. u \<notin> R) (remove1 t ths)) = Some t'" "runnable s1 t'" "t' \<notin> R"
      "search_order s' (filter (\<lambda>u. u \<notin> R) (remove1 t ths)) = filter (\<lambda>u. u \<notin> R) (search_order s1 (remove1 t ths))"
      "R \<subseteq> set (takeWhile (\<lambda>u. \<not> runnable s1 u) (search_order s1 (remove1 t ths)))"
      by blast
    have "t \<noteq> hd ths" if c0: "currentThread s = 0"
    proof
      assume h: "t = hd ths"
      obtain x xs where ths: "ths = x # xs" using t(1) by (cases ths) auto
      have so: "next_thread s ths = find (\<lambda>t. tstate s t \<noteq> Blocked) (xs @ [x])"
        by (simp add: next_thread_order ths search_order_none [OF c0])
      have "r \<in> set xs" using less.prems(3) rt h by (auto simp: ths)
      then obtain y where "find (\<lambda>t. tstate s t \<noteq> Blocked) xs = Some y" "y \<in> set xs"
        using less.prems(4) by (cases "find (\<lambda>t. tstate s t \<noteq> Blocked) xs") (auto simp: find_None_iff find_Some_iff runnable_def)
      then show False
        using so less.prems(5) find_append_found [of "\<lambda>t. tstate s t \<noteq> Blocked" xs y "[x]"] h threads_okD(2) [OF less.prems(1)]
        by (simp add: ths)
    qed
    then have so: "search_order s1 (remove1 t ths) = remove1 t (search_order s ths)"
      using search_order_remove [OF threads_okD(2) [OF less.prems(1)] less.prems(2) w(1) tc t(1)] by blast
    have dso: "distinct (search_order s ths)" using threads_okD(2) [OF less.prems(1)] by (simp add: search_order_def)
    have rmo: "remove1 t (search_order s ths) = filter (\<lambda>u. u \<noteq> t) (search_order s ths)"
      using dso by (simp add: distinct_remove1_removeAll removeAll_filter_not_eq) metis
    have tw: "set (takeWhile (\<lambda>u. \<not> runnable s1 u) (remove1 t (search_order s ths))) \<subseteq>
        set (takeWhile (\<lambda>u. \<not> runnable s u) (search_order s ths))"
    proof -
      have "takeWhile (\<lambda>u. \<not> runnable s1 u) (remove1 t (search_order s ths)) =
          takeWhile (\<lambda>u. \<not> runnable s u) (remove1 t (search_order s ths))"
        by (rule takeWhile_cong) (use ts in \<open>auto simp: rmo runnable_def\<close>)
      then show ?thesis using True by (simp add: takeWhile_remove1 runnable_def)
    qed
    have first: "t \<in> set (takeWhile (\<lambda>u. \<not> runnable s u) (search_order s ths))"
      by (rule find_takeWhile [OF less.prems(5) [unfolded next_thread_order]]) (use True in \<open>auto simp: runnable_def\<close>)
    have "t' \<in> set (remove1 t ths)" using next_thread_in [OF R(6)] by simp
    then have t't: "t' \<noteq> t" by (simp add: rm)
    have "t \<notin> R" using R(4) by (auto simp: rm)
    have fl: "filter (\<lambda>u. u \<notin> R) (remove1 t ths) = filter (\<lambda>u. u \<notin> insert t R) ths"
      unfolding rm by (simp add: conj_commute)
    have "reap_stopped t s = Some (t', s')"
      using th st True s1(1) R(1) GetNextReadyThread_refines [OF s1(2)] t1 by (subst reap_stopped.simps) simp
    moreover have "without (insert t R) s s'" using without_trans [OF s1(3) R(2)] by simp
    moreover have "insert t R \<subseteq> {u. tstate s u = Stopped}"
    proof
      fix u assume u: "u \<in> insert t R"
      show "u \<in> {u. tstate s u = Stopped}"
      proof (cases "u = t")
        case False
        with u R(3) ts [OF False] show ?thesis by auto
      qed (simp add: True)
    qed
    moreover have "insert t R \<subseteq> set ths - {currentThread s}" using R(4) t tc w(1) by (auto simp: rm)
    moreover have "filter (\<lambda>u. u \<notin> R) (search_order s1 (remove1 t ths)) = filter (\<lambda>u. u \<notin> insert t R) (search_order s ths)"
      unfolding so rmo by (simp add: conj_commute)
    moreover have "insert t R \<subseteq> set (takeWhile (\<lambda>u. \<not> runnable s u) (search_order s ths))"
      using R(10) first tw unfolding so by blast
    ultimately show ?thesis
      using R(5-9) t't w(10) [of t'] unfolding fl
      by (intro exI [of _ t'] exI [of _ s'] exI [of _ "insert t R"]) (simp add: runnable_def)
  qed
qed


text \<open>What a switch does to the thread it leaves.\<close>

definition left_thread :: "u32 \<Rightarrow> sched \<Rightarrow> u32 \<rightharpoonup> Thread" where
  "left_thread esp s =
     (let c = currentThread s in
      if c \<noteq> 0 \<and> tstate s c = Stopped then (threads s)(c := None)
      else if esp \<ge> KERNEL_HEAP_START then (threads s)(c := map_option (\<lambda>th. th\<lparr>regsPtr := esp\<rparr>) (threads s c))
      else threads s)"

definition left_list :: "sched \<Rightarrow> u32 list \<Rightarrow> u32 list" where
  "left_list s ths = filter (\<lambda>u. \<not> (u = currentThread s \<and> tstate s u = Stopped)) ths"

lemma leave_current_spec:
  assumes ok: "sched_ok s ths" and esp: "currentThread s \<noteq> 0 \<or> esp < KERNEL_HEAP_START"
  obtains s' ns q where "leave_current esp s = Some s'" and "threads_ok s' (left_list s ths)"
    and "s' = s\<lparr>nodes := ns, threadsList := q, threads := left_thread esp s\<rparr>"
proof (cases "currentThread s = 0")
  case True
  have "0 \<notin> set ths" using ok by (simp add: sched_ok_def threads_ok_def)
  then have "left_list s ths = ths" using True by (auto simp: left_list_def intro: filter_True)
  moreover have "\<not> KERNEL_HEAP_START \<le> esp" using esp True by simp
  ultimately show ?thesis using that [of s "threadsList s" "nodes s"] True ok
    by (simp add: leave_current_def left_thread_def sched_ok_def)
next
  case c: False
  have tok: "threads_ok s ths" and cin: "currentThread s \<in> set ths" using ok c by (auto simp: sched_ok_def)
  obtain th where th: "threads s (currentThread s) = Some th" "fetch_thread s (currentThread s) = Some th"
    using threads_okD(5) [OF tok cin] by blast
  then have st: "state th = tstate s (currentThread s)" by (simp add: tstate_def)
  show ?thesis
  proof (cases "tstate s (currentThread s) = Stopped")
    case True
    have "remove1 (currentThread s) ths = left_list s ths"
      using threads_okD(2) [OF tok] True
      by (auto simp: left_list_def distinct_remove1_removeAll removeAll_filter_not_eq intro!: filter_cong)
    then obtain s' where d: "drop_thread (currentThread s) s = Some s'" "threads_ok s' (left_list s ths)"
      and s': "s' = s\<lparr>nodes := nodes s', threadsList := threadsList s', threads := (threads s)(currentThread s := None)\<rparr>"
      using drop_thread_removes [OF tok, of "currentThread s"] by metis
    have l: "left_thread esp s = (threads s)(currentThread s := None)"
      using c True by (simp add: left_thread_def)
    show ?thesis
    proof (rule that [of s' "threadsList s'" "nodes s'"])
      show "leave_current esp s = Some s'" using c th(2) st True d(1) by (simp add: leave_current_def)
      show "threads_ok s' (left_list s ths)" by (rule d(2))
      show "s' = s\<lparr>nodes := nodes s', threadsList := threadsList s', threads := left_thread esp s\<rparr>"
        unfolding l by (rule s')
    qed
  next
    case False
    have l: "left_list s ths = ths" using False by (auto simp: left_list_def intro: filter_True)
    let ?s = "s\<lparr>threads := left_thread esp s\<rparr>"
    have "threads_ok ?s ths" by (rule threads_ok_cong [OF tok]) (auto simp: left_thread_def Let_def False)
    moreover have "leave_current esp s = Some ?s"
      using c th st False by (simp add: leave_current_def left_thread_def store_thread_def)
    ultimately show ?thesis by (intro that [of ?s "threadsList s" "nodes s"]) (simp_all only: l, simp)
  qed
qed

text \<open>What a switch needs of the thread it enters, and what it does to it.\<close>

definition enterable :: "sched \<Rightarrow> u32 \<Rightarrow> bool" where
  "enterable s t \<longleftrightarrow> (let p = parent (the (threads s t)) in
     (tstate s t = Started \<longrightarrow> p \<noteq> 0) \<and> (p \<noteq> 0 \<longrightarrow> p \<in> dom (procs s)))"

definition user_start :: "sched \<Rightarrow> u32 \<Rightarrow> bool" where
  "user_start s t \<longleftrightarrow> tstate s t = Started \<and> isUserspace (the (procs s (parent (the (threads s t)))))"

definition entered_cr3 :: "sched \<Rightarrow> u32 \<Rightarrow> u32" where
  "entered_cr3 s t = (let p = parent (the (threads s t)); d = pageDirPhys (the (procs s p)) in
     if user_start s t \<or> p \<noteq> 0 \<and> d \<noteq> 0 then d else cr3 (vmem s))"

definition entered_exit :: "sched \<Rightarrow> u32 \<Rightarrow> sched_exit" where
  "entered_exit s t = (let th = the (threads s t) in
     if user_start s t
     then EnterUser (get_reg (mem s) (regsPtr th) R_eip) (userStack th + userStackSize th)
       (get_reg (mem s) (regsPtr th) R_eflags)
     else Resume (regsPtr th))"

definition entered_state :: "sched \<Rightarrow> u32 \<Rightarrow> sched" where
  "entered_state s t = (let th = the (threads s t) in
     (if user_start s t
      then s\<lparr>threads := (threads s)(t \<mapsto> th\<lparr>state := Ready\<rparr>), enabled := True, sports := outb 0x20 0x20 (sports s)\<rparr>
      else s)
     \<lparr>currentThread := t, gdts := SetTSS 0x10 (stack th + THREAD_STACK_SIZE) (gdts s),
       vmem := (vmem s)\<lparr>cr3 := entered_cr3 s t\<rparr>\<rparr>)"

lemma enter_next_spec:
  assumes "fetch_thread s t = Some th" and "enterable s t"
  shows "enter_next t s = Some (entered_exit s t, entered_state s t)"
proof -
  have t: "t \<noteq> 0" "threads s t = Some th" using fetch_threadD [OF assms(1)] by auto
  have v: "vmem_update (\<lambda>_. vmem s) x = x" if "vmem x = vmem s" for x :: sched using that by (cases x) simp
  show ?thesis
  proof (cases "parent th = 0")
    case True
    then show ?thesis using assms t
      by (simp add: enter_next_def enterable_def entered_exit_def entered_state_def entered_cr3_def user_start_def
        tstate_def fetch_thread_def Let_def)
  next
    case False
    then obtain p where "procs s (parent th) = Some p" using assms t by (auto simp: enterable_def)
    then show ?thesis using False assms t
      by (cases "state th = Started"; cases "isUserspace p"; cases "pageDirPhys p = 0")
        (simp_all add: enter_next_def enterable_def entered_exit_def entered_state_def entered_cr3_def user_start_def
          tstate_def fetch_thread_def fetch_proc_def store_thread_def InitialThreadUserJump_def
          SwitchPageDirectory_def Let_def)
  qed
qed

end
