(* ===== verification/OS_Switching.thy ===== *)
theory OS_Switching
  imports OS_Scheduler
begin

text \<open>
  What the timer interrupt does to the scheduler of scheduler.cpp: the refinement of
  \<open>HandleInterrupt\<close> to a tick (\<open>ticked\<close>) followed, at every thirtieth tick, by a switch
  (\<open>switch_from\<close>), the invariant of the states the scheduler can reach (\<open>sched_step\<close>,
  \<open>sched_reachable\<close>), round robin over runs of interrupts, and the properties of the scheduler.
\<close>

section \<open>The timer interrupt\<close>

text \<open>The state after a tick has been counted and the sleeping threads have been served.\<close>

definition ticked :: "u32 list \<Rightarrow> sched \<Rightarrow> sched" where
  "ticked ths s = (if switchForced s then s\<lparr>switchForced := False\<rparr> else tick_all (set ths) s)
     \<lparr>tickCount := tickCount s + 1\<rparr>"

lemma ticked_simps [simp]:
  "threadsList (ticked ths s) = threadsList s" "nodes (ticked ths s) = nodes s"
  "currentThread (ticked ths s) = currentThread s" "enabled (ticked ths s) = enabled s"
  "tickCount (ticked ths s) = tickCount s + 1" 
  "vmem (ticked ths s) = vmem s" "gdts (ticked ths s) = gdts s" "procs (ticked ths s) = procs s"
  by (simp_all add: ticked_def tick_all_def)

lemma ticked_ok: "threads_ok s ths \<Longrightarrow> threads_ok (ticked ths s) ths"
  unfolding ticked_def using tick_all_ok [of s ths "set ths"] by (simp add: threads_ok_def)

text \<open>The rest of an interrupt that switches.\<close>

definition switch_from :: "u32 \<Rightarrow> sched \<Rightarrow> (sched_exit \<times> sched) option" where
  "switch_from esp s = do {
     nextThread \<leftarrow> GetNextReadyThread s;
     (nextThread, s) \<leftarrow> reap_stopped nextThread s;
     s \<leftarrow> leave_current esp s;
     enter_next nextThread s
   }"

lemma tick_all_tickCount: "tick_all T (s\<lparr>tickCount := x\<rparr>) = (tick_all T s)\<lparr>tickCount := x\<rparr>"
  by (simp add: tick_all_def cong: if_cong)

lemma tick_phase:
  assumes "threads_ok s ths"
  defines "s1 \<equiv> s\<lparr>tickCount := tickCount s + 1\<rparr>"
  shows "(if \<not> switchForced s1 then ProcessSleepingThreads s1 else Some (s1\<lparr>switchForced := False\<rparr>)) = Some (ticked ths s)"
proof -
  have "threads_ok s1 ths" using assms by (simp add: threads_ok_def)
  from ProcessSleepingThreads_ticks [OF this] show ?thesis by (simp add: s1_def ticked_def tick_all_tickCount)
qed

lemma HandleInterrupt_cases:
  assumes ok: "threads_ok s ths"
  shows "HandleInterrupt esp s =
    (if tickCount s + 1 = 30 then
       (if ths \<noteq> [] \<and> enabled s then switch_from esp ((ticked ths s)\<lparr>tickCount := 0\<rparr>)
        else Some (Resume esp, (ticked ths s)\<lparr>tickCount := 0\<rparr>))
     else Some (Resume esp, ticked ths s))"
proof -
  have "q_size (threadsList s) > 0 \<longleftrightarrow> ths \<noteq> []" using threads_okD(3) [OF ok] by simp
  then show ?thesis using tick_phase [OF ok] by (simp add: HandleInterrupt_def switch_from_def Let_def)
qed

lemma reap_stopped_none:
  assumes "threads_ok s ths" and "\<forall>u\<in>set ths. \<not> runnable s u" and "next_thread s ths = Some t"
  shows "reap_stopped t s = None"
  using assms
proof (induction "length ths" arbitrary: s ths t rule: less_induct)
  case less
  have t: "t \<in> set ths" "tstate s t = Stopped"
    using next_thread_in [OF less.prems(3)] next_thread_not_blocked [OF less.prems(3)] less.prems(2)
    by (auto simp: runnable_def)
  obtain th where th: "threads s t = Some th" "fetch_thread s t = Some th"
    using threads_okD(5) [OF less.prems(1) t(1)] by blast
  obtain s1 where s1: "drop_thread t s = Some s1" "threads_ok s1 (remove1 t ths)" "without {t} s s1"
    by (rule without_one [OF less.prems(1)])
  have none: "\<forall>u\<in>set (remove1 t ths). \<not> runnable s1 u"
  proof
    fix u assume u: "u \<in> set (remove1 t ths)"
    then have "u \<in> set ths" "u \<noteq> t" using threads_okD(2) [OF less.prems(1)] by auto
    then show "\<not> runnable s1 u" using less.prems(2) withoutD(10) [OF s1(3), of u]
      by (simp add: runnable_def)
  qed
  have len: "length (remove1 t ths) < length ths" using length_pos_if_in_set [OF t(1)] t(1)
    by (simp add: length_remove1)
  have "GetNextReadyThread s1 \<bind> (\<lambda>n. reap_stopped n s1) = None"
  proof (cases "next_thread s1 (remove1 t ths)")
    case (Some t1)
    then show ?thesis using less.hyps [OF len s1(2) none Some] GetNextReadyThread_refines [OF s1(2)] by simp
  qed (simp add: GetNextReadyThread_refines [OF s1(2)])
  then show ?case using th t(2) s1(1) by (subst reap_stopped.simps) (simp add: tstate_def)
qed

lemma switch_from_none:
  assumes "threads_ok s ths" and "\<forall>u\<in>set ths. \<not> runnable s u"
  shows "switch_from esp s = None"
  using reap_stopped_none [OF assms] GetNextReadyThread_refines [OF assms(1)]
  by (cases "next_thread s ths") (simp_all add: switch_from_def)

text \<open>The threads that a switch takes out: the stopped ones that the search meets before the thread
  it chooses, and the current one when it has stopped.\<close>

definition removed :: "sched \<Rightarrow> u32 list \<Rightarrow> u32 set" where
  "removed s ths = {u. tstate s u = Stopped \<and>
     (u \<in> set (takeWhile (\<lambda>u. \<not> runnable s u) (search_order s ths)) \<or> u = currentThread s \<and> u \<noteq> 0)}"

text \<open>What stands before the element that is found does not qualify.\<close>

lemma before_find:
  assumes "find P (filter Q xs) = Some t" and "u \<in> set (takeWhile (\<lambda>u. \<not> R u) xs)" and "R t" and "Q u"
  shows "\<not> P u"
  using assms by (induction xs) (auto split: if_splits)

lemma find_filter:
  assumes "find P (filter Q xs) = Some t" and "\<And>u. \<not> Q u \<Longrightarrow> \<not> R u" and "\<And>u. \<not> P u \<Longrightarrow> \<not> R u" and "R t"
  shows "find R xs = Some t"
  using assms by (induction xs) (auto split: if_splits)

text \<open>When some thread can run, the interrupt leaves the current thread and enters the next.\<close>

lemma switch_from_finds:
  assumes ok: "sched_ok s ths" and "r \<in> set ths" and "runnable s r"
  obtains R s1 t where "R \<subseteq> set ths - {currentThread s}" and "R \<subseteq> {u. tstate s u = Stopped}" and "without R s s1"
    and "sched_ok s1 (filter (\<lambda>u. u \<notin> R) ths)" and "next_thread s1 (filter (\<lambda>u. u \<notin> R) ths) = Some t"
    and "runnable s t" and "t \<in> set ths - R"
    and "find (runnable s) (search_order s ths) = Some t" and "R = removed s ths - {currentThread s}"
    and "switch_from esp s = leave_current esp s1 \<bind> enter_next t"
proof -
  have tok: "threads_ok s ths" and cur: "currentThread s = 0 \<or> currentThread s \<in> set ths"
    using ok by (auto simp: sched_ok_def)
  obtain t0 where t0: "next_thread s ths = Some t0"
    using next_thread_exists [OF assms(2), of s] assms(3) by (auto simp: runnable_def)
  obtain t s1 R where R: "reap_stopped t0 s = Some (t, s1)" "without R s s1" "R \<subseteq> {u. tstate s u = Stopped}"
    "R \<subseteq> set ths - {currentThread s}" "threads_ok s1 (filter (\<lambda>u. u \<notin> R) ths)"
    "next_thread s1 (filter (\<lambda>u. u \<notin> R) ths) = Some t" "runnable s t" "t \<notin> R"
    "search_order s1 (filter (\<lambda>u. u \<notin> R) ths) = filter (\<lambda>u. u \<notin> R) (search_order s ths)"
    "R \<subseteq> set (takeWhile (\<lambda>u. \<not> runnable s u) (search_order s ths))"
    using reap_stopped_finds [OF tok cur assms(2,3) t0] by blast
  have nb: "find (\<lambda>u. tstate s1 u \<noteq> Blocked) (filter (\<lambda>u. u \<notin> R) (search_order s ths)) = Some t"
    using R(6) by (simp add: next_thread_order R(9))
  have f: "find (runnable s) (search_order s ths) = Some t"
  proof (rule find_filter [OF nb])
    show "\<not> runnable s u" if "\<not> u \<notin> R" for u using that R(3) by (auto simp: runnable_def)
    show "\<not> runnable s u" if "\<not> tstate s1 u \<noteq> Blocked" for u
      using that R(3) withoutD(10) [OF R(2), of u] by (cases "u \<in> R") (auto simp: runnable_def)
  qed (rule R(7))
  have same: "tstate s1 u = tstate s u" if "u \<notin> R" for u using withoutD(10) [OF R(2) that] .
  have all: "u \<in> R" if u: "u \<in> set (takeWhile (\<lambda>u. \<not> runnable s u) (search_order s ths))" "tstate s u = Stopped" for u
  proof (rule ccontr)
    assume nR: "u \<notin> R"
    then have "\<not> (tstate s1 u \<noteq> Blocked)"
      by (intro before_find [OF nb u(1)]) (use R(7) in auto)
    then show False using same [OF nR] u(2) by simp
  qed
  show ?thesis
  proof (rule that)
    show "sched_ok s1 (filter (\<lambda>u. u \<notin> R) ths)"
      using R(4,5) cur withoutD(1) [OF R(2)] by (auto simp: sched_ok_def)
    show "t \<in> set ths - R" using next_thread_in [OF R(6)] by simp
    show "R = removed s ths - {currentThread s}" using R(3,4,10) all by (auto simp: removed_def)
    show "switch_from esp s = leave_current esp s1 \<bind> enter_next t"
      using R(1) t0 GetNextReadyThread_refines [OF tok] by (simp add: switch_from_def)
  qed (use R f in blast)+
qed

lemma leave_current_needs: "leave_current esp s = Some s' \<Longrightarrow> currentThread s \<noteq> 0 \<or> esp < KERNEL_HEAP_START"
  by (auto simp: leave_current_def fetch_thread_def split: if_splits)

lemma enter_next_needs:
  assumes "enter_next t s = Some x"
  shows "enterable s t" and "\<exists>th. fetch_thread s t = Some th"
proof -
  from assms show th: "\<exists>th. fetch_thread s t = Some th"
    by (auto simp: enter_next_def fetch_thread_def Let_def elim!: bind_eq_SomeE)
  then obtain th where th: "fetch_thread s t = Some th" by blast
  note d = fetch_threadD [OF th]
  have "parent th \<in> dom (procs s)" if "parent th \<noteq> 0"
    using assms th d that by (cases "state th = Started")
      (auto simp: enter_next_def fetch_proc_def fetch_thread_def InitialThreadUserJump_def store_thread_def Let_def
        split: if_splits elim!: bind_eq_SomeE)
  moreover have "parent th \<noteq> 0" if "state th = Started"
    using assms th d that by (auto simp: enter_next_def fetch_proc_def fetch_thread_def Let_def elim!: bind_eq_SomeE)
  ultimately show "enterable s t" using d by (auto simp: enterable_def tstate_def)
qed


text \<open>What holds after a switch, for the state \<open>s\<close> in which the next thread is chosen: the
  thread entered is the first in the search order that can run, the threads removed are those of
  \<open>removed\<close>, the thread left keeps its stack pointer if it stays, and the processor is set up for the
  thread entered.\<close>

definition saved :: "u32 \<Rightarrow> sched \<Rightarrow> u32 \<Rightarrow> Thread \<Rightarrow> Thread" where
  "saved esp s u th = (if u = currentThread s \<and> esp \<ge> KERNEL_HEAP_START then th\<lparr>regsPtr := esp\<rparr> else th)"

definition switched :: "u32 \<Rightarrow> sched \<Rightarrow> u32 list \<Rightarrow> sched_exit \<Rightarrow> sched \<Rightarrow> u32 list \<Rightarrow> bool" where
  "switched esp s ths ex s' ths' \<longleftrightarrow>
     (let t = currentThread s'; th = the (threads s' t); p = the (procs s (parent th)) in
      t \<in> set ths' \<and> runnable s t \<and>
      find (runnable s) (search_order s ths) = Some t \<and>
      ths' = filter (\<lambda>u. u \<notin> removed s ths) ths \<and>
      (\<forall>u\<in>set ths - set ths'. threads s' u = None) \<and>
      (\<forall>u\<in>set ths'. threads s' u = map_option (\<lambda>th. if u = t \<and> user_start s t
         then (saved esp s u th)\<lparr>state := Ready\<rparr> else saved esp s u th) (threads s u)) \<and>
      procs s' = procs s \<and> (enabled s \<longrightarrow> enabled s') \<and>
      tss_ss0 (tss (gdts s')) = 0x10 \<and> tss_esp0 (tss (gdts s')) = stack th + 4096 \<and>
      (parent th \<noteq> 0 \<and> pageDirPhys p \<noteq> 0 \<longrightarrow> cr3 (vmem s') = pageDirPhys p) \<and>
      ex = (if user_start s t then EnterUser (get_reg (mem s) (regsPtr th) R_eip)
         (userStack th + userStackSize th) (get_reg (mem s) (regsPtr th) R_eflags)
       else Resume (regsPtr th)))"

lemma switchedD:
  assumes "switched esp s ths ex s' ths'"
  shows "currentThread s' \<in> set ths'" and "runnable s (currentThread s')"
    and "find (runnable s) (search_order s ths) = Some (currentThread s')"
    and "filter (\<lambda>u. u \<in> set ths') ths = ths'"
    and "\<forall>u\<in>set ths - set ths'. tstate s u = Stopped \<and> threads s' u = None"
    and "\<forall>u\<in>set ths'. threads s' u = map_option (\<lambda>th. if u = currentThread s' \<and> user_start s (currentThread s')
         then (saved esp s u th)\<lparr>state := Ready\<rparr> else saved esp s u th) (threads s u)"
    and "procs s' = procs s" and "enabled s \<longrightarrow> enabled s'" and "ths' = filter (\<lambda>u. u \<notin> removed s ths) ths"
proof -
  show f: "ths' = filter (\<lambda>u. u \<notin> removed s ths) ths"
    by (insert assms, unfold switched_def Let_def, elim conjE, assumption)
  show "filter (\<lambda>u. u \<in> set ths') ths = ths'" unfolding f by (auto intro!: filter_cong)
  have "\<forall>u\<in>set ths - set ths'. threads s' u = None"
    by (insert assms, unfold switched_def Let_def, elim conjE, assumption)
  then show "\<forall>u\<in>set ths - set ths'. tstate s u = Stopped \<and> threads s' u = None"
    unfolding f by (auto simp: removed_def)
qed (insert assms, unfold switched_def Let_def, elim conjE; (assumption | erule sym))+

text \<open>Leaving the current thread changes neither what it is nor where it belongs.\<close>

lemma left_thread_at:
  "left_thread esp s u = (if u = currentThread s \<and> u \<noteq> 0 \<and> tstate s u = Stopped then None
     else if u = currentThread s \<and> esp \<ge> KERNEL_HEAP_START then map_option (\<lambda>th. th\<lparr>regsPtr := esp\<rparr>) (threads s u)
     else threads s u)"
  by (auto simp: left_thread_def Let_def)

lemma switch_from_leaves:
  assumes ok: "sched_ok s ths" and "r \<in> set ths" and "runnable s r"
    and esp: "currentThread s \<noteq> 0 \<or> esp < KERNEL_HEAP_START"
  obtains R ns q t ths' where "switch_from esp s =
      enter_next t (s\<lparr>nodes := ns, threadsList := q, threads := left_thread esp s |` (- R)\<rparr>)"
    and "threads_ok (s\<lparr>nodes := ns, threadsList := q, threads := left_thread esp s |` (- R)\<rparr>) ths'"
    and "ths' = filter (\<lambda>u. u \<notin> R \<and> \<not> (u = currentThread s \<and> tstate s u = Stopped)) ths"
    and "ths' = filter (\<lambda>u. u \<notin> removed s ths) ths"
    and "R \<subseteq> set ths - {currentThread s}" and "R \<subseteq> {u. tstate s u = Stopped}"
    and "runnable s t" and "t \<in> set ths'"
    and "find (runnable s) (search_order s ths) = Some t"
proof -
  obtain R s1 t where R: "R \<subseteq> set ths - {currentThread s}" "R \<subseteq> {u. tstate s u = Stopped}" "without R s s1"
    "sched_ok s1 (filter (\<lambda>u. u \<notin> R) ths)" "runnable s t" "t \<in> set ths - R"
    "switch_from esp s = leave_current esp s1 \<bind> enter_next t"
    "find (runnable s) (search_order s ths) = Some t" "R = removed s ths - {currentThread s}"
    using switch_from_finds [OF ok assms(2,3)] by metis
  note w = withoutD [OF R(3)]
  have "currentThread s1 \<noteq> 0 \<or> esp < KERNEL_HEAP_START" using esp w(1) by simp
  from leave_current_spec [OF R(4) this] obtain s2 ns q where s2: "leave_current esp s1 = Some s2"
    "threads_ok s2 (left_list s1 (filter (\<lambda>u. u \<notin> R) ths))"
    "s2 = s1\<lparr>nodes := ns, threadsList := q, threads := left_thread esp s1\<rparr>" by metis
  have cR: "currentThread s \<notin> R" using R(1) by auto
  have "left_thread esp s1 = left_thread esp s |` (- R)"
    using w(9,10) cR by (intro ext) (auto simp: left_thread_at w(1) restrict_map_def)
  with s2(3) R(3) have s2': "s2 = s\<lparr>nodes := ns, threadsList := q, threads := left_thread esp s |` (- R)\<rparr>"
    by (auto simp: without_def)
  have l: "left_list s1 (filter (\<lambda>u. u \<notin> R) ths) =
      filter (\<lambda>u. u \<notin> R \<and> \<not> (u = currentThread s \<and> tstate s u = Stopped)) ths"
    using w(1) w(10) [OF cR] by (auto simp: left_list_def intro!: filter_cong)
  show ?thesis
  proof (rule that)
    show "switch_from esp s = enter_next t (s\<lparr>nodes := ns, threadsList := q, threads := left_thread esp s |` (- R)\<rparr>)"
      using R(7) s2(1) s2' by simp
    show "threads_ok (s\<lparr>nodes := ns, threadsList := q, threads := left_thread esp s |` (- R)\<rparr>)
        (filter (\<lambda>u. u \<notin> R \<and> \<not> (u = currentThread s \<and> tstate s u = Stopped)) ths)"
      using s2(2) unfolding s2' l .
    show "t \<in> set (filter (\<lambda>u. u \<notin> R \<and> \<not> (u = currentThread s \<and> tstate s u = Stopped)) ths)"
      using R(5,6) by (auto simp: runnable_def)
    show "filter (\<lambda>u. u \<notin> R \<and> \<not> (u = currentThread s \<and> tstate s u = Stopped)) ths =
        filter (\<lambda>u. u \<notin> removed s ths) ths"
      using ok by (intro filter_cong refl) (auto simp: R(9) removed_def sched_ok_def threads_ok_def)
  qed (use R in \<open>simp_all add: removed_def\<close>)
qed

lemma entered_state_ok:
  assumes "threads_ok s ths" and "t \<in> set ths"
  shows "sched_ok (entered_state s t) ths"
proof -
  have "threads_ok (entered_state s t) ths"
    by (rule threads_ok_cong [OF assms(1)]) (auto simp: entered_state_def Let_def)
  moreover have "currentThread (entered_state s t) = t" by (simp add: entered_state_def Let_def)
  ultimately show ?thesis using assms(2) by (simp add: sched_ok_def)
qed

lemma switch_from_switched:
  assumes ok: "sched_ok s ths" and r: "r \<in> set ths" "runnable s r"
    and esp: "currentThread s \<noteq> 0 \<or> esp < KERNEL_HEAP_START"
    and ent: "\<forall>t\<in>set ths. runnable s t \<longrightarrow> enterable s t"
  shows "\<exists>ex s' ths'. switch_from esp s = Some (ex, s') \<and> sched_ok s' ths' \<and> switched esp s ths ex s' ths' \<and>
    tickCount s' = tickCount s \<and> switchForced s' = switchForced s"
proof -
  obtain R ns q t ths' where l: "switch_from esp s =
      enter_next t (s\<lparr>nodes := ns, threadsList := q, threads := left_thread esp s |` (- R)\<rparr>)"
    "threads_ok (s\<lparr>nodes := ns, threadsList := q, threads := left_thread esp s |` (- R)\<rparr>) ths'"
    "ths' = filter (\<lambda>u. u \<notin> R \<and> \<not> (u = currentThread s \<and> tstate s u = Stopped)) ths"
    and rm: "ths' = filter (\<lambda>u. u \<notin> removed s ths) ths"
    and l': "R \<subseteq> set ths - {currentThread s}" "R \<subseteq> {u. tstate s u = Stopped}" "runnable s t" "t \<in> set ths'"
    "find (runnable s) (search_order s ths) = Some t"
    by (rule switch_from_leaves [OF ok r esp])
  note l = l l'
  let ?s = "s\<lparr>nodes := ns, threadsList := q, threads := left_thread esp s |` (- R)\<rparr>"
  have tin: "t \<in> set ths" "t \<notin> R" using l(3,7) by auto
  obtain th where th: "threads ?s t = Some th" "fetch_thread ?s t = Some th"
    using threads_okD(5) [OF l(2,7)] by blast
  have t0: "t \<noteq> 0" using threads_okD(4) [OF l(2,7)] .
  have lt: "left_thread esp s t = Some th" using th(1) tin by simp
  obtain th0 where th0: "threads s t = Some th0" "state th = state th0" "parent th = parent th0"
    using lt by (auto simp: left_thread_at split: if_splits)
  have ts: "tstate ?s t = tstate s t" using th(1) th0 by (simp add: tstate_def)
  have us: "user_start ?s t = user_start s t" using th(1) th0 by (simp add: user_start_def tstate_def)
  have "enterable s t" using ent l(6) tin by simp
  then have e: "enterable ?s t" using th(1) th0 by (simp add: enterable_def tstate_def)
  have cR: "currentThread s \<notin> R" using l(4) by auto
  have "switched esp s ths (entered_exit ?s t) (entered_state ?s t) ths'"
    unfolding switched_def
  proof (simp only: Let_def, intro conjI)
    have c: "currentThread (entered_state ?s t) = t" by (simp add: entered_state_def Let_def)
    show "currentThread (entered_state ?s t) \<in> set ths'" using l(7) c by simp
    show "runnable s (currentThread (entered_state ?s t))" using l(6) c by simp
    show "ths' = filter (\<lambda>u. u \<notin> removed s ths) ths" by (rule rm)
    show "find (runnable s) (search_order s ths) = Some (currentThread (entered_state ?s t))" using l(8) c by simp
    show "\<forall>u\<in>set ths - set ths'. threads (entered_state ?s t) u = None"
      using l(3,5) tin l(7) ok
      by (auto simp: entered_state_def Let_def left_thread_at restrict_map_def sched_ok_def threads_ok_def)
    show "\<forall>u\<in>set ths'. threads (entered_state ?s t) u = map_option (\<lambda>th.
        if u = currentThread (entered_state ?s t) \<and> user_start s (currentThread (entered_state ?s t))
        then (saved esp s u th)\<lparr>state := Ready\<rparr> else saved esp s u th) (threads s u)"
      unfolding c
    proof
      fix u assume u: "u \<in> set ths'"
      then have "(left_thread esp s |` (- R)) u = map_option (saved esp s u) (threads s u)"
        using l(3) by (cases "threads s u") (auto simp: left_thread_at saved_def)
      with u show "threads (entered_state ?s t) u = map_option (\<lambda>th. if u = t \<and> user_start s t
          then (saved esp s u th)\<lparr>state := Ready\<rparr> else saved esp s u th) (threads s u)"
        using th(1) us by (cases "threads s u") (auto simp: entered_state_def Let_def)
    qed
  qed (use th tin us lt in \<open>auto simp: entered_state_def entered_exit_def entered_cr3_def Let_def SetTSS_def
      THREAD_STACK_SIZE_def\<close>)
  moreover have "switch_from esp s = Some (entered_exit ?s t, entered_state ?s t)"
    unfolding l(1) by (rule enter_next_spec [OF th(2) e])
  moreover have "tickCount (entered_state ?s t) = tickCount s" "switchForced (entered_state ?s t) = switchForced s"
    by (simp_all add: entered_state_def Let_def)
  ultimately show ?thesis using entered_state_ok [OF l(2,7)] by blast
qed


section \<open>Steps of the whole scheduler\<close>

text \<open>What can happen to the scheduler: a timer interrupt, a new thread, a thread woken by
  another, and a thread changing its own state (there is no code for it here: a driver or a
  system call writes the fields).\<close>

inductive sched_step :: "sched \<Rightarrow> sched \<Rightarrow> bool" where
  irq: "HandleInterrupt esp s = Some (ex, s') \<Longrightarrow> sched_step s s'"
| add: "fresh_node n (thread_queue s) \<Longrightarrow> IndexOf t (thread_queue s) = Some (- 1) \<Longrightarrow>
    fetch_thread s t \<noteq> None \<Longrightarrow> AddThread n t force s = Some (ex, s') \<Longrightarrow> sched_step s s'"
| wake: "Unblock t force s = Some (ex, s') \<Longrightarrow> sched_step s s'"
| own: "fetch_thread s t = Some th \<Longrightarrow>
    sched_step s (store_thread t (th\<lparr>state := st, blockedState := b, timeDelta := d\<rparr>) s)"

inductive sched_reachable :: "sched \<Rightarrow> bool" where
  boot: "sched_init s = Some s' \<Longrightarrow> sched_reachable s'"
| later: "sched_reachable s \<Longrightarrow> sched_step s s' \<Longrightarrow> sched_reachable s'"

inductive_cases sched_stepE: "sched_step s s'"

definition sched_inv :: "sched \<Rightarrow> bool" where
  "sched_inv s \<longleftrightarrow> (\<exists>ths. sched_ok s ths) \<and> tickCount s < 30"

lemma HandleInterrupt_inv:
  assumes "sched_inv s" and h: "HandleInterrupt esp s = Some (ex, s')"
  shows "sched_inv s'"
proof -
  obtain ths where ok: "sched_ok s ths" and tc: "tickCount s < 30" using assms(1) by (auto simp: sched_inv_def)
  have tok: "threads_ok s ths" using ok by (simp add: sched_ok_def)
  have small: "tickCount s + 1 < 30" if "tickCount s + 1 \<noteq> 30"
    using tc that by unat_arith
  let ?s = "(ticked ths s)\<lparr>tickCount := 0\<rparr>"
  have tick_ok: "sched_ok (ticked ths s) ths" "sched_ok ?s ths"
    using ticked_ok [OF tok] ok by (simp_all add: sched_ok_def threads_ok_def)
  consider "tickCount s + 1 \<noteq> 30" "s' = ticked ths s" | "s' = ?s" | "switch_from esp ?s = Some (ex, s')"
    using h unfolding HandleInterrupt_cases [OF tok] by (auto split: if_splits)
  then show ?thesis
  proof cases
    case 3
    have "\<exists>r\<in>set ths. runnable ?s r"
    proof (rule ccontr)
      assume "\<not> (\<exists>r\<in>set ths. runnable ?s r)"
      with switch_from_none [of ?s ths esp] tick_ok(2) 3 show False by (simp add: sched_ok_def)
    qed
    then obtain r where r: "r \<in> set ths" "runnable ?s r" by blast
    obtain R s1 t where "without R ?s s1" "switch_from esp ?s = leave_current esp s1 \<bind> enter_next t"
      using switch_from_finds [OF tick_ok(2) r] by metis
    then obtain s2 where "leave_current esp s1 = Some s2" "currentThread s1 = currentThread ?s"
      using 3 withoutD(1) [of R ?s s1] by (metis bind_eq_SomeE)
    then have cu: "currentThread ?s \<noteq> 0 \<or> esp < KERNEL_HEAP_START" using leave_current_needs by metis
    let ?s2 = "\<lambda>R ns q. ?s\<lparr>nodes := ns, threadsList := q, threads := left_thread esp ?s |` (- R)\<rparr>"
    obtain R ns q t ths' where w: "switch_from esp ?s = enter_next t (?s2 R ns q)" "threads_ok (?s2 R ns q) ths'"
      "ths' = filter (\<lambda>u. u \<notin> R \<and> \<not> (u = currentThread ?s \<and> tstate ?s u = Stopped)) ths"
      "ths' = filter (\<lambda>u. u \<notin> removed ?s ths) ths"
      "R \<subseteq> set ths - {currentThread ?s}" "R \<subseteq> {u. tstate ?s u = Stopped}" "runnable ?s t" "t \<in> set ths'"
      "find (runnable ?s) (search_order ?s ths) = Some t"
      by (rule switch_from_leaves [OF tick_ok(2) r cu])
    then obtain s2 where l: "switch_from esp ?s = enter_next t s2" "threads_ok s2 ths'" "t \<in> set ths'" "tickCount s2 = 0"
      using that [of "?s2 R ns q"] by simp
    from l(1) 3 have e: "enter_next t s2 = Some (ex, s')" by simp
    then have "s' = entered_state s2 t"
      using enter_next_spec enter_next_needs [OF e] by (metis option.inject prod.inject)
    then show ?thesis using entered_state_ok [OF l(2,3)] l(4)
      by (auto simp: sched_inv_def entered_state_def Let_def)
  qed (use tick_ok small in \<open>auto simp: sched_inv_def\<close>)
qed


lemma sched_init_inv: "sched_init s = Some s' \<Longrightarrow> sched_inv s'"
proof -
  assume i: "sched_init s = Some s'"
  have "Clear_from 0 (nodes s) = Some (nodes s)" using Clear_from_refines [of "nodes s" 0 "[]"] by simp
  then have "s' = s\<lparr>threadsList := queue_init, currentThread := 0, tickCount := 0, switchForced := False, enabled := False\<rparr>"
    using i by (auto simp: sched_init_def Clear_def queue_init_def Let_def)
  moreover have "queue_holds (n, queue_init) []" for n :: "u32 nodes"
    using qrep_init [of n] by (auto simp: queue_holds_def qlist_def)
  ultimately show "sched_inv s'" by (auto simp: sched_inv_def sched_ok_def threads_ok_def intro!: exI [of _ "[]"])
qed

lemma store_thread_inv:
  assumes "sched_inv s"
  shows "sched_inv (store_thread t th s)"
proof -
  obtain ths where "sched_ok s ths" "tickCount s < 30" using assms by (auto simp: sched_inv_def)
  then have "sched_ok (store_thread t th s) ths" by (auto simp: sched_ok_def threads_ok_def store_thread_def)
  then show ?thesis using \<open>tickCount s < 30\<close> by (auto simp: sched_inv_def store_thread_def)
qed

lemma ForceSwitch_inv: "sched_inv s \<Longrightarrow> sched_inv (snd (ForceSwitch s))"
  by (auto simp: sched_inv_def ForceSwitch_def sched_ok_def threads_ok_def)

lemma Unblock_inv: "sched_inv s \<Longrightarrow> Unblock t force s = Some (ex, s') \<Longrightarrow> sched_inv s'"
  using ForceSwitch_inv store_thread_inv
  by (auto simp: Unblock_def Let_def split: if_splits elim!: bind_eq_SomeE) (metis snd_conv)

lemma AddThread_inv:
  assumes inv: "sched_inv s" and n: "fresh_node n (thread_queue s)" and i: "IndexOf t (thread_queue s) = Some (- 1)"
    and t: "fetch_thread s t \<noteq> None" and a: "AddThread n t force s = Some (ex, s')"
  shows "sched_inv s'"
proof -
  obtain ths where ok: "sched_ok s ths" and tc: "tickCount s < 30" using inv by (auto simp: sched_inv_def)
  have tok: "threads_ok s ths" using ok by (simp add: sched_ok_def)
  obtain q where q: "push_back n t (thread_queue s) = Some q" "queue_holds q (ths @ [t])"
    using lq.push_law [OF threads_okD(1) [OF tok] n] by blast
  have "t \<notin> set ths" using i lq.index_law [OF threads_okD(1) [OF tok], of t] index_from_in [of t ths 0] by fastforce
  moreover have tn: "t \<noteq> 0" "t \<in> dom (threads s)" using t by (auto simp: fetch_thread_def split: if_splits)
  ultimately have inv1: "sched_ok (s\<lparr>nodes := fst q, threadsList := snd q\<rparr>) (ths @ [t])"
    using ok q(2) by (auto simp: sched_ok_def threads_ok_def)
  then have i1: "sched_inv (s\<lparr>nodes := fst q, threadsList := snd q\<rparr>)" using tc by (auto simp: sched_inv_def)
  have iu: "sched_inv s'" if "InitialThreadUserJump t (s\<lparr>nodes := fst q, threadsList := snd q\<rparr>) = Some (ex, s')"
  proof -
    have "sched_ok s' (ths @ [t])" "tickCount s' = tickCount s" using that inv1
      by (auto simp: InitialThreadUserJump_def Let_def sched_ok_def threads_ok_def elim!: bind_eq_SomeE)
    then show ?thesis using tc by (auto simp: sched_inv_def)
  qed
  show ?thesis using a q(1) iu i1 ForceSwitch_inv [OF i1]
    by (auto simp: AddThread_def Let_def case_prod_beta split: if_splits elim!: bind_eq_SomeE)
qed

lemma sched_step_inv: "sched_step s s' \<Longrightarrow> sched_inv s \<Longrightarrow> sched_inv s'"
  by (induction rule: sched_step.induct) (blast intro: HandleInterrupt_inv AddThread_inv Unblock_inv store_thread_inv)+

section \<open>Round robin\<close>

text \<open>A run of timer interrupts, each with the stack pointer it is handed.\<close>

fun interrupts :: "u32 list \<Rightarrow> sched \<Rightarrow> sched option" where
  "interrupts [] s = Some s"
| "interrupts (esp # esps) s = HandleInterrupt esp s \<bind> (\<lambda>(ex, s). interrupts esps s)"

text \<open>Every thread is ready and belongs to a process that exists.\<close>

definition all_ready :: "sched \<Rightarrow> u32 list \<Rightarrow> nat \<Rightarrow> bool" where
  "all_ready s ths i \<longleftrightarrow> sched_ok s ths \<and> i < length ths \<and> currentThread s = ths ! i \<and> enabled s \<and>
     (\<forall>t\<in>set ths. tstate s t = Ready \<and> enterable s t)"

lemma interrupts_append: "interrupts (xs @ ys) s = interrupts xs s \<bind> interrupts ys"
  by (induction xs arbitrary: s) (auto simp: case_prod_beta split: bind_splits)

lemma all_ready_tick:
  assumes "all_ready s ths i"
  shows "all_ready ((ticked ths s)\<lparr>tickCount := c\<rparr>) ths i" and "ticked ths s = s\<lparr>switchForced := False, tickCount := tickCount s + 1\<rparr>"
proof -
  have "map_option tick (threads s t) = threads s t" if "t \<in> set ths" for t
    using assms that by (cases "threads s t") (auto simp: all_ready_def tstate_def)
  then have "tick_all (set ths) s = s" by (simp add: tick_all_def fun_eq_iff cong: if_cong)
  then show t: "ticked ths s = s\<lparr>switchForced := False, tickCount := tickCount s + 1\<rparr>"
    by (simp add: ticked_def)
  show "all_ready ((ticked ths s)\<lparr>tickCount := c\<rparr>) ths i" using assms unfolding t
    by (auto simp: all_ready_def sched_ok_def threads_ok_def tstate_def enterable_def)
qed

lemma all_ready_switch:
  assumes r: "all_ready s ths i"
  obtains ex s' where "switch_from esp s = Some (ex, s')" and "all_ready s' ths (Suc i mod length ths)"
    and "tickCount s' = tickCount s"
proof -
  let ?j = "Suc i mod length ths"
  have ok: "sched_ok s ths" and i: "i < length ths" and cur: "currentThread s = ths ! i" and en: "enabled s"
    and all: "\<forall>t\<in>set ths. tstate s t = Ready \<and> enterable s t" using r by (auto simp: all_ready_def)
  have run: "\<forall>t\<in>set ths. runnable s t" using all by (simp add: runnable_def)
  have d: "distinct ths" and nz: "ths ! i \<noteq> 0" using ok i by (auto simp: sched_ok_def threads_ok_def in_set_conv_nth)
  have cnz: "currentThread s \<noteq> 0" using nz cur by simp
  obtain ex s' ths' where s': "switch_from esp s = Some (ex, s')" "sched_ok s' ths'" "switched esp s ths ex s' ths'"
    "tickCount s' = tickCount s"
    using switch_from_switched [OF ok _ _ _, of "ths ! i" esp] run all i nz cur by auto
  note sw = switchedD [OF s'(3)]
  have f: "find (runnable s) (search_order s ths) = Some (currentThread s')" by (rule sw(3))
  have "set ths' = set ths"
  proof
    show "set ths' \<subseteq> set ths" using sw(4) by (metis filter_is_subset)
    show "set ths \<subseteq> set ths'"
    proof
      fix u assume "u \<in> set ths"
      with sw(5) all show "u \<in> set ths'" by (cases "u \<in> set ths'") auto
    qed
  qed
  then have ths': "ths' = ths" using sw(4) by simp
  note th = sw(6) and p = sw(7)
  have e: "enabled s'" using sw(8) en by simp
  have "search_order s ths ! 0 = ths ! ?j"
  proof -
    have ths: "ths = take i ths @ ths ! i # drop (Suc i) ths" using i by (rule id_take_nth_drop)
    have "search_order s ths = drop (Suc i) ths @ take i ths @ [ths ! i]"
      using search_order_current [of "take i ths" "ths ! i" "drop (Suc i) ths" s] d cur nz ths by metis
    then show ?thesis using i by (cases "Suc i = length ths") (auto simp: nth_append hd_conv_nth)
  qed
  moreover obtain y ys where y: "search_order s ths = y # ys"
    using i by (cases "search_order s ths") (auto simp: search_order_def)
  moreover have "runnable s y" using run y by (metis list.set_intros(1) set_search_order)
  ultimately have cur': "currentThread s' = ths ! ?j" using f by simp
  have "tstate s' t = Ready \<and> enterable s' t" if ti: "t \<in> set ths" for t
  proof -
    obtain x where x: "threads s t = Some x" using threads_okD(5) [of s ths t] ok ti by (auto simp: sched_ok_def)
    have "state (saved esp s t x) = state x" "parent (saved esp s t x) = parent x" by (simp_all add: saved_def)
    then show ?thesis using th x ti all p unfolding ths'
      by (auto simp: tstate_def enterable_def user_start_def)
  qed
  moreover have "?j < length ths" using i by (intro mod_less_divisor) auto
  ultimately have "all_ready s' ths ?j" using s'(2) e cur' unfolding ths' by (simp add: all_ready_def)
  with that s'(1,4) show ?thesis by blast
qed

lemma interrupts_quiet:
  assumes "all_ready s ths i" and "unat (tickCount s) + length esps < 30"
  shows "\<exists>s'. interrupts esps s = Some s' \<and> all_ready s' ths i \<and> tickCount s' = tickCount s + of_nat (length esps)"
  using assms
proof (induction esps arbitrary: s)
  case (Cons esp esps)
  have tok: "threads_ok s ths" using Cons.prems(1) by (simp add: all_ready_def sched_ok_def)
  let ?s = "(ticked ths s)\<lparr>tickCount := tickCount s + 1\<rparr>"
  have e: "ticked ths s = ?s" by (cases "switchForced s") (simp_all add: ticked_def)
  have lt: "unat (tickCount s) < 29" using Cons.prems(2) by simp
  then have u: "unat (tickCount s + 1) = Suc (unat (tickCount s))"
    using unat_succ [of "tickCount s" 29] by (simp add: word_less_nat_alt)
  then have "tickCount s + 1 \<noteq> 30" using lt by auto
  then have "HandleInterrupt esp s = Some (Resume esp, ?s)" using HandleInterrupt_cases [OF tok, of esp] e by simp
  moreover obtain s' where "interrupts esps ?s = Some s'" "all_ready s' ths i"
    "tickCount s' = tickCount ?s + of_nat (length esps)"
    using Cons.IH [OF all_ready_tick(1) [OF Cons.prems(1)], of "tickCount s + 1"] Cons.prems(2) u by auto
  ultimately show ?case by (auto simp: add.assoc)
qed simp

lemma interrupts_turn:
  assumes r: "all_ready s ths i" and "tickCount s = 0" and len: "length esps = 30"
  obtains s' where "interrupts esps s = Some s'" and "all_ready s' ths (Suc i mod length ths)" and "tickCount s' = 0"
proof -
  have esps: "esps = take 29 esps @ [esps ! 29]" using len by (simp add: take_Suc_conv_app_nth [symmetric])
  obtain s1 where s1: "interrupts (take 29 esps) s = Some s1" "all_ready s1 ths i" "tickCount s1 = 29"
    using interrupts_quiet [OF r, of "take 29 esps"] assms(2) len by auto
  have tok: "threads_ok s1 ths" "ths \<noteq> []" "enabled s1" using s1(2) by (auto simp: all_ready_def sched_ok_def)
  obtain ex s2 where s2: "switch_from (esps ! 29) ((ticked ths s1)\<lparr>tickCount := 0\<rparr>) = Some (ex, s2)"
    "all_ready s2 ths (Suc i mod length ths)" "tickCount s2 = 0"
    using all_ready_switch [OF all_ready_tick(1) [OF s1(2), of 0], of "esps ! 29"] by auto
  have "HandleInterrupt (esps ! 29) s1 = Some (ex, s2)"
    using HandleInterrupt_cases [OF tok(1)] tok s1(3) s2(1) by simp
  then have "interrupts esps s = Some s2" using s1(1) by (subst esps) (simp add: interrupts_append)
  with that s2 show ?thesis by blast
qed

text \<open>
  A concrete scheduler: two kernel threads, the first one running.
\<close>

definition demo_thread :: "u32 \<Rightarrow> Thread" where
  "demo_thread stk = \<lparr>parent = 0, stack = stk, userStack = 0, userStackSize = 0, state = Ready,
     blockedState = Unknown, regsPtr = stk + 4000, timeDelta = 0\<rparr>"

definition demo_queue :: "u32 qstate" where
  "demo_queue = ([0xD0000014 \<mapsto> \<lparr>q_data = 0xD0000100, q_next = 0xD0000054, q_prev = 0\<rparr>,
     0xD0000054 \<mapsto> \<lparr>q_data = 0xD0000200, q_next = 0, q_prev = 0xD0000014\<rparr>],
     \<lparr>q_head = 0xD0000014, q_tail = 0xD0000054, q_size = 2\<rparr>)"

definition demo_sched :: "gdt_state \<Rightarrow> ThreadState \<Rightarrow> u32 \<Rightarrow> sched" where
  "demo_sched g st n = \<lparr>nodes = fst demo_queue,
     threads = [0xD0000100 \<mapsto> demo_thread 0xD0001000,
       0xD0000200 \<mapsto> (demo_thread 0xD0002000)\<lparr>state := st, blockedState := SleepMS, timeDelta := 3\<rparr>],
     procs = Map.empty, mem = (\<lambda>_. 0), currentPID = 1, processes = queue_init,
     threadsList = snd demo_queue, currentThread = 0xD0000100, tickCount = n, switchForced = False,
     enabled = True, vmem = demo_vm 64, gdts = g, sports = []\<rparr>"

abbreviation demo_threads :: "u32 list" where
  "demo_threads \<equiv> [0xD0000100, 0xD0000200]"

lemma demo_sched_ok: "sched_ok (demo_sched g st n) demo_threads" and demo_threads_ok: "threads_ok (demo_sched g st n) demo_threads"
proof -
  have "qrep demo_queue [0xD0000014, 0xD0000054]"
    by (simp add: qrep_def demo_queue_def nxt_def prv_def)
  then have "queue_holds demo_queue demo_threads"
    unfolding queue_holds_def by (intro exI [of _ "[0xD0000014, 0xD0000054]"]) (simp add: demo_queue_def dat_def)
  then show "threads_ok (demo_sched g st n) demo_threads" by (simp add: threads_ok_def demo_sched_def)
  then show "sched_ok (demo_sched g st n) demo_threads" by (simp add: sched_ok_def demo_sched_def)
qed

lemma demo_tstate [simp]:
  "tstate (demo_sched g st n) 0xD0000100 = Ready" "tstate (demo_sched g st n) 0xD0000200 = st"
  by (simp_all add: tstate_def demo_sched_def demo_thread_def)

lemma demo_enterable: "t \<in> set demo_threads \<Longrightarrow> st \<noteq> Started \<Longrightarrow> enterable (demo_sched g st n) t"
  by (auto simp: enterable_def demo_sched_def demo_thread_def tstate_def)

section \<open>Properties\<close>

text \<open>
  The search for the next thread returns the first thread after the current one, in cyclic
  order of the list, that is not blocked; it never returns if every thread is blocked.
\<close>

lemma next_ready_thread:
  assumes "threads_ok s ths"
  shows "GetNextReadyThread s = find (\<lambda>t. tstate s t \<noteq> Blocked) (rotate (start_index s ths) ths)"
  using GetNextReadyThread_refines [OF assms] by (simp add: next_thread_def)

theorem next_ready_thread_witness:
  "\<forall>g. GetNextReadyThread (demo_sched g Ready 0) = Some 0xD0000200 \<and>
    GetNextReadyThread (demo_sched g Blocked 0) = Some 0xD0000100"
proof -
  have "start_index (demo_sched g st 0) demo_threads = 1" for g st
    by (simp add: start_index_def demo_sched_def)
  then show ?thesis using next_ready_thread [OF demo_threads_ok] by simp
qed

fun sleep_rounds :: "nat \<Rightarrow> sched \<Rightarrow> sched option" where
  "sleep_rounds 0 s = Some s"
| "sleep_rounds (Suc k) s = ProcessSleepingThreads s \<bind> sleep_rounds k"

lemma sleep_rounds_tick:
  "threads_ok s ths \<Longrightarrow> \<exists>s'. sleep_rounds k s = Some s' \<and> threads_ok s' ths \<and>
    (\<forall>t\<in>set ths. threads s' t = map_option (tick ^^ k) (threads s t))"
proof (induction k arbitrary: s)
  case (Suc k)
  have "sleep_rounds (Suc k) s = sleep_rounds k (tick_all (set ths) s)"
    using ProcessSleepingThreads_ticks [OF Suc.prems] by simp
  with Suc.IH [OF tick_all_ok [OF Suc.prems], of "set ths"] show ?case
    by (auto simp: tick_all_def option.map_comp o_def funpow_swap1)
qed (simp add: option.map_id)

lemma tick_times:
  assumes "state th = Blocked" and "blockedState th = SleepMS" and "timeDelta th > 0"
  shows "state ((tick ^^ k) th) = (if k < unat (timeDelta th) then Blocked else Ready) \<and>
    (k < unat (timeDelta th) \<longrightarrow> blockedState ((tick ^^ k) th) = SleepMS \<and>
       timeDelta ((tick ^^ k) th) = timeDelta th - of_nat k)"
proof (induction k)
  case (Suc k)
  let ?t = "(tick ^^ k) th"
  show ?case
  proof (cases "k < unat (timeDelta th)")
    case True
    then have t: "state ?t = Blocked" "blockedState ?t = SleepMS" "timeDelta ?t = timeDelta th - of_nat k"
      using Suc by auto
    have "unat (timeDelta ?t) = unat (timeDelta th) - k"
    proof -
      have "k < 2 ^ 32" using True u32_lt [of "timeDelta th"] by simp
      then have "unat (of_nat k :: u32) = k" by (simp add: unat_of_nat take_bit_nat_eq_self)
      then show ?thesis using True unfolding t(3) by (simp add: unat_sub word_le_nat_alt)
    qed
    moreover from this True have "timeDelta ?t > 0" by (simp add: word_less_nat_alt)
    moreover have "timeDelta ?t = 1 \<longleftrightarrow> unat (timeDelta ?t) = 1" using word_nat_eqI [of "timeDelta ?t" 1] by auto
    moreover have "tick x = x\<lparr>timeDelta := timeDelta x - 1, state := (if timeDelta x = 1 then Ready else Blocked)\<rparr>"
      if "state x = Blocked" "blockedState x = SleepMS" "timeDelta x > 0" for x
      using that by (simp add: tick_def)
    ultimately have tk: "tick ?t = ?t\<lparr>timeDelta := timeDelta ?t - 1,
        state := (if unat (timeDelta th) - k = 1 then Ready else Blocked)\<rparr>"
      using t(1,2) by presburger
    have "unat (timeDelta th) - k = 1 \<longleftrightarrow> \<not> Suc k < unat (timeDelta th)" using True by linarith
    then show ?thesis using t by (simp add: tk algebra_simps)
  next
    case False
    then show ?thesis using Suc by simp
  qed
qed (use assms in \<open>auto simp: word_less_nat_alt\<close>)

text \<open>
  C29. A thread that sleeps for \<open>n\<close> ticks stays blocked for the first \<open>n - 1\<close> rounds of
  \<open>ProcessSleepingThreads\<close> and is ready after the \<open>n\<close>-th, and from then on.
\<close>

theorem sleeping_thread_wakes:
  assumes "threads_ok s ths" and "t \<in> set ths" and "threads s t = Some th"
    and "state th = Blocked" and "blockedState th = SleepMS" and "timeDelta th > 0"
  shows "\<exists>s'. sleep_rounds k s = Some s' \<and>
    tstate s' t = (if k < unat (timeDelta th) then Blocked else Ready)"
proof -
  obtain s' where "sleep_rounds k s = Some s'" "threads s' t = Some ((tick ^^ k) th)"
    using sleep_rounds_tick [OF assms(1), of k] assms(2,3) by auto
  then show ?thesis using tick_times [OF assms(4-6), of k] by (auto simp: tstate_def)
qed

theorem sleeping_thread_wakes_witness:
  "\<forall>g. (\<exists>s'. sleep_rounds 2 (demo_sched g Blocked 0) = Some s' \<and> tstate s' 0xD0000200 = Blocked) \<and>
    (\<exists>s'. sleep_rounds 3 (demo_sched g Blocked 0) = Some s' \<and> tstate s' 0xD0000200 = Ready)"
  using sleeping_thread_wakes [OF demo_threads_ok, of "0xD0000200" _ Blocked 0 _ 2]
    sleeping_thread_wakes [OF demo_threads_ok, of "0xD0000200" _ Blocked 0 _ 3]
  by (simp add: demo_sched_def)

text \<open>
  Between switches a timer interrupt resumes what it interrupted: it returns the stack pointer
  it was given, counts the tick and serves the sleeping threads (unless the interrupt was forced),
  and changes nothing else.
\<close>

lemma timer_between_switches:
  assumes "threads_ok s ths" and "tickCount s \<noteq> 29"
  shows "HandleInterrupt esp s = Some (Resume esp,
    (if switchForced s then s\<lparr>switchForced := False\<rparr>
     else s\<lparr>threads := \<lambda>t. if t \<in> set ths then map_option tick (threads s t) else threads s t\<rparr>)
    \<lparr>tickCount := tickCount s + 1\<rparr>)"
proof -
  have "tickCount s + 1 = 30 \<longleftrightarrow> tickCount s = 29" by (simp add: eq_diff_eq [symmetric])
  then show ?thesis using HandleInterrupt_cases [OF assms(1), of esp] assms(2)
    by (simp add: ticked_def tick_all_def)
qed

theorem timer_between_switches_witness:
  "\<forall>g. \<exists>s'. HandleInterrupt 0xC0110000 (demo_sched g Blocked 5) = Some (Resume 0xC0110000, s') \<and> tickCount s' = 6"
  using timer_between_switches [OF demo_threads_ok, of _ Blocked 5 "0xC0110000"]
  by (simp add: demo_sched_def)

text \<open>
  C11. At the thirtieth tick the interrupt switches to the first thread, in cyclic order after the current one,
  that is neither blocked nor stopped. It takes out of the list and the store exactly the stopped threads that
  come before that thread in this order, and the current thread when it has stopped; stopped threads behind it stay for
  a later switch. The thread left keeps the stack pointer it was interrupted with (when that lies in
  the heap); the page directory and the kernel stack are those of the thread entered, which is
  resumed at its saved stack pointer, or, when a user process has just been started, entered at its
  saved program counter. The tick count restarts and the scheduler's invariant is kept. The thread the interrupt
  must be able to find, and the process of the thread it enters, are assumed to exist.
\<close>

theorem timer_switches:
  assumes "sched_ok s ths" and "tickCount s = 29" and "enabled s"
    and "currentThread s \<noteq> 0 \<or> esp < KERNEL_HEAP_START"
    and "r \<in> set ths" and "runnable (ticked ths s) r"
    and "\<forall>t\<in>set ths. runnable (ticked ths s) t \<longrightarrow> enterable (ticked ths s) t"
  shows "\<exists>ex s' ths'. HandleInterrupt esp s = Some (ex, s') \<and> sched_ok s' ths' \<and>
    tickCount s' = 0 \<and> \<not> switchForced s' \<and> switched esp (ticked ths s) ths ex s' ths'"
proof -
  let ?s = "(ticked ths s)\<lparr>tickCount := 0\<rparr>"
  have same: "tstate ?s = tstate (ticked ths s)" "search_order ?s ths = search_order (ticked ths s) ths"
    by (simp_all add: tstate_def search_order_def start_index_def fun_eq_iff)
  then have run: "runnable ?s = runnable (ticked ths s)" "enterable ?s = enterable (ticked ths s)"
    "user_start ?s = user_start (ticked ths s)"
    by (simp_all add: runnable_def enterable_def user_start_def fun_eq_iff)
  have sv: "saved esp ?s = saved esp (ticked ths s)" by (simp add: saved_def fun_eq_iff)
  have sw: "switched esp ?s ths = switched esp (ticked ths s) ths"
    by (intro ext) (simp add: switched_def removed_def Let_def same run sv cong: if_cong)
  have tok: "threads_ok s ths" using assms(1) by (simp add: sched_ok_def)
  have ok: "sched_ok ?s ths" using ticked_ok [OF tok] assms(1) by (simp add: sched_ok_def threads_ok_def)
  have sf: "\<not> switchForced ?s" using assms(1) by (simp add: ticked_def tick_all_def)
  have "\<exists>ex s' ths'. switch_from esp ?s = Some (ex, s') \<and> sched_ok s' ths' \<and> switched esp ?s ths ex s' ths' \<and>
    tickCount s' = tickCount ?s \<and> switchForced s' = switchForced ?s"
    using assms(4-7) run by (intro switch_from_switched [OF ok assms(5)]) simp_all
  moreover have "HandleInterrupt esp s = switch_from esp ?s"
    using HandleInterrupt_cases [OF tok, of esp] assms(2,3,5) by auto
  ultimately show ?thesis using sf unfolding sw by auto
qed

theorem timer_switches_witness:
  "\<forall>g. \<exists>s' ex ths'. HandleInterrupt 0xD0001F00 (demo_sched g Ready 29) = Some (ex, s') \<and>
    switched 0xD0001F00 (ticked demo_threads (demo_sched g Ready 29)) demo_threads ex s' ths'"
proof
  fix g
  have r: "runnable (ticked demo_threads (demo_sched g Ready 29)) t" if "t \<in> set demo_threads" for t
    using that by (auto simp: runnable_def ticked_def tick_all_def tstate_def demo_sched_def demo_thread_def)
  have "enterable (ticked demo_threads (demo_sched g Ready 29)) t" if "t \<in> set demo_threads" for t
    using that by (auto simp: enterable_def ticked_def tick_all_def tstate_def demo_sched_def demo_thread_def)
  then show "\<exists>s' ex ths'. HandleInterrupt 0xD0001F00 (demo_sched g Ready 29) = Some (ex, s') \<and>
      switched 0xD0001F00 (ticked demo_threads (demo_sched g Ready 29)) demo_threads ex s' ths'"
    using timer_switches [OF demo_sched_ok, of g Ready 29 "0xD0001F00" "0xD0000100"] r [of "0xD0000100"]
    by (simp add: demo_sched_def) blast
qed

text \<open>
  C32. If at the thirtieth tick every thread is blocked or has stopped, the interrupt does not
  return: the search runs for ever when some thread is blocked, and once the last stopped thread
  has been deleted it reads through a null pointer. There is no idle thread.
\<close>

theorem timer_stuck:
  assumes "threads_ok s ths" and "tickCount s = 29" and "enabled s" and "ths \<noteq> []"
    and "\<forall>t\<in>set ths. \<not> runnable (ticked ths s) t"
  shows "HandleInterrupt esp s = None"
proof -
  have "threads_ok ((ticked ths s)\<lparr>tickCount := 0\<rparr>) ths"
    using ticked_ok [OF assms(1)] by (simp add: threads_ok_def)
  moreover have "\<forall>t\<in>set ths. \<not> runnable ((ticked ths s)\<lparr>tickCount := 0\<rparr>) t"
    using assms(5) by (simp add: runnable_def tstate_def)
  ultimately show ?thesis
    using switch_from_none HandleInterrupt_cases [OF assms(1), of esp] assms(2-4) by simp
qed

theorem timer_stuck_witness:
  "\<forall>g. HandleInterrupt 0xD0001F00 ((demo_sched g Stopped 29)\<lparr>threads := [0xD0000100 \<mapsto> (demo_thread 0xD0001000)\<lparr>state := Blocked\<rparr>,
     0xD0000200 \<mapsto> (demo_thread 0xD0002000)\<lparr>state := Stopped\<rparr>]\<rparr>) = None"
proof
  fix g
  let ?s = "(demo_sched g Stopped 29)\<lparr>threads := [0xD0000100 \<mapsto> (demo_thread 0xD0001000)\<lparr>state := Blocked\<rparr>,
     0xD0000200 \<mapsto> (demo_thread 0xD0002000)\<lparr>state := Stopped\<rparr>]\<rparr>"
  have "threads_ok ?s demo_threads"
    by (rule threads_ok_cong [OF demo_threads_ok [of g Stopped 29]]) (auto simp: demo_sched_def)
  then show "HandleInterrupt 0xD0001F00 ?s = None"
    by (rule timer_stuck)
      (simp_all add: demo_sched_def runnable_def tstate_def ticked_def tick_all_def tick_def demo_thread_def)
qed

text \<open>
  C13. The scheduler's invariant holds in every state it can reach by timer interrupts, added
  threads, wake-ups and threads changing their own state: the list is a well-formed queue of
  distinct live threads, the current thread is one of them or none, and the tick count is below 30.
\<close>

theorem scheduler_invariant:
  assumes "sched_reachable s"
  shows "(\<exists>ths. sched_ok s ths) \<and> tickCount s < 30"
proof -
  have "sched_inv s" using assms
  proof (induction rule: sched_reachable.induct)
    case (boot s s')
    then show ?case by (rule sched_init_inv)
  next
    case (later s s')
    then show ?case by (blast intro: sched_step_inv)
  qed
  then show ?thesis by (simp add: sched_inv_def)
qed

theorem scheduler_invariant_witness:
  "\<forall>g. \<exists>s s'. sched_init (demo_sched g Ready 0) = Some s \<and>
    AddThread 0xD0000094 0xD0000200 False s = Some (Done, s') \<and> (\<exists>ths. sched_ok s' ths) \<and> tickCount s' < 30"
proof
  fix g
  obtain s where s: "sched_init (demo_sched g Ready 0) = Some s" "nodes s = fst demo_queue" "threadsList s = queue_init"
    "threads s = threads (demo_sched g Ready 0)"
    using Clear_from_refines [of "fst demo_queue" 0 "[]"]
    by (simp add: sched_init_def Clear_def queue_init_def Let_def demo_sched_def)
  have h: "queue_holds (thread_queue s) []"
    using qrep_init [of "nodes s"] s(3) by (auto simp: queue_holds_def qlist_def)
  have n: "fresh_node 0xD0000094 (thread_queue s)" by (simp add: fresh_node_def s(2) demo_queue_def)
  obtain q where q: "push_back 0xD0000094 0xD0000200 (thread_queue s) = Some q" using lq.push_law [OF h n] by blast
  have a: "AddThread 0xD0000094 0xD0000200 False s = Some (Done, s\<lparr>nodes := fst q, threadsList := snd q\<rparr>)"
    using q by (simp add: AddThread_def case_prod_beta)
  have "sched_step s (s\<lparr>nodes := fst q, threadsList := snd q\<rparr>)"
    using lq.index_missing [OF h] by (intro sched_step.add [OF n _ _ a]) (simp_all add: fetch_thread_def s(4) demo_sched_def)
  then have "sched_reachable (s\<lparr>nodes := fst q, threadsList := snd q\<rparr>)"
    by (rule sched_reachable.later [OF sched_reachable.boot [OF s(1)]])
  from scheduler_invariant [OF this] s(1) a show "\<exists>s s'. sched_init (demo_sched g Ready 0) = Some s \<and>
    AddThread 0xD0000094 0xD0000200 False s = Some (Done, s') \<and> (\<exists>ths. sched_ok s' ths) \<and> tickCount s' < 30"
    by blast
qed

text \<open>
  C14. With all threads ready the scheduler is fair: starting at the \<open>i\<close>-th thread with a fresh
  tick count, after \<open>30 * k\<close> timer interrupts the current thread is the one \<open>k\<close> places further
  in the list, cyclically, so each thread runs again within one round of the list.
\<close>

theorem round_robin:
  assumes "all_ready s ths i" and "tickCount s = 0" and "length esps = 30 * k"
  shows "\<exists>s'. interrupts esps s = Some s' \<and> currentThread s' = ths ! ((i + k) mod length ths) \<and>
    all_ready s' ths ((i + k) mod length ths) \<and> tickCount s' = 0"
  using assms
proof (induction k arbitrary: s i esps)
  case 0
  then show ?case by (auto simp: all_ready_def)
next
  case (Suc k)
  obtain s1 where s1: "interrupts (take 30 esps) s = Some s1" "all_ready s1 ths (Suc i mod length ths)" "tickCount s1 = 0"
    using interrupts_turn [OF Suc.prems(1,2), of "take 30 esps"] Suc.prems(3) by auto
  have "(Suc i mod length ths + k) mod length ths = (i + Suc k) mod length ths" by (simp add: mod_simps)
  moreover have "interrupts esps s = interrupts (drop 30 esps) s1"
    using interrupts_append [of "take 30 esps" "drop 30 esps" s] s1(1) by simp
  ultimately show ?case using Suc.IH [OF s1(2,3), of "drop 30 esps"] Suc.prems(3) by simp
qed

lemma demo_all_ready: "all_ready (demo_sched g Ready 0) demo_threads 0"
  using demo_sched_ok demo_enterable [of _ Ready g 0] by (auto simp: all_ready_def) (simp_all add: demo_sched_def)

theorem round_robin_witness:
  "\<forall>g. \<exists>s'. interrupts (replicate 30 0xC0110000) (demo_sched g Ready 0) = Some s' \<and> currentThread s' = 0xD0000200"
proof
  fix g
  have "tickCount (demo_sched g Ready 0) = 0" by (simp add: demo_sched_def)
  from round_robin [OF demo_all_ready this, of "replicate 30 0xC0110000" 1]
  show "\<exists>s'. interrupts (replicate 30 0xC0110000) (demo_sched g Ready 0) = Some s' \<and> currentThread s' = 0xD0000200"
    by auto
qed

end
