(* ===== verification/OS_Timer.thy ===== *)
theory OS_Timer
  imports OS_Console OS_Switching
begin

text \<open>
  The timer driver and the system-call handler: src/src/arch/x86/drivers/pit.cpp and
  src/src/arch/x86/syscalls/syscalls.cpp.

  \<^item> The record \<open>pit_state\<close> holds the driver's file-level variables, the console and the
    scheduler object. The scheduler pointer is null until \<open>SetSched\<close>. The log of port writes is
    the one of the scheduler's state.
  \<^item> The operations are \<open>PIT_Init\<close>, \<open>SetSched\<close>, \<open>pit_handler\<close> (which joins the console and the
    scheduler) and \<open>syscall_handler\<close>.
\<close>

unbundle bit_operations_syntax

record pit_state =
  pit_ticks :: u32
  pit_index :: int
  scheduler :: u32
  sched_obj :: sched
  pcon :: VGA
  ptmp :: "char list"

definition ticker :: "char list" where "ticker = [CHR ''/'', CHR ''-'', CHR 0x5C, CHR ''|'']"

text \<open>\<open>printf("%c", c)\<close> on the console of the state.\<close>

definition pit_console :: "pit_state \<Rightarrow> console" where
  "pit_console st = (pcon st, sports (sched_obj st))"

definition set_console :: "console \<Rightarrow> pit_state \<Rightarrow> pit_state" where
  "set_console con st = st\<lparr>pcon := fst con, sched_obj := (sched_obj st)\<lparr>sports := snd con\<rparr>\<rparr>"

lemma set_console_simps [simp]:
  "pit_ticks (set_console con st) = pit_ticks st" "pit_index (set_console con st) = pit_index st"
  "scheduler (set_console con st) = scheduler st" "ptmp (set_console con st) = ptmp st"
  "pit_console (set_console con st) = con" "set_console con' (set_console con st) = set_console con' st"
  "(set_console con st)\<lparr>pit_index := i\<rparr> = set_console con (st\<lparr>pit_index := i\<rparr>)"
  "(set_console con st)\<lparr>ptmp := t\<rparr> = set_console con (st\<lparr>ptmp := t\<rparr>)"
  by (simp_all add: set_console_def pit_console_def)

lemma pit_console_simps [simp]:
  "pit_console (st\<lparr>pit_ticks := n\<rparr>) = pit_console st" "pit_console (st\<lparr>pit_index := i\<rparr>) = pit_console st"
  "pit_console (st\<lparr>ptmp := t\<rparr>) = pit_console st"
  by (simp_all add: pit_console_def)

definition pit_handler :: "u32 \<Rightarrow> pit_state \<Rightarrow> (sched_exit \<times> pit_state) option" where
  "pit_handler esp st = do {
     let st = st\<lparr>pit_ticks := pit_ticks st + 1\<rparr>;
     let x = GetX (pit_console st);
     let y = GetY (pit_console st);
     let st = set_console (GoToXY 79 0 (pit_console st)) st;
     c \<leftarrow> buf_get (pit_index st) ticker;
     let st = st\<lparr>pit_index := pit_index st + 1\<rparr>;
     (con, tmp) \<leftarrow> vga_print (\<lambda>_. None) (Some (''%c'' @ [NUL])) [word_of_int (of_char c)] (ptmp st) (pit_console st);
     let st = set_console con (st\<lparr>ptmp := tmp\<rparr>);
     let st = (if pit_index st > 3 then st\<lparr>pit_index := 0\<rparr> else st);
     let st = set_console (GoToXY x y (pit_console st)) st;
     if scheduler st \<noteq> 0
     then do { (ex, s) \<leftarrow> HandleInterrupt esp (sched_obj st); Some (ex, st\<lparr>sched_obj := s\<rparr>) }
     else Some (Resume esp, st)
   }"

text \<open>\<open>handler\<close> is the address of \<open>pit_handler\<close>.\<close>

definition PIT_Init :: "device \<Rightarrow> u32 \<Rightarrow> idt_state \<Rightarrow> idt_state" where
  "PIT_Init dev handler st =
     (let st = InstallHandler dev 32 handler True st;
          divisor = 1193180 div (100 :: u32);
          st = st\<lparr>ports := outb 0x43 0x36 (ports st)\<rparr>;
          l = ucast (divisor AND 0xFF) :: u8;
          h = ucast (drop_bit 8 divisor) AND 0xFF :: u8;
          st = st\<lparr>ports := outb 0x40 l (ports st)\<rparr>
      in st\<lparr>ports := outb 0x40 h (ports st)\<rparr>)"

definition SetSched :: "u32 \<Rightarrow> pit_state \<Rightarrow> pit_state" where
  "SetSched s st = st\<lparr>scheduler := s\<rparr>"

definition syscall_handler :: "u32 \<Rightarrow> char list \<Rightarrow> console \<Rightarrow> (u32 \<times> console \<times> char list) option" where
  "syscall_handler regs tmp con = do {
     (con, tmp) \<leftarrow> vga_print (\<lambda>_. None) (Some (''Unhandled system call'' @ [CHR 0x0A, NUL])) [] tmp con;
     Some (regs, con, tmp)
   }"

section \<open>Properties\<close>

text \<open>The divisor that \<open>Init\<close> programs is 11931, low byte first: 100 interrupts a second.\<close>

lemma PIT_Init_ports:
  "ports (PIT_Init dev h st) = ports (InstallHandler dev 32 h True st) @ [(0x43, 0x36), (0x40, 0x9B), (0x40, 0x2E)]"
  by (simp add: PIT_Init_def Let_def outb_def)

lemma PIT_Init_rate:
  "unat (0x9B :: u8) + 256 * unat (0x2E :: u8) = 11931" "1193180 div (11931 :: nat) = 100"
  by simp_all

lemma PIT_Init_handler: "handlers (PIT_Init dev h st) 32 = h"
  by (simp add: PIT_Init_def InstallHandler_def Let_def)

lemma ticker_cases:
  assumes "0 \<le> i" and "i < 4"
  obtains c where "buf_get i ticker = Some c" and "c = ticker ! nat i" and "plain c"
    and "char_of (unat (ucast (word_of_int (of_char c) :: u32) :: u8)) = c" and "c \<noteq> NUL"
proof -
  have "i \<in> {0, 1, 2, 3}" using assms by auto
  then show ?thesis
    by (elim insertE emptyE; intro that [OF _ refl]; simp add: buf_get_def ticker_def plain_def nat_numeral char_of_def bit_0)
qed

text \<open>The state in which \<open>pit_handler\<close> asks the scheduler.\<close>

definition ticked_pit :: "pit_state \<Rightarrow> pit_state" where
  "ticked_pit st = st\<lparr>pit_ticks := pit_ticks st + 1, pit_index := (pit_index st + 1) mod 4,
     pcon := store_cell 79 (vga_entry (ticker ! nat (pit_index st)) (cur_color (pcon st))) (pcon st),
     sched_obj := (sched_obj st)\<lparr>sports := sports (sched_obj st) @
       [(0x3D4, 0x0F), (0x3D5, 80), (0x3D4, 0x0E), (0x3D5, 0)]\<rparr>\<rparr>"

lemma corner_put:
  assumes "console_sized st" and "plain c"
  shows "GoToXY (uint (vga_x st)) (uint (vga_y st)) (vga_put c (GoToXY 79 0 (st, log))) =
    (store_cell 79 (vga_entry c (cur_color st)) st, log @ [(0x3D4, 0x0F), (0x3D5, 80), (0x3D4, 0x0E), (0x3D5, 0)])"
  using assms
  by (simp add: GoToXY_def vga_put_def plain_def console_sized_def store_cell_def update_cursor_def outb_def Let_def)

lemma pit_handler_ticks:
  assumes ok: "console_sized (pcon st)" and "0 \<le> pit_index st" and "pit_index st < 4"
  shows "pit_handler esp st = (if scheduler st = 0 then Some (Resume esp, ticked_pit st)
    else do { (ex, s) \<leftarrow> HandleInterrupt esp (sched_obj (ticked_pit st)); Some (ex, (ticked_pit st)\<lparr>sched_obj := s\<rparr>) })"
proof -
  obtain c where c: "buf_get (pit_index st) ticker = Some c" "c = ticker ! nat (pit_index st)" "plain c"
    "char_of (unat (ucast (word_of_int (of_char c) :: u32) :: u8)) = c" "c \<noteq> NUL"
    by (rule ticker_cases [OF assms(2,3)])
  have p: "vga_print (\<lambda>_. None) (Some [CHR ''%'', CHR ''c'', NUL]) [word_of_int (of_char c)] tmp con = Some (vga_put c con, tmp)" for tmp con
    using c(4) by (simp add: vga_print_def vprintf_def)
  let ?con = "vga_put c (GoToXY 79 0 (pit_console st))"
  have con: "GoToXY (uint (vga_x (pcon st))) (uint (vga_y (pcon st))) ?con =
      (store_cell 79 (vga_entry c (cur_color (pcon st))) (pcon st),
       sports (sched_obj st) @ [(0x3D4, 0x0F), (0x3D5, 80), (0x3D4, 0x0E), (0x3D5, 0)])"
    using corner_put [OF ok c(3)] by (simp add: pit_console_def)
  have i: "(if pit_index st + 1 > 3 then 0 else pit_index st + 1) = (pit_index st + 1) mod 4"
    using assms(2,3) by (cases "pit_index st = 3") auto
  have xy: "GetX (pit_console st) = uint (vga_x (pcon st))" "GetY (pit_console st) = uint (vga_y (pcon st))"
    by (simp_all add: GetX_def GetY_def pit_console_def)
  have "set_console (GoToXY (GetX (pit_console st)) (GetY (pit_console st)) ?con)
      (st\<lparr>pit_ticks := pit_ticks st + 1, ptmp := ptmp st, pit_index := (pit_index st + 1) mod 4\<rparr>) = ticked_pit st"
    unfolding xy con by (cases st) (simp add: set_console_def ticked_pit_def c(2))
  moreover have "(if pit_index st + 1 > 3 then X\<lparr>pit_index := 0\<rparr> else X) = X\<lparr>pit_index := (pit_index st + 1) mod 4\<rparr>"
    if "pit_index X = pit_index st + 1" for X :: pit_state
    using i that by (cases X) auto
  ultimately show ?thesis using c(1)
    by (simp add: pit_handler_def Let_def p)
qed

text \<open>
  The timer interrupt draws the next of the four ticker characters in the top right corner and
  restores the console's own cursor (the hardware cursor is left at cell 80), then asks the
  scheduler, if one is attached, with the stack pointer it was given: with no scheduler it resumes
  what it interrupted, with one it returns whatever \<open>HandleInterrupt\<close> decides.
\<close>

lemma pit_handler_effect:
  assumes "console_sized (pcon st)" and "0 \<le> pit_index st" and "pit_index st < 4"
  shows "pit_handler esp st = (if scheduler st = 0 then Some (Resume esp, ticked_pit st)
      else do { (ex, s) \<leftarrow> HandleInterrupt esp (sched_obj (ticked_pit st)); Some (ex, (ticked_pit st)\<lparr>sched_obj := s\<rparr>) }) \<and>
    GetX (pit_console (ticked_pit st)) = GetX (pit_console st) \<and>
    GetY (pit_console (ticked_pit st)) = GetY (pit_console st) \<and>
    cells (pcon (ticked_pit st)) =
      (cells (pcon st))(79 := vga_entry (ticker ! nat (pit_index st)) (cur_color (pcon st)))"
  using pit_handler_ticks [OF assms, of esp]
  by (simp add: ticked_pit_def GetX_def GetY_def pit_console_def store_cell_def)

theorem pit_handler_effect_witness:
  "\<forall>g. \<exists>st'. pit_handler 0xC0110000 \<lparr>pit_ticks = 0, pit_index = 3, scheduler = 0, sched_obj = demo_sched g Ready 0,
      pcon = demo_console, ptmp = replicate 36 NUL\<rparr> = Some (Resume 0xC0110000, st') \<and>
    pit_index st' = 0 \<and> cells (pcon st') 79 = vga_entry (CHR ''|'') 0x0F"
proof
  fix g
  let ?st = "\<lparr>pit_ticks = 0, pit_index = 3, scheduler = 0, sched_obj = demo_sched g Ready 0,
      pcon = demo_console, ptmp = replicate 36 NUL\<rparr>"
  have "console_sized (pcon ?st)" "0 \<le> pit_index ?st" "pit_index ?st < 4" by (simp_all add: demo_console_ok console_ok_sized)
  from pit_handler_effect [OF this, of "0xC0110000"]
  show "\<exists>st'. pit_handler 0xC0110000 ?st = Some (Resume 0xC0110000, st') \<and>
      pit_index st' = 0 \<and> cells (pcon st') 79 = vga_entry (CHR ''|'') 0x0F"
    by (simp add: ticked_pit_def store_cell_def ticker_def nat_numeral demo_console_fields)
qed

text \<open>
  Every system call comes back with the registers it was made with: \<open>syscall_handler\<close> prints
  that the call is unhandled and returns the same stack pointer, so the caller finds its call
  number in place of a result.
\<close>

lemma syscall_handler_returns_frame:
  assumes "length tmp = 36"
  shows "\<exists>tmp'. syscall_handler regs tmp con =
    Some (regs, fold vga_put (''Unhandled system call'' @ [CHR 0x0A]) con, tmp')"
proof -
  let ?ps = "map (\<lambda>c. (Lit c, 0 :: u32)) (''Unhandled system call'' @ [CHR 0x0A])"
  have "format_of ?ps = ''Unhandled system call'' @ [CHR 0x0A, NUL]" "args_of ?ps = []"
    "printed (\<lambda>_. None) ?ps = ''Unhandled system call'' @ [CHR 0x0A]"
    by (simp_all add: format_of_def args_of_def printed_def)
  then show ?thesis using console_vprintf_loop [of ?ps "\<lambda>_. None" tmp con] assms
    by (auto simp: syscall_handler_def vga_print_def vprintf_def)
qed

theorem syscall_handler_returns_frame_witness:
  "\<exists>con tmp. syscall_handler 0xD0001FC0 (replicate 36 NUL) (demo_console, []) = Some (0xD0001FC0, con, tmp)"
  using syscall_handler_returns_frame [of "replicate 36 NUL" "0xD0001FC0" "(demo_console, [])"] by auto

end
