(* ===== verification/OS_Bootmem.thy ===== *)
theory OS_Bootmem
  imports OS_Phymem
begin

text \<open>
  The counters of the frame allocator (mem/phymem.cpp) through booting.

  \<^item> \<open>regions_fit\<close>: the available regions of the memory map are in ascending order, do not overlap and
    lie below a given frame.
  \<^item> For such a map the counters that \<open>Init\<close> leaves are sound, and \<open>MarkUsed\<close> keeps them sound as long
    as it does not reserve more than is free. The soundness is what \<open>AllocateBlock\<close> relies on.
\<close>

section \<open>Counting frames\<close>

lemma block_range_unat: "unat ` {f. block_range a n f} = {k. unat a \<le> k \<and> k < unat a + unat n \<and> k < 2 ^ 32}"
proof -
  have "\<exists>f :: u32. unat f = k" if "k < 2 ^ 32" for k
    using that by (intro exI [of _ "of_nat k"]) (simp add: unat_of_nat take_bit_nat_eq_self)
  then show ?thesis using u32_lt by (force simp: block_range_def image_def)
qed

lemma finite_frames [simp]: "finite (A :: u32 set)"
  by (rule finite_subset [OF subset_UNIV]) simp

lemma card_unat: "card (unat ` (A :: u32 set)) = card A"
  by (rule card_image) (auto simp: inj_on_def intro: word_nat_eqI)

lemma card_block_range_le: "card {f. block_range a n f} \<le> unat n"
proof -
  have "unat ` {f. block_range a n f} \<subseteq> {unat a..<unat a + unat n}" by (auto simp: block_range_unat)
  then have "card (unat ` {f. block_range a n f}) \<le> card {unat a..<unat a + unat n}" by (intro card_mono) simp_all
  then show ?thesis by (simp add: card_unat)
qed

lemma card_block_range: "unat a + unat n \<le> 2 ^ 32 \<Longrightarrow> card {f. block_range a n f} = unat n"
proof -
  assume "unat a + unat n \<le> 2 ^ 32"
  then have "unat ` {f. block_range a n f} = {unat a..<unat a + unat n}" by (auto simp: block_range_unat)
  then show ?thesis using card_unat [of "{f. block_range a n f}"] by simp
qed

lemma card_less_range: "card A - unat n \<le> card (A - {f. block_range a n f})"
proof -
  have "card A \<le> card (A - {f. block_range a n f}) + card {f. block_range a n f}"
    using card_Un_le [of "A - {f. block_range a n f}" "{f. block_range a n f}"]
      card_mono [of "A - {f. block_range a n f} \<union> {f. block_range a n f}" A] by fastforce
  then show ?thesis using card_block_range_le [of a n] by linarith
qed

section \<open>Reserving\<close>

lemma FreeBlocks_MarkUsed: "FreeBlocks (MarkUsed base n s) = FreeBlocks s - n div BLOCK_SIZE"
  by (simp add: FreeBlocks_def)

lemma available_MarkUsed:
  "available (MarkUsed base n s) = available s - {0} - {f. block_range (base div BLOCK_SIZE) (n div BLOCK_SIZE) f}"
  by (auto simp: available_def frame_limit_def)

text \<open>Reserving takes at most as many frames out of any set as it takes off the counter.\<close>

lemma MarkUsed_accounted:
  assumes max: "unat (maximumBlocks s) \<le> 2 ^ 20" and n: "n div BLOCK_SIZE \<le> FreeBlocks s"
    and A: "unat (FreeBlocks s) \<le> card A"
      "available (MarkUsed base n s) = A - {f. block_range (base div BLOCK_SIZE) (n div BLOCK_SIZE) f}"
  shows "accounted (MarkUsed base n s)"
proof -
  have "unat (FreeBlocks (MarkUsed base n s)) = unat (FreeBlocks s) - unat (n div BLOCK_SIZE)"
    using n by (simp add: FreeBlocks_MarkUsed unat_minus_le)
  then have "unat (FreeBlocks (MarkUsed base n s)) \<le> card (available (MarkUsed base n s))"
    using A(1) card_less_range [of A "n div BLOCK_SIZE" "base div BLOCK_SIZE"] unfolding A(2) by linarith
  then show ?thesis using max by (simp add: accounted_def)
qed

lemma MarkUsed_keeps_accounted:
  assumes "accounted s" and "n div BLOCK_SIZE \<le> FreeBlocks s"
  shows "accounted (MarkUsed base n s)"
proof -
  have "0 \<notin> available s" using assms(1) by (simp add: accounted_def available_def)
  then show ?thesis
    using assms by (intro MarkUsed_accounted [where A = "available s"]) (auto simp: accounted_def available_MarkUsed)
qed

text \<open>A range that starts at frame 0 may have counted frame 0 as free.\<close>

lemma MarkUsed_from_0_accounts:
  assumes "unat (maximumBlocks s) \<le> 2 ^ 20" and "n div BLOCK_SIZE \<le> FreeBlocks s" and "BLOCK_SIZE \<le> n"
    and "unat (FreeBlocks s) \<le> card (insert 0 (available s))"
  shows "accounted (MarkUsed 0 n s)"
proof -
  have "0 < unat n div 4096" using assms(3) by (simp add: BLOCK_SIZE_def word_le_nat_alt div_greater_zero_iff)
  then have "block_range (0 div BLOCK_SIZE) (n div BLOCK_SIZE) 0" by (simp add: block_range_def unat_div_BLOCK_SIZE)
  then show ?thesis
    using assms by (intro MarkUsed_accounted [where A = "insert 0 (available s)"]) (auto simp: available_MarkUsed)
qed

section \<open>The memory map\<close>

fun regions_fit :: "nat \<Rightarrow> region list \<Rightarrow> nat \<Rightarrow> bool" where
  "regions_fit lo [] hi \<longleftrightarrow> lo \<le> hi"
| "regions_fit lo (r # rs) hi \<longleftrightarrow>
     (if rtype r = MULTIBOOT_MEMORY_AVAILABLE
      then lo \<le> unat (rbase r) div 4096 \<and> regions_fit (unat (rbase r) div 4096 + unat (rlength r) div 4096) rs hi
      else regions_fit lo rs hi)"

definition available_blocks :: "region list \<Rightarrow> nat" where
  "available_blocks rs = (\<Sum>r\<leftarrow>filter (\<lambda>r. rtype r = MULTIBOOT_MEMORY_AVAILABLE) rs. unat (rlength r) div 4096)"

lemma regions_fit_count:
  assumes "regions_fit lo rs hi"
  shows "lo + available_blocks rs \<le> hi \<and> card {f. \<exists>r\<in>set rs. region_frame r f} = available_blocks rs \<and>
    (\<forall>f. (\<exists>r\<in>set rs. region_frame r f) \<longrightarrow> lo \<le> unat f \<and> unat f < hi)"
  using assms
proof (induction rs arbitrary: lo)
  case (Cons r rs)
  show ?case
  proof (cases "rtype r = MULTIBOOT_MEMORY_AVAILABLE")
    case True
    let ?a = "rbase r div BLOCK_SIZE" and ?n = "rlength r div BLOCK_SIZE"
    let ?F = "{f. \<exists>r\<in>set rs. region_frame r f}" and ?R = "{f. block_range ?a ?n f}"
    note IH = Cons.IH [of "unat (rbase r) div 4096 + unat (rlength r) div 4096"]
    have ih: "unat (rbase r) div 4096 + unat (rlength r) div 4096 + available_blocks rs \<le> hi"
      "card ?F = available_blocks rs"
      "\<And>f. f \<in> ?F \<Longrightarrow> unat (rbase r) div 4096 + unat (rlength r) div 4096 \<le> unat f \<and> unat f < hi"
      using IH Cons.prems True by auto
    have lo: "lo \<le> unat (rbase r) div 4096" using Cons.prems True by simp
    have set: "{f. \<exists>r'\<in>set (r # rs). region_frame r' f} = ?R \<union> ?F" using True by (auto simp: region_frame_def)
    have R: "f \<in> ?R \<longleftrightarrow> unat (rbase r) div 4096 \<le> unat f \<and>
        unat f < unat (rbase r) div 4096 + unat (rlength r) div 4096" for f
      by (simp add: block_range_def unat_div_BLOCK_SIZE)
    have "?R \<inter> ?F = {}" using ih(3) R by fastforce
    then have "card (?R \<union> ?F) = card ?R + card ?F" by (intro card_Un_disjoint) simp_all
    moreover have "card ?R = unat (rlength r) div 4096"
      using card_block_range [of ?a ?n] blocks_fit [of "rbase r" "rlength r"] by (simp add: unat_div_BLOCK_SIZE)
    moreover have "available_blocks (r # rs) = unat (rlength r) div 4096 + available_blocks rs"
      using True by (simp add: available_blocks_def)
    moreover have "lo \<le> unat f \<and> unat f < hi" if "f \<in> ?R \<union> ?F" for f
      using that ih(1) ih(3) [of f] lo R [of f] by fastforce
    then have "\<forall>f. (\<exists>r'\<in>set (r # rs). region_frame r' f) \<longrightarrow> lo \<le> unat f \<and> unat f < hi" using set by blast
    ultimately show ?thesis using ih(1,2) lo unfolding set by simp
  next
    case False
    then have "{f. \<exists>r'\<in>set (r # rs). region_frame r' f} = {f. \<exists>r\<in>set rs. region_frame r f}"
      by (auto simp: region_frame_def)
    then show ?thesis using False Cons by (auto simp: available_blocks_def region_frame_def)
  qed
qed (simp add: available_blocks_def)

lemma unat_free_sum:
  "available_blocks rs < 2 ^ 32 \<Longrightarrow>
    unat (\<Sum>r\<leftarrow>filter (\<lambda>r. rtype r = MULTIBOOT_MEMORY_AVAILABLE) rs. rlength r div BLOCK_SIZE) = available_blocks rs"
proof (induction rs)
  case (Cons r rs)
  then show ?case by (auto simp: available_blocks_def unat_plus_le unat_div_BLOCK_SIZE)
qed (simp add: available_blocks_def)

text \<open>The counters after \<open>Init\<close>: as many blocks are counted free as the map declares available,
  and that many are clear, counting frame 0.\<close>

lemma Phymem_Init_counts:
  assumes map: "mmap_at rd (phys2virt (mmap_addr info) + mmap_length info) (phys2virt (mmap_addr info)) rs"
    and fit: "regions_fit 0 rs (min (32 * unat (mem_upper info * 1024 div BLOCK_SIZE)) (2 ^ 20))"
  obtains s' where "Phymem_Init rd info s = Some s'" "unat (maximumBlocks s') \<le> 2 ^ 20"
    "memorySize s' = mem_upper info * 1024"
    "unat (FreeBlocks s') = available_blocks rs" "unat (FreeBlocks s') \<le> card (insert 0 (available s'))"
proof -
  obtain s' where s': "Phymem_Init rd info s = Some s'" "memorySize s' = mem_upper info * 1024"
    "maximumBlocks s' = mem_upper info * 1024 div BLOCK_SIZE"
    "FreeBlocks s' = (\<Sum>r\<leftarrow>filter (\<lambda>r. rtype r = MULTIBOOT_MEMORY_AVAILABLE) rs. rlength r div BLOCK_SIZE)"
    "\<And>f. marked s' f \<longleftrightarrow> f = 0 \<and> (\<exists>r\<in>set rs. rtype r = MULTIBOOT_MEMORY_AVAILABLE) \<or>
       filled (maximumBlocks s') s f \<and> \<not> (\<exists>r\<in>set rs. region_frame r f)"
    using mmap_walk_list [OF map]
    by (simp add: Phymem_Init_def Let_def marked_free_regions free_regions_fields marked_filled FreeBlocks_def)
  have count: "available_blocks rs \<le> min (32 * unat (mem_upper info * 1024 div BLOCK_SIZE)) (2 ^ 20)"
    "card {f. \<exists>r\<in>set rs. region_frame r f} = available_blocks rs"
    "\<And>f. \<exists>r\<in>set rs. region_frame r f \<Longrightarrow> unat f < min (32 * unat (mem_upper info * 1024 div BLOCK_SIZE)) (2 ^ 20)"
    using regions_fit_count [OF fit] by auto
  have "{f. \<exists>r\<in>set rs. region_frame r f} \<subseteq> insert 0 (available s')"
    using count(3) s'(5) by (auto simp: available_def frame_limit_def s'(3))
  then have "available_blocks rs \<le> card (insert 0 (available s'))"
    using card_mono [of "insert 0 (available s')" "{f. \<exists>r\<in>set rs. region_frame r f}"] count(2) by simp
  moreover have "unat (FreeBlocks s') = available_blocks rs"
    unfolding s'(4) using count(1) by (intro unat_free_sum) simp
  moreover have "unat (maximumBlocks s') \<le> 2 ^ 20"
    using u32_lt [of "mem_upper info * 1024"] by (simp add: s'(3) unat_div_BLOCK_SIZE)
  ultimately show ?thesis using that s'(1,2) by simp
qed

end
