(* ===== verification/OS_Paging.thy ===== *)
theory OS_Paging
  imports OS_Virtmem OS_Bootmem
begin

text \<open>
  \<open>VirtualMem::Init\<close> (mem/virtmem.cpp) as a whole: from the directory of the boot code to the
  recursive mapping, the backed heap and the table for the first 4 MB.

  \<^item> \<open>boot_directory\<close> is what the boot code leaves: large pages only, the directory seen through one
    of them.
  \<^item> \<open>low_update\<close> describes a run of stores into the table for the first 4 MB; the loops that fill it
    are shown to be such runs.
\<close>

section \<open>The state that the boot code leaves\<close>

definition boot_directory :: "u32 \<Rightarrow> vm \<Rightarrow> bool" where
  "boot_directory pd st \<longleftrightarrow> cr3 st = virt2phys pd \<and> 4096 dvd unat (cr3 st) \<and> 0 < cr3 st \<and>
     cr3 st < 0x1000000 \<and> directory_visible pd st \<and> (\<forall>i<1023. table_frame st i = None) \<and>
     (\<forall>d\<in>heap_dirs. pde_get PD_present (phys st (cr3 st + 4 * d)) = 0)"

lemma virt2phys_low: "virt2phys pd = c \<Longrightarrow> c < 0x1000000 \<Longrightarrow> unat pd = 0xC0000000 + unat c"
proof -
  assume c: "virt2phys pd = c" "c < 0x1000000"
  have pd: "pd = 0xC0000000 + c" using c(1) by (auto simp: virt2phys_def KERNEL_VIRTUAL_OFFSET_def)
  have "unat c < 0x1000000" using c(2) by (simp add: word_less_nat_alt)
  then show ?thesis unfolding pd by (intro trans [OF unat_plus_le]) simp_all
qed

lemma boot_directoryD:
  assumes "boot_directory pd st"
  shows "unat pd = 0xC0000000 + unat (cr3 st)" and "unat (cr3 st) < 0x1000000"
    and "PAGEDIR_INDEX pd \<notin> heap_dirs" and "PAGEDIR_INDEX pd \<noteq> 1023" and "4096 dvd unat pd"
    and "\<not> heap_page KERNEL_HEAP_START pd"
proof -
  have c: "cr3 st < 0x1000000" "virt2phys pd = cr3 st" and al: "4096 dvd unat (cr3 st)"
    using assms by (auto simp: boot_directory_def)
  show u: "unat pd = 0xC0000000 + unat (cr3 st)" by (rule virt2phys_low [OF c(2,1)])
  show l: "unat (cr3 st) < 0x1000000" using c(1) by (simp add: word_less_nat_alt)
  show "PAGEDIR_INDEX pd \<notin> heap_dirs"
  proof
    assume "PAGEDIR_INDEX pd \<in> heap_dirs"
    then have "pde_get PD_present (phys st (cr3 st + 4 * PAGEDIR_INDEX pd)) = 0"
      using assms unfolding boot_directory_def by blast
    then have "translate st pd = None" by (simp add: translate_def page_walk_def)
    then show False using assms by (simp add: boot_directory_def directory_visible_def)
  qed
  then show "\<not> heap_page KERNEL_HEAP_START pd" using heap_dir(1) by (auto simp: heap_page_def)
  have "unat (PAGEDIR_INDEX pd) < 1023" unfolding unat_PAGEDIR_INDEX u using l by linarith
  then show "PAGEDIR_INDEX pd \<noteq> 1023" by auto
  show "4096 dvd unat pd" unfolding u using al by simp
qed

text \<open>Through a large page the whole directory is visible.\<close>

lemma visible_entry:
  assumes vis: "directory_visible pd st" and al: "4096 dvd unat pd" and k: "k < 4096"
  shows "translate st (pd + k) = Some (cr3 st + k)"
proof -
  have s: "unat (pd + k) = unat pd + unat k" by (rule page_fit [OF al k])
  have k': "unat k < 4096" using k by (simp add: word_less_nat_alt)
  obtain q where q: "unat pd = 4096 * q" using al by (elim dvdE)
  have "(4096 * q + x) div 4194304 = q div 1024" if "x < 4096" for x :: nat
  proof -
    have "(4096 * q + x) div 4096 = q" using that by simp
    then show ?thesis using div_mult2_eq [of "4096 * q + x" 4096 1024] by simp
  qed
  from this [OF k'] this [of 0] have dir: "PAGEDIR_INDEX (pd + k) = PAGEDIR_INDEX pd"
    by (intro word_nat_eqI) (simp add: unat_PAGEDIR_INDEX s q)
  have m: "(0x3FFFFF :: u32) = mask 22" by (simp add: mask_eq_exp_minus_1)
  have "unat ((pd + k) AND 0x3FFFFF) = unat (pd AND 0x3FFFFF) + unat k"
  proof -
    have 1: "(4096 * q + x) mod 4194304 = 4096 * (q mod 1024) + x" if "x < 4096" for x :: nat
    proof -
      have "(4096 * q + x) mod 4096 = x" "(4096 * q + x) div 4096 = q" using that by simp_all
      then show ?thesis using mod_mult2_eq [of "4096 * q + x" 4096 1024] by simp
    qed
    show ?thesis using 1 [OF k'] 1 [of 0] unfolding m unat_and_mask by (simp add: s q)
  qed
  moreover have "unat (pd AND 0x3FFFFF) + unat k < 2 ^ 32"
    using k' unfolding m unat_and_mask by (simp add: order.strict_trans1 [OF _ add_less_mono [of _ 4194304 _ 4096]])
  ultimately have off: "(pd + k) AND 0x3FFFFF = (pd AND 0x3FFFFF) + k"
    by (intro word_nat_eqI) (simp add: unat_plus_le)
  have "pde_get PD_present (phys st (cr3 st + 4 * PAGEDIR_INDEX pd)) \<noteq> 0"
    using vis by (auto simp: directory_visible_def translate_def page_walk_def)
  then have big: "pde_get PD_pageSize (phys st (cr3 st + 4 * PAGEDIR_INDEX pd)) = FOUR_MB"
    using vis by (auto simp: directory_visible_def table_frame_def entry_table_def split: if_splits)
  show ?thesis
    using vis big unfolding directory_visible_def translate_def page_walk_def dir off Let_def
    by (auto simp: algebra_simps split: if_splits)
qed

section \<open>The recursive mapping\<close>

lemma last_pde_fields: "4096 dvd unat (virt2phys pd) \<Longrightarrow> entry_table (last_pde pd) = Some (virt2phys pd)"
  using frame_number_fits [of "virt2phys pd"]
  by (simp add: entry_table_def last_pde_def pde_get_put FOUR_KB_def FOUR_MB_def)

lemma install_recursive:
  assumes boot: "boot_directory pd st" and acc: "accounted (phyMem st)" and held: "cr3 st \<in> held_frames (phyMem st)"
  defines "st1 \<equiv> store_at (cr3 st + 4 * 1023) (last_pde pd) st"
  shows "vwrite (pd + 4 * 1023) (last_pde pd) st = Some st1"
    and "vm_ok st1" and "heap_mappable st1" and "directory_visible pd st1"
proof -
  have c: "cr3 st = virt2phys pd" "4096 dvd unat (cr3 st)" and vis: "directory_visible pd st"
    and none: "\<And>i. i < 1023 \<Longrightarrow> table_frame st i = None"
    and absent: "\<And>d. d \<in> heap_dirs \<Longrightarrow> pde_get PD_present (phys st (cr3 st + 4 * d)) = 0"
    using boot by (auto simp: boot_directory_def)
  note b = boot_directoryD [OF boot]
  have "translate st (pd + 4092) = Some (cr3 st + 4092)" by (rule visible_entry [OF vis b(5)]) simp
  then show "vwrite (pd + 4 * 1023) (last_pde pd) st = Some st1" by (simp add: vwrite_def st1_def store_at_def)
  have e: "phys st1 (cr3 st + 4 * j) = (if j = 1023 then last_pde pd else phys st (cr3 st + 4 * j))"
    if "j < 1024" for j
    using index_offset_eq [OF that, of 1023] by (simp add: st1_def)
  have tf: "table_frame st1 j = (if j = 1023 then Some (cr3 st) else None)" if "j < 1024" for j
  proof (cases "j = 1023")
    case True
    then show ?thesis using e [OF that] last_pde_fields [of pd] c by (simp add: table_frame_def st1_def)
  next
    case False
    then have "j < 1023" using that by (auto simp: word_less_nat_alt word_unat_eq_iff)
    then show ?thesis using e [OF that] none False by (simp add: table_frame_def st1_def)
  qed
  show "vm_ok st1"
    using tf acc held c by (auto simp: vm_ok_def self_mapped_def st1_def split: if_splits)
  show "heap_mappable st1"
    using e absent heap_dirs_less by (auto simp: heap_mappable_def st1_def heap_dirs_def)
  have "PAGEDIR_INDEX pd \<noteq> 1023" by (rule b(4))
  then have same: "phys st1 (cr3 st + 4 * PAGEDIR_INDEX pd) = phys st (cr3 st + 4 * PAGEDIR_INDEX pd)"
    using e [OF PAGEDIR_INDEX_less] by simp
  have "translate st1 pd = translate st pd"
    by (rule translate_cong) (use same vis in \<open>auto simp: st1_def directory_visible_def\<close>)
  then show "directory_visible pd st1"
    using vis tf [OF PAGEDIR_INDEX_less] b(4) by (simp add: directory_visible_def st1_def)
qed

section \<open>Filling the table for the first 4 MB\<close>

text \<open>The table of the first directory entry lies at \<open>t\<close>.\<close>

definition low_table :: "vm \<Rightarrow> u32 \<Rightarrow> bool" where
  "low_table st t \<longleftrightarrow> self_mapped st \<and> table_frame st 0 = Some t \<and> t \<noteq> cr3 st"

text \<open>\<open>st'\<close> differs from \<open>st\<close> in the entries \<open>J\<close> of that table, which \<open>g\<close> has changed.\<close>

definition low_update :: "u32 \<Rightarrow> u32 set \<Rightarrow> (u32 \<Rightarrow> u32 \<Rightarrow> u32) \<Rightarrow> vm \<Rightarrow> vm \<Rightarrow> bool" where
  "low_update t J g st st' \<longleftrightarrow> (\<exists>m. st' = st\<lparr>phys := m\<rparr> \<and>
     (\<forall>j<1024. m (t + 4 * j) = (if j \<in> J then g j (phys st (t + 4 * j)) else phys st (t + 4 * j))) \<and>
     (\<forall>a. \<not> (\<exists>k<4096. a = t + k) \<longrightarrow> m a = phys st a))"

lemma low_tableD:
  assumes "low_table st t"
  shows "self_mapped st" and "table_frame st 0 = Some t" and "t \<noteq> cr3 st"
    and "4096 dvd unat t" and "4096 dvd unat (cr3 st)"
  using assms table_frame_aligned by (auto simp: low_table_def self_mapped_def)

lemma outside_page:
  "4096 dvd unat (t :: u32) \<Longrightarrow> 4096 dvd unat u \<Longrightarrow> u \<noteq> t \<Longrightarrow> i < 1024 \<Longrightarrow> \<not> (\<exists>k<4096. u + 4 * i = t + k)"
  using page_offset_eq [of u t "4 * i"] index_offset(1) [of i] by auto

lemma low_update_directory:
  assumes "low_table st t" and "low_update t J g st st'" and "j < 1024"
  shows "phys st' (cr3 st + 4 * j) = phys st (cr3 st + 4 * j)"
  using assms(2) outside_page [OF low_tableD(4,5) [OF assms(1)] low_tableD(3) [OF assms(1), symmetric] assms(3)]
  by (auto simp: low_update_def)

lemma low_update_table: "low_table st t \<Longrightarrow> low_update t J g st st' \<Longrightarrow> low_table st' t"
  using low_update_directory [of st t J g st' 0] low_update_directory [of st t J g st' 1023]
  by (auto simp: low_table_def self_mapped_def table_frame_def low_update_def)

lemma low_update_none: "low_update t {} g st st"
  by (auto simp: low_update_def intro!: exI [of _ "phys st"])

lemma low_update_append:
  assumes "low_update t I g st s1" and "low_update t J g s1 st'" and "I \<inter> J = {}"
  shows "low_update t (I \<union> J) g st st'"
proof -
  obtain m n where "s1 = st\<lparr>phys := m\<rparr>" "st' = s1\<lparr>phys := n\<rparr>"
    "\<forall>j<1024. m (t + 4 * j) = (if j \<in> I then g j (phys st (t + 4 * j)) else phys st (t + 4 * j))"
    "\<forall>j<1024. n (t + 4 * j) = (if j \<in> J then g j (m (t + 4 * j)) else m (t + 4 * j))"
    "\<forall>a. \<not> (\<exists>k<4096. a = t + k) \<longrightarrow> m a = phys st a" "\<forall>a. \<not> (\<exists>k<4096. a = t + k) \<longrightarrow> n a = m a"
    using assms(1,2) by (auto simp: low_update_def)
  then show ?thesis using assms(3) by (auto simp: low_update_def intro!: exI [of _ n])
qed

lemma low_update_store:
  assumes "low_table st t" and "j < 1024" and "\<And>w. g j w = f w"
  shows "low_update t {j} g st (store_at (t + 4 * j) (f (phys st (t + 4 * j))) st)"
proof -
  have "t + 4 * i = t + 4 * j \<longleftrightarrow> i = j" if "i < 1024" for i
    using index_offset_eq [OF that assms(2)] by simp
  moreover have "a \<noteq> t + 4 * j" if "\<not> (\<exists>k<4096. a = t + k)" for a
    using that index_offset(1) [OF assms(2)] by blast
  ultimately show ?thesis
    using assms(3) by (auto simp: low_update_def store_at_def intro!: exI [of _ "(phys st)(t + 4 * j := f (phys st (t + 4 * j)))"])
qed

text \<open>Bit-field stores into one entry, through the window.\<close>

lemma low_store:
  assumes "low_table st t" and "j < 1024"
  shows "pte_store (window 0 (4 * j)) f v st = Some (store_at (t + 4 * j) (pte_put f v (phys st (t + 4 * j))) st)"
  by (rule pte_store_window [OF low_tableD(1,2) [OF assms(1)] _ index_offset(1) [OF assms(2)]]) simp

lemma low_table_store: "low_table st t \<Longrightarrow> j < 1024 \<Longrightarrow> low_table (store_at (t + 4 * j) w st) t"
  by (rule low_update_table [OF _ low_update_store [where g = "\<lambda>_ _. w" and f = "\<lambda>_. w"]]) simp_all

lemma low_stores:
  assumes "low_table st t" and "j < 1024"
  shows "do {
      st \<leftarrow> pte_store (window 0 (4 * j)) f1 v1 st;
      st \<leftarrow> pte_store (window 0 (4 * j)) f2 v2 st;
      st \<leftarrow> pte_store (window 0 (4 * j)) f3 v3 st;
      st \<leftarrow> pte_store (window 0 (4 * j)) f4 v4 st;
      k st
    } = k (store_at (t + 4 * j) (pte_put f4 v4 (pte_put f3 v3 (pte_put f2 v2
          (pte_put f1 v1 (phys st (t + 4 * j)))))) st)"
  using assms by (simp add: low_store [where t = t] low_table_store)

lemma low_entry_address: "GetPageTableAddress 0 + k = window 0 k"
  using GetPageTableAddress_window [of 0 k] by simp

text \<open>What the two loops write.\<close>

definition identity_entry :: "u32 \<Rightarrow> u32 \<Rightarrow> u32" where
  "identity_entry j w = pte_put PT_present 1 (pte_put PT_readWrite 1 (pte_put PT_isUser 0 (pte_put PT_frame j w)))"

lemma identity_map_from_writes:
  assumes "low_table st t" and "unat i \<le> 1024"
  shows "\<exists>st'. identity_map_from i st = Some st' \<and> low_update t {j. unat i \<le> unat j \<and> j < 1024} identity_entry st st'"
  using assms
proof (induction "1024 - unat i" arbitrary: i st)
  case 0
  then have "{j :: u32. unat i \<le> unat j \<and> j < 1024} = {}" by (auto simp: word_less_nat_alt)
  moreover have "identity_map_from i st = Some st"
    using 0 by (simp add: identity_map_from.simps [of i] word_less_nat_alt)
  ultimately show ?case using low_update_none by metis
next
  case (Suc n)
  let ?J = "\<lambda>i :: u16. {j :: u32. unat i \<le> unat j \<and> j < 1024}"
  have i: "unat i < 1024" using Suc.hyps(2) by simp
  have succ: "unat (i + 1) = unat i + 1" using i by (simp add: unat_word_ariths)
  have n: "n = 1024 - unat (i + 1)" using Suc.hyps(2) succ by linarith
  have u: "unat (ucast i :: u32) = unat i" using i by (simp add: unsigned_ucast_eq take_bit_nat_eq_self)
  then have j: "(ucast i :: u32) < 1024" using i by (simp add: word_less_nat_alt)
  let ?s = "store_at (t + 4 * ucast i) (identity_entry (ucast i) (phys st (t + 4 * ucast i))) st"
  have up: "low_update t {ucast i} identity_entry st ?s"
    by (rule low_update_store [OF Suc.prems(1) j]) simp
  obtain st' where st': "identity_map_from (i + 1) ?s = Some st'" "low_update t (?J (i + 1)) identity_entry ?s st'"
    using Suc.hyps(1) [OF n low_update_table [OF Suc.prems(1) up]] i succ by auto
  have "identity_map_from i st = Some st'"
    using i st'(1) by (simp add: identity_map_from.simps [of i] low_entry_address low_stores [OF Suc.prems(1) j]
        identity_entry_def word_less_nat_alt Let_def)
  moreover have "?J i = {ucast i} \<union> ?J (i + 1)" "{ucast i} \<inter> ?J (i + 1) = {}"
    using j u succ by (auto simp: word_unat_eq_iff)
  ultimately show ?case using low_update_append [OF up st'(2)] by auto
qed

definition user_entry :: "u32 \<Rightarrow> u32 \<Rightarrow> u32" where
  "user_entry j w = pte_put PT_isUser 1 w"

lemma user_pages_from_writes:
  assumes "low_table st t" and "q \<le> 256"
  shows "\<exists>st'. user_pages_from (of_nat (4096 * q)) st = Some st' \<and>
    low_update t {j. q \<le> unat j \<and> j < 256} user_entry st st'"
  using assms
proof (induction "256 - q" arbitrary: q st)
  case 0
  then have "q = 256" "{j :: u32. q \<le> unat j \<and> j < 256} = {}" by (auto simp: word_less_nat_alt)
  moreover have "user_pages_from (of_nat (4096 * q)) st = Some st"
    using \<open>q = 256\<close> by (simp add: user_pages_from.simps [of "0x100000"] PageRoundUp_1MB)
  ultimately show ?case using low_update_none by metis
next
  case (Suc n)
  let ?J = "\<lambda>q. {j :: u32. q \<le> unat j \<and> j < 256}" and ?a = "of_nat (4096 * q) :: u32" and ?j = "of_nat q :: u32"
  have q: "q < 256" using Suc.hyps(2) by simp
  have ua: "unat ?a = 4096 * q" and uj: "unat ?j = q" using q by (simp_all add: unat_of_nat take_bit_nat_eq_self del: of_nat_mult)
  then have j: "?j < 1024" "?j < 256" using q by (simp_all add: word_less_nat_alt)
  have idx: "PAGETBL_INDEX ?a = ?j" by (rule word_nat_eqI) (use q in \<open>simp add: unat_PAGETBL_INDEX ua uj del: of_nat_mult\<close>)
  have cc: "(ucast (ucast ?j :: u16) :: u32) = ?j"
    by (rule word_nat_eqI) (use q uj in \<open>simp add: unsigned_ucast_eq unsigned_take_bit_eq take_bit_nat_eq_self\<close>)
  let ?s = "store_at (t + 4 * ?j) (user_entry ?j (phys st (t + 4 * ?j))) st"
  have up: "low_update t {?j} user_entry st ?s" by (rule low_update_store [OF Suc.prems(1) j(1)]) simp
  have n: "n = 256 - Suc q" using Suc.hyps(2) by linarith
  obtain st' where st': "user_pages_from (of_nat (4096 * Suc q)) ?s = Some st'" "low_update t (?J (Suc q)) user_entry ?s st'"
    using Suc.hyps(1) [OF n low_update_table [OF Suc.prems(1) up]] q by auto
  have next_page: "?a + PAGE_SIZE = of_nat (4096 * Suc q)" by (simp add: PAGE_SIZE_def)
  have "?a < 0x100000" using q by (simp add: word_less_nat_alt ua del: of_nat_mult)
  then have "user_pages_from ?a st = Some st'"
    unfolding user_pages_from.simps [of ?a] PageRoundUp_1MB idx Let_def cc next_page
    using st'(1) low_store [OF Suc.prems(1) j(1)] \<open>?a < 0x100000\<close>
    by (simp add: low_entry_address user_entry_def del: of_nat_mult)
  moreover have "?J q = {?j} \<union> ?J (Suc q)" "{?j} \<inter> ?J (Suc q) = {}"
    using j uj by (auto simp: word_unat_eq_iff)
  ultimately show ?case using low_update_append [OF up st'(2)] by auto
qed

text \<open>What the table holds when \<open>Init\<close> is done: page \<open>j\<close> at frame \<open>j\<close>, the first page absent,
  the pages below 1 MB open to user code.\<close>

definition low_page :: "u32 \<Rightarrow> u32 \<Rightarrow> bool" where
  "low_page j w \<longleftrightarrow> pte_get PT_frame w = j \<and> pte_get PT_readWrite w = 1 \<and>
     pte_get PT_present w = (if j = 0 then 0 else 1) \<and> pte_get PT_isUser w = (if j < 256 then 1 else 0)"

lemma low_update_entry: "low_update t J g st st' \<Longrightarrow> j < 1024 \<Longrightarrow>
    phys st' (t + 4 * j) = (if j \<in> J then g j (phys st (t + 4 * j)) else phys st (t + 4 * j))"
  by (auto simp: low_update_def)

lemma low_update_outside: "low_update t J g st st' \<Longrightarrow> \<not> (\<exists>k<4096. a = t + k) \<Longrightarrow> phys st' a = phys st a"
  by (auto simp: low_update_def)

lemma low_update_fields: "low_update t J g st st' \<Longrightarrow> cr3 st' = cr3 st \<and> phyMem st' = phyMem st"
  by (auto simp: low_update_def)

lemma fill_low_table:
  assumes low: "low_table st t"
  obtains st' where
    "(do { st \<leftarrow> identity_map_from 1 st;
           st \<leftarrow> user_pages_from PAGE_SIZE st;
           st \<leftarrow> pte_store (GetPageTableAddress 0) PT_frame 0 st;
           st \<leftarrow> pte_store (GetPageTableAddress 0) PT_isUser 1 st;
           st \<leftarrow> pte_store (GetPageTableAddress 0) PT_readWrite 1 st;
           pte_store (GetPageTableAddress 0) PT_present 0 st }) = Some st'"
    "low_table st' t" "cr3 st' = cr3 st" "phyMem st' = phyMem st"
    "\<And>j. j < 1024 \<Longrightarrow> low_page j (phys st' (t + 4 * j))"
    "\<And>a. \<not> (\<exists>k<4096. a = t + k) \<Longrightarrow> phys st' a = phys st a"
proof -
  define first :: "u32 \<Rightarrow> u32 \<Rightarrow> u32" where
    "first = (\<lambda>j w. pte_put PT_present 0 (pte_put PT_readWrite 1 (pte_put PT_isUser 1 (pte_put PT_frame 0 w))))"
  obtain s1 where 1: "identity_map_from 1 st = Some s1"
      "low_update t {j. 1 \<le> unat j \<and> j < 1024} identity_entry st s1"
    using identity_map_from_writes [OF low, of 1] by auto
  note l1 = low_update_table [OF low 1(2)]
  obtain s2 where 2: "user_pages_from PAGE_SIZE s1 = Some s2" "low_update t {j. 1 \<le> unat j \<and> j < 256} user_entry s1 s2"
    using user_pages_from_writes [OF l1, of 1] by (auto simp: PAGE_SIZE_def)
  note l2 = low_update_table [OF l1 2(2)]
  define s3 where "s3 = store_at (t + 4 * 0) (first 0 (phys s2 (t + 4 * 0))) s2"
  have 3: "low_update t {0} first s2 s3"
    unfolding s3_def by (rule low_update_store [OF l2]) (simp_all add: first_def)
  note l3 = low_update_table [OF l2 3]
  have e: "GetPageTableAddress 0 = window 0 (4 * 0)" using low_entry_address [of 0] by simp
  have "(do { st \<leftarrow> pte_store (GetPageTableAddress 0) PT_frame 0 s2;
           st \<leftarrow> pte_store (GetPageTableAddress 0) PT_isUser 1 st;
           st \<leftarrow> pte_store (GetPageTableAddress 0) PT_readWrite 1 st;
           pte_store (GetPageTableAddress 0) PT_present 0 st }) = Some s3"
    using low_stores [OF l2, of 0 PT_frame 0 PT_isUser 1 PT_readWrite 1 PT_present 0 Some] unfolding e
    by (simp add: s3_def first_def)
  moreover have "low_page j (phys s3 (t + 4 * j))" if j: "j < 1024" for j
  proof -
    have nz: "Suc 0 \<le> unat j \<longleftrightarrow> j \<noteq> 0" by (simp add: unat_eq_zero [symmetric] Suc_le_eq)
    have fit: "take_bit 20 j = j"
      using j by (intro word_nat_eqI) (simp add: unsigned_take_bit_eq take_bit_nat_eq_self word_less_nat_alt)
    show ?thesis
      unfolding low_update_entry [OF 3 j] low_update_entry [OF 2(2) j] low_update_entry [OF 1(2) j]
      using j fit by (auto simp: low_page_def first_def user_entry_def identity_entry_def pte_get_put nz)
  qed
  moreover have "phys s3 a = phys st a" if "\<not> (\<exists>k<4096. a = t + k)" for a
    using low_update_outside [OF _ that] 1(2) 2(2) 3 by metis
  moreover have "cr3 s3 = cr3 st" "phyMem s3 = phyMem st"
    using low_update_fields 1(2) 2(2) 3 by metis+
  ultimately show ?thesis using that [of s3] 1(1) 2(1) l3 by simp
qed

section \<open>Init\<close>

text \<open>The translation of the first 4 MB through that table.\<close>

lemma low_translation:
  assumes "low_table st t" and "\<And>j. j < 1024 \<Longrightarrow> low_page j (phys st (t + 4 * j))" and "va < 0x400000"
  shows "translate st va = (if va < 4096 then None else Some va)"
proof -
  have u: "unat va < 4194304" using assms(3) by (simp add: word_less_nat_alt)
  then have d: "PAGEDIR_INDEX va = 0" by (intro word_nat_eqI) (simp add: unat_PAGEDIR_INDEX)
  have p: "low_page (PAGETBL_INDEX va) (phys st (t + 4 * PAGETBL_INDEX va))" by (rule assms(2) [OF PAGETBL_INDEX_less])
  have i: "unat (PAGETBL_INDEX va) = unat va div 4096" using u by (simp add: unat_PAGETBL_INDEX)
  have z: "PAGETBL_INDEX va = 0 \<longleftrightarrow> va < 4096"
    unfolding word_unat_eq_iff i by (simp add: word_less_nat_alt div_eq_0_iff)
  have m: "unat (PAGETBL_INDEX va * 4096) = unat va div 4096 * 4096"
    using u i by (simp add: unat_word_ariths)
  have "unat (PAGETBL_INDEX va * 4096 + PAGEFRAME_INDEX va) = unat va"
    by (subst unat_plus_le) (use u in \<open>simp_all add: m unat_PAGEFRAME_INDEX\<close>)
  then have "PAGETBL_INDEX va * 4096 + PAGEFRAME_INDEX va = va" by (rule word_nat_eqI)
  then show ?thesis
    using translate_table [of st va t] low_tableD(2) [OF assms(1)] p z by (simp add: d low_page_def Let_def)
qed

lemma low_page_aligned: "4096 dvd unat p \<Longrightarrow> c < 0x1000000 \<Longrightarrow> c \<noteq> 0 \<Longrightarrow> take_bit 20 p * 4096 \<noteq> (c :: u32)"
proof
  assume al: "4096 dvd unat p" and c: "c < 0x1000000" "c \<noteq> 0" and e: "take_bit 20 p * 4096 = c"
  have "unat c = unat p div 4096 mod 256 * 2 ^ 24" using unat_low_table [OF al] e by simp
  moreover have "unat c < 2 ^ 24" "unat c \<noteq> 0" using c by (simp_all add: word_less_nat_alt unat_eq_zero)
  ultimately show False by (cases "unat p div 4096 mod 256") simp_all
qed

text \<open>Everything \<open>Init\<close> establishes, for a boot directory with enough free frames.\<close>

lemma Virtmem_Init_effect:
  assumes boot: "boot_directory pd st" and acc: "accounted (phyMem st)" and held: "cr3 st \<in> held_frames (phyMem st)"
    and free: "4100 \<le> unat (FreeBlocks (phyMem st))"
  obtains st' t F where "Virtmem_Init pd st = Some st'" "cr3 st' = cr3 st"
    "table_frame st' 0 = Some t" "2 ^ 24 dvd unat t"
    "\<And>va. va < 0x400000 \<Longrightarrow> translate st' va = (if va < 4096 then None else Some va)"
    "translate st' 0xFFFFF000 = Some (cr3 st)"
    "(\<exists>d\<in>heap_dirs. table_frame st' d = Some t) \<or>
      heap_backed KERNEL_HEAP_START F st' (held_frames (phyMem st') - held_frames (phyMem st))"
proof -
  define s1 where "s1 = store_at (cr3 st + 4 * 1023) (last_pde pd) st"
  note r = install_recursive [OF boot acc held, folded s1_def]
  have s1: "cr3 s1 = cr3 st" "phyMem s1 = phyMem st" by (simp_all add: s1_def)
  have "missing_tables s1 \<subseteq> {769, 770, 771, 772}"
    by (auto simp: missing_tables_def heap_dirs_def word_le_nat_alt word_unat_eq_iff)
  then have "card (missing_tables s1) \<le> card {769, 770, 771, 772 :: u32}" by (intro card_mono) simp_all
  then have "heap_loop_inv KERNEL_HEAP_START s1"
    using r(2,3) free s1 unat_heap_end by (simp add: heap_loop_inv_def KERNEL_HEAP_START_def word_le_nat_alt)
  from map_heap_from_spec [OF this] obtain s2 F where 2: "map_heap_from KERNEL_HEAP_START s1 = Some s2" "vm_ok s2"
    "heap_backed KERNEL_HEAP_START F s2 (held_frames (phyMem s2) - held_frames (phyMem s1))"
    "\<And>va. \<not> heap_page KERNEL_HEAP_START va \<Longrightarrow> PAGEDIR_INDEX va \<noteq> 1023 \<Longrightarrow> translate s2 va = translate s1 va"
    "cr3 s2 = cr3 s1" "\<And>j. j < 1024 \<Longrightarrow> j \<notin> heap_dirs \<Longrightarrow> phys s2 (cr3 s1 + 4 * j) = phys s1 (cr3 s1 + 4 * j)"
    "held_frames (phyMem s1) \<subseteq> held_frames (phyMem s2)"
    by blast
  note b = boot_directoryD [OF boot]
  have vis: "directory_visible pd s2"
    using r(4) 2(4) [OF b(6,4)] 2(5) 2(6) [OF PAGEDIR_INDEX_less b(3)]
    by (simp add: directory_visible_def table_frame_def)
  obtain p fr where al: "AllocateBlock (phyMem s2) = (p, fr)" by fastforce
  then have af: "alloc_frame s2 = (p, s2\<lparr>phyMem := fr\<rparr>)" by (simp add: alloc_frame_def)
  have ap: "4096 dvd unat p"
    using AllocateBlock_fresh(3) [OF vm_okD(2) [OF 2(2)] al] by (cases "p = 0") simp_all
  let ?t = "take_bit 20 p * 4096"
  have tc: "?t \<noteq> cr3 s2"
    using low_page_aligned [OF ap, of "cr3 s2"] boot 2(5) s1 by (auto simp: boot_directory_def word_gt_0)
  obtain m where m: "install_low_table pd s2 = Some (s2\<lparr>phys := m, phyMem := fr\<rparr>)"
    "table_frame (s2\<lparr>phys := m, phyMem := fr\<rparr>) 0 = Some ?t"
    "\<And>a. a \<noteq> cr3 s2 \<Longrightarrow> \<not> (\<exists>k<4096. a = ?t + k) \<Longrightarrow> m a = phys s2 a"
    by (rule install_low_table_spec [OF vm_okD(1) [OF 2(2)] vis af tc]) blast
  define s3 where "s3 = s2\<lparr>phys := m, phyMem := fr\<rparr>"
  have at: "4096 dvd unat ?t" "4096 dvd unat (cr3 s2)"
    using m(2) table_frame_aligned vm_okD(3) [OF 2(2)] by blast+
  have dir3: "m (cr3 s2 + 4 * j) = phys s2 (cr3 s2 + 4 * j)" if "j < 1024" "j \<noteq> 0" for j
    using index_offset_eq [OF that(1), of 0] that(2) outside_page [OF at tc [symmetric] that(1)] by (intro m(3)) auto
  have low3: "low_table s3 ?t"
    using m(2) tc dir3 [of 1023] vm_okD(1) [OF 2(2)]
    by (simp add: low_table_def self_mapped_def s3_def table_frame_def)
  obtain s4 where 4: "(do { st \<leftarrow> identity_map_from 1 s3;
           st \<leftarrow> user_pages_from PAGE_SIZE st;
           st \<leftarrow> pte_store (GetPageTableAddress 0) PT_frame 0 st;
           st \<leftarrow> pte_store (GetPageTableAddress 0) PT_isUser 1 st;
           st \<leftarrow> pte_store (GetPageTableAddress 0) PT_readWrite 1 st;
           pte_store (GetPageTableAddress 0) PT_present 0 st }) = Some s4"
    "low_table s4 ?t" "cr3 s4 = cr3 s3" "phyMem s4 = phyMem s3"
    "\<And>j. j < 1024 \<Longrightarrow> low_page j (phys s4 (?t + 4 * j))"
    "\<And>a. \<not> (\<exists>k<4096. a = ?t + k) \<Longrightarrow> phys s4 a = phys s3 a"
    by (rule fill_low_table [OF low3]) blast
  have c4: "cr3 s4 = cr3 st" using 4(3) 2(5) s1 by (simp add: s3_def)
  have run: "Virtmem_Init pd st = Some s4"
    using r(1) 2(1) m(1) 4(1) by (simp add: Virtmem_Init_def s3_def Let_def)
  have dir4: "phys s4 (cr3 st + 4 * j) = phys s2 (cr3 st + 4 * j)" if "j < 1024" "j \<noteq> 0" for j
    using 4(6) [OF outside_page [OF at tc [symmetric] that(1)]] dir3 [OF that] 2(5) s1 by (simp add: s3_def)
  have heap: "heap_backed KERNEL_HEAP_START F s4 (held_frames (phyMem s4) - held_frames (phyMem st))"
    if apart: "\<And>d. d \<in> heap_dirs \<Longrightarrow> table_frame s4 d \<noteq> Some ?t"
  proof -
    have "translate s4 va = translate s2 va" if va: "heap_page KERNEL_HEAP_START va" for va
    proof (rule translate_cong)
      have d: "PAGEDIR_INDEX va \<in> heap_dirs" "PAGEDIR_INDEX va < 1023"
        using va heap_dir by (auto simp: heap_page_def)
      have d0: "PAGEDIR_INDEX va \<noteq> 0" using d(1) by (auto simp: heap_dirs_def)
      show "cr3 s4 = cr3 s2" using c4 2(5) s1 by simp
      show e: "phys s4 (cr3 s2 + 4 * PAGEDIR_INDEX va) = phys s2 (cr3 s2 + 4 * PAGEDIR_INDEX va)"
        using dir4 [OF PAGEDIR_INDEX_less d0] 2(5) s1 by simp
      fix u assume u: "table_frame s2 (PAGEDIR_INDEX va) = Some u"
      then have "table_frame s4 (PAGEDIR_INDEX va) = Some u" using e c4 2(5) s1 by (simp add: table_frame_def)
      then have ut: "u \<noteq> ?t" using apart [OF d(1)] by auto
      have uc: "u \<noteq> cr3 s2" by (rule vm_ok_table_not_directory [OF 2(2) d(2) u])
      have au: "4096 dvd unat u" by (rule table_frame_aligned [OF u])
      note out = outside_page [OF at(1) au ut PAGETBL_INDEX_less [of va]]
      have "u + 4 * PAGETBL_INDEX va \<noteq> cr3 s2"
        using page_offset_eq [OF au at(2) index_offset(1) [OF PAGETBL_INDEX_less], of 0 va] uc by auto
      then show "phys s4 (u + 4 * PAGETBL_INDEX va) = phys s2 (u + 4 * PAGETBL_INDEX va)"
        using 4(6) [OF out] m(3) [OF _ out] by (simp add: s3_def)
    qed
    moreover have "held_frames (phyMem s2) \<subseteq> held_frames (phyMem s4)"
      using AllocateBlock_fresh(2) [OF vm_okD(2) [OF 2(2)] al] AllocateBlock_null [OF vm_okD(2) [OF 2(2)], of fr] al 4(4)
      by (cases "p = 0") (auto simp: s3_def)
    ultimately show ?thesis using 2(3) s1 by (auto simp: heap_backed_def)
  qed
  have "0xFFFFF000 = window 1023 0" using directory_window [of 0] by (simp add: PAGE_DIRECTORY_ADDRESS_def)
  then have "translate s4 0xFFFFF000 = Some (cr3 st)"
    using translate_window [of s4 1023 "cr3 s4" 0] low_tableD(1) [OF 4(2)] c4 by (simp add: self_mapped_def)
  moreover have "(\<exists>d\<in>heap_dirs. table_frame s4 d = Some ?t) \<or>
      heap_backed KERNEL_HEAP_START F s4 (held_frames (phyMem s4) - held_frames (phyMem st))"
    using heap by blast
  ultimately show ?thesis
    using that [OF run c4 low_tableD(2) [OF 4(2)] _ low_translation [OF 4(2,5)]] unat_low_table [OF ap] by simp
qed

section \<open>Properties\<close>

text \<open>
  C26. \<open>VirtualMem::Init\<close>, on the directory of the boot code and with 4100 free frames, ends without a
  fault. Afterwards the last directory entry maps the directory itself and the first 4 MB are mapped
  one to one except the first page, which is absent. The table that maps them lies at a multiple of
  16 MB, whatever frame was allocated for it; unless it has landed on one of the heap's page tables,
  every page of the kernel heap is backed by a frame of its own that was free before.
\<close>

theorem Virtmem_Init_establishes:
  assumes "boot_directory pd st" and "accounted (phyMem st)" and "cr3 st \<in> held_frames (phyMem st)"
    and "4100 \<le> unat (FreeBlocks (phyMem st))"
  shows "\<exists>st' t F. Virtmem_Init pd st = Some st' \<and> cr3 st' = cr3 st \<and> translate st' 0xFFFFF000 = Some (cr3 st) \<and>
    (\<forall>va<0x400000. translate st' va = (if va < 4096 then None else Some va)) \<and>
    table_frame st' 0 = Some t \<and> 2 ^ 24 dvd unat t \<and>
    ((\<exists>d\<in>heap_dirs. table_frame st' d = Some t) \<or>
     heap_backed KERNEL_HEAP_START F st' (held_frames (phyMem st') - held_frames (phyMem st)))"
proof -
  obtain st' t F where "Virtmem_Init pd st = Some st'" "cr3 st' = cr3 st"
    "table_frame st' 0 = Some t" "2 ^ 24 dvd unat t"
    "\<And>va. va < 0x400000 \<Longrightarrow> translate st' va = (if va < 4096 then None else Some va)"
    "translate st' 0xFFFFF000 = Some (cr3 st)"
    "(\<exists>d\<in>heap_dirs. table_frame st' d = Some t) \<or>
      heap_backed KERNEL_HEAP_START F st' (held_frames (phyMem st') - held_frames (phyMem st))"
    by (rule Virtmem_Init_effect [OF assms]) blast
  then show ?thesis by blast
qed

text \<open>A boot directory with its two large pages, in a machine of 5000 frames of which 512 are reserved.\<close>

definition boot_vm :: vm where
  "boot_vm = \<lparr>phys = (\<lambda>_. 0)(0x110000 := 0x83, 0x110C00 := 0x83), cr3 = 0x110000,
     phyMem = MarkUsed 0 0x200000 (demo_phymem 5000)\<rparr>"

lemma entry_table_large [simp]: "entry_table 0x83 = None"
  by (simp add: entry_table_def pde_get_def get_bits_def FOUR_MB_def)

lemma boot_vm_directory: "boot_directory 0xC0110000 boot_vm"
proof -
  have none: "table_frame boot_vm i = None" for i by (simp add: table_frame_def boot_vm_def)
  have "phys boot_vm (cr3 boot_vm + 4 * d) = 0" if "d \<in> heap_dirs" for d
  proof -
    have "d < 1024" "d \<noteq> 0" "d \<noteq> 768" using that by (auto simp: heap_dirs_def word_le_nat_alt word_less_nat_alt)
    then have "4 * d \<noteq> 4 * 0" "4 * d \<noteq> 4 * 768" using index_offset_eq [of d 0] index_offset_eq [of d 768] by auto
    then show ?thesis by (simp add: boot_vm_def)
  qed
  moreover have "translate boot_vm 0xC0110000 = Some 0x110000"
    by (simp add: translate_def page_walk_def boot_vm_def PAGEDIR_INDEX_def pde_get_def get_bits_def FOUR_MB_def)
  ultimately show ?thesis
    using none unfolding boot_directory_def directory_visible_def
    by (simp add: boot_vm_def virt2phys_def KERNEL_VIRTUAL_OFFSET_def PAGEDIR_INDEX_def pde_get_def get_bits_def)
qed

lemma boot_vm_frames:
  "accounted (phyMem boot_vm)" "cr3 boot_vm \<in> held_frames (phyMem boot_vm)" "4100 \<le> unat (FreeBlocks (phyMem boot_vm))"
proof -
  have f: "FreeBlocks (demo_phymem 5000) = 4999" by (simp add: demo_phymem_def FreeBlocks_def)
  have "accounted (demo_phymem 5000)" by (rule accounted_demo) simp_all
  then show "accounted (phyMem boot_vm)"
    using MarkUsed_keeps_accounted [of "demo_phymem 5000" "0x200000" 0] f by (simp add: boot_vm_def BLOCK_SIZE_def)
  show "4100 \<le> unat (FreeBlocks (phyMem boot_vm))"
    using f by (simp add: boot_vm_def FreeBlocks_MarkUsed BLOCK_SIZE_def)
  have "block_range (0 div BLOCK_SIZE) (0x200000 div BLOCK_SIZE) 0x110" by (simp add: block_range_def BLOCK_SIZE_def)
  then have "marked (phyMem boot_vm) 0x110" by (simp add: boot_vm_def)
  then show "cr3 boot_vm \<in> held_frames (phyMem boot_vm)"
    unfolding held_frames_def by (intro image_eqI [of _ _ "0x110"]) (simp_all add: boot_vm_def BLOCK_SIZE_def)
qed

theorem Virtmem_Init_establishes_witness:
  "\<exists>st'. Virtmem_Init 0xC0110000 boot_vm = Some st' \<and> translate st' 0xB8000 = Some 0xB8000 \<and> translate st' 0 = None"
proof -
  obtain st' where "Virtmem_Init 0xC0110000 boot_vm = Some st'"
    and t: "\<forall>va<0x400000. translate st' va = (if va < 4096 then None else Some va)"
    using Virtmem_Init_establishes [OF boot_vm_directory boot_vm_frames] by blast
  moreover have "translate st' 0xB8000 = Some 0xB8000" "translate st' 0 = None"
    using t [rule_format, of "0xB8000"] t [rule_format, of 0] by simp_all
  ultimately show ?thesis by blast
qed

end
