(* ===== verification/OS_Kernel.thy ===== *)
theory OS_Kernel
  imports OS_Timer OS_Heap OS_Paging
begin

text \<open>
  Booting: src/src/arch/x86/kernel/kernel.h and kernel.cpp.

  \<^item> The record \<open>arch_kernel\<close> is \<open>class ArchKernel\<close> with the objects it initializes that live
    elsewhere (the console, the heap, the scheduler); the log of port writes is the one of the
    interrupt tables. \<open>symbols\<close> are the addresses the linker fixes.
  \<^item> \<open>ArchKernel_Init\<close> is composed of its three parts, in the order of the code:
    \<open>boot_devices\<close>, \<open>boot_memory\<close> (with \<open>Phymem_report\<close>, what the frame allocator prints of the memory
    map, and \<open>reserve_memory\<close>) and \<open>boot_heap\<close>. It never returns; its
    result says in which of its two endless loops it ends. \<open>None\<close> is a page fault or a halt in
    one of the parts. Interrupts that arrive while it runs are not interleaved.
  \<^item> The value of \<open>kernel_size\<close> is an argument: its initializer, \<open>kernel_size_init\<close>, is not a
    constant, and the boot code (\<open>OS_Entry\<close>) calls \<open>kmain\<close> without running the constructors.
\<close>

unbundle bit_operations_syntax

section \<open>State\<close>

record boot_info =
  mbi :: multiboot_info
  mods_count :: u32
  mods_addr :: u32

record symbols =
  gdt_addr :: u32
  tss_addr :: u32
  isr_stub :: "nat \<Rightarrow> u32"
  idt_addr :: u32
  syscall_entry :: u32
  pit_entry :: u32
  boot_pt_addr :: u32
  kernel_end_addr :: u32

record arch_kernel =
  kcon :: VGA
  ktmp :: "char list"
  kgdt :: gdt_state
  kidt :: idt_state
  kvm :: vm
  kheap :: heap
  ksched :: sched
  kpit_sched :: u32

datatype boot_end = Idle | No_initrd

section \<open>Messages\<close>

definition kprintf :: "string \<Rightarrow> u32 list \<Rightarrow> arch_kernel \<Rightarrow> arch_kernel option" where
  "kprintf fmt vs k = do {
     ((con, log), tmp) \<leftarrow> vga_print (\<lambda>_. None) (Some (fmt @ [NUL])) vs (ktmp k) (kcon k, ports (kidt k));
     Some (k\<lparr>kcon := con, ktmp := tmp, kidt := (kidt k)\<lparr>ports := log\<rparr>\<rparr>)
   }"

definition say :: "string \<Rightarrow> arch_kernel \<Rightarrow> arch_kernel option" where
  "say text k = kprintf text [] k"

definition color :: "COLORS \<Rightarrow> COLORS \<Rightarrow> arch_kernel \<Rightarrow> arch_kernel" where
  "color fg bg k = k\<lparr>kcon := fst (set_cur_color (color_code fg) (color_code bg) (kcon k, ports (kidt k)))\<rparr>"

definition PrintOK :: "arch_kernel \<Rightarrow> arch_kernel option" where
  "PrintOK k = do {
     let k = color VGA_COLOR_GREEN VGA_COLOR_BLACK k;
     k \<leftarrow> say (''[OK]'' @ [CHR 0x0A]) k;
     Some (color VGA_COLOR_WHITE VGA_COLOR_BLACK k)
   }"

section \<open>Creating a process from a file\<close>

text \<open>\<open>ProcessHelper::Create\<close> prints and stays in a loop; the result is the state in which it loops.\<close>

datatype create_end = Unimplemented arch_kernel

definition Process_Create :: "char list \<Rightarrow> char list \<Rightarrow> bool \<Rightarrow> arch_kernel \<Rightarrow> create_end option" where
  "Process_Create fileName arguments isKernel k =
     map_option Unimplemented (say (''Unimplemented creating process from file!'' @ [CHR 0x0A]) k)"

section \<open>The parts of \<open>Init\<close>\<close>

abbreviation tabs :: "nat \<Rightarrow> string" where "tabs n \<equiv> replicate n (CHR 0x09)"

text \<open>The difference of two \<open>uint32_t*\<close>, as the initializer of \<open>kernel_size\<close> takes it.\<close>

definition kernel_size_init :: "u32 \<Rightarrow> u32 \<Rightarrow> u32" where
  "kernel_size_init kend kstart = word_of_int (sint (kend - kstart) sdiv 4)"

definition boot_devices :: "device \<Rightarrow> symbols \<Rightarrow> arch_kernel \<Rightarrow> arch_kernel option" where
  "boot_devices dev sy k = do {
     let (con, log) = VGA_Init (kcon k, ports (kidt k));
     let k = k\<lparr>kcon := con, kidt := (kidt k)\<lparr>ports := log\<rparr>\<rparr>;
     k \<leftarrow> say (''Console initialized...'' @ tabs 2) k;
     k \<leftarrow> PrintOK k;
     k \<leftarrow> say (''Installing GDT...'' @ tabs 3) k;
     let k = k\<lparr>kgdt := GDT_Init (gdt_addr sy) (tss_addr sy) (kgdt k)\<rparr>;
     k \<leftarrow> PrintOK k;
     k \<leftarrow> say (''Installing IDT...'' @ tabs 3) k;
     let k = k\<lparr>kidt := IDT_Init dev (isr_stub sy) (idt_addr sy) (syscall_entry sy) (kidt k)\<rparr>;
     k \<leftarrow> PrintOK k;
     k \<leftarrow> say (''Setting up PIT...'' @ tabs 3) k;
     let k = k\<lparr>kidt := PIT_Init dev (pit_entry sy) (kidt k)\<rparr>;
     PrintOK k
   }"

text \<open>The messages of \<open>PhysicalMem::Init\<close>, with those of its loop. They are apart from \<open>Phymem_Init\<close>,
  which they neither change nor depend on.\<close>

definition report_region :: "memory \<Rightarrow> u32 \<Rightarrow> arch_kernel \<Rightarrow> arch_kernel option" where
  "report_region rd mmap k = do {
     k \<leftarrow> kprintf ''|->   0x%x   %d Kb      Type: %d''
       [base_addr_low rd mmap, length_low rd mmap div 1024, mmap_type rd mmap] k;
     k \<leftarrow> (if mmap_type rd mmap = MULTIBOOT_MEMORY_AVAILABLE then say '' [Free]'' k else Some k);
     say [CHR 0x0A] k
   }"

partial_function (option) report_regions :: "memory \<Rightarrow> u32 \<Rightarrow> u32 \<Rightarrow> arch_kernel \<Rightarrow> arch_kernel option" where
  "report_regions rd stop mmap k =
     (if mmap < stop then report_region rd mmap k \<bind> report_regions rd stop (mmap + mmap_size rd mmap + 4) else Some k)"

definition dashes :: string where "dashes = replicate 49 (CHR ''-'') @ [CHR 0x0A]"

definition Phymem_report :: "memory \<Rightarrow> multiboot_info \<Rightarrow> u32 \<Rightarrow> arch_kernel \<Rightarrow> arch_kernel option" where
  "Phymem_report rd mboot bitmap k = do {
     let size = mem_upper mboot * 1024;
     k \<leftarrow> kprintf (''Memory Size: %d Mb'' @ [CHR 0x0A]) [size div (1024 * 1024)] k;
     k \<leftarrow> kprintf (''Bitmap: 0x%x'' @ [CHR 0x0A]) [bitmap] k;
     let bitmap_size = size div BLOCK_SIZE div BLOCKS_PER_BYTE;
     k \<leftarrow> kprintf (''Bitmap size: %d Kb Bitmap end: 0x%x'' @ [CHR 0x0A]) [bitmap_size div 1024, bitmap + bitmap_size] k;
     k \<leftarrow> say (''Parsing grub memory map'' @ [CHR 0x0A]) k;
     k \<leftarrow> kprintf (''Address of mmap: 0x%x'' @ [CHR 0x0A]) [phys2virt (mmap_addr mboot)] k;
     k \<leftarrow> say dashes k;
     k \<leftarrow> report_regions rd (phys2virt (mmap_addr mboot) + mmap_length mboot) (phys2virt (mmap_addr mboot)) k;
     say dashes k
   }"

text \<open>\<open>rd\<close> is memory as the boot loader left it, through the kernel's mapping.\<close>

definition reserve_memory :: "u32 \<Rightarrow> memory \<Rightarrow> boot_info \<Rightarrow> phymem \<Rightarrow> phymem option" where
  "reserve_memory kernel_size rd info s = do {
     s \<leftarrow> Phymem_Init rd (mbi info) s;
     let s = MarkUsed 0 (PageRoundUp (0x100000 + kernel_size + GetBitmapSize s)) s;
     Some (MarkUsed (rd (phys2virt (mods_addr info)))
       (rd (phys2virt (mods_addr info + 4)) - rd (phys2virt (mods_addr info))) s)
   }"

definition boot_memory :: "u32 \<Rightarrow> memory \<Rightarrow> boot_info \<Rightarrow> symbols \<Rightarrow> arch_kernel \<Rightarrow> arch_kernel option" where
  "boot_memory kernel_size rd info sy k = do {
     k \<leftarrow> Phymem_report rd (mbi info) (kernel_end_addr sy) k;
     pm \<leftarrow> reserve_memory kernel_size rd info (phyMem (kvm k));
     let k = k\<lparr>kvm := (kvm k)\<lparr>phyMem := pm\<rparr>\<rparr>;
     k \<leftarrow> say (''Initializing virtual memory...'' @ tabs 1) k;
     v \<leftarrow> Virtmem_Init (boot_pt_addr sy) (kvm k);
     PrintOK (k\<lparr>kvm := v\<rparr>)
   }"

definition sizeof_multiboot_info :: u32 where "sizeof_multiboot_info = 120"
definition sizeof_Scheduler :: u32 where "sizeof_Scheduler = 24"

text \<open>The copy of the boot information in the heap is the information itself.\<close>

definition boot_heap :: "boot_info \<Rightarrow> arch_kernel \<Rightarrow> (boot_end \<times> arch_kernel) option" where
  "boot_heap info k = do {
     k \<leftarrow> say (''Initializing kernel heap...'' @ tabs 2) k;
     h \<leftarrow> (case Initialize KERNEL_HEAP_START (KERNEL_HEAP_START + KERNEL_HEAP_SIZE) (kheap k) of
        Inr h \<Rightarrow> Some h | Inl _ \<Rightarrow> None);
     k \<leftarrow> PrintOK (k\<lparr>kheap := h\<rparr>);
     (copy, h) \<leftarrow> kmalloc sizeof_multiboot_info (kheap k);
     let k = color VGA_COLOR_MAGENTA VGA_COLOR_BLACK (k\<lparr>kheap := h\<rparr>);
     k \<leftarrow> say (tabs 1 @ ''- KERNEL CORE INITIALIZED -'' @ [CHR 0x0A]) k;
     let k = color VGA_COLOR_WHITE VGA_COLOR_BLACK k;
     (sched, h) \<leftarrow> operator_new sizeof_Scheduler (kheap k);
     s \<leftarrow> sched_init (ksched k);
     let k = k\<lparr>kheap := h, ksched := s, kpit_sched := sched\<rparr>;
     if mods_count info \<le> 0
     then do {
       let k = color VGA_COLOR_RED VGA_COLOR_BLACK k;
       k \<leftarrow> say (''ERROR: couldn'' @ [CHR 0x27] @ ''t load initrd, cannot continue'' @ [CHR 0x0A]) k;
       Some (No_initrd, k\<lparr>kidt := (kidt k)\<lparr>int_enabled := False\<rparr>\<rparr>)
     }
     else Some (Idle, k)
   }"

definition ArchKernel_Init :: "device \<Rightarrow> symbols \<Rightarrow> u32 \<Rightarrow> memory \<Rightarrow> boot_info \<Rightarrow> arch_kernel \<Rightarrow>
    (boot_end \<times> arch_kernel) option" where
  "ArchKernel_Init dev sy kernel_size rd info k = do {
     k \<leftarrow> boot_devices dev sy k;
     k \<leftarrow> boot_memory kernel_size rd info sy k;
     boot_heap info k
   }"

section \<open>Messages always print\<close>

text \<open>What the timer interrupt will need of the state.\<close>

definition boot_status :: "arch_kernel \<Rightarrow> bool \<times> u32 \<times> bool" where
  "boot_status k = (console_sized (kcon k), handlers (kidt k) 32, int_enabled (kidt k))"

lemma say_prints:
  assumes "NUL \<notin> set t" and "CHR ''%'' \<notin> set t"
  obtains con log where "say t k = Some (k\<lparr>kcon := con, kidt := (kidt k)\<lparr>ports := log\<rparr>\<rparr>)"
    and "console_sized con = console_sized (kcon k)"
proof -
  have "vga_print (\<lambda>_. None) (Some (t @ [NUL])) [] (ktmp k) (kcon k, ports (kidt k)) =
      Some (fold vga_put t (kcon k, ports (kidt k)), ktmp k)"
    unfolding vga_print_def vprintf_def using vprintf_loop_text [OF assms] by simp
  moreover obtain con log where "fold vga_put t (kcon k, ports (kidt k)) = (con, log)" by fastforce
  moreover have "k\<lparr>kcon := con, ktmp := ktmp k, kidt := i\<rparr> = k\<lparr>kcon := con, kidt := i\<rparr>" for i by (cases k) simp
  moreover have "console_sized con = console_sized (kcon k)" using calculation(2) fold_vga_put_sized [of t "(kcon k, ports (kidt k))"] by simp
  ultimately show ?thesis using that by (simp add: say_def kprintf_def)
qed

lemma color_status [simp]: "boot_status (color fg bg k) = boot_status k"
  by (simp add: color_def boot_status_def set_cur_color_def console_sized_def)

lemma color_fields [simp]:
  "kheap (color fg bg k) = kheap k" "ksched (color fg bg k) = ksched k" "kpit_sched (color fg bg k) = kpit_sched k"
  "kvm (color fg bg k) = kvm k" "kidt (color fg bg k) = kidt k" "ktmp (color fg bg k) = ktmp k"
  by (simp_all add: color_def)

lemma say_keeps:
  assumes "NUL \<notin> set t" and "CHR ''%'' \<notin> set t"
  shows "\<exists>k'. say t k = Some k' \<and> kheap k' = kheap k \<and> ksched k' = ksched k \<and> kpit_sched k' = kpit_sched k \<and>
    kvm k' = kvm k \<and> boot_status k' = boot_status k \<and> ktmp k' = ktmp k"
  by (rule say_prints [OF assms, of k]) (auto simp: boot_status_def)

lemma PrintOK_keeps:
  "\<exists>k'. PrintOK k = Some k' \<and> kheap k' = kheap k \<and> ksched k' = ksched k \<and> kpit_sched k' = kpit_sched k \<and>
    kvm k' = kvm k \<and> boot_status k' = boot_status k \<and> ktmp k' = ktmp k"
  using say_keeps [of "''[OK]'' @ [CHR 0x0A]" "color VGA_COLOR_GREEN VGA_COLOR_BLACK k"]
  by (auto simp: PrintOK_def)

text \<open>Printing numbers needs the buffer of 36 characters and changes it. What a message leaves alone:\<close>

definition only_printed :: "arch_kernel \<Rightarrow> arch_kernel \<Rightarrow> bool" where
  "only_printed k k' \<longleftrightarrow> length (ktmp k') = 36 \<and> kgdt k' = kgdt k \<and> kheap k' = kheap k \<and> ksched k' = ksched k \<and>
     kpit_sched k' = kpit_sched k \<and> kvm k' = kvm k \<and> boot_status k' = boot_status k"

definition lit :: "string \<Rightarrow> (piece \<times> u32) list" where "lit s = map (\<lambda>c. (Lit c, 0)) s"

lemma lit_simps [simp]:
  "format_of (lit s @ ps) = s @ format_of ps" "args_of (lit s @ ps) = args_of ps"
  by (induction s) (simp_all add: lit_def format_of_def args_of_def)

lemma arg_simps [simp]:
  "format_of [] = [NUL]" "args_of [] = []"
  "format_of ((p, a) # ps) = piece_fmt p @ format_of ps"
  "args_of ((p, a) # ps) = (if takes_arg p then a # args_of ps else args_of ps)"
  by (simp_all add: format_of_def args_of_def)

lemma kprintf_prints:
  assumes "only_printed k0 k" and "fmt @ [NUL] = format_of ps" and "vs = args_of ps"
    and "\<forall>(p, a)\<in>set ps. piece_ok (\<lambda>_. None) p a"
  obtains k' where "kprintf fmt vs k = Some k'" and "only_printed k0 k'"
proof -
  obtain con tmp where v: "vga_print (\<lambda>_. None) (Some (fmt @ [NUL])) vs (ktmp k) (kcon k, ports (kidt k)) = Some (con, tmp)"
    "con = fold vga_put (printed (\<lambda>_. None) ps) (kcon k, ports (kidt k))" "length tmp = 36"
    using console.vprintf_loop_prints [OF assms(4) strings_fit_simps(3), of "ktmp k" "(kcon k, ports (kidt k))"] assms(1-3)
    by (auto simp: vga_print_def vprintf_def only_printed_def)
  have "console_sized (fst con) = console_sized (kcon k)" using v(2) by simp
  then show ?thesis using that v(1,3) assms(1)
    by (cases con) (simp add: kprintf_def only_printed_def boot_status_def)
qed

lemma say_prints_only:
  assumes "only_printed k0 k" and "NUL \<notin> set t" and "CHR ''%'' \<notin> set t"
  obtains k' where "say t k = Some k'" and "only_printed k0 k'"
proof (rule kprintf_prints [OF assms(1), of t "lit t @ []" "[]"])
  show "\<forall>(p, a)\<in>set (lit t @ []). piece_ok (\<lambda>_. None) p a" using assms(2,3) by (auto simp: lit_def)
qed (use that in \<open>simp_all add: say_def del: append_Nil2\<close>)

text \<open>No file becomes a process: the only effect is the message.\<close>

lemma Process_Create_stops:
  "\<exists>k'. Process_Create f a b k = Some (Unimplemented k') \<and> kheap k' = kheap k \<and> ksched k' = ksched k \<and> kvm k' = kvm k"
  using say_keeps [of "''Unimplemented creating process from file!'' @ [CHR 0x0A]" k] by (auto simp: Process_Create_def)

text \<open>The heap when booting is done: the copy of the boot information, the scheduler, the rest.\<close>

definition boot_blocks :: "blk list" where
  "boot_blocks = [Blk 0xC0400000 True 120, Blk 0xC040008C True 24, Blk 0xC04000B8 False 0xFFFF34]"

lemma boot_allocations:
  obtains h1 h2 h3 bs
  where "Initialize KERNEL_HEAP_START (KERNEL_HEAP_START + KERNEL_HEAP_SIZE) h = Inr h1"
    and "kmalloc 120 h1 = Some (0xC0400014, h2)" and "kmalloc 24 h2 = Some (0xC04000A0, h3)"
    and "heap_ok h3 bs" and "used_blocks bs = {(0xC0400014, 120), (0xC04000A0, 24)}" and "bs = boot_blocks"
proof -
  obtain h1 where 1: "Initialize KERNEL_HEAP_START (KERNEL_HEAP_START + KERNEL_HEAP_SIZE) h = Inr h1"
      "heap_ok h1 [Blk 0xC0400000 False 0xFFFFEC]"
    using Initialize_effect [of KERNEL_HEAP_START "KERNEL_HEAP_START + KERNEL_HEAP_SIZE" h]
    by (auto simp: PAGE_SIZE_def KERNEL_HEAP_START_def KERNEL_HEAP_SIZE_def)
  have "alloc_blocks (align_up 120 4) [Blk 0xC0400000 False 0xFFFFEC] =
      Some (0xC0400014, [Blk 0xC0400000 True 120, Blk 0xC040008C False 0xFFFF60])"
    by (simp add: align_up_def)
  then obtain m2 where 2: "kmalloc 120 h1 = Some (0xC0400014, h1\<lparr>ram := m2\<rparr>)"
      "heap_ok (h1\<lparr>ram := m2\<rparr>) [Blk 0xC0400000 True 120, Blk 0xC040008C False 0xFFFF60]"
    by (rule kmalloc_refines [OF 1(2)])
  have "alloc_blocks (align_up 24 4) [Blk 0xC0400000 True 120, Blk 0xC040008C False 0xFFFF60] =
      Some (0xC04000A0, [Blk 0xC0400000 True 120, Blk 0xC040008C True 24, Blk 0xC04000B8 False 0xFFFF34])"
    by (simp add: align_up_def)
  then obtain m3 where 3: "kmalloc 24 (h1\<lparr>ram := m2\<rparr>) = Some (0xC04000A0, (h1\<lparr>ram := m2\<rparr>)\<lparr>ram := m3\<rparr>)"
      "heap_ok ((h1\<lparr>ram := m2\<rparr>)\<lparr>ram := m3\<rparr>)
        [Blk 0xC0400000 True 120, Blk 0xC040008C True 24, Blk 0xC04000B8 False 0xFFFF34]"
    by (rule kmalloc_refines [OF 2(2)])
  show ?thesis by (rule that [OF 1(1) 2(1) 3]) (auto simp: insert_commute boot_blocks_def)
qed

lemma sched_init_ok: "\<exists>s'. sched_init s = Some s' \<and> sched_ok s' [] \<and> currentThread s' = 0 \<and> \<not> enabled s' \<and> tickCount s' = 0"
proof -
  have c: "Clear_from 0 (nodes s) = Some (nodes s)" using Clear_from_refines [of "nodes s" 0 "[]"] by simp
  have "queue_holds (n, queue_init) []" for n :: "u32 nodes"
    using qrep_init [of n] by (auto simp: queue_holds_def qlist_def)
  with c show ?thesis
    by (simp add: sched_init_def Clear_def queue_init_def Let_def sched_ok_def threads_ok_def)
qed

lemma heap_status: "boot_status (k\<lparr>kheap := h\<rparr>) = boot_status k" "boot_status (k\<lparr>ksched := s\<rparr>) = boot_status k"
  "boot_status (k\<lparr>kpit_sched := p\<rparr>) = boot_status k" "boot_status (k\<lparr>kvm := v\<rparr>) = boot_status k"
  by (simp_all add: boot_status_def)

lemma boot_heap_effect:
  "\<exists>e k' bs. boot_heap info k = Some (e, k') \<and> (e = No_initrd \<longleftrightarrow> mods_count info = 0) \<and>
    heap_ok (kheap k') bs \<and> used_blocks bs = {(0xC0400014, 120), (kpit_sched k', 24)} \<and>
    kpit_sched k' = 0xC04000A0 \<and> sched_ok (ksched k') [] \<and> \<not> enabled (ksched k') \<and>
    bs = boot_blocks \<and> sched_init (ksched k) = Some (ksched k') \<and> kvm k' = kvm k \<and> (mods_count info \<noteq> 0 \<longrightarrow> boot_status k' = boot_status k) \<and>
    (mods_count info = 0 \<longrightarrow> \<not> int_enabled (kidt k') \<and> fst (boot_status k') = fst (boot_status k) \<and>
       fst (snd (boot_status k')) = fst (snd (boot_status k)))"
proof -
  obtain k1 where 1: "say (''Initializing kernel heap...'' @ tabs 2) k = Some k1" "kheap k1 = kheap k" "ksched k1 = ksched k" "kvm k1 = kvm k" "boot_status k1 = boot_status k"
    using say_keeps [of "''Initializing kernel heap...'' @ tabs 2" k] by auto
  obtain h1 h2 h3 bs where h: "Initialize KERNEL_HEAP_START (KERNEL_HEAP_START + KERNEL_HEAP_SIZE) (kheap k) = Inr h1"
      "kmalloc 120 h1 = Some (0xC0400014, h2)" "kmalloc 24 h2 = Some (0xC04000A0, h3)" "heap_ok h3 bs"
      "used_blocks bs = {(0xC0400014, 120), (0xC04000A0, 24)}" "bs = boot_blocks"
    by (rule boot_allocations)
  obtain k2 where 2: "PrintOK (k1\<lparr>kheap := h1\<rparr>) = Some k2" "kheap k2 = h1" "ksched k2 = ksched k1" "kvm k2 = kvm k1" "boot_status k2 = boot_status k1"
    using PrintOK_keeps [of "k1\<lparr>kheap := h1\<rparr>"] by (auto simp: boot_status_def)
  let ?k3 = "color VGA_COLOR_MAGENTA VGA_COLOR_BLACK (k2\<lparr>kheap := h2\<rparr>)"
  obtain k4 where 4: "say (tabs 1 @ ''- KERNEL CORE INITIALIZED -'' @ [CHR 0x0A]) ?k3 = Some k4" "kheap k4 = h2" "ksched k4 = ksched k2" "kvm k4 = kvm k2" "boot_status k4 = boot_status k2"
    using say_keeps [of "tabs 1 @ ''- KERNEL CORE INITIALIZED -'' @ [CHR 0x0A]" ?k3] by (auto simp: heap_status)
  let ?k5 = "color VGA_COLOR_WHITE VGA_COLOR_BLACK k4"
  obtain s where s: "sched_init (ksched ?k5) = Some s" "sched_ok s []" "\<not> enabled s"
    using sched_init_ok by blast
  let ?k6 = "?k5\<lparr>kheap := h3, ksched := s, kpit_sched := 0xC04000A0\<rparr>"
  let ?error = "''ERROR: couldn'' @ [CHR 0x27] @ ''t load initrd, cannot continue'' @ [CHR 0x0A]"
  obtain k7 where 7: "say ?error (color VGA_COLOR_RED VGA_COLOR_BLACK ?k6) = Some k7"
      "kheap k7 = h3" "ksched k7 = s" "kpit_sched k7 = 0xC04000A0" "kvm k7 = kvm k4" "boot_status k7 = boot_status k4"
    using say_keeps [of ?error "color VGA_COLOR_RED VGA_COLOR_BLACK ?k6"] by (auto simp: heap_status)
  have "kheap ?k5 = h2" "kheap ?k3 = h2" using 4(2) by (simp_all add: color_def)
  then have run: "boot_heap info k = (if mods_count info = 0
      then Some (No_initrd, k7\<lparr>kidt := (kidt k7)\<lparr>int_enabled := False\<rparr>\<rparr>) else Some (Idle, ?k6))"
    by (simp only: boot_heap_def operator_new_def sizeof_multiboot_info_def sizeof_Scheduler_def Let_def
        1 2 4 7 s(1) h(1-3) Option.bind.bind_lunit prod.case sum.case word_le_0_iff)
  have i: "sched_init (ksched k) = Some s" using s(1) 1(3) 2(3) 4(3) by simp
  have v: "kvm k4 = kvm k" "kvm ?k6 = kvm k" using 1(4) 2(4) 4(4) by simp_all
  have b: "boot_status k7 = boot_status k" "boot_status ?k6 = boot_status k"
    using 1(5) 2(5) 4(5) 7(6) by (simp_all add: heap_status)
  show ?thesis
  proof (cases "mods_count info = 0")
    case True
    have "fst (boot_status (k7\<lparr>kidt := (kidt k7)\<lparr>int_enabled := False\<rparr>\<rparr>)) = fst (boot_status k)"
      "fst (snd (boot_status (k7\<lparr>kidt := (kidt k7)\<lparr>int_enabled := False\<rparr>\<rparr>))) = fst (snd (boot_status k))"
      using b(1) by (auto simp: boot_status_def)
    with True show ?thesis using run h(4-6) s(2,3) 7 v i by auto
  next
    case False
    then show ?thesis using run h(4-6) s(2,3) i by (intro exI [of _ Idle] exI [of _ ?k6] exI [of _ bs]) (use v b(2) in simp)
  qed
qed

section \<open>The parts of booting return\<close>

lemma InstallHandler_enabled [simp]: "int_enabled (InstallHandler dev i h hw st) = int_enabled st"
  by (simp add: InstallHandler_def Let_def)

lemma IDT_Init_enables: "int_enabled (IDT_Init dev stub a h st)"
  by (simp add: IDT_Init_def Let_def)

lemma PIT_Init_enabled: "int_enabled (PIT_Init dev h st) = int_enabled st"
  by (simp add: PIT_Init_def Let_def)

lemma boot_devices_returns:
  "\<exists>k'. boot_devices dev sy k = Some k' \<and> kvm k' = kvm k \<and> boot_status k' = (True, pit_entry sy, True) \<and> ktmp k' = ktmp k \<and> ksched k' = ksched k"
proof -
  obtain con log where i: "VGA_Init (kcon k, ports (kidt k)) = (con, log)" by fastforce
  let ?k0 = "k\<lparr>kcon := con, kidt := (kidt k)\<lparr>ports := log\<rparr>\<rparr>"
  obtain k1 where 1: "say (''Console initialized...'' @ tabs 2) ?k0 = Some k1" "kvm k1 = kvm k" "boot_status k1 = boot_status ?k0" "ktmp k1 = ktmp k" "ksched k1 = ksched k"
    using say_keeps [of "''Console initialized...'' @ tabs 2" ?k0] by auto
  obtain k2 where 2: "PrintOK k1 = Some k2" "kvm k2 = kvm k1" "boot_status k2 = boot_status k1" "ktmp k2 = ktmp k1" "ksched k2 = ksched k1" using PrintOK_keeps by blast
  obtain k3 where 3: "say (''Installing GDT...'' @ tabs 3) k2 = Some k3" "kvm k3 = kvm k2" "boot_status k3 = boot_status k2" "ktmp k3 = ktmp k2" "ksched k3 = ksched k2"
    using say_keeps [of "''Installing GDT...'' @ tabs 3" k2] by auto
  let ?k4 = "k3\<lparr>kgdt := GDT_Init (gdt_addr sy) (tss_addr sy) (kgdt k3)\<rparr>"
  obtain k5 where 5: "PrintOK ?k4 = Some k5" "kvm k5 = kvm k3" "boot_status k5 = boot_status ?k4" "ktmp k5 = ktmp k3" "ksched k5 = ksched k3" using PrintOK_keeps [of ?k4] by auto
  obtain k6 where 6: "say (''Installing IDT...'' @ tabs 3) k5 = Some k6" "kvm k6 = kvm k5" "boot_status k6 = boot_status k5" "ktmp k6 = ktmp k5" "ksched k6 = ksched k5"
    using say_keeps [of "''Installing IDT...'' @ tabs 3" k5] by auto
  let ?k7 = "k6\<lparr>kidt := IDT_Init dev (isr_stub sy) (idt_addr sy) (syscall_entry sy) (kidt k6)\<rparr>"
  obtain k8 where 8: "PrintOK ?k7 = Some k8" "kvm k8 = kvm k6" "boot_status k8 = boot_status ?k7" "ktmp k8 = ktmp k6" "ksched k8 = ksched k6" using PrintOK_keeps [of ?k7] by auto
  obtain k9 where 9: "say (''Setting up PIT...'' @ tabs 3) k8 = Some k9" "kvm k9 = kvm k8" "boot_status k9 = boot_status k8" "ktmp k9 = ktmp k8" "ksched k9 = ksched k8"
    using say_keeps [of "''Setting up PIT...'' @ tabs 3" k8] by auto
  let ?k10 = "k9\<lparr>kidt := PIT_Init dev (pit_entry sy) (kidt k9)\<rparr>"
  obtain k11 where 11: "PrintOK ?k10 = Some k11" "kvm k11 = kvm k9" "boot_status k11 = boot_status ?k10" "ktmp k11 = ktmp k9" "ksched k11 = ksched k9" using PrintOK_keeps [of ?k10] by auto
  have "boot_devices dev sy k = Some k11"
    by (simp only: boot_devices_def i 1(1) 2(1) 3(1) 5(1) 6(1) 8(1) 9(1) 11(1) Let_def prod.case Option.bind.bind_lunit)
  moreover have "console_sized con" using VGA_Init_sized [of "(kcon k, ports (kidt k))"] by (simp add: i)
  then have "boot_status k3 = (True, handlers (kidt k) 32, int_enabled (kidt k))"
    using 1(3) 2(3) 3(3) by (simp add: boot_status_def)
  then have "boot_status k9 = (True, handlers (kidt ?k7) 32, True)"
    using 5(3) 6(3) 8(3) 9(3) by (simp add: boot_status_def IDT_Init_enables)
  then have "boot_status k11 = (True, pit_entry sy, True)"
    using 11(3) by (simp add: boot_status_def PIT_Init_handler PIT_Init_enabled)
  ultimately show ?thesis using 1(2,4,5) 2(2,4,5) 3(2,4,5) 5(2,4,5) 6(2,4,5) 8(2,4,5) 9(2,4,5) 11(2,4,5) by simp
qed

text \<open>Where the first reservation ends, and the size of the boot module.\<close>

definition kernel_end :: "u32 \<Rightarrow> boot_info \<Rightarrow> u32" where
  "kernel_end kernel_size info =
     PageRoundUp (0x100000 + kernel_size + mem_upper (mbi info) * 1024 div BLOCK_SIZE div BLOCKS_PER_BYTE)"

definition module_size :: "memory \<Rightarrow> boot_info \<Rightarrow> u32" where
  "module_size rd info = rd (phys2virt (mods_addr info + 4)) - rd (phys2virt (mods_addr info))"

definition map_lists :: "memory \<Rightarrow> multiboot_info \<Rightarrow> region list \<Rightarrow> bool" where
  "map_lists rd info rs \<longleftrightarrow>
     mmap_at rd (phys2virt (mmap_addr info) + mmap_length info) (phys2virt (mmap_addr info)) rs \<and>
     regions_fit 0 rs (min (32 * unat (mem_upper info * 1024 div BLOCK_SIZE)) (2 ^ 20))"

lemma reserve_memory_accounts:
  assumes map: "map_lists rd (mbi info) rs" and low: "BLOCK_SIZE \<le> kernel_end kernel_size info"
    and room: "unat (kernel_end kernel_size info) div 4096 + unat (module_size rd info) div 4096 + n \<le> available_blocks rs"
  obtains s' where "reserve_memory kernel_size rd info s = Some s'" "accounted s'" "n \<le> unat (FreeBlocks s')"
    "\<And>f. unat f < unat (kernel_end kernel_size info) div 4096 \<Longrightarrow> marked s' f"
proof -
  let ?e = "kernel_end kernel_size info" and ?b = "rd (phys2virt (mods_addr info))"
  obtain s1 where s1: "Phymem_Init rd (mbi info) s = Some s1" "unat (maximumBlocks s1) \<le> 2 ^ 20"
    "memorySize s1 = mem_upper (mbi info) * 1024" "unat (FreeBlocks s1) = available_blocks rs"
    "unat (FreeBlocks s1) \<le> card (insert 0 (available s1))"
    using Phymem_Init_counts [of rd "mbi info" rs s] map unfolding map_lists_def by blast
  have e: "PageRoundUp (0x100000 + kernel_size + GetBitmapSize s1) = ?e"
    by (simp add: kernel_end_def GetBitmapSize_def s1(3))
  let ?s2 = "MarkUsed 0 ?e s1" and ?s3 = "MarkUsed ?b (module_size rd info) (MarkUsed 0 ?e s1)"
  have n1: "?e div BLOCK_SIZE \<le> FreeBlocks s1"
    using room s1(4) by (simp add: word_le_nat_alt unat_div_BLOCK_SIZE)
  have f2: "unat (FreeBlocks ?s2) = available_blocks rs - unat ?e div 4096"
    using n1 s1(4) by (simp add: FreeBlocks_MarkUsed unat_minus_le unat_div_BLOCK_SIZE)
  have n2: "module_size rd info div BLOCK_SIZE \<le> FreeBlocks ?s2"
    using room f2 by (simp add: word_le_nat_alt unat_div_BLOCK_SIZE)
  have "accounted ?s2" by (rule MarkUsed_from_0_accounts [OF s1(2) n1 low s1(5)])
  then have "accounted ?s3" using n2 by (rule MarkUsed_keeps_accounted)
  moreover have "unat (FreeBlocks ?s3) = available_blocks rs - unat ?e div 4096 - unat (module_size rd info) div 4096"
    using n2 f2 by (simp add: FreeBlocks_MarkUsed [of _ "module_size rd info"] unat_minus_le unat_div_BLOCK_SIZE)
  moreover have "marked ?s3 f" if "unat f < unat ?e div 4096" for f
    using that by (simp add: block_range_def unat_div_BLOCK_SIZE)
  moreover have "reserve_memory kernel_size rd info s = Some ?s3"
    by (simp add: reserve_memory_def s1(1) e module_size_def Let_def)
  ultimately show ?thesis using that room by simp
qed

lemma boot_directory_phyMem [simp]: "boot_directory pd (v\<lparr>phyMem := pm\<rparr>) = boot_directory pd v"
  by (simp add: boot_directory_def directory_visible_def table_frame_def translate_def)

text \<open>What \<open>VirtualMem::Init\<close> establishes, as the rest of booting needs it.\<close>

definition paging_ready :: "vm \<Rightarrow> bool" where
  "paging_ready v \<longleftrightarrow> translate v 0xFFFFF000 = Some (cr3 v) \<and>
     (\<forall>va<0x400000. translate v va = (if va < 4096 then None else Some va)) \<and>
     (\<exists>t F new. table_frame v 0 = Some t \<and>
        ((\<exists>d\<in>heap_dirs. table_frame v d = Some t) \<or> heap_backed KERNEL_HEAP_START F v new))"

text \<open>The report of the memory map comes to its end. A type of region that is the least \<open>int\<close> would
  send \<open>intToString\<close> out of its table.\<close>

lemma piece_d_ok: "a \<noteq> 0x80000000 \<Longrightarrow> piece_ok dr Arg_d a"
proof -
  assume a: "a \<noteq> 0x80000000"
  have "sint a \<noteq> - (2 ^ 31)"
  proof
    assume s: "sint a = - (2 ^ 31)"
    have "a = of_int (sint a)" by simp
    also have "\<dots> = 0x80000000" unfolding s by simp
    finally show False using a by simp
  qed
  then show ?thesis by simp
qed

lemma quotient_d_ok: "2 \<le> unat d \<Longrightarrow> piece_ok dr Arg_d (a div d)"
proof (rule piece_d_ok, rule notI)
  assume d: "2 \<le> unat d" and e: "a div d = 0x80000000"
  have "unat a div unat d \<le> unat a div 2" using d by (intro div_le_mono2) simp_all
  moreover have "unat (a div d) = unat a div unat d" by (simp add: unat_div)
  ultimately show False using u32_lt [of a] by (simp add: e)
qed

lemma report_region_returns:
  assumes "only_printed k0 k" and "mmap_type rd a \<noteq> 0x80000000"
  obtains k' where "report_region rd a k = Some k'" and "only_printed k0 k'"
proof -
  let ?ps = "lit ''|->   0x'' @ (Arg_x, base_addr_low rd a) # lit ''   '' @ (Arg_d, length_low rd a div 1024) #
    lit '' Kb      Type: '' @ (Arg_d, mmap_type rd a) # []"
  have "piece_ok (\<lambda>_. None) Arg_d (length_low rd a div 1024)" by (rule quotient_d_ok) simp
  moreover have "piece_ok (\<lambda>_. None) Arg_d (mmap_type rd a)" using assms(2) by (rule piece_d_ok)
  ultimately have ok: "\<forall>(p, b)\<in>set ?ps. piece_ok (\<lambda>_. None) p b" by (auto simp: lit_def)
  obtain k1 where 1: "kprintf ''|->   0x%x   %d Kb      Type: %d''
      [base_addr_low rd a, length_low rd a div 1024, mmap_type rd a] k = Some k1" "only_printed k0 k1"
    by (rule kprintf_prints [OF assms(1) _ _ ok]) simp_all
  obtain k2 where 2: "(if mmap_type rd a = MULTIBOOT_MEMORY_AVAILABLE then say '' [Free]'' k1 else Some k1) = Some k2"
    "only_printed k0 k2"
  proof (cases "mmap_type rd a = MULTIBOOT_MEMORY_AVAILABLE")
    case True
    then show ?thesis using that by (cases rule: say_prints_only [OF 1(2), of "'' [Free]''"]) simp_all
  qed (use that 1 in simp)
  obtain k3 where "say [CHR 0x0A] k2 = Some k3" "only_printed k0 k3"
    by (rule say_prints_only [OF 2(2), of "[CHR 0x0A]"]) simp_all
  then show ?thesis using that by (simp add: report_region_def 1(1) 2(1))
qed

lemma report_regions_returns:
  assumes "mmap_at rd stop a rs" and "\<forall>r\<in>set rs. rtype r \<noteq> 0x80000000" and "only_printed k0 k"
  shows "\<exists>k'. report_regions rd stop a k = Some k' \<and> only_printed k0 k'"
  using assms
proof (induction rs arbitrary: a k)
  case Nil
  then show ?case by (subst report_regions.simps) auto
next
  case (Cons r rs)
  then have "mmap_type rd a \<noteq> 0x80000000" by auto
  then obtain k1 where k1: "report_region rd a k = Some k1" "only_printed k0 k1"
    using report_region_returns [OF Cons.prems(3)] by blast
  then show ?case using Cons.IH [of "a + mmap_size rd a + 4" k1] Cons.prems(1,2)
    by (subst report_regions.simps) (simp add: k1(1))
qed

lemma Phymem_report_returns:
  assumes map: "mmap_at rd (phys2virt (mmap_addr mb) + mmap_length mb) (phys2virt (mmap_addr mb)) rs"
    and types: "\<forall>r\<in>set rs. rtype r \<noteq> 0x80000000" and tmp: "length (ktmp k) = 36"
  obtains k' where "Phymem_report rd mb bitmap k = Some k'" and "only_printed k k'"
proof -
  let ?size = "mem_upper mb * 1024"
  let ?bm = "?size div BLOCK_SIZE div BLOCKS_PER_BYTE"
  have p0: "only_printed k k" using tmp by (simp add: only_printed_def)
  have q: "piece_ok (\<lambda>_. None) Arg_d (?size div (1024 * 1024))" "piece_ok (\<lambda>_. None) Arg_d (?bm div 1024)"
    by (rule quotient_d_ok, simp)+
  obtain k1 where 1: "kprintf (''Memory Size: %d Mb'' @ [CHR 0x0A]) [?size div (1024 * 1024)] k = Some k1" "only_printed k k1"
    by (rule kprintf_prints [OF p0, of _ "lit ''Memory Size: '' @ (Arg_d, ?size div (1024 * 1024)) # lit ('' Mb'' @ [CHR 0x0A]) @ []"])
      (use q(1) in \<open>auto simp: lit_def\<close>)
  obtain k2 where 2: "kprintf (''Bitmap: 0x%x'' @ [CHR 0x0A]) [bitmap] k1 = Some k2" "only_printed k k2"
    by (rule kprintf_prints [OF 1(2), of _ "lit ''Bitmap: 0x'' @ (Arg_x, bitmap) # lit [CHR 0x0A] @ []"]) (auto simp: lit_def)
  obtain k3 where 3: "kprintf (''Bitmap size: %d Kb Bitmap end: 0x%x'' @ [CHR 0x0A]) [?bm div 1024, bitmap + ?bm] k2 = Some k3" "only_printed k k3"
    by (rule kprintf_prints [OF 2(2), of _ "lit ''Bitmap size: '' @ (Arg_d, ?bm div 1024) # lit '' Kb Bitmap end: 0x'' @
        (Arg_x, bitmap + ?bm) # lit [CHR 0x0A] @ []"]) (use q(2) in \<open>auto simp: lit_def\<close>)
  obtain k4 where 4: "say (''Parsing grub memory map'' @ [CHR 0x0A]) k3 = Some k4" "only_printed k k4"
    by (rule say_prints_only [OF 3(2), of "''Parsing grub memory map'' @ [CHR 0x0A]"]) simp_all
  obtain k5 where 5: "kprintf (''Address of mmap: 0x%x'' @ [CHR 0x0A]) [phys2virt (mmap_addr mb)] k4 = Some k5" "only_printed k k5"
    by (rule kprintf_prints [OF 4(2), of _ "lit ''Address of mmap: 0x'' @ (Arg_x, phys2virt (mmap_addr mb)) # lit [CHR 0x0A] @ []"])
      (auto simp: lit_def)
  have d: "NUL \<notin> set dashes" "CHR ''%'' \<notin> set dashes" by (simp_all add: dashes_def)
  obtain k6 where 6: "say dashes k5 = Some k6" "only_printed k k6" by (rule say_prints_only [OF 5(2) d])
  obtain k7 where 7: "report_regions rd (phys2virt (mmap_addr mb) + mmap_length mb) (phys2virt (mmap_addr mb)) k6 = Some k7" "only_printed k k7"
    using report_regions_returns [OF map types 6(2)] by blast
  obtain k8 where 8: "say dashes k7 = Some k8" "only_printed k k8" by (rule say_prints_only [OF 7(2) d])
  have "Phymem_report rd mb bitmap k = Some k8"
    by (simp only: Phymem_report_def Let_def 1(1) 2(1) 3(1) 4(1) 5(1) 6(1) 7(1) 8(1) Option.bind.bind_lunit)
  then show ?thesis using 8(2) that by blast
qed

lemma boot_memory_returns:
  assumes map: "map_lists rd (mbi info) rs" and dir: "boot_directory (boot_pt_addr sy) (kvm k)"
    and image: "cr3 (kvm k) < kernel_end kernel_size info"
    and room: "unat (kernel_end kernel_size info) div 4096 + unat (module_size rd info) div 4096 + 4100
      \<le> available_blocks rs"
    and types: "\<forall>r\<in>set rs. rtype r \<noteq> 0x80000000" and tmp: "length (ktmp k) = 36"
  shows "\<exists>k'. boot_memory kernel_size rd info sy k = Some k' \<and> paging_ready (kvm k') \<and>
    cr3 (kvm k') = cr3 (kvm k) \<and> boot_status k' = boot_status k \<and> ksched k' = ksched k"
proof -
  let ?c = "cr3 (kvm k)"
  have c: "4096 dvd unat ?c" "0 < unat ?c" "unat ?c < 0x1000000"
    using dir by (auto simp: boot_directory_def word_less_nat_alt)
  then have "4096 \<le> unat ?c" by (intro dvd_imp_le) simp_all
  then have low: "BLOCK_SIZE \<le> kernel_end kernel_size info"
    using image by (simp add: BLOCK_SIZE_def word_le_nat_alt word_less_nat_alt)
  obtain pm where pm: "reserve_memory kernel_size rd info (phyMem (kvm k)) = Some pm" "accounted pm"
    "4100 \<le> unat (FreeBlocks pm)" "\<And>f. unat f < unat (kernel_end kernel_size info) div 4096 \<Longrightarrow> marked pm f"
    by (rule reserve_memory_accounts [OF map low room]) blast
  have "?c \<in> held_frames pm"
  proof -
    have u: "unat (?c div BLOCK_SIZE) = unat ?c div 4096" by (rule unat_div_BLOCK_SIZE)
    have e: "4096 dvd unat (kernel_end kernel_size info)"
    proof -
      have m: "(0xFFFFF000 :: u32) = NOT (mask 12)" by (simp add: mask_eq_exp_minus_1)
      have "4096 dvd unat (x AND 0xFFFFF000)" for x :: u32 unfolding m unat_and_not_mask by simp
      then have d: "4096 dvd unat (x AND 0xFFFFF000)" "4096 dvd unat ((x AND 0xFFFFF000) + 0x1000)" for x :: u32
        by (simp_all add: unat_word_ariths dvd_mod_iff dvd_add)
      then show ?thesis by (metis PageRoundUp_def kernel_end_def)
    qed
    then have "unat ?c div 4096 < unat (kernel_end kernel_size info) div 4096"
      using image c(1) by (auto simp: word_less_nat_alt elim!: dvdE)
    then have "marked pm (?c div BLOCK_SIZE)" using u by (intro pm(4)) simp
    moreover have "?c div BLOCK_SIZE * BLOCK_SIZE = ?c"
      using frame_number_fits(2) [OF c(1)] by (simp add: PAGE_SIZE_def BLOCK_SIZE_def)
    moreover have "unat (?c div BLOCK_SIZE) < 2 ^ 20" using u c(3) by simp
    ultimately show ?thesis unfolding held_frames_def by (intro image_eqI [of _ _ "?c div BLOCK_SIZE"]) simp_all
  qed
  note held = this
  obtain k0 where k0: "Phymem_report rd (mbi info) (kernel_end_addr sy) k = Some k0" "only_printed k k0"
    using Phymem_report_returns [OF _ types tmp, of rd "mbi info" "kernel_end_addr sy"] map unfolding map_lists_def by metis
  then have k0_fields: "kvm k0 = kvm k" "boot_status k0 = boot_status k" "ksched k0 = ksched k" by (simp_all add: only_printed_def)
  let ?k1 = "k0\<lparr>kvm := (kvm k0)\<lparr>phyMem := pm\<rparr>\<rparr>"
  obtain k2 where 2: "say (''Initializing virtual memory...'' @ tabs 1) ?k1 = Some k2" "kvm k2 = kvm ?k1" "boot_status k2 = boot_status k" "ksched k2 = ksched k"
    using say_keeps [of "''Initializing virtual memory...'' @ tabs 1" ?k1] by (auto simp: heap_status k0_fields)
  have v: "boot_directory (boot_pt_addr sy) (kvm k2)" "accounted (phyMem (kvm k2))"
    "cr3 (kvm k2) \<in> held_frames (phyMem (kvm k2))" "4100 \<le> unat (FreeBlocks (phyMem (kvm k2)))"
    using dir pm(2,3) held 2(2) by (simp_all add: k0_fields)
  obtain v' t F where v': "Virtmem_Init (boot_pt_addr sy) (kvm k2) = Some v'" "cr3 v' = cr3 (kvm k2)"
    "table_frame v' 0 = Some t" "2 ^ 24 dvd unat t"
    "\<And>va. va < 0x400000 \<Longrightarrow> translate v' va = (if va < 4096 then None else Some va)"
    "translate v' 0xFFFFF000 = Some (cr3 (kvm k2))"
    "(\<exists>d\<in>heap_dirs. table_frame v' d = Some t) \<or>
      heap_backed KERNEL_HEAP_START F v' (held_frames (phyMem v') - held_frames (phyMem (kvm k2)))"
    by (rule Virtmem_Init_effect [OF v]) blast
  obtain k3 where 3: "PrintOK (k2\<lparr>kvm := v'\<rparr>) = Some k3" "kvm k3 = v'" "boot_status k3 = boot_status k2" "ksched k3 = ksched k2"
    using PrintOK_keeps [of "k2\<lparr>kvm := v'\<rparr>"] by (auto simp: heap_status)
  have "boot_memory kernel_size rd info sy k = Some k3"
    by (simp only: boot_memory_def k0(1) k0_fields(1) pm(1) 2(1) [unfolded k0_fields(1)] v'(1) 3(1) Let_def Option.bind.bind_lunit)
  moreover have "paging_ready v'" using v'(2,3,5,6,7) unfolding paging_ready_def by auto
  moreover have "cr3 v' = cr3 (kvm k)" using v'(2) 2(2) by (simp add: k0_fields)
  ultimately show ?thesis using 2(3,4) 3(2-4) by auto
qed

section \<open>Properties\<close>

text \<open>
  C31. What booting reserves: after \<open>Init\<close> has read the memory map, exactly frame 0, the frames
  below the page that ends at 1 MB plus \<open>kernel_size\<close> plus the size of the bitmap, and the whole
  pages of the boot module are marked in addition to the frames marked before.
\<close>

theorem boot_reserves:
  assumes "Phymem_Init rd (mbi info) s = Some s1"
  shows "\<exists>s'. reserve_memory kernel_size rd info s = Some s' \<and> maximumBlocks s' = maximumBlocks s1 \<and>
    (\<forall>f. marked s' f \<longleftrightarrow> f = 0 \<or> marked s1 f \<or>
       unat f < unat (PageRoundUp (0x100000 + kernel_size + GetBitmapSize s1)) div 4096 \<or>
       (let a = rd (mods_addr info + 0xC0000000); n = rd (mods_addr info + 4 + 0xC0000000) - a
        in unat a div 4096 \<le> unat f \<and> unat f < unat a div 4096 + unat n div 4096))"
  using assms
  by (auto simp: reserve_memory_def block_range_def unat_div_BLOCK_SIZE phys2virt_def KERNEL_VIRTUAL_OFFSET_def Let_def)

definition demo_boot :: boot_info where
  "demo_boot = \<lparr>mbi = demo_info, mods_count = 1, mods_addr = 0x8000\<rparr>"

lemma demo_Phymem_Init: obtains s1 where "Phymem_Init demo_map demo_info (demo_phymem 64) = Some s1"
    and "memorySize s1 = 0x100000"
proof -
  obtain s1 where s1: "Phymem_Init demo_map demo_info (demo_phymem 64) = Some s1"
    using Phymem_Init_returns [OF demo_map_at] by blast
  have "memorySize s1 = mem_upper demo_info * 1024"
    using s1 mmap_walk_list [OF demo_map_at] free_regions_fields(2) [of "[r]" for r]
    by (auto simp: Phymem_Init_def Let_def)
  then show ?thesis using that s1 by (simp add: demo_info_def)
qed

theorem boot_reserves_witness:
  "\<exists>s'. reserve_memory 0 demo_map demo_boot (demo_phymem 64) = Some s' \<and> marked s' 0x100"
proof -
  obtain s1 where s1: "Phymem_Init demo_map demo_info (demo_phymem 64) = Some s1" "memorySize s1 = 0x100000"
    by (rule demo_Phymem_Init)
  have p: "Phymem_Init demo_map (mbi demo_boot) (demo_phymem 64) = Some s1" by (simp add: demo_boot_def s1(1))
  have "unat (PageRoundUp (0x100000 + 0 + GetBitmapSize s1)) div 4096 = 257"
    by (simp add: GetBitmapSize_def s1(2) BLOCK_SIZE_def BLOCKS_PER_BYTE_def PageRoundUp_def)
  with boot_reserves [OF p, of 0] show ?thesis by auto
qed

text \<open>
  The size that is added is wrong both ways: the initializer subtracts symbols of which one is a
  physical and the other a virtual address and counts in words, which comes to almost 4 GB; and
  where no constructor runs it is never evaluated, the size is 0 and the image is not reserved.
\<close>

lemma kernel_size_huge: "kernel_size_init 0xC0110000 0x100000 = 0xF0004000"
  by (simp add: kernel_size_init_def signed_divide_int_def)

text \<open>
  Booting comes to its end: with a memory map whose available regions are in order and do not
  overlap, the directory of the boot code inside the first reservation, and 4100 frames to spare
  beyond the reservations, \<open>ArchKernel::Init\<close> reaches one of its two endless loops, the one with the
  error message exactly when no module was loaded. By then the directory is mapped into itself, the
  first 4 MB but the first page are mapped one to one, the heap is backed (unless the table of the
  first 4 MB has landed on one of its tables) and well formed, with the copy of the boot information
  and the scheduler in it, the scheduler that the timer was given has no threads, vector 32 leads to
  the timer's handler, and interrupts are on in the loop without the error message.
\<close>

lemma boot_completes:
  assumes "map_lists rd (mbi info) rs" and "boot_directory (boot_pt_addr sy) (kvm k)"
    and "cr3 (kvm k) < kernel_end kernel_size info"
    and "unat (kernel_end kernel_size info) div 4096 + unat (module_size rd info) div 4096 + 4100
      \<le> available_blocks rs"
    and "\<forall>r\<in>set rs. rtype r \<noteq> 0x80000000" and "length (ktmp k) = 36"
  shows "\<exists>e k' bs. ArchKernel_Init dev sy kernel_size rd info k = Some (e, k') \<and>
    (e = No_initrd \<longleftrightarrow> mods_count info = 0) \<and> paging_ready (kvm k') \<and> cr3 (kvm k') = cr3 (kvm k) \<and>
    heap_ok (kheap k') bs \<and> used_blocks bs = {(0xC0400014, 120), (kpit_sched k', 24)} \<and>
    kpit_sched k' = 0xC04000A0 \<and> sched_ok (ksched k') [] \<and> \<not> enabled (ksched k') \<and> boot_status k' = (True, pit_entry sy, e = Idle) \<and>
    bs = boot_blocks \<and> sched_init (ksched k) = Some (ksched k')"
proof -
  obtain k1 where 1: "boot_devices dev sy k = Some k1" "kvm k1 = kvm k" "boot_status k1 = (True, pit_entry sy, True)" "ktmp k1 = ktmp k" "ksched k1 = ksched k"
    using boot_devices_returns by blast
  obtain k2 where 2: "boot_memory kernel_size rd info sy k1 = Some k2" "paging_ready (kvm k2)" "cr3 (kvm k2) = cr3 (kvm k1)"
    "boot_status k2 = boot_status k1" "ksched k2 = ksched k1"
    using boot_memory_returns [of rd info rs sy k1 kernel_size] assms 1(2,4) by auto
  have run: "ArchKernel_Init dev sy kernel_size rd info k = boot_heap info k2"
    by (simp add: ArchKernel_Init_def 1(1) 2(1))
  obtain e k' bs where h: "boot_heap info k2 = Some (e, k')" "e = No_initrd \<longleftrightarrow> mods_count info = 0"
    "heap_ok (kheap k') bs" "used_blocks bs = {(0xC0400014, 120), (kpit_sched k', 24)}" "kpit_sched k' = 0xC04000A0"
    "sched_ok (ksched k') []" "\<not> enabled (ksched k')" "bs = boot_blocks" "sched_init (ksched k2) = Some (ksched k')" "kvm k' = kvm k2"
    "mods_count info \<noteq> 0 \<longrightarrow> boot_status k' = boot_status k2"
    "mods_count info = 0 \<longrightarrow> \<not> int_enabled (kidt k') \<and> fst (boot_status k') = fst (boot_status k2) \<and>
       fst (snd (boot_status k')) = fst (snd (boot_status k2))"
    using boot_heap_effect [of info k2] by blast
  have st: "boot_status k' = (True, pit_entry sy, e = Idle)"
  proof (cases "mods_count info = 0")
    case True
    have "snd (snd (boot_status k')) = int_enabled (kidt k')" by (simp add: boot_status_def)
    then show ?thesis using True h(2,12) 1(3) 2(4) by (simp add: prod_eq_iff)
  next
    case False
    then show ?thesis using h(2,11) 1(3) 2(4) by (cases e) simp_all
  qed
  have "kvm k' = kvm k2" by (rule h(10))
  moreover have "sched_init (ksched k) = Some (ksched k')" using h(9) 1(5) 2(5) by simp
  ultimately show ?thesis using run h(1-8) st 1(2) 2(2,3)
    by (intro exI [of _ e] exI [of _ k'] exI [of _ bs] conjI) (simp_all only: not_False_eq_True)
qed

definition boot_map :: memory where
  "boot_map = (\<lambda>_. 0)(0xC0009000 := 20, 0xC0009004 := 0x100000, 0xC000900C := 0x2000000, 0xC0009014 := 1,
     0xC0008000 := 0x121000, 0xC0008004 := 0x125000)"

definition large_boot :: boot_info where
  "large_boot = \<lparr>mbi = \<lparr>mem_upper = 0x8000, mmap_length = 24, mmap_addr = 0x9000\<rparr>, mods_count = 1, mods_addr = 0x8000\<rparr>"

theorem boot_completes_witness:
  "\<forall>dev sy k. \<exists>k'. ArchKernel_Init dev (sy\<lparr>boot_pt_addr := 0xC0110000\<rparr>) 0x20000 boot_map large_boot (k\<lparr>kvm := boot_vm, ktmp := replicate 36 NUL\<rparr>) =
     Some (Idle, k') \<and> translate (kvm k') 0xB8000 = Some 0xB8000"
proof (intro allI)
  fix dev and sy :: symbols and k :: arch_kernel
  let ?k = "k\<lparr>kvm := boot_vm, ktmp := replicate 36 NUL\<rparr>" and ?sy = "sy\<lparr>boot_pt_addr := 0xC0110000\<rparr>" and ?rs = "[Region 0x100000 0x2000000 1]"
  have map: "map_lists boot_map (mbi large_boot) ?rs"
    by (simp add: map_lists_def boot_map_def large_boot_def phys2virt_def KERNEL_VIRTUAL_OFFSET_def mmap_size_def
        base_addr_low_def length_low_def mmap_type_def BLOCK_SIZE_def MULTIBOOT_MEMORY_AVAILABLE_def)
  have e: "kernel_end 0x20000 large_boot = 0x121000"
    by (simp add: kernel_end_def large_boot_def BLOCK_SIZE_def BLOCKS_PER_BYTE_def PageRoundUp_def)
  have m: "module_size boot_map large_boot = 0x4000"
    by (simp add: module_size_def boot_map_def large_boot_def phys2virt_def KERNEL_VIRTUAL_OFFSET_def)
  have a: "available_blocks ?rs = 8192" by (simp add: available_blocks_def MULTIBOOT_MEMORY_AVAILABLE_def)
  have d: "boot_directory (boot_pt_addr ?sy) (kvm ?k)" using boot_vm_directory by simp
  have c: "cr3 (kvm ?k) < kernel_end 0x20000 large_boot" unfolding e by (simp add: boot_vm_def)
  have r: "unat (kernel_end 0x20000 large_boot) div 4096 + unat (module_size boot_map large_boot) div 4096 + 4100
      \<le> available_blocks ?rs" unfolding e m a by simp
  have t: "\<forall>r\<in>set ?rs. rtype r \<noteq> 0x80000000" "length (ktmp ?k) = 36" by simp_all
  obtain e k' where "ArchKernel_Init dev ?sy 0x20000 boot_map large_boot ?k = Some (e, k')"
    "e = No_initrd \<longleftrightarrow> mods_count large_boot = 0" "paging_ready (kvm k')"
    using boot_completes [OF map d c r t, of dev] by blast
  moreover have "mods_count large_boot = 1" by (simp add: large_boot_def)
  ultimately have "ArchKernel_Init dev ?sy 0x20000 boot_map large_boot ?k = Some (Idle, k')"
    "translate (kvm k') 0xB8000 = Some 0xB8000"
    by (cases e; simp add: paging_ready_def)+
  then show "\<exists>k'. ArchKernel_Init dev ?sy 0x20000 boot_map large_boot ?k = Some (Idle, k') \<and>
     translate (kvm k') 0xB8000 = Some 0xB8000" by blast
qed

text \<open>
  Once booted the system only idles: the scheduler that booting leaves has no threads, so
  however many timer interrupts arrive, each resumes exactly what it interrupted.
\<close>

lemma empty_HandleInterrupt:
  assumes "sched_ok s []" and "\<not> enabled s"
  shows "\<exists>s'. HandleInterrupt f s = Some (Resume f, s') \<and> sched_ok s' [] \<and> \<not> enabled s' \<and> mem s' = mem s \<and>
    procs s' = procs s"
proof -
  have tok: "threads_ok s []" using assms(1) by (simp add: sched_ok_def)
  have "sched_ok (ticked [] s) []" "sched_ok ((ticked [] s)\<lparr>tickCount := 0\<rparr>) []"
    using ticked_ok [OF tok] assms(1) by (simp_all add: sched_ok_def threads_ok_def)
  moreover have "\<not> enabled (ticked [] s)" "mem (ticked [] s) = mem s" "procs (ticked [] s) = procs s"
    using assms(2) by (simp_all add: ticked_def tick_all_def)
  ultimately show ?thesis using HandleInterrupt_cases [OF tok, of f] by auto
qed

lemma idle_after_boot:
  assumes "sched_init s0 = Some s"
  shows "\<exists>s'. interrupts esps s = Some s' \<and> (\<exists>s''. HandleInterrupt esp s' = Some (Resume esp, s''))"
proof -
  have "\<exists>s'. interrupts esps s = Some s' \<and> sched_ok s' [] \<and> \<not> enabled s'" if "sched_ok s []" "\<not> enabled s"
    using that
  proof (induction esps arbitrary: s)
    case (Cons e es)
    obtain s1 where "HandleInterrupt e s = Some (Resume e, s1)" "sched_ok s1 []" "\<not> enabled s1"
      using empty_HandleInterrupt [OF Cons.prems] by blast
    then show ?case using Cons.IH by simp
  qed simp
  then show ?thesis using sched_init_ok [of s0] assms empty_HandleInterrupt by fastforce
qed

theorem idle_after_boot_witness:
  "\<forall>g. \<exists>s s' s''. sched_init (demo_sched g Ready 29) = Some s \<and> interrupts [0xC0110000, 0xC0110004] s = Some s' \<and>
    HandleInterrupt 0xC0110008 s' = Some (Resume 0xC0110008, s'')"
proof
  fix g
  obtain s where s: "sched_init (demo_sched g Ready 29) = Some s" using sched_init_ok by blast
  from idle_after_boot [OF this] s show "\<exists>s s' s''. sched_init (demo_sched g Ready 29) = Some s \<and>
      interrupts [0xC0110000, 0xC0110004] s = Some s' \<and> HandleInterrupt 0xC0110008 s' = Some (Resume 0xC0110008, s'')"
    by blast
qed

end
