(* ===== verification/OS_Entry.thy ===== *)
theory OS_Entry
  imports OS_Kernel
begin

text \<open>
  From the boot loader to \<open>ArchKernel::Init\<close>: src/boot/boot.asm, src/src/main.cpp and the structures of
  src/src/multiboot.h.

  \<^item> \<open>multiboot_header\<close> is what the loader searches for in the image, \<open>mboot_header\<close> the one in boot.asm.
  \<^item> \<open>multiboot_info_t\<close> is the information structure with all its members; the union of the two symbol
    tables is four words with two readings. \<open>info_at\<close> reads it from memory at the offsets of the i386 ABI.
  \<^item> \<open>start\<close> is \<open>_start\<close>: page directory, paging, and the call of \<open>kmain\<close>, which calls \<open>Init\<close>.
    \<open>boot_pt_words\<close> is the page directory that the file assembles. No constructor of the C++ files
    has run by then: \<open>kernel_size\<close> has the value of its place in the zeroed section.
  \<^item> The lemmas show that the directory is what \<open>VirtualMem::Init\<close> expects, that the copy of the
    structure that \<open>Init\<close> puts on the heap is the structure, that the kernel comes up from its entry
    on a machine with enough memory, and what happens to its code with little.
\<close>

unbundle bit_operations_syntax

section \<open>The information structure\<close>

record multiboot_aout_symbol_table =
  tabsize :: u32
  strsize :: u32
  sym_addr :: u32
  reserved :: u32

record multiboot_elf_section_header_table =
  elf_num :: u32
  elf_size :: u32
  elf_addr :: u32
  elf_shndx :: u32

record multiboot_info_t =
  mi_flags :: u32
  mi_mem_lower :: u32
  mi_mem_upper :: u32
  mi_boot_device :: u32
  mi_cmdline :: u32
  mi_mods_count :: u32
  mi_mods_addr :: u32
  mi_u :: "u32 \<times> u32 \<times> u32 \<times> u32"
  mi_mmap_length :: u32
  mi_mmap_addr :: u32
  mi_drives_length :: u32
  mi_drives_addr :: u32
  mi_config_table :: u32
  mi_boot_loader_name :: u32
  mi_apm_table :: u32
  mi_vbe_control_info :: u32
  mi_vbe_mode_info :: u32
  mi_vbe_mode :: u16
  mi_vbe_interface_seg :: u16
  mi_vbe_interface_off :: u16
  mi_vbe_interface_len :: u16
  mi_framebuffer_addr :: "64 word"
  mi_framebuffer_pitch :: u32
  mi_framebuffer_width :: u32
  mi_framebuffer_height :: u32
  mi_framebuffer_bpp :: u8
  mi_framebuffer_type :: u8
  mi_color_info :: "u32 \<times> u16"

fun aout_sym :: "u32 \<times> u32 \<times> u32 \<times> u32 \<Rightarrow> multiboot_aout_symbol_table" where
  "aout_sym (a, b, c, d) = \<lparr>tabsize = a, strsize = b, sym_addr = c, reserved = d\<rparr>"

fun elf_sec :: "u32 \<times> u32 \<times> u32 \<times> u32 \<Rightarrow> multiboot_elf_section_header_table" where
  "elf_sec (a, b, c, d) = \<lparr>elf_num = a, elf_size = b, elf_addr = c, elf_shndx = d\<rparr>"

definition info_at :: "memory \<Rightarrow> u32 \<Rightarrow> multiboot_info_t" where
  "info_at m p = (let w = (\<lambda>off. m (p + off)) in
     \<lparr>mi_flags = w 0, mi_mem_lower = w 4, mi_mem_upper = w 8, mi_boot_device = w 12, mi_cmdline = w 16,
      mi_mods_count = w 20, mi_mods_addr = w 24, mi_u = (w 28, w 32, w 36, w 40),
      mi_mmap_length = w 44, mi_mmap_addr = w 48, mi_drives_length = w 52, mi_drives_addr = w 56,
      mi_config_table = w 60, mi_boot_loader_name = w 64, mi_apm_table = w 68,
      mi_vbe_control_info = w 72, mi_vbe_mode_info = w 76,
      mi_vbe_mode = ucast (w 80), mi_vbe_interface_seg = ucast (drop_bit 16 (w 80)),
      mi_vbe_interface_off = ucast (w 84), mi_vbe_interface_len = ucast (drop_bit 16 (w 84)),
      mi_framebuffer_addr = ucast (w 88) OR push_bit 32 (ucast (w 92)),
      mi_framebuffer_pitch = w 96, mi_framebuffer_width = w 100, mi_framebuffer_height = w 104,
      mi_framebuffer_bpp = ucast (w 108), mi_framebuffer_type = ucast (drop_bit 8 (w 108)),
      mi_color_info = (w 112, ucast (w 116))\<rparr>)"

text \<open>The members that \<open>Init\<close> reads.\<close>

definition boot_info_of :: "multiboot_info_t \<Rightarrow> boot_info" where
  "boot_info_of i = \<lparr>mbi = \<lparr>mem_upper = mi_mem_upper i, mmap_length = mi_mmap_length i, mmap_addr = mi_mmap_addr i\<rparr>,
     mods_count = mi_mods_count i, mods_addr = mi_mods_addr i\<rparr>"

section \<open>The header for the boot loader\<close>

definition MULTIBOOT_HEADER_MAGIC :: u32 where "MULTIBOOT_HEADER_MAGIC = 0x1BADB002"
definition MULTIBOOT_PAGE_ALIGN :: u32 where "MULTIBOOT_PAGE_ALIGN = 1"
definition MULTIBOOT_MEMORY_INFO :: u32 where "MULTIBOOT_MEMORY_INFO = 2"
definition MULTIBOOT_VIDEO_MODE :: u32 where "MULTIBOOT_VIDEO_MODE = 4"
definition MULTIBOOT_AOUT_KLUDGE :: u32 where "MULTIBOOT_AOUT_KLUDGE = 0x10000"

record multiboot_header =
  mh_magic :: u32
  mh_flags :: u32
  mh_checksum :: u32
  mh_header_addr :: u32
  mh_load_addr :: u32
  mh_load_end_addr :: u32
  mh_bss_end_addr :: u32
  mh_entry_addr :: u32
  mh_mode_type :: u32
  mh_width :: u32
  mh_height :: u32
  mh_depth :: u32

text \<open>The file gives the first three members; what follows them in the image is something else.\<close>

definition mboot_header :: "multiboot_header \<Rightarrow> multiboot_header" where
  "mboot_header rest =
     (let magic = 0x1BADB002; flags = push_bit 1 1 OR push_bit 0 1
      in rest\<lparr>mh_magic := magic, mh_flags := flags, mh_checksum := - (magic + flags)\<rparr>)"

text \<open>A loader takes the header, finds the addresses in the ELF file and not in the members behind the
  checksum, and is asked to align modules to pages and to tell the size of memory. Page alignment is what
  makes the reservation of a module, which counts whole pages from its first one, start with it.\<close>

lemma header_valid:
  "mh_magic (mboot_header rest) = MULTIBOOT_HEADER_MAGIC \<and>
   mh_magic (mboot_header rest) + mh_flags (mboot_header rest) + mh_checksum (mboot_header rest) = 0 \<and>
   mh_flags (mboot_header rest) AND (MULTIBOOT_AOUT_KLUDGE OR MULTIBOOT_VIDEO_MODE) = 0 \<and>
   mh_flags (mboot_header rest) AND MULTIBOOT_PAGE_ALIGN \<noteq> 0 \<and> mh_flags (mboot_header rest) AND MULTIBOOT_MEMORY_INFO \<noteq> 0"
  by (simp add: mboot_header_def Let_def MULTIBOOT_HEADER_MAGIC_def MULTIBOOT_AOUT_KLUDGE_def MULTIBOOT_VIDEO_MODE_def
      MULTIBOOT_PAGE_ALIGN_def MULTIBOOT_MEMORY_INFO_def)

section \<open>Entry\<close>

definition KERNEL_ADDR :: u32 where "KERNEL_ADDR = 0xC0000000"
definition KERNEL_PAGE_NUM :: nat where "KERNEL_PAGE_NUM = 768"

text \<open>The directory of the file, with its last \<open>times\<close> line, which counts one entry too many.\<close>

definition boot_pt_words :: "u32 list" where
  "boot_pt_words = [0x83] @ replicate (KERNEL_PAGE_NUM - 1) 0 @ [0x83] @ replicate (1024 - KERNEL_PAGE_NUM) 0"

definition kmain :: "device \<Rightarrow> symbols \<Rightarrow> u32 \<Rightarrow> memory \<Rightarrow> u32 \<Rightarrow> u32 \<Rightarrow> arch_kernel \<Rightarrow> (boot_end \<times> arch_kernel) option" where
  "kmain dev sy kernel_size rd info magic k = ArchKernel_Init dev sy kernel_size rd (boot_info_of (info_at rd info)) k"

text \<open>\<open>eax\<close> and \<open>ebx\<close> are the registers the boot loader sets: its magic number and the physical address
  of the information. Setting bits in \<open>cr4\<close> and \<open>cr0\<close> turns on paging with large pages.\<close>

definition start :: "device \<Rightarrow> symbols \<Rightarrow> u32 \<Rightarrow> u32 \<Rightarrow> memory \<Rightarrow> arch_kernel \<Rightarrow> (boot_end \<times> arch_kernel) option" where
  "start dev sy eax ebx rd k =
     (let ecx = boot_pt_addr sy - KERNEL_ADDR;
          k = k\<lparr>kvm := (kvm k)\<lparr>cr3 := ecx\<rparr>\<rparr>;
          ebx = ebx + KERNEL_ADDR
      in kmain dev sy 0 rd ebx eax k)"

section \<open>The directory of the boot code\<close>

definition directory_loaded :: "u32 \<Rightarrow> vm \<Rightarrow> bool" where
  "directory_loaded pd v \<longleftrightarrow> (\<forall>i<length boot_pt_words. phys v (pd - KERNEL_ADDR + 4 * of_nat i) = boot_pt_words ! i)"

lemma boot_pt_length: "length boot_pt_words = 1025"
  by (simp add: boot_pt_words_def KERNEL_PAGE_NUM_def)

lemma boot_pt_nth: "i < 1025 \<Longrightarrow> boot_pt_words ! i = (if i = 0 \<or> i = 768 then 0x83 else 0)"
  by (auto simp: boot_pt_words_def KERNEL_PAGE_NUM_def nth_append nth_Cons')

lemma start_directory:
  assumes "directory_loaded pd v" and "4096 dvd unat pd" and "0xC0000000 < pd" and "pd < 0xC0400000"
  shows "boot_directory pd (v\<lparr>cr3 := pd - 0xC0000000\<rparr>)"
proof -
  let ?v = "v\<lparr>cr3 := pd - 0xC0000000\<rparr>"
  have u: "unat pd < 0xC0400000" "0xC0000000 < unat pd" using assms(3,4) by (simp_all add: word_less_nat_alt)
  have c: "unat (pd - 0xC0000000) = unat pd - 0xC0000000"
    using u by (subst unat_minus_le) (simp_all add: word_le_nat_alt)
  have e: "phys v (pd - 0xC0000000 + 4 * i) = (if i = 0 \<or> i = 768 then 0x83 else 0)" if "i < 1024" for i :: u32
  proof -
    have "unat i < 1024" using that by (simp add: word_less_nat_alt)
    moreover have "of_nat (unat i) = i" by simp
    moreover have "unat i = 768 \<longleftrightarrow> i = 768" by (auto simp: word_unat_eq_iff)
    ultimately show ?thesis
      using assms(1) [unfolded directory_loaded_def KERNEL_ADDR_def boot_pt_length, rule_format, of "unat i"]
        boot_pt_nth [of "unat i"] by (simp add: unat_eq_zero)
  qed
  have none: "table_frame ?v i = None" if "i < 1024" for i
    using e [OF that] by (auto simp: table_frame_def entry_table_def pde_get_def get_bits_def FOUR_MB_def)
  have idx: "PAGEDIR_INDEX pd = 768"
    using u by (intro word_nat_eqI) (simp add: unat_PAGEDIR_INDEX)
  have heap: "phys v (pd - 0xC0000000 + 4 * d) = 0" if "d \<in> heap_dirs" for d
    using e [of d] that by (auto simp: heap_dirs_def word_le_nat_alt word_less_nat_alt)
  have "pd AND 0x3FFFFF = pd - 0xC0000000"
  proof (rule word_nat_eqI)
    have "pd AND 0x3FFFFF = take_bit 22 pd" by (simp add: take_bit_eq_mask mask_eq_exp_minus_1)
    then have "unat (pd AND 0x3FFFFF) = unat pd mod 0x400000"
      by (simp add: take_bit_eq_mod unat_mod)
    also have "\<dots> = unat pd - 0xC0000000" using u by (simp add: mod_nat_eqI)
    finally show "unat (pd AND 0x3FFFFF) = unat (pd - 0xC0000000)" by (simp only: c)
  qed
  then have "translate ?v pd = Some (pd - 0xC0000000)"
    using e [of 768] by (simp add: translate_def page_walk_def idx pde_get_def get_bits_def FOUR_MB_def Let_def)
  moreover have "4096 dvd unat (pd - 0xC0000000)" unfolding c using assms(2) u by (intro dvd_diff_nat) simp_all
  ultimately show ?thesis
    using none c u heap unfolding boot_directory_def directory_visible_def
    by (auto simp: virt2phys_def KERNEL_VIRTUAL_OFFSET_def idx word_less_nat_alt pde_get_def get_bits_def)
qed

section \<open>The copy of the information\<close>

text \<open>\<open>memcpy(mbi, info, sizeof(multiboot_info_t))\<close> in \<open>Init\<close>: the structure at the destination is the
  structure at the source.\<close>

lemma info_copied:
  assumes "\<forall>j k. j < 120 \<longrightarrow> k < 120 \<longrightarrow> dst + j \<noteq> src + k" and "4 dvd unat dst" and "4 dvd unat src"
  shows "info_at (memcpy dst src sizeof_multiboot_info m) dst = info_at m src"
proof -
  have w: "memcpy dst src 120 m (dst + d) = m (src + d)" if "4 dvd unat d" "unat d + 4 \<le> 120" for d :: u32
    by (rule memcpy_word [OF assms(1)]) (use that assms in \<open>simp_all add: unat_word_ariths dvd_mod_iff dvd_add\<close>)
  have z: "memcpy dst src 120 m dst = m src" using w [of 0] by simp
  show ?thesis by (simp add: info_at_def sizeof_multiboot_info_def Let_def w z)
qed

section \<open>The kernel comes up\<close>

lemma start_boots:
  assumes "directory_loaded (boot_pt_addr sy) (kvm k)" and "4096 dvd unat (boot_pt_addr sy)"
    and "0xC0000000 < boot_pt_addr sy" and "boot_pt_addr sy < 0xC0400000"
    and "info = boot_info_of (info_at rd (ebx + 0xC0000000))" and "map_lists rd (mbi info) rs"
    and "boot_pt_addr sy - 0xC0000000 < kernel_end 0 info"
    and "unat (kernel_end 0 info) div 4096 + unat (module_size rd info) div 4096 + 4100 \<le> available_blocks rs"
    and "\<forall>r\<in>set rs. rtype r \<noteq> 0x80000000" and "length (ktmp k) = 36"
  shows "\<exists>e k' bs. start dev sy eax ebx rd k = Some (e, k') \<and> (e = No_initrd \<longleftrightarrow> mods_count info = 0) \<and>
    paging_ready (kvm k') \<and> cr3 (kvm k') = boot_pt_addr sy - 0xC0000000 \<and>
    heap_ok (kheap k') bs \<and> used_blocks bs = {(0xC0400014, 120), (kpit_sched k', 24)} \<and>
    kpit_sched k' = 0xC04000A0 \<and> sched_ok (ksched k') [] \<and> \<not> enabled (ksched k') \<and>
    boot_status k' = (True, pit_entry sy, e = Idle) \<and> bs = boot_blocks \<and> sched_init (ksched k) = Some (ksched k')"
proof -
  let ?k = "k\<lparr>kvm := (kvm k)\<lparr>cr3 := boot_pt_addr sy - 0xC0000000\<rparr>\<rparr>"
  have d: "boot_directory (boot_pt_addr sy) (kvm ?k)" using start_directory [OF assms(1-4)] by simp
  have "start dev sy eax ebx rd k = ArchKernel_Init dev sy 0 rd info ?k"
    by (simp add: start_def kmain_def KERNEL_ADDR_def assms(5) Let_def)
  then show ?thesis using boot_completes [OF assms(6) d _ assms(8,9), of dev] assms(7,10) by simp
qed

definition three_gb_map :: memory where
  "three_gb_map = (\<lambda>_. 0)(0xC0009000 := 20, 0xC0009004 := 0x100000, 0xC000900C := 0xBFF00000, 0xC0009014 := 1,
     0xC0008000 := 0x121000, 0xC0008004 := 0x125000,
     0xC0009508 := 0x2FFC00, 0xC0009514 := 1, 0xC0009518 := 0x8000, 0xC000952C := 24, 0xC0009530 := 0x9000)"

definition image_loaded :: memory where
  "image_loaded = (\<lambda>a. if a = 0x107000 \<or> a = 0x107C00 then 0x83 else 0)"

lemma image_directory: "phys v = image_loaded \<Longrightarrow> directory_loaded 0xC0107000 v"
proof -
  assume v: "phys v = image_loaded"
  have "image_loaded (0x107000 + 4 * of_nat i) = boot_pt_words ! i" if "i < 1025" for i
  proof -
    have u: "unat (0x107000 + 4 * of_nat i :: u32) = 0x107000 + 4 * i" using that
      by (simp add: unat_word_ariths unat_of_nat)
    have "(0x107000 + 4 * of_nat i :: u32) = 0x107000 \<longleftrightarrow> i = 0" "(0x107000 + 4 * of_nat i :: u32) = 0x107C00 \<longleftrightarrow> i = 768"
      unfolding word_unat_eq_iff u by auto
    then show ?thesis using boot_pt_nth [OF that] by (simp add: image_loaded_def)
  qed
  then show ?thesis by (simp add: directory_loaded_def boot_pt_length KERNEL_ADDR_def v)
qed

lemma three_gb_info: "boot_info_of (info_at three_gb_map (0x9500 + 0xC0000000)) =
    \<lparr>mbi = \<lparr>mem_upper = 0x2FFC00, mmap_length = 24, mmap_addr = 0x9000\<rparr>, mods_count = 1, mods_addr = 0x8000\<rparr>"
  by (simp add: boot_info_of_def info_at_def three_gb_map_def Let_def)

section \<open>Properties\<close>

text \<open>The available regions of the map are free afterwards.\<close>

lemma Phymem_Init_frees:
  assumes "mmap_at rd (phys2virt (mmap_addr info) + mmap_length info) (phys2virt (mmap_addr info)) rs"
    and "Phymem_Init rd info s = Some s1" and "r \<in> set rs" and "region_frame r f" and "f \<noteq> 0"
  shows "\<not> marked s1 f"
  using assms mmap_walk_list [OF assms(1)] by (auto simp: Phymem_Init_def Let_def marked_free_regions)

lemma kernel_end_small:
  assumes "32 \<le> mem_upper (mbi info)" and "mem_upper (mbi info) \<le> 0x20000"
  shows "kernel_end 0 info = 0x101000"
proof -
  let ?m = "mem_upper (mbi info)" and ?n = "mem_upper (mbi info) * 1024 div BLOCK_SIZE div BLOCKS_PER_BYTE"
  have m: "32 \<le> unat ?m" "unat ?m \<le> 0x20000" using assms by (simp_all add: word_le_nat_alt)
  have "unat ?n = unat ?m * 1024 div 4096 div 8"
    using m by (simp add: BLOCK_SIZE_def BLOCKS_PER_BYTE_def unat_div unat_word_ariths)
  then have n: "0 < unat ?n" "unat ?n \<le> 4096" using m by simp_all
  then have u: "unat (0x100000 + ?n) = 0x100000 + unat ?n" by (intro trans [OF unat_plus_le]) simp_all
  have mask: "(0xFFFFF000 :: u32) = NOT (mask 12)" by (simp add: mask_eq_exp_minus_1)
  have r: "unat ((0x100000 + ?n) AND 0xFFFFF000) = unat (0x100000 + ?n) div 4096 * 4096"
    unfolding mask unat_and_not_mask by simp
  show ?thesis
  proof (cases "unat ?n = 4096")
    case True
    then have "0x100000 + ?n = 0x101000" using u by (intro word_nat_eqI) simp
    then show ?thesis by (simp add: kernel_end_def PageRoundUp_def)
  next
    case False
    then have "unat ((0x100000 + ?n) AND 0xFFFFF000) = 0x100000" using u n r by simp
    then have "(0x100000 + ?n) AND 0xFFFFF000 = 0x100000" by (intro word_nat_eqI) simp
    moreover have "0x100000 + ?n \<noteq> 0x100000" using n by auto
    ultimately show ?thesis by (simp add: kernel_end_def PageRoundUp_def)
  qed
qed

text \<open>
  C21. With up to 128 MB of memory the kernel is not safe from its own allocator: the boot code
  leaves \<open>kernel_size\<close> at 0, so \<open>Init\<close> reserves the megabyte and one page, and the first frame that is
  handed out, to be cleared and used as a page table, is the one at 0x101000, where the linker
  script puts the first page of the kernel's instructions.
\<close>

theorem kernel_text_allocated:
  assumes "map_lists rd (mbi info) rs" and "32 \<le> mem_upper (mbi info)" and "mem_upper (mbi info) \<le> 0x20000"
    and "r \<in> set rs" and "region_frame r 0x101" and "0x102000 \<le> rd (phys2virt (mods_addr info))"
    and "unat (module_size rd info) div 4096 + 0x102 \<le> available_blocks rs"
  shows "\<exists>s1 s2. reserve_memory 0 rd info s = Some s1 \<and> AllocateBlock s1 = (0x101000, s2)"
proof -
  have e: "kernel_end 0 info = 0x101000" using assms(2,3) by (rule kernel_end_small)
  obtain s1 where s1: "reserve_memory 0 rd info s = Some s1" "accounted s1" "1 \<le> unat (FreeBlocks s1)"
    "\<And>f. unat f < 0x101 \<Longrightarrow> marked s1 f"
    by (rule reserve_memory_accounts [OF assms(1), of 0 1 s]) (use e assms(7) in \<open>auto simp: BLOCK_SIZE_def\<close>)
  obtain s0 where s0: "Phymem_Init rd (mbi info) s = Some s0" using s1(1) by (auto simp: reserve_memory_def split: bind_splits)
  have m0: "\<not> marked s0 0x101"
    using assms(1,4,5) s0 by (intro Phymem_Init_frees [of rd "mbi info" rs s]) (auto simp: map_lists_def)
  have bm: "0x100000 + 0 + GetBitmapSize s0 = 0x100000 + 0 + mem_upper (mbi info) * 1024 div BLOCK_SIZE div BLOCKS_PER_BYTE"
    using s0 assms(1) mmap_walk_list [of rd _ _ rs]
    by (auto simp: Phymem_Init_def GetBitmapSize_def map_lists_def free_regions_fields Let_def)
  have "s1 = MarkUsed (rd (phys2virt (mods_addr info))) (module_size rd info) (MarkUsed 0 0x101000 s0)"
    using s1(1) s0 e bm by (simp add: reserve_memory_def kernel_end_def module_size_def Let_def)
  moreover have "0x102 \<le> unat (rd (phys2virt (mods_addr info))) div 4096"
    using assms(6) by (simp add: word_le_nat_alt)
  ultimately have free: "\<not> marked s1 0x101"
    using m0 by (simp add: block_range_def unat_div_BLOCK_SIZE)
  have "unat (FreeBlocks s1) \<noteq> 0" using s1(3) by simp
  from s1(2) obtain f s2 where f: "AllocateBlock s1 = (f * BLOCK_SIZE, s2)" "\<not> marked s1 f" "\<And>g. unat g < unat f \<Longrightarrow> marked s1 g"
    by (cases rule: AllocateBlock_cases) (use s1(3) in auto)
  have "unat f = 0x101"
    using f(2) f(3) [of "0x101"] s1(4) [of f] free by (cases "unat f" "0x101 :: nat" rule: linorder_cases) auto
  then have "f = 0x101" by (intro word_nat_eqI) simp
  then show ?thesis using s1(1) f(1) by (simp add: BLOCK_SIZE_def)
qed

definition half_boot_map :: memory where
  "half_boot_map = (\<lambda>_. 0)(0xC0009000 := 20, 0xC0009004 := 0x100000, 0xC000900C := 0x3F00000, 0xC0009014 := 1,
     0xC0008000 := 0x121000, 0xC0008004 := 0x125000)"

definition small_boot :: boot_info where
  "small_boot = \<lparr>mbi = \<lparr>mem_upper = 0xFC00, mmap_length = 24, mmap_addr = 0x9000\<rparr>, mods_count = 1, mods_addr = 0x8000\<rparr>"

theorem kernel_text_allocated_witness:
  "\<forall>s. \<exists>s1 s2. reserve_memory 0 half_boot_map small_boot s = Some s1 \<and> AllocateBlock s1 = (0x101000, s2)"
proof
  fix s
  let ?rs = "[Region 0x100000 0x3F00000 1]"
  have map: "map_lists half_boot_map (mbi small_boot) ?rs"
    by (simp add: map_lists_def half_boot_map_def small_boot_def phys2virt_def KERNEL_VIRTUAL_OFFSET_def mmap_size_def
        base_addr_low_def length_low_def mmap_type_def BLOCK_SIZE_def MULTIBOOT_MEMORY_AVAILABLE_def)
  have "region_frame (Region 0x100000 0x3F00000 1) 0x101"
    by (simp add: region_frame_def block_range_def BLOCK_SIZE_def MULTIBOOT_MEMORY_AVAILABLE_def)
  moreover have "0x102000 \<le> half_boot_map (phys2virt (mods_addr small_boot))" "module_size half_boot_map small_boot = 0x4000"
    by (simp_all add: half_boot_map_def small_boot_def phys2virt_def KERNEL_VIRTUAL_OFFSET_def module_size_def)
  moreover have "available_blocks ?rs = 16128" by (simp add: available_blocks_def MULTIBOOT_MEMORY_AVAILABLE_def)
  ultimately show "\<exists>s1 s2. reserve_memory 0 half_boot_map small_boot s = Some s1 \<and> AllocateBlock s1 = (0x101000, s2)"
    by (intro kernel_text_allocated [OF map]) (simp_all add: small_boot_def)
qed

end
