(* ===== verification/OS_Machine.thy ===== *)
theory OS_Machine
  imports OS_Timer
begin

text \<open>
  The processor and the assembly code around the C++ code: tables/isr_wrapper.asm and
  scheduler/userspace.asm.

  \<^item> \<open>cpu\<close> is the part of the processor that a thread sees: general registers, segment selectors,
    program counter and flags. \<open>instr\<close> are the instructions that the two files use, \<open>exec1\<close> what each
    does to the processor and main memory. The code is straight-line: the program counter matters
    only where control leaves it.
  \<^item> \<open>deliver\<close> is what the processor does on an interrupt through a gate, with the stack switch when
    user mode is interrupted. \<open>irq_entry\<close> is a stub with the common part up to the call of
    \<open>irq_handler\<close>, \<open>irq_exit\<close> what follows the call; \<open>enter_usermode\<close> is the routine of that name.
  \<^item> \<open>isr_entry\<close> and \<open>isr_exit\<close> are the same for exceptions, whose handler does not return.
  \<^item> Faults of the instructions themselves (limits, rights, null selectors) are not modelled.
\<close>

unbundle bit_operations_syntax

section \<open>Processor\<close>

datatype reg32 = EAX | ECX | EDX | EBX | ESP | EBP | ESI | EDI

datatype sreg = CS | DS | ES | FS | GS | SS

record cpu =
  gpr :: "reg32 \<Rightarrow> u32"
  seg :: "sreg \<Rightarrow> u16"
  eip :: u32
  eflags :: u32

type_synonym cpu_mem = "cpu \<times> memory"

definition IF_flag :: u32 where "IF_flag = 0x200"

definition set_gpr :: "reg32 \<Rightarrow> u32 \<Rightarrow> cpu \<Rightarrow> cpu" where
  "set_gpr r v c = c\<lparr>gpr := (gpr c)(r := v)\<rparr>"

definition set_seg :: "sreg \<Rightarrow> u16 \<Rightarrow> cpu \<Rightarrow> cpu" where
  "set_seg r v c = c\<lparr>seg := (seg c)(r := v)\<rparr>"

definition push :: "u32 \<Rightarrow> cpu_mem \<Rightarrow> cpu_mem" where
  "push v = (\<lambda>(c, m). (set_gpr ESP (gpr c ESP - 4) c, m(gpr c ESP - 4 := v)))"

definition top :: "cpu_mem \<Rightarrow> u32" where
  "top = (\<lambda>(c, m). m (gpr c ESP))"

definition drop_top :: "u32 \<Rightarrow> cpu_mem \<Rightarrow> cpu_mem" where
  "drop_top n = (\<lambda>(c, m). (set_gpr ESP (gpr c ESP + n) c, m))"

definition on_cpu :: "(cpu \<Rightarrow> cpu) \<Rightarrow> cpu_mem \<Rightarrow> cpu_mem" where
  "on_cpu f = (\<lambda>(c, m). (f c, m))"

text \<open>\<open>LoadEBP r d\<close> is \<open>mov r, [ebp + d]\<close> and \<open>OrEBP r d\<close> is \<open>or r, [ebp + d]\<close>.\<close>

datatype instr =
  Cli | Sti | Pusha | Popa | Pushf | Iret
| PushI u32 | Push reg32 | Pop reg32
| Mov reg32 reg32 | MovI16 reg32 u16 | MovFromSeg reg32 sreg | MovToSeg sreg reg32
| AddI reg32 u32 | XorSelf reg32 | LoadEBP reg32 u32 | OrEBP reg32 u32

text \<open>The low half of a register is replaced, the high half stays.\<close>

definition low16 :: "u16 \<Rightarrow> u32 \<Rightarrow> u32" where
  "low16 v w = (w AND NOT (mask 16)) OR ucast v"

text \<open>Returning to ring 3 also restores stack pointer and stack segment.\<close>

definition iret :: "cpu_mem \<Rightarrow> cpu_mem" where
  "iret cm =
     (let ip = top cm; cm = drop_top 4 cm;
          sel = ucast (top cm) :: u16; cm = drop_top 4 cm;
          fl = top cm; cm = drop_top 4 cm;
          cm = on_cpu (\<lambda>c. set_seg CS sel (c\<lparr>eip := ip, eflags := fl\<rparr>)) cm
      in if sel AND 3 = 3
         then let sp = top cm; s = ucast (top (drop_top 4 cm))
              in on_cpu (\<lambda>c. set_seg SS s (set_gpr ESP sp c)) cm
         else cm)"

fun exec1 :: "instr \<Rightarrow> cpu_mem \<Rightarrow> cpu_mem" where
  "exec1 Cli cm = on_cpu (\<lambda>c. c\<lparr>eflags := eflags c AND NOT IF_flag\<rparr>) cm"
| "exec1 Sti cm = on_cpu (\<lambda>c. c\<lparr>eflags := eflags c OR IF_flag\<rparr>) cm"
| "exec1 Pusha cm =
     (let c = fst cm in push (gpr c EDI) (push (gpr c ESI) (push (gpr c EBP) (push (gpr c ESP)
       (push (gpr c EBX) (push (gpr c EDX) (push (gpr c ECX) (push (gpr c EAX) cm))))))))"
| "exec1 Popa cm =
     (let s = gpr (fst cm) ESP; m = snd cm in
      on_cpu (\<lambda>c. c\<lparr>gpr := (gpr c)(EDI := m s, ESI := m (s + 4), EBP := m (s + 8), EBX := m (s + 16),
        EDX := m (s + 20), ECX := m (s + 24), EAX := m (s + 28), ESP := s + 32)\<rparr>) cm)"
| "exec1 Pushf cm = push (eflags (fst cm)) cm"
| "exec1 Iret cm = iret cm"
| "exec1 (PushI v) cm = push v cm"
| "exec1 (Push r) cm = push (gpr (fst cm) r) cm"
| "exec1 (Pop r) cm = (let v = top cm in on_cpu (set_gpr r v) (drop_top 4 cm))"
| "exec1 (Mov r r') cm = on_cpu (\<lambda>c. set_gpr r (gpr c r') c) cm"
| "exec1 (MovI16 r v) cm = on_cpu (\<lambda>c. set_gpr r (low16 v (gpr c r)) c) cm"
| "exec1 (MovFromSeg r s) cm = on_cpu (\<lambda>c. set_gpr r (low16 (seg c s) (gpr c r)) c) cm"
| "exec1 (MovToSeg s r) cm = on_cpu (\<lambda>c. set_seg s (ucast (gpr c r)) c) cm"
| "exec1 (AddI r v) cm = on_cpu (\<lambda>c. set_gpr r (gpr c r + v) c) cm"
| "exec1 (XorSelf r) cm = on_cpu (set_gpr r 0) cm"
| "exec1 (LoadEBP r d) cm = (let v = snd cm (gpr (fst cm) EBP + d) in on_cpu (set_gpr r v) cm)"
| "exec1 (OrEBP r d) cm = (let v = snd cm (gpr (fst cm) EBP + d) in on_cpu (\<lambda>c. set_gpr r (gpr c r OR v) c) cm)"

definition exec :: "instr list \<Rightarrow> cpu_mem \<Rightarrow> cpu_mem" where
  "exec is cm = fold exec1 is cm"

text \<open>
  An interrupt through a 32-bit interrupt gate. From user mode the stack of ring 0 in the task-state
  segment is taken and the user's stack pointer saved on it.
\<close>

definition deliver :: "idt_entry \<Rightarrow> tss_entry \<Rightarrow> cpu_mem \<Rightarrow> cpu_mem" where
  "deliver g t cm =
     (let c = fst cm;
          cm = (if seg c CS AND 3 = 3
            then push (gpr c ESP) (push (ucast (seg c SS))
              (on_cpu (\<lambda>c. set_gpr ESP (tss_esp0 t) (set_seg SS (ucast (tss_ss0 t)) c)) cm))
            else cm);
          cm = push (eip c) (push (ucast (seg c CS)) (push (eflags c) cm))
      in on_cpu (\<lambda>c. set_seg CS (selector g) (c\<lparr>eip := gate_offset g, eflags := eflags c AND NOT IF_flag\<rparr>)) cm)"

text \<open>Some exceptions come with an error code, pushed after the return address.\<close>

definition deliver_exception :: "u32 option \<Rightarrow> idt_entry \<Rightarrow> tss_entry \<Rightarrow> cpu_mem \<Rightarrow> cpu_mem" where
  "deliver_exception e g t cm = (case e of None \<Rightarrow> deliver g t cm | Some e \<Rightarrow> push e (deliver g t cm))"

section \<open>The assembly code\<close>

definition irq_entry :: "u8 \<Rightarrow> instr list" where
  "irq_entry n =
     [Cli, PushI 0, PushI (scast n),
      Pusha,
      MovFromSeg EAX DS, Push EAX,
      MovI16 EAX 0x10, MovToSeg DS EAX, MovToSeg ES EAX, MovToSeg FS EAX, MovToSeg GS EAX,
      Push ESP]"

definition irq_exit :: "instr list" where
  "irq_exit =
     [Mov ESP EAX,
      Pop EBX, MovToSeg DS EBX, MovToSeg ES EBX, MovToSeg FS EBX, MovToSeg GS EBX,
      Popa, AddI ESP 8, Sti, Iret]"

text \<open>Exceptions: the stubs of both macros with the common part up to the call of \<open>int_handler\<close>, and what
  would follow it. The vectors for which the file uses the macro without the dummy error code.\<close>

definition isr_errcode :: "u8 \<Rightarrow> bool" where
  "isr_errcode n \<longleftrightarrow> n \<in> {8, 10, 11, 12, 13, 14}"

definition isr_entry :: "u8 \<Rightarrow> instr list" where
  "isr_entry n =
     [Cli] @ (if isr_errcode n then [PushI (scast n)] else [PushI 0, PushI (scast n)]) @
     [Pusha,
      MovFromSeg EAX DS, Push EAX,
      MovI16 EAX 0x10, MovToSeg DS EAX, MovToSeg ES EAX, MovToSeg FS EAX, MovToSeg GS EAX]"

definition isr_exit :: "instr list" where
  "isr_exit =
     [Pop EAX, MovToSeg DS EAX, MovToSeg ES EAX, MovToSeg FS EAX, MovToSeg GS EAX,
      Popa, AddI ESP 8, Sti, Iret]"

definition enter_usermode :: "instr list" where
  "enter_usermode =
     [Mov EBP ESP, Cli,
      MovI16 EAX 0x23, MovToSeg DS EAX, MovToSeg ES EAX, MovToSeg FS EAX, MovToSeg GS EAX,
      PushI 0x23,
      LoadEBP ECX 8, Push ECX,
      Pushf, Pop EAX, OrEBP EAX 12, Push EAX,
      PushI 0x1B,
      XorSelf EAX, LoadEBP EAX 4, Push EAX,
      Iret]"

section \<open>What the code does\<close>

lemmas cpu_simps = exec_def push_def top_def drop_top_def on_cpu_def set_gpr_def set_seg_def Let_def

lemma ucast_low16 [simp]: "ucast (low16 v w) = v"
  unfolding low16_def by (rule bit_eqI) (auto simp: bit_simps)

text \<open>The processor that \<open>irq_exit\<close> makes of the frame at \<open>f\<close>; \<open>s\<close> is the stack segment in ring 0.\<close>

definition restore :: "u16 \<Rightarrow> memory \<Rightarrow> u32 \<Rightarrow> cpu" where
  "restore s m f =
     (let sel = ucast (get_reg m f R_cs) :: u16; d = ucast (get_reg m f R_ds) :: u16; user = (sel AND 3 = 3) in
      \<lparr>gpr = (\<lambda>r. case r of EDI \<Rightarrow> get_reg m f R_edi | ESI \<Rightarrow> get_reg m f R_esi | EBP \<Rightarrow> get_reg m f R_ebp
          | EBX \<Rightarrow> get_reg m f R_ebx | EDX \<Rightarrow> get_reg m f R_edx | ECX \<Rightarrow> get_reg m f R_ecx | EAX \<Rightarrow> get_reg m f R_eax
          | ESP \<Rightarrow> (if user then get_reg m f R_useresp else f + 56)),
       seg = (\<lambda>r. case r of CS \<Rightarrow> sel | SS \<Rightarrow> (if user then ucast (get_reg m f R_ss) else s) | _ \<Rightarrow> d),
       eip = get_reg m f R_eip, eflags = get_reg m f R_eflags\<rparr>)"

lemma exec_irq_exit: "exec irq_exit (c, m) = (restore (seg c SS) m (gpr c EAX), m)"
  by (simp add: irq_exit_def restore_def cpu_simps iret_def get_reg_def fun_eq_iff add.commute split: reg32.split sreg.split)


lemma exec_isr_exit: "exec isr_exit (c, m) = (restore (seg c SS) m (gpr c ESP), m)"
  by (simp add: isr_exit_def restore_def cpu_simps iret_def get_reg_def fun_eq_iff add.commute split: reg32.split sreg.split)

text \<open>
  Whatever the processor pushed, \<open>int_handler\<close> finds the vector. The error code and what lies beyond
  are in place when the stub adds a dummy exactly for the exceptions that bring none, which is not so
  for vector 17: there the return address is read from the word of the error code.
\<close>

lemma exception_reported:
  assumes "n < 32"
  shows "\<exists>c1 m1. exec (isr_entry n) (deliver_exception e g t (c, m)) = (c1, m1) \<and>
    int_handler m1 (gpr c1 ESP) = Received_exception (ucast n) \<and>
    ((e \<noteq> None \<longleftrightarrow> isr_errcode n) \<longrightarrow> get_reg m1 (gpr c1 ESP) R_eip = eip c \<and> get_reg m1 (gpr c1 ESP) R_cs = ucast (seg c CS) \<and>
      get_reg m1 (gpr c1 ESP) R_eflags = eflags c \<and> get_reg m1 (gpr c1 ESP) R_err_code = (case e of None \<Rightarrow> 0 | Some e \<Rightarrow> e)) \<and>
    (\<not> isr_errcode n \<longrightarrow> (\<forall>v. e = Some v \<longrightarrow> get_reg m1 (gpr c1 ESP) R_eip = v))"
proof -
  have "take_bit 5 n = n" using assms by (simp add: take_bit_eq_mod word_unat_eq_iff unat_mod word_less_nat_alt)
  then have b: "bit n k \<Longrightarrow> k < 5" for k by (metis bit_take_bit_iff)
  have "scast n = (ucast n :: u32)"
    by (intro bit_eqI) (auto simp: bit_simps min_def split: if_splits dest: b)
  then show ?thesis
    by (auto simp: isr_entry_def deliver_exception_def deliver_def cpu_simps int_handler_def get_reg_def split: option.split)
qed

text \<open>Where the frame of an interrupt lies: it ends at the top of the ring 0 stack, or, without
  \<open>useresp\<close> and \<open>ss\<close>, at the stack pointer of the interrupted code.\<close>

definition user_mode :: "cpu \<Rightarrow> bool" where
  "user_mode c \<longleftrightarrow> seg c CS AND 3 = 3"

definition frame_at :: "tss_entry \<Rightarrow> cpu \<Rightarrow> u32" where
  "frame_at t c = (if user_mode c then tss_esp0 t - 64 else gpr c ESP - 56)"

definition frame_of :: "u8 \<Rightarrow> cpu \<Rightarrow> u32 \<Rightarrow> registers \<Rightarrow> u32" where
  "frame_of n c f r = (case r of
     R_ds \<Rightarrow> low16 (seg c DS) (gpr c EAX) | R_edi \<Rightarrow> gpr c EDI | R_esi \<Rightarrow> gpr c ESI | R_ebp \<Rightarrow> gpr c EBP
   | R_esp \<Rightarrow> f + 36 | R_ebx \<Rightarrow> gpr c EBX | R_edx \<Rightarrow> gpr c EDX | R_ecx \<Rightarrow> gpr c ECX | R_eax \<Rightarrow> gpr c EAX
   | R_int_no \<Rightarrow> scast n | R_err_code \<Rightarrow> 0 | R_eip \<Rightarrow> eip c | R_cs \<Rightarrow> ucast (seg c CS) | R_eflags \<Rightarrow> eflags c
   | R_useresp \<Rightarrow> gpr c ESP | R_ss \<Rightarrow> ucast (seg c SS))"

definition frame_memory :: "u8 \<Rightarrow> tss_entry \<Rightarrow> cpu \<Rightarrow> memory \<Rightarrow> memory" where
  "frame_memory n t c m =
     (let f = frame_at t c; w = (\<lambda>r. frame_of n c f r);
          m = (if user_mode c then m(f + 60 := w R_ss, f + 56 := w R_useresp) else m)
      in m(f + 52 := w R_eflags, f + 48 := w R_cs, f + 44 := w R_eip, f + 40 := w R_err_code,
           f + 36 := w R_int_no, f + 32 := w R_eax, f + 28 := w R_ecx, f + 24 := w R_edx, f + 20 := w R_ebx,
           f + 16 := w R_esp, f + 12 := w R_ebp, f + 8 := w R_esi, f + 4 := w R_edi, f := w R_ds, f - 4 := f))"

lemma exec_irq_entry:
  obtains c1 where "exec (irq_entry n) (deliver g t (c, m)) = (c1, frame_memory n t c m)"
    and "gpr c1 ESP = frame_at t c - 4" and "seg c1 SS = (if user_mode c then ucast (tss_ss0 t) else seg c SS)"
    and "seg c1 CS = selector g"
proof -
  let ?r = "exec (irq_entry n) (deliver g t (c, m))"
  have "snd ?r = frame_memory n t c m"
    by (simp add: irq_entry_def deliver_def cpu_simps frame_memory_def frame_at_def frame_of_def user_mode_def)
  moreover have "gpr (fst ?r) ESP = frame_at t c - 4" "seg (fst ?r) CS = selector g"
    "seg (fst ?r) SS = (if user_mode c then ucast (tss_ss0 t) else seg c SS)"
    by (simp_all add: irq_entry_def deliver_def cpu_simps frame_memory_def frame_at_def frame_of_def user_mode_def)
  ultimately show ?thesis using that by (cases ?r) simp
qed

text \<open>The stub builds a \<open>registers_t\<close>: every field is at its place.\<close>

definition frame_words :: "memory \<Rightarrow> u32 \<Rightarrow> u32 set" where
  "frame_words m f = {f + reg_offset r |r. r \<in> {R_useresp, R_ss} \<longrightarrow> ucast (get_reg m f R_cs) AND (3 :: u16) = 3}"

lemma ucast_sel [simp]: "(ucast (ucast (v :: u16) :: u32) :: u16) = v"
  by (rule bit_eqI) (auto simp: bit_simps)

lemma frame_memory_reg:
  assumes "r \<in> {R_useresp, R_ss} \<longrightarrow> user_mode c"
  shows "get_reg (frame_memory n t c m) (frame_at t c) r = frame_of n c (frame_at t c) r"
  using assms by (cases r) (simp_all add: frame_memory_def get_reg_def Let_def)

lemma frame_memory_cs [simp]:
  "(ucast (get_reg (frame_memory n t c m) (frame_at t c) R_cs) :: u16) = seg c CS"
  by (subst frame_memory_reg) (simp_all add: frame_of_def)

lemma frame_memory_outside:
  assumes "\<not> a - (frame_at t c - 4) < (if user_mode c then 68 else 60)"
  shows "frame_memory n t c m a = m a"
proof -
  have ne: "a \<noteq> frame_at t c - 4 + k" if "k < (if user_mode c then 68 else 60)" for k
    using assms that by auto
  have "a \<noteq> frame_at t c + k" if "k \<in> {0, 4, 8, 12, 16, 20, 24, 28, 32, 36, 40, 44, 48, 52}" for k
  proof -
    have "k + 4 < 60" using that by auto
    then have "k + 4 < (if user_mode c then 68 else 60)" by (auto intro: order.strict_trans)
    from ne [OF this] show ?thesis by simp
  qed
  moreover have "a \<noteq> frame_at t c + k" if "user_mode c" "k \<in> {56, 60}" for k
    using ne [of "k + 4"] that by auto
  moreover have "a \<noteq> frame_at t c - 4" "a \<noteq> frame_at t c" using ne [of 0] ne [of 4] by simp_all
  ultimately show ?thesis by (simp add: frame_memory_def Let_def)
qed

text \<open>Code runs with the same selector in all four data segments.\<close>

definition flat :: "cpu \<Rightarrow> bool" where
  "flat c \<longleftrightarrow> seg c ES = seg c DS \<and> seg c FS = seg c DS \<and> seg c GS = seg c DS"

lemma restore_cong:
  assumes "\<And>a. a \<in> frame_words m f \<Longrightarrow> m' a = m a"
  shows "restore s m' f = restore s m f"
proof -
  have w: "get_reg m' f r = get_reg m f r"
    if "r \<in> {R_useresp, R_ss} \<longrightarrow> ucast (get_reg m f R_cs) AND (3 :: u16) = 3" for r
    using assms that unfolding get_reg_def frame_words_def by blast
  then have "get_reg m' f R_cs = get_reg m f R_cs" by simp
  then show ?thesis unfolding restore_def Let_def
    by (intro cpu.equality ext) (auto simp: w split: reg32.split sreg.split)
qed

lemma restore_frame:
  assumes "flat c" and "user_mode c \<or> s = seg c SS"
  shows "restore s (frame_memory n t c m) (frame_at t c) = c"
proof -
  let ?g = "get_reg (frame_memory n t c m) (frame_at t c)"
  have g: "?g r = frame_of n c (frame_at t c) r" if "r \<in> {R_useresp, R_ss} \<longrightarrow> user_mode c" for r
    using that by (intro frame_memory_reg) auto
  have k: "\<not> user_mode c \<Longrightarrow> frame_at t c + 56 = gpr c ESP" by (simp add: frame_at_def)
  have u: "seg c CS AND 3 = 3 \<longleftrightarrow> user_mode c" by (simp add: user_mode_def)
  have f: "seg c ES = seg c DS" "seg c FS = seg c DS" "seg c GS = seg c DS" using assms(1) by (simp_all add: flat_def)
  show ?thesis
  proof (rule cpu.equality)
    show "gpr (restore s (frame_memory n t c m) (frame_at t c)) = gpr c"
    proof
      fix r
      show "gpr (restore s (frame_memory n t c m) (frame_at t c)) r = gpr c r"
        by (cases r) (simp_all add: restore_def Let_def u g k frame_of_def)
    qed
    show "seg (restore s (frame_memory n t c m) (frame_at t c)) = seg c"
    proof
      fix r
      show "seg (restore s (frame_memory n t c m) (frame_at t c)) r = seg c r"
        using assms(2) by (cases r) (auto simp: restore_def Let_def u g f frame_of_def)
    qed
  qed (simp_all add: restore_def Let_def g frame_of_def)
qed

text \<open>What \<open>irq_exit\<close> makes of the frame of a new thread.\<close>

definition fresh_cpu :: "u16 \<Rightarrow> u32 \<Rightarrow> u32 \<Rightarrow> bool \<Rightarrow> cpu" where
  "fresh_cpu ss stk entryPoint isKernel = \<lparr>gpr = (\<lambda>r. if r = ESP \<and> isKernel then stk + 4088 else 0),
     seg = (\<lambda>r. case r of CS \<Rightarrow> (if isKernel then 8 else 0x1B) | SS \<Rightarrow> (if isKernel then ss else 0x23)
       | _ \<Rightarrow> (if isKernel then 0x10 else 0x23)), eip = entryPoint, eflags = 0\<rparr>"

lemma first_context:
  assumes "4 dvd unat stk" and "unat stk + 4096 \<le> 2 ^ 32"
  shows "restore ss (first_frame stk entryPoint isKernel m) (stk + 4032) = fresh_cpu ss stk entryPoint isKernel"
proof -
  have zero: "memset stk 0 THREAD_STACK_SIZE m (stk + (4032 + k)) = 0" if "k \<le> 60" "4 dvd unat k" for k
  proof (rule memset_word)
    have k: "unat k \<le> 60" using that(1) by (simp add: word_le_nat_alt)
    have k2: "unat (4032 + k) = 4032 + unat k" using k by (intro trans [OF unat_plus_le]) simp_all
    then have u: "unat (stk + (4032 + k)) = unat stk + (4032 + unat k)"
      using assms(2) k by (intro trans [OF unat_plus_le]) simp_all
    show "4 dvd unat (stk + (4032 + k))" unfolding u using assms(1) that(2) by (simp add: dvd_add)
    show "unat stk \<le> unat (stk + (4032 + k))"
      "unat (stk + (4032 + k)) + 4 \<le> unat stk + unat THREAD_STACK_SIZE"
      unfolding u using k by (simp_all add: THREAD_STACK_SIZE_def)
  qed
  have z: "memset stk 0 THREAD_STACK_SIZE m (k + stk) = 0"
    if "k \<in> {4036, 4040, 4044, 4052, 4056, 4060, 4064, 4084, 4088}" for k
    using that zero [of "k - 4032"] by (auto simp: add.commute [of _ stk])
  have g: "get_reg (first_frame stk entryPoint b m) (stk + 4032) r = (case r of R_ss \<Rightarrow> if b then 0x10 else 0x23
      | R_ds \<Rightarrow> if b then 0x10 else 0x23 | R_cs \<Rightarrow> if b then 8 else 0x1B | R_eip \<Rightarrow> entryPoint | _ \<Rightarrow> 0)"
    if "r \<notin> {R_esp, R_int_no, R_err_code}" for r b
    using that by (cases r) (simp_all add: first_frame_def Let_def get_reg_def set_reg_def z add.commute [of stk] add.assoc
        SEG_KERNEL_CODE_def SEG_USER_CODE_def SEG_KERNEL_DATA_def SEG_USER_DATA_def)
  show "restore ss (first_frame stk entryPoint isKernel m) (stk + 4032) = fresh_cpu ss stk entryPoint isKernel"
    by (rule cpu.equality) (auto simp: restore_def Let_def g fresh_cpu_def fun_eq_iff split: reg32.split sreg.split)
qed

section \<open>Properties\<close>


definition demo_cpu :: "u16 \<Rightarrow> cpu" where
  "demo_cpu s = \<lparr>gpr = (\<lambda>_. 7)(ESP := 0xBFFFF000), seg = (\<lambda>_. s + 8)(CS := s), eip = 0x8048000, eflags = 0x202\<rparr>"

definition demo_tss :: tss_entry where
  "demo_tss = \<lparr>tss_prev_tss = 0, tss_esp0 = 0xD0001000, tss_ss0 = 0x10, tss_esp1 = 0, tss_ss1 = 0, tss_esp2 = 0,
     tss_ss2 = 0, tss_cr3 = 0, tss_eip = 0, tss_eflags = 0, tss_eax = 0, tss_ecx = 0, tss_edx = 0, tss_ebx = 0,
     tss_esp = 0, tss_ebp = 0, tss_esi = 0, tss_edi = 0, tss_es = 0, tss_cs = 0, tss_ss = 0, tss_ds = 0, tss_fs = 0,
     tss_gs = 0, tss_ldt = 0, tss_trap = 0, tss_iomap_base = 0\<rparr>"


text \<open>
  C19. Saving and restoring a context is lossless: from the frame that the stub built, whatever has run
  and been written since outside the frame, the code behind the call of \<open>irq_handler\<close> brings back
  every general register, every selector, the program counter, the flags and the stack pointer.
  Only the selectors of the extra segments are not saved: they come back as the data segment.
\<close>

theorem context_roundtrip:
  assumes "exec (irq_entry n) (deliver g t (c, m)) = (c1, m1)" and "f = m1 (gpr c1 ESP)"
    and "flat c" and "user_mode c \<or> seg c2 SS = seg c SS"
    and "gpr c2 EAX = f" and "\<And>a. a \<in> frame_words m1 f \<Longrightarrow> m2 a = m1 a"
  shows "exec irq_exit (c2, m2) = (c, m2)"
proof -
  have m1: "m1 = frame_memory n t c m" "gpr c1 ESP = frame_at t c - 4"
    using assms(1) by (metis exec_irq_entry prod.inject)+
  have f: "f = frame_at t c" using assms(2) unfolding m1 by (simp add: frame_memory_def Let_def)
  have "restore (seg c2 SS) m2 f = restore (seg c2 SS) m1 f" using assms(6) by (rule restore_cong)
  also have "\<dots> = c" unfolding m1(1) f using assms(3,4) by (intro restore_frame) auto
  finally show ?thesis by (simp add: exec_irq_exit assms(5))
qed

theorem context_roundtrip_witness:
  "\<forall>g. \<exists>c1 m1. exec (irq_entry 32) (deliver g demo_tss (demo_cpu 0x1B, \<lambda>_. 0)) = (c1, m1) \<and>
    exec irq_exit (set_gpr EAX (m1 (gpr c1 ESP)) c1, m1(0xD0000F00 := 5)) = (demo_cpu 0x1B, m1(0xD0000F00 := 5))"
proof
  fix g
  obtain c1 where c1: "exec (irq_entry 32) (deliver g demo_tss (demo_cpu 0x1B, \<lambda>_. 0)) =
      (c1, frame_memory 32 demo_tss (demo_cpu 0x1B) (\<lambda>_. 0))" "gpr c1 ESP = frame_at demo_tss (demo_cpu 0x1B) - 4"
    by (rule exec_irq_entry)
  let ?m = "frame_memory 32 demo_tss (demo_cpu 0x1B) (\<lambda>_. 0)"
  have f: "?m (gpr c1 ESP) = 0xD0000FC0" unfolding c1(2)
    by (simp add: frame_memory_def frame_at_def Let_def user_mode_def demo_cpu_def demo_tss_def)
  have "a \<noteq> 0xD0000F00" if a: "a \<in> frame_words ?m 0xD0000FC0" for a
  proof -
    obtain r where "a = 0xD0000FC0 + reg_offset r" using a unfolding frame_words_def by blast
    then show ?thesis by (cases r) simp_all
  qed
  then have "exec irq_exit (set_gpr EAX 0xD0000FC0 c1, ?m(0xD0000F00 := 5)) = (demo_cpu 0x1B, ?m(0xD0000F00 := 5))"
    by (intro context_roundtrip [OF c1(1) f [symmetric]])
      (auto simp: flat_def user_mode_def demo_cpu_def set_gpr_def)
  with c1(1) f show "\<exists>c1 m1. exec (irq_entry 32) (deliver g demo_tss (demo_cpu 0x1B, \<lambda>_. 0)) = (c1, m1) \<and>
      exec irq_exit (set_gpr EAX (m1 (gpr c1 ESP)) c1, m1(0xD0000F00 := 5)) = (demo_cpu 0x1B, m1(0xD0000F00 := 5))"
    by auto
qed

text \<open>
  C22. How a thread begins. Resumed for the first time from the frame that \<open>CreateFromFunction\<close> made,
  a thread starts at its entry point, in its ring, with all general registers 0, on the last words of
  its stack if it is a kernel thread, but with the stack pointer 0 if it is a user thread: the code
  sets \<open>esp\<close>, which \<open>popa\<close> skips, and not \<open>useresp\<close>. The interrupt flag is clear, so until the thread
  sets it no timer interrupt takes the processor away.
\<close>

theorem new_thread_starts:
  assumes "4 dvd unat stk" and "unat stk + 4096 \<le> 2 ^ 32"
    and "CreateFromFunction result stk entryPoint isKernel par s = Some (result, s')"
    and "gpr c EAX = regsPtr (the (threads s' result))"
  shows "\<exists>c'. exec irq_exit (c, mem s') = (c', mem s') \<and> eip c' = entryPoint \<and> (user_mode c' \<longleftrightarrow> \<not> isKernel) \<and>
    seg c' CS = (if isKernel then 0x08 else 0x1B) \<and> (\<forall>r\<in>{DS, ES, FS, GS}. seg c' r = (if isKernel then 0x10 else 0x23)) \<and>
    seg c' SS = (if isKernel then seg c SS else 0x23) \<and>
    (\<forall>r. r \<noteq> ESP \<longrightarrow> gpr c' r = 0) \<and> gpr c' ESP = (if isKernel then stk + 4088 else 0) \<and> eflags c' AND IF_flag = 0"
proof -
  obtain ustk where s': "s' = s\<lparr>threads := (threads s)(result \<mapsto> \<lparr>parent = par, stack = stk, userStack = ustk,
      userStackSize = USER_STACK_SIZE, state = Ready, blockedState = Unknown, regsPtr = stk + 4032, timeDelta = 0\<rparr>),
      mem := first_frame stk entryPoint isKernel (mem s)\<rparr>"
    by (rule CreateFromFunction_result [OF assms(3)])
  have "exec irq_exit (c, mem s') = (fresh_cpu (seg c SS) stk entryPoint isKernel, mem s')"
    using assms(4) by (simp add: exec_irq_exit s' first_context [OF assms(1,2)])
  then show ?thesis by (simp add: fresh_cpu_def user_mode_def)
qed

theorem new_thread_starts_witness:
  "\<exists>s' c'. CreateFromFunction 0xC0400014 0xC0400048 0xC0101000 False 0 demo_kstate = Some (0xC0400014, s') \<and>
    exec irq_exit (set_gpr EAX 0xC0401008 (demo_cpu 8), mem s') = (c', mem s') \<and>
    eip c' = 0xC0101000 \<and> gpr c' ESP = 0 \<and> eflags c' AND IF_flag = 0"
proof -
  obtain s' th where s': "CreateFromFunction 0xC0400014 0xC0400048 0xC0101000 False 0 demo_kstate = Some (0xC0400014, s')"
    "threads s' = (threads demo_kstate)(0xC0400014 \<mapsto> th)" "regsPtr th = 0xC0401008"
    using CreateFromFunction_initial_frame [of "0xC0400048" "0xC0400014" "0xC0101000" False demo_kstate] by auto
  from new_thread_starts [OF _ _ s'(1), of "set_gpr EAX 0xC0401008 (demo_cpu 8)"] s'
  show ?thesis by (auto simp: set_gpr_def)
qed

text \<open>
  \<open>enter_usermode(location, stackAddress, flags)\<close> leaves for ring 3: at \<open>location\<close>, on
  \<open>stackAddress\<close>, with the user's code and data selectors everywhere. Because it masks interrupts
  before it reads the flags, interrupts are on in user mode exactly if \<open>flags\<close> asks for it.
\<close>

lemma enter_usermode_enters:
  assumes "m (gpr c ESP + 4) = location" and "m (gpr c ESP + 8) = stackAddress" and "m (gpr c ESP + 12) = flags"
  shows "\<exists>c' m'. exec enter_usermode (c, m) = (c', m') \<and> user_mode c' \<and> eip c' = location \<and>
    gpr c' ESP = stackAddress \<and> seg c' CS = 0x1B \<and> (\<forall>r. r \<noteq> CS \<longrightarrow> seg c' r = 0x23) \<and>
    eflags c' = (eflags c AND NOT IF_flag) OR flags \<and> (eflags c' AND IF_flag = 0 \<longleftrightarrow> flags AND IF_flag = 0) \<and>
    (\<forall>a. \<not> a - (gpr c ESP - 20) < 20 \<longrightarrow> m' a = m a)"
proof -
  let ?r = "exec enter_usermode (c, m)" and ?s = "gpr c ESP" and ?fl = "(eflags c AND NOT IF_flag) OR flags"
  have "snd ?r = m(?s - 4 := 0x23, ?s - 8 := stackAddress, ?s - 12 := ?fl, ?s - 16 := 0x1B, ?s - 20 := location)"
    using assms by (simp add: enter_usermode_def cpu_simps iret_def fun_upd_twist)
  moreover have "eip (fst ?r) = location" "gpr (fst ?r) ESP = stackAddress" "eflags (fst ?r) = ?fl"
    using assms by (simp_all add: enter_usermode_def cpu_simps iret_def)
  moreover have "seg (fst ?r) r = (if r = CS then 0x1B else 0x23)" for r
    using assms by (cases r) (simp_all add: enter_usermode_def cpu_simps iret_def)
  moreover have "?fl AND IF_flag = flags AND IF_flag" by (rule bit_eqI) (auto simp: bit_simps)
  moreover have "a \<noteq> ?s - k" if "\<not> a - (?s - 20) < 20" "k \<in> {4, 8, 12, 16, 20}" for a k
    using that by auto
  moreover obtain c' m' where "?r = (c', m')" by fastforce
  ultimately show ?thesis by (auto simp: user_mode_def)
qed

theorem enter_usermode_enters_witness:
  "\<exists>c' m'. exec enter_usermode (demo_cpu 8, (\<lambda>_. 0)(0xBFFFF004 := 0x8048000, 0xBFFFF008 := 0xBFFF8000)) = (c', m') \<and>
    user_mode c' \<and> eip c' = 0x8048000 \<and> gpr c' ESP = 0xBFFF8000 \<and> eflags c' AND IF_flag = 0"
  using enter_usermode_enters [of "(\<lambda>_. 0)(0xBFFFF004 := 0x8048000, 0xBFFFF008 := 0xBFFF8000)" "demo_cpu 8"
    "0x8048000" "0xBFFF8000" 0] by (auto simp: demo_cpu_def)

text \<open>
  C23. A system call never reaches its handler: whatever the registers, whatever handlers are installed,
  the stub of vector 128 builds a frame on which \<open>irq_handler\<close> reads its table out of range.
\<close>

theorem system_call_lost:
  assumes "exec (irq_entry 128) (deliver g t (c, m)) = (c1, m1)"
  shows "irq_handler m1 (m1 (gpr c1 ESP)) st = None"
proof -
  have m1: "m1 = frame_memory 128 t c m" "gpr c1 ESP = frame_at t c - 4"
    using assms by (metis exec_irq_entry prod.inject)+
  have f: "m1 (gpr c1 ESP) = frame_at t c" unfolding m1 by (simp add: frame_memory_def Let_def)
  have "scast (128 :: u8) = (0xFFFFFF80 :: u32)" by simp
  then have "m1 (frame_at t c + reg_offset R_int_no) = 0xFFFFFF80"
    using frame_memory_reg [of R_int_no c 128 t m] by (simp add: m1(1) get_reg_def frame_of_def)
  then show ?thesis by (simp add: irq_handler_def Let_def f)
qed

theorem system_call_lost_witness:
  "\<forall>g st. \<exists>c1 m1. exec (irq_entry 128) (deliver g demo_tss (demo_cpu 0x1B, \<lambda>_. 0)) = (c1, m1) \<and>
    irq_handler m1 (m1 (gpr c1 ESP)) st = None"
  using system_call_lost surj_pair by metis

end
