(* ===== verification/OS_Preempt.thy ===== *)
theory OS_Preempt
  imports OS_Machine
begin

text \<open>
  The whole path of a timer interrupt: processor, stub, \<open>irq_handler\<close>, timer driver, scheduler and the
  way back (isr_wrapper.asm, idt.cpp, pit.cpp, scheduler.cpp together).

  \<^item> \<open>machine\<close> is the processor with the state of the kernel; main memory and the log of port writes
    are those of the scheduler's state.
  \<^item> \<open>timer_interrupt\<close> composes the modelled pieces in the order in which control passes through them.
    The stack that compiled code uses below the argument of \<open>irq_handler\<close> is not modelled.
  \<^item> The abstract machine has a context for every thread (\<open>context_of\<close>) and a current thread; a timer
    interrupt changes no context.
\<close>

unbundle bit_operations_syntax

section \<open>The machine\<close>

record machine =
  mcpu :: cpu
  midt :: idt_state
  mpit :: pit_state

abbreviation msched :: "machine \<Rightarrow> sched" where "msched M \<equiv> sched_obj (mpit M)"

definition set_mem :: "cpu_mem \<Rightarrow> machine \<Rightarrow> machine" where
  "set_mem cm M = M\<lparr>mcpu := fst cm, mpit := (mpit M)\<lparr>sched_obj := (msched M)\<lparr>mem := snd cm\<rparr>\<rparr>\<rparr>"

text \<open>The call of \<open>enter_usermode\<close>: three arguments and room for the return address.\<close>

definition call_enter_usermode :: "u32 \<Rightarrow> u32 \<Rightarrow> u32 \<Rightarrow> cpu_mem \<Rightarrow> cpu_mem" where
  "call_enter_usermode location stackAddress flags cm =
     exec enter_usermode (drop_top (- 4) (push location (push stackAddress (push flags cm))))"

definition leave_irq :: "sched_exit \<Rightarrow> cpu_mem \<Rightarrow> cpu_mem option" where
  "leave_irq ex cm = (case ex of
     Resume f \<Rightarrow> Some (exec irq_exit (on_cpu (set_gpr EAX f) cm))
   | EnterUser location stackAddress flags \<Rightarrow> Some (call_enter_usermode location stackAddress flags cm)
   | _ \<Rightarrow> None)"

text \<open>\<open>pe\<close> is the address of \<open>pit_handler\<close>; another handler at vector 32 is not modelled.\<close>

definition timer_interrupt :: "u32 \<Rightarrow> machine \<Rightarrow> (int_halt + machine) option" where
  "timer_interrupt pe M = do {
     let cm = exec (irq_entry 32) (deliver (idt (midt M) 32) (tss (gdts (msched M))) (mcpu M, mem (msched M)));
     let M = set_mem cm M;
     let f = snd cm (gpr (fst cm) ESP);
     (r, i) \<leftarrow> irq_handler (mem (msched M)) f ((midt M)\<lparr>ports := sports (msched M)\<rparr>);
     case r of
       Inl e \<Rightarrow> Some (Inl e)
     | Inr h \<Rightarrow>
         if h = pe then do {
           (ex, p) \<leftarrow> pit_handler f ((mpit M)\<lparr>sched_obj := (msched M)\<lparr>sports := ports i\<rparr>\<rparr>);
           let M = M\<lparr>mpit := p\<rparr>;
           cm \<leftarrow> leave_irq ex (mcpu M, mem (msched M));
           Some (Inr (set_mem cm M))
         }
         else None
   }"

section \<open>The invariant\<close>

definition thread_of :: "machine \<Rightarrow> u32 \<Rightarrow> Thread" where
  "thread_of M t = the (threads (msched M) t)"

definition stack_of :: "machine \<Rightarrow> u32 \<Rightarrow> nat" where
  "stack_of M t = unat (stack (thread_of M t))"

text \<open>Every thread has a stack in the heap, no two overlap.\<close>

definition stacks_ok :: "machine \<Rightarrow> u32 list \<Rightarrow> bool" where
  "stacks_ok M ths \<longleftrightarrow>
     (\<forall>t\<in>set ths. unat KERNEL_HEAP_START \<le> stack_of M t \<and> stack_of M t + 4096 < 2 ^ 32) \<and>
     (\<forall>t\<in>set ths. \<forall>u\<in>set ths. t \<noteq> u \<longrightarrow> stack_of M t + 4096 \<le> stack_of M u \<or> stack_of M u + 4096 \<le> stack_of M t)"

text \<open>A frame inside a stack; the word before it is the argument of \<open>irq_handler\<close>.\<close>

definition frame_fits :: "nat \<Rightarrow> bool \<Rightarrow> u32 \<Rightarrow> bool" where
  "frame_fits k user f \<longleftrightarrow> k + 4 \<le> unat f \<and> unat f + (if user then 64 else 56) \<le> k + 4096"

definition user_frame :: "memory \<Rightarrow> u32 \<Rightarrow> bool" where
  "user_frame m f \<longleftrightarrow> ucast (get_reg m f R_cs) AND (3 :: u16) = 3"

definition running_ok :: "machine \<Rightarrow> nat \<Rightarrow> bool" where
  "running_ok M k \<longleftrightarrow> flat (mcpu M) \<and>
     (let t = tss (gdts (msched M)) in ucast (tss_ss0 t) = (0x10 :: u16) \<and> unat (tss_esp0 t) = k + 4096) \<and>
     (\<not> user_mode (mcpu M) \<longrightarrow> seg (mcpu M) SS = 0x10 \<and> k + 60 \<le> unat (gpr (mcpu M) ESP) \<and> unat (gpr (mcpu M) ESP) \<le> k + 4096)"

definition device_ok :: "u32 \<Rightarrow> machine \<Rightarrow> bool" where
  "device_ok pe M \<longleftrightarrow> console_sized (pcon (mpit M)) \<and> 0 \<le> pit_index (mpit M) \<and> pit_index (mpit M) < 4 \<and>
     scheduler (mpit M) \<noteq> 0 \<and> pe \<noteq> 0 \<and> handlers (midt M) 32 = pe"

definition machine_ok :: "u32 \<Rightarrow> machine \<Rightarrow> u32 list \<Rightarrow> bool" where
  "machine_ok pe M ths \<longleftrightarrow> device_ok pe M \<and> sched_ok (msched M) ths \<and> currentThread (msched M) \<noteq> 0 \<and>
     (\<forall>t\<in>set ths. tstate (msched M) t \<noteq> Started \<and> enterable (msched M) t) \<and> stacks_ok M ths \<and>
     (\<forall>t\<in>set ths. t \<noteq> currentThread (msched M) \<longrightarrow>
        frame_fits (stack_of M t) (user_frame (mem (msched M)) (regsPtr (thread_of M t))) (regsPtr (thread_of M t))) \<and>
     running_ok M (stack_of M (currentThread (msched M)))"

text \<open>The context of a thread: the processor for the current one, what resuming it makes of its saved
  registers for the others.\<close>

definition context_of :: "machine \<Rightarrow> u32 \<Rightarrow> cpu" where
  "context_of M t = (if t = currentThread (msched M) then mcpu M
     else restore 0x10 (mem (msched M)) (regsPtr (thread_of M t)))"

section \<open>Frames in stacks\<close>

lemma user_frame_memory [simp]: "user_frame (frame_memory n t c m) (frame_at t c) = user_mode c"
  by (simp add: user_frame_def user_mode_def)

lemma frame_words_fit:
  assumes "frame_fits k (user_frame m f) f" and "k + 4096 < 2 ^ 32" and "a \<in> frame_words m f"
  shows "k \<le> unat a" and "unat a < k + 4096"
proof -
  obtain r where r: "a = f + reg_offset r" "r \<in> {R_useresp, R_ss} \<longrightarrow> user_frame m f"
    using assms(3) unfolding frame_words_def user_frame_def by blast
  have "unat (reg_offset r) \<le> (if user_frame m f then 60 else 52)" using r(2) by (cases r) auto
  then have o: "unat f + unat (reg_offset r) < k + 4096" using assms(1) by (auto simp: frame_fits_def split: if_splits)
  then have "unat a = unat f + unat (reg_offset r)" unfolding r(1) using assms(2) by (intro unat_plus_le) simp
  then show "k \<le> unat a" "unat a < k + 4096" using o assms(1) by (auto simp: frame_fits_def)
qed

text \<open>The stub writes only inside the stack it runs on.\<close>

lemma frame_memory_elsewhere:
  assumes "frame_fits k (user_mode c) (frame_at t c)" and "k + 4096 < 2 ^ 32"
    and "\<not> (k \<le> unat a \<and> unat a < unat (frame_at t c) + (if user_mode c then 64 else 56))"
  shows "frame_memory n t c m a = m a"
proof (rule frame_memory_outside, rule notI)
  let ?f = "frame_at t c" and ?n = "if user_mode c then 68 else 60 :: nat"
  assume "a - (?f - 4) < (if user_mode c then 68 else 60)"
  then have d: "unat (a - (?f - 4)) < ?n" by (simp add: word_less_nat_alt split: if_splits)
  have "4 \<le> ?f" using assms(1) by (simp add: frame_fits_def word_le_nat_alt)
  then have f: "unat (?f - 4) = unat ?f - 4" by (simp add: unat_minus_le)
  have "unat ?f - 4 + ?n = unat ?f + (if user_mode c then 64 else 56)" "k \<le> unat ?f - 4"
    "unat ?f + (if user_mode c then 64 else 56) \<le> k + 4096" using assms(1) by (auto simp: frame_fits_def)
  then have r: "unat (?f - 4) + unat (a - (?f - 4)) < unat ?f + (if user_mode c then 64 else 56)" "k \<le> unat (?f - 4)"
    "unat ?f + (if user_mode c then 64 else 56) \<le> k + 4096" using d f by linarith+
  have "unat (?f - 4 + (a - (?f - 4))) = unat (?f - 4) + unat (a - (?f - 4))"
    using r(1,3) assms(2) by (intro unat_plus_le) simp
  then have "unat a = unat (?f - 4) + unat (a - (?f - 4))" by simp
  then show False using r assms(3) by linarith
qed

lemma restore_elsewhere:
  assumes "frame_fits k (user_mode c) (frame_at t c)" and "k + 4096 < 2 ^ 32"
    and "frame_fits k' (user_frame m f) f" and "k' + 4096 < 2 ^ 32"
    and "k + 4096 \<le> k' \<or> k' + 4096 \<le> k"
  shows "restore s (frame_memory n t c m) f = restore s m f"
    and "user_frame (frame_memory n t c m) f = user_frame m f"
proof -
  have w: "frame_memory n t c m a = m a" if "a \<in> frame_words m f" for a
    using frame_words_fit [OF assms(3,4) that] assms(1,5) 
    by (intro frame_memory_elsewhere [OF assms(1,2)]) (auto simp: frame_fits_def)
  then show "restore s (frame_memory n t c m) f = restore s m f" by (rule restore_cong)
  have "f + reg_offset R_cs \<in> frame_words m f" unfolding frame_words_def by blast
  then show "user_frame (frame_memory n t c m) f = user_frame m f" using w by (simp add: user_frame_def get_reg_def)
qed

lemma interrupted_frame_fits:
  assumes "running_ok M k" and "k + 4096 < 2 ^ 32"
  shows "frame_fits k (user_mode (mcpu M)) (frame_at (tss (gdts (msched M))) (mcpu M))"
proof (cases "user_mode (mcpu M)")
  case True
  have "unat (tss_esp0 (tss (gdts (msched M))) - 64) = k + 4096 - 64"
    using assms True by (subst unat_minus_le) (auto simp: running_ok_def Let_def word_le_nat_alt)
  then show ?thesis using True by (simp add: frame_fits_def frame_at_def)
next
  case False
  then have e: "k + 60 \<le> unat (gpr (mcpu M) ESP)" "unat (gpr (mcpu M) ESP) \<le> k + 4096"
    using assms(1) by (auto simp: running_ok_def)
  then have "unat (gpr (mcpu M) ESP - 56) = unat (gpr (mcpu M) ESP) - 56"
    by (subst unat_minus_le) (auto simp: word_le_nat_alt)
  then show ?thesis using False e by (simp add: frame_fits_def frame_at_def)
qed

section \<open>What the scheduler does to the threads\<close>

lemma ticked_threads:
  "threads (ticked ths s) u = (if switchForced s \<or> u \<notin> set ths then threads s u else map_option tick (threads s u))"
  by (simp add: ticked_def tick_all_def)

lemma tick_fields [simp]: "regsPtr (tick th) = regsPtr th" "stack (tick th) = stack th" "parent (tick th) = parent th"
  "state (tick th) = Started \<longleftrightarrow> state th = Started"
  by (auto simp: tick_def)

lemma ticked_mem [simp]: "mem (ticked ths s) = mem s"
  by (simp add: ticked_def tick_all_def)

text \<open>A thread keeps its stack and its process; \<open>regsPtr\<close> changes only for the thread left.\<close>

definition thread_kept :: "u32 option \<Rightarrow> u32 \<Rightarrow> Thread \<Rightarrow> Thread \<Rightarrow> bool" where
  "thread_kept f u th th' \<longleftrightarrow> stack th' = stack th \<and> parent th' = parent th \<and> (state th' = Started \<longrightarrow> state th = Started) \<and>
     regsPtr th' = (case f of None \<Rightarrow> regsPtr th | Some p \<Rightarrow> p)"

lemma ticked_kept:
  assumes "threads s u = Some th"
  shows "\<exists>th'. threads (ticked ths s) u = Some th' \<and> thread_kept None u th th'"
  using assms by (auto simp: ticked_threads thread_kept_def)

lemma enter_next_mem: "enter_next t s = Some (ex, s') \<Longrightarrow> mem s' = mem s"
  by (auto simp: enter_next_def InitialThreadUserJump_def store_thread_def Let_def elim!: bind_eq_SomeE split: if_splits)

lemma HandleInterrupt_outcome:
  assumes ok: "sched_ok s ths" and cur: "currentThread s \<noteq> 0"
    and th: "\<forall>t\<in>set ths. tstate s t \<noteq> Started \<and> enterable s t"
    and f: "KERNEL_HEAP_START \<le> f" and h: "HandleInterrupt f s = Some (ex, s')"
  obtains ths' sw where "sched_ok s' ths'" and "set ths' \<subseteq> set ths"
    and "\<forall>u\<in>set ths - set ths'. tstate s u = Stopped" and "mem s' = mem s" and "procs s' = procs s"
    and "currentThread s' \<in> set ths'"
    and "\<forall>u\<in>set ths'. thread_kept (if sw \<and> u = currentThread s then Some f else None) u (the (threads s u)) (the (threads s' u))"
    and "\<not> sw \<Longrightarrow> currentThread s' = currentThread s \<and> ex = Resume f \<and> gdts s' = gdts s"
    and "sw \<Longrightarrow> ex = Resume (regsPtr (the (threads s' (currentThread s')))) \<and> tss_ss0 (tss (gdts s')) = 0x10 \<and>
      tss_esp0 (tss (gdts s')) = stack (the (threads s' (currentThread s'))) + 4096"
    and "sw \<longleftrightarrow> tickCount s = 29 \<and> enabled s"
    and "sw \<Longrightarrow> find (runnable (ticked ths s)) (rotate (start_index s ths) ths) = Some (currentThread s')"
proof -
  have tok: "threads_ok s ths" and cin: "currentThread s \<in> set ths" using ok cur by (auto simp: sched_ok_def)
  let ?t = "ticked ths s"
  have n29: "tickCount s + 1 = 30 \<longleftrightarrow> tickCount s = 29" by (simp add: eq_diff_eq [symmetric])
  have ne: "ths \<noteq> []" using cin by auto
  have live: "\<exists>th. threads s u = Some th" if "u \<in> set ths" for u using threads_okD(5) [OF tok that] by blast
  have kept: "thread_kept None u (the (threads s u)) (the (threads ?t u))" if uu: "u \<in> set ths" for u
  proof -
    obtain x where x: "threads s u = Some x" using live [OF uu] by blast
    then show ?thesis using ticked_kept [OF x, of ths] by auto
  qed
  have tick_st: "tstate ?t u \<noteq> Started" "enterable ?t u" if uu: "u \<in> set ths" for u
  proof -
    obtain x where x: "threads s u = Some x" using live [OF uu] by blast
    obtain y where y: "threads ?t u = Some y" "thread_kept None u x y" using ticked_kept [OF x, of ths] by blast
    show "tstate ?t u \<noteq> Started" "enterable ?t u"
      using th uu x y by (auto simp: tstate_def thread_kept_def enterable_def Let_def)
  qed
  show ?thesis
  proof (cases "tickCount s + 1 = 30 \<and> ths \<noteq> [] \<and> enabled s")
    case False
    have "ex = Resume f" "s' = ?t \<or> s' = ?t\<lparr>tickCount := 0\<rparr>"
      using h False unfolding HandleInterrupt_cases [OF tok] by (auto split: if_splits)
    moreover have "sched_ok ?t ths" using ticked_ok [OF tok] ok by (simp add: sched_ok_def)
    ultimately show ?thesis using kept cin False ne n29 by (intro that [of ths False]) (auto simp: sched_ok_def threads_ok_def)
  next
    case True
    let ?s = "?t\<lparr>tickCount := 0\<rparr>"
    have oks: "sched_ok ?s ths" using ticked_ok [OF tok] ok by (simp add: sched_ok_def threads_ok_def)
    have sw: "switch_from f ?s = Some (ex, s')" using h True unfolding HandleInterrupt_cases [OF tok] by simp
    have same: "tstate ?s = tstate ?t" "enterable ?s = enterable ?t" by (simp_all add: tstate_def enterable_def fun_eq_iff)
    obtain r where r: "r \<in> set ths" "runnable ?s r"
      using switch_from_none [of ?s ths f] sw oks by (auto simp: sched_ok_def)
    have e: "currentThread ?s \<noteq> 0 \<or> f < KERNEL_HEAP_START" using cur by simp
    obtain ths' where s': "sched_ok s' ths'" "switched f ?s ths ex s' ths'"
      using switch_from_switched [OF oks r, of f] sw cur tick_st(2) same(2) by fastforce
    obtain R ns q t where l: "switch_from f ?s = enter_next t (?s\<lparr>nodes := ns, threadsList := q, threads := left_thread f ?s |` (- R)\<rparr>)"
      by (rule switch_from_leaves [OF oks r e]) (rule that)
    have "mem s' = mem s" using sw enter_next_mem unfolding l by fastforce
    moreover have sub: "set ths' \<subseteq> set ths" using filter_is_subset [of "\<lambda>u. u \<in> set ths'" ths] unfolding switchedD(4) [OF s'(2)] .
    moreover have ns: "\<not> user_start ?s u" if "u \<in> set ths" for u
      using tick_st(1) [OF that] same by (simp add: user_start_def)
    moreover have "\<forall>u\<in>set ths'. thread_kept (if True \<and> u = currentThread s then Some f else None) u (the (threads s u)) (the (threads s' u))"
    proof
      fix u assume u: "u \<in> set ths'"
      then have uin: "u \<in> set ths" using sub by blast
      obtain thu where thu: "threads ?t u = Some thu" using ticked_kept live [OF uin] by blast
      have "threads s' u = Some (saved f ?s u thu)"
        using switchedD(6) [OF s'(2)] u ns thu switchedD(1) [OF s'(2)] sub by (auto simp: subset_iff)
      then show "thread_kept (if True \<and> u = currentThread s then Some f else None) u (the (threads s u)) (the (threads s' u))"
        using kept [OF uin] thu f by (auto simp: thread_kept_def saved_def)
    qed
    moreover have "\<forall>u\<in>set ths - set ths'. tstate s u = Stopped"
    proof
      fix u assume u: "u \<in> set ths - set ths'"
      then have "tstate ?t u = Stopped" using switchedD(5) [OF s'(2)] same(1) by simp
      moreover obtain x where x: "threads s u = Some x" using live u by blast
      ultimately show "tstate s u = Stopped"
        by (auto simp: tstate_def ticked_threads tick_def split: if_splits)
    qed
    ultimately show ?thesis
    proof (intro that [of ths' True])
      have c: "currentThread s' \<in> set ths" using switchedD(1) [OF s'(2)] sub by blast
      show "ex = Resume (regsPtr (the (threads s' (currentThread s')))) \<and> tss_ss0 (tss (gdts s')) = 0x10 \<and>
        tss_esp0 (tss (gdts s')) = stack (the (threads s' (currentThread s'))) + 4096"
        using s'(2) ns [OF c] by (simp add: switched_def Let_def)
      have "runnable ?s = runnable ?t" "start_index ?s ths = start_index s ths"
        by (simp_all add: runnable_def tstate_def start_index_def fun_eq_iff)
      then show "find (runnable ?t) (rotate (start_index s ths) ths) = Some (currentThread s')"
        using switchedD(3) [OF s'(2)] by (simp add: search_order_def)
    qed (use s'(1) switchedD(1,7) [OF s'(2)] True n29 in simp_all)
  qed
qed

section \<open>The path of a timer interrupt\<close>

lemma restore_simps:
  "user_mode (restore s m f) \<longleftrightarrow> user_frame m f" "flat (restore s m f)"
  "\<not> user_frame m f \<Longrightarrow> seg (restore s m f) SS = s \<and> gpr (restore s m f) ESP = f + 56"
  by (simp_all add: user_mode_def user_frame_def flat_def restore_def Let_def)

lemma timer_interrupt_path:
  assumes dev: "device_ok pe M" and tss: "user_mode (mcpu M) \<longrightarrow> ucast (tss_ss0 (tss (gdts (msched M)))) = (0x10 :: u16)"
    and ss: "user_mode (mcpu M) \<or> seg (mcpu M) SS = 0x10"
  defines "f \<equiv> frame_at (tss (gdts (msched M))) (mcpu M)"
    and "m1 \<equiv> frame_memory 32 (tss (gdts (msched M))) (mcpu M) (mem (msched M))"
  obtains c1 p log where "seg c1 SS = 0x10" and "sched_obj p = (msched M)\<lparr>mem := m1, sports := log\<rparr>"
    and "\<And>s. device_ok pe (M\<lparr>mpit := p\<lparr>sched_obj := s\<rparr>\<rparr>)"
    and "timer_interrupt pe M = do {
      (ex, s) \<leftarrow> HandleInterrupt f (sched_obj p);
      cm \<leftarrow> leave_irq ex (c1, mem s);
      Some (Inr (set_mem cm (M\<lparr>mpit := p\<lparr>sched_obj := s\<rparr>\<rparr>)))
    }"
proof -
  let ?s = "msched M"
  obtain c1 where c1: "exec (irq_entry 32) (deliver (idt (midt M) 32) (tss (gdts ?s)) (mcpu M, mem ?s)) = (c1, m1)"
    "gpr c1 ESP = f - 4" "seg c1 SS = (if user_mode (mcpu M) then ucast (tss_ss0 (tss (gdts ?s))) else seg (mcpu M) SS)"
    unfolding m1_def f_def by (rule exec_irq_entry)
  have arg: "m1 (f - 4) = f" by (simp add: m1_def f_def frame_memory_def Let_def)
  have "m1 (f + reg_offset R_int_no) = 32"
    using frame_memory_reg [of R_int_no "mcpu M" 32 "tss (gdts ?s)" "mem ?s"]
    by (simp add: m1_def f_def get_reg_def frame_of_def)
  then obtain i where i: "irq_handler m1 f ((midt M)\<lparr>ports := sports ?s\<rparr>) = Some (Inr pe, i)"
    using dev by (auto simp: irq_handler_def device_ok_def Let_def)
  define p0 where "p0 = (mpit M)\<lparr>sched_obj := ?s\<lparr>mem := m1, sports := ports i\<rparr>\<rparr>"
  have d: "console_sized (pcon p0)" "0 \<le> pit_index p0" "pit_index p0 < 4" "scheduler p0 \<noteq> 0"
    using dev by (simp_all add: p0_def device_ok_def)
  define p where "p = ticked_pit p0"
  show ?thesis
  proof (rule that)
    show "seg c1 SS = 0x10" using c1(3) tss ss by auto
    show "sched_obj p = ?s\<lparr>mem := m1, sports := ports i @ [(0x3D4, 0x0F), (0x3D5, 80), (0x3D4, 0x0E), (0x3D5, 0)]\<rparr>"
      by (simp add: p_def p0_def ticked_pit_def)
    show "device_ok pe (M\<lparr>mpit := p\<lparr>sched_obj := s\<rparr>\<rparr>)" for s
      using d dev by (auto simp: device_ok_def p_def ticked_pit_def store_cell_def console_sized_def p0_def)
    have "pit_handler f p0 = do { (ex, s) \<leftarrow> HandleInterrupt f (sched_obj p); Some (ex, p\<lparr>sched_obj := s\<rparr>) }"
      using pit_handler_ticks [OF d(1-3), of f] d(4) by (simp add: p_def)
    then show "timer_interrupt pe M = do {
        (ex, s) \<leftarrow> HandleInterrupt f (sched_obj p);
        cm \<leftarrow> leave_irq ex (c1, mem s);
        Some (Inr (set_mem cm (M\<lparr>mpit := p\<lparr>sched_obj := s\<rparr>\<rparr>)))
      }"
      by (simp add: timer_interrupt_def c1(1,2) set_mem_def arg i p0_def Let_def split: prod.split)
        (simp add: set_mem_def split_def)
  qed
qed

section \<open>No context is lost\<close>

text \<open>Where the stub may write: in the stack of the current thread, below its stack pointer if that
  points there.\<close>

definition stub_writes :: "machine \<Rightarrow> u32 \<Rightarrow> bool" where
  "stub_writes M a \<longleftrightarrow> (let k = stack_of M (currentThread (msched M)) in
     k \<le> unat a \<and> unat a < (if user_mode (mcpu M) then k + 4096 else unat (gpr (mcpu M) ESP)))"

lemma timer_interrupt_keeps:
  assumes ok: "machine_ok pe M ths" and run: "timer_interrupt pe M = Some r"
  obtains M' ths' where "r = Inr M'" and "machine_ok pe M' ths'" and "set ths' \<subseteq> set ths"
    and "\<forall>u\<in>set ths'. context_of M' u = context_of M u"
    and "\<forall>u\<in>set ths'. stack_of M' u = stack_of M u" and "\<forall>u\<in>set ths - set ths'. tstate (msched M) u = Stopped"
    and "\<forall>a. \<not> stub_writes M a \<longrightarrow> mem (msched M') a = mem (msched M) a"
    and "if tickCount (msched M) = 29 \<and> enabled (msched M)
      then find (runnable (ticked ths (msched M))) (rotate (start_index (msched M) ths) ths) = Some (currentThread (msched M'))
      else currentThread (msched M') = currentThread (msched M)"
proof -
  let ?s = "msched M" and ?c = "currentThread (msched M)"
  define f where "f = frame_at (tss (gdts ?s)) (mcpu M)"
  define m1 where "m1 = frame_memory 32 (tss (gdts ?s)) (mcpu M) (mem ?s)"
  note o = ok [unfolded machine_ok_def]
  have cin: "?c \<in> set ths" using o by (auto simp: sched_ok_def)
  have run_ok: "running_ok M (stack_of M ?c)" using o by simp
  have stk: "unat KERNEL_HEAP_START \<le> stack_of M u" "stack_of M u + 4096 < 2 ^ 32" if "u \<in> set ths" for u
    using o that by (auto simp: stacks_ok_def)
  have apart: "stack_of M ?c + 4096 \<le> stack_of M u \<or> stack_of M u + 4096 \<le> stack_of M ?c"
    if "u \<in> set ths" "u \<noteq> ?c" for u
    using o that cin by (auto simp: stacks_ok_def)
  have fit: "frame_fits (stack_of M ?c) (user_mode (mcpu M)) f"
    unfolding f_def by (rule interrupted_frame_fits [OF run_ok stk(2) [OF cin]])
  have ff: "KERNEL_HEAP_START \<le> f" using fit stk(1) [OF cin] by (simp add: frame_fits_def word_le_nat_alt)
  have "user_mode (mcpu M) \<longrightarrow> ucast (tss_ss0 (tss (gdts ?s))) = (0x10 :: u16)" "user_mode (mcpu M) \<or> seg (mcpu M) SS = 0x10" "device_ok pe M"
    using run_ok o by (auto simp: running_ok_def Let_def)
  note path = timer_interrupt_path [OF this(3,1,2), folded f_def m1_def]
  obtain c1 p log where p: "seg c1 SS = 0x10" "sched_obj p = ?s\<lparr>mem := m1, sports := log\<rparr>"
    "\<And>s. device_ok pe (M\<lparr>mpit := p\<lparr>sched_obj := s\<rparr>\<rparr>)"
    "timer_interrupt pe M = do {
      (ex, s) \<leftarrow> HandleInterrupt f (sched_obj p);
      cm \<leftarrow> leave_irq ex (c1, mem s);
      Some (Inr (set_mem cm (M\<lparr>mpit := p\<lparr>sched_obj := s\<rparr>\<rparr>)))
    }"
    by (rule path) (rule that)
  obtain ex s' where h: "HandleInterrupt f (sched_obj p) = Some (ex, s')"
    using run p(4) by (auto elim!: bind_eq_SomeE)
  have oks: "sched_ok (sched_obj p) ths" "currentThread (sched_obj p) \<noteq> 0"
    "\<forall>t\<in>set ths. tstate (sched_obj p) t \<noteq> Started \<and> enterable (sched_obj p) t"
    using o by (auto simp: p(2) sched_ok_def threads_ok_def tstate_def enterable_def Let_def)
  obtain ths' sw where gone: "\<forall>u\<in>set ths - set ths'. tstate (sched_obj p) u = Stopped"
    and r: "sched_ok s' ths'" "set ths' \<subseteq> set ths" "mem s' = m1" "procs s' = procs ?s"
    "currentThread s' \<in> set ths'"
    "\<forall>u\<in>set ths'. thread_kept (if sw \<and> u = ?c then Some f else None) u (the (threads ?s u)) (the (threads s' u))"
    "\<not> sw \<Longrightarrow> currentThread s' = ?c \<and> ex = Resume f \<and> gdts s' = gdts ?s"
    "sw \<Longrightarrow> ex = Resume (regsPtr (the (threads s' (currentThread s')))) \<and> tss_ss0 (tss (gdts s')) = 0x10 \<and>
      tss_esp0 (tss (gdts s')) = stack (the (threads s' (currentThread s'))) + 4096"
    "sw \<longleftrightarrow> tickCount ?s = 29 \<and> enabled ?s"
    "sw \<Longrightarrow> find (runnable (ticked ths (sched_obj p))) (rotate (start_index (sched_obj p) ths) ths) = Some (currentThread s')"
    by (rule HandleInterrupt_outcome [OF oks ff h]) (simp add: p(2))
  let ?t = "currentThread s'"
  define f' where "f' = (if ?t = ?c then f else regsPtr (thread_of M ?t))"
  define M' where "M' = set_mem (restore 0x10 m1 f', m1) (M\<lparr>mpit := p\<lparr>sched_obj := s'\<rparr>\<rparr>)"
  have ex: "ex = Resume f'"
    using r(5-8) by (cases sw) (auto simp: f'_def thread_kept_def thread_of_def)
  have rM: "r = Inr M'"
    using run unfolding p(4) h ex by (simp add: leave_irq_def exec_irq_exit on_cpu_def set_gpr_def p(1) r(3) M'_def)
  have M': "mcpu M' = restore 0x10 m1 f'" "msched M' = s'"
    using r(3) by (simp_all add: M'_def set_mem_def)
  let ?f = "\<lambda>u. if u = ?c then f else regsPtr (thread_of M u)"
  have fits: "frame_fits (stack_of M u) (user_frame m1 (?f u)) (?f u)" "restore 0x10 m1 (?f u) = context_of M u"
    if u: "u \<in> set ths" for u
  proof -
    have "frame_fits (stack_of M u) (user_frame m1 (?f u)) (?f u) \<and> restore 0x10 m1 (?f u) = context_of M u"
    proof (cases "u = ?c")
      case True
      have "restore 0x10 m1 f = mcpu M" unfolding m1_def f_def
        using run_ok by (intro restore_frame) (auto simp: running_ok_def)
      moreover have "user_frame m1 f = user_mode (mcpu M)" by (simp add: m1_def f_def)
      ultimately show ?thesis using fit True by (simp add: context_of_def)
    next
      case False
      have old: "frame_fits (stack_of M u) (user_frame (mem ?s) (regsPtr (thread_of M u))) (regsPtr (thread_of M u))"
        using o u False by blast
      note e = restore_elsewhere [OF fit [unfolded f_def] stk(2) [OF cin] old stk(2) [OF u] apart [OF u False], where n = 32, folded m1_def]
      show ?thesis using old False by (simp add: context_of_def e)
    qed
    then show "frame_fits (stack_of M u) (user_frame m1 (?f u)) (?f u)" "restore 0x10 m1 (?f u) = context_of M u"
      by simp_all
  qed
  have kept: "stack (the (threads s' u)) = stack (the (threads ?s u))" "parent (the (threads s' u)) = parent (the (threads ?s u))"
    "tstate s' u = Started \<Longrightarrow> tstate ?s u = Started" if "u \<in> set ths'" for u
    using r(6) that by (auto simp: thread_kept_def tstate_def)
  have regs: "regsPtr (thread_of M' u) = ?f u" if "u \<in> set ths'" "u \<noteq> ?t" for u
    using r(6,7) that by (cases sw) (auto simp: thread_kept_def thread_of_def M')
  have stacks: "stack_of M' u = stack_of M u" if "u \<in> set ths'" for u
    using kept(1) [OF that] by (simp add: stack_of_def thread_of_def M')
  have ctx: "context_of M' u = context_of M u" if "u \<in> set ths'" for u
  proof (cases "u = ?t")
    case True
    then show ?thesis using fits(2) [of ?t] r(2,5) by (simp add: context_of_def M' f'_def subset_iff)
  next
    case False
    then show ?thesis using fits(2) [of u] r(2) that regs [OF that False] by (simp add: context_of_def M' r(3) subset_iff)
  qed
  have tin: "?t \<in> set ths" using r(2,5) by blast
  have ft: "frame_fits (stack_of M ?t) (user_frame m1 f') f'" using fits(1) [OF tin] by (simp add: f'_def)
  have esp: "stack_of M ?t + 60 \<le> unat (f' + 56)" "unat (f' + 56) \<le> stack_of M ?t + 4096" if "\<not> user_frame m1 f'"
  proof -
    have "unat (f' + 56) = unat f' + 56"
      using ft stk(2) [OF tin] that by (intro trans [OF unat_plus_le]) (auto simp: frame_fits_def)
    then show "stack_of M ?t + 60 \<le> unat (f' + 56)" "unat (f' + 56) \<le> stack_of M ?t + 4096"
      using ft that by (auto simp: frame_fits_def)
  qed
  have tss: "ucast (tss_ss0 (tss (gdts s'))) = (0x10 :: u16) \<and> unat (tss_esp0 (tss (gdts s'))) = stack_of M ?t + 4096"
  proof (cases sw)
    case True
    have "unat (stack (the (threads ?s ?t)) + 4096) = stack_of M ?t + 4096"
      using stk(2) [OF tin] by (intro trans [OF unat_plus_le]) (simp_all add: stack_of_def thread_of_def)
    then show ?thesis using r(8) True kept(1) [OF r(5)] by simp
  next
    case False
    then show ?thesis using r(7) run_ok by (simp add: running_ok_def Let_def)
  qed
  have "running_ok M' (stack_of M' ?t)"
    using tss esp restore_simps(3) [of m1 f'] by (auto simp: running_ok_def M' restore_simps stacks [OF r(5)] Let_def)
  moreover have "stacks_ok M' ths'" using o r(2) stacks by (auto simp: stacks_ok_def subset_iff)
  moreover have "\<forall>u\<in>set ths'. u \<noteq> ?t \<longrightarrow>
      frame_fits (stack_of M' u) (user_frame m1 (regsPtr (thread_of M' u))) (regsPtr (thread_of M' u))"
    using fits(1) regs stacks r(2) by (simp add: subset_iff)
  moreover have "?t \<noteq> 0" using r(1,5) by (auto simp: sched_ok_def threads_ok_def)
  moreover have "\<forall>u\<in>set ths'. tstate s' u \<noteq> Started \<and> enterable s' u"
    using kept o r(2,4) by (auto simp: enterable_def Let_def subset_iff)
  moreover have "device_ok pe M'" using p(3) [of s'] by (simp add: M'_def set_mem_def device_ok_def)
  ultimately have "machine_ok pe M' ths'" using r(1,3) by (simp add: machine_ok_def M')
  moreover have "mem (msched M') a = mem ?s a" if "\<not> stub_writes M a" for a
  proof -
    have top: "unat f + (if user_mode (mcpu M) then 64 else 56) \<le>
        (if user_mode (mcpu M) then stack_of M ?c + 4096 else unat (gpr (mcpu M) ESP))"
    proof (cases "user_mode (mcpu M)")
      case True
      then show ?thesis using fit by (simp add: frame_fits_def)
    next
      case False
      then have "gpr (mcpu M) ESP = f + 56" by (simp add: f_def frame_at_def)
      moreover have "unat (f + 56) = unat f + 56"
        using fit False stk(2) [OF cin] by (intro trans [OF unat_plus_le]) (auto simp: frame_fits_def)
      ultimately show ?thesis using False by simp
    qed
    have "m1 a = mem ?s a" unfolding m1_def
    proof (rule frame_memory_elsewhere [OF fit [unfolded f_def] stk(2) [OF cin]])
      show "\<not> (stack_of M ?c \<le> unat a \<and> unat a < unat (frame_at (tss (gdts ?s)) (mcpu M)) + (if user_mode (mcpu M) then 64 else 56))"
        using that top unfolding f_def stub_writes_def Let_def by linarith
    qed
    then show ?thesis by (simp add: M' r(3))
  qed
  moreover have "\<forall>u\<in>set ths - set ths'. tstate ?s u = Stopped" using gone by (simp add: p(2) tstate_def)
  moreover have "if tickCount ?s = 29 \<and> enabled ?s
      then find (runnable (ticked ths ?s)) (rotate (start_index ?s ths) ths) = Some (currentThread (msched M'))
      else currentThread (msched M') = ?c"
  proof -
    have "runnable (ticked ths (sched_obj p)) = runnable (ticked ths ?s)" "start_index (sched_obj p) ths = start_index ?s ths"
      by (simp_all add: runnable_def tstate_def ticked_threads p(2) start_index_def fun_eq_iff)
    then show ?thesis using r(7,9,10) by (cases sw) (auto simp: M')
  qed
  ultimately show ?thesis using rM ctx stacks r(2) by (intro that) auto
qed

section \<open>The interrupt returns\<close>

lemma HandleInterrupt_returns:
  assumes ok: "sched_ok s ths" and cur: "currentThread s \<noteq> 0" and en: "\<forall>t\<in>set ths. enterable s t"
    and r: "r \<in> set ths" "runnable s r"
  shows "\<exists>ex s'. HandleInterrupt f s = Some (ex, s')"
proof -
  have tok: "threads_ok s ths" using ok by (simp add: sched_ok_def)
  let ?s = "(ticked ths s)\<lparr>tickCount := 0\<rparr>"
  have oks: "sched_ok ?s ths" using ticked_ok [OF tok] ok by (simp add: sched_ok_def threads_ok_def)
  have live: "\<exists>th. threads s u = Some th" if "u \<in> set ths" for u using threads_okD(5) [OF tok that] by blast
  have "runnable ?s r"
    using live [OF r(1)] r(2) by (auto simp: runnable_def tstate_def ticked_threads)
  moreover have "\<forall>t\<in>set ths. runnable ?s t \<longrightarrow> enterable ?s t"
    using live en by (fastforce simp: enterable_def tstate_def ticked_threads Let_def)
  ultimately have "\<exists>ex s' ths'. switch_from f ?s = Some (ex, s')"
    using switch_from_switched [OF oks r(1), of f] cur by auto
  then show ?thesis unfolding HandleInterrupt_cases [OF tok] by auto
qed

lemma timer_interrupt_returns:
  assumes ok: "machine_ok pe M ths" and r: "r \<in> set ths" "runnable (msched M) r"
  obtains M' where "timer_interrupt pe M = Some (Inr M')"
proof -
  let ?s = "msched M" and ?k = "stack_of M (currentThread (msched M))"
  note o = ok [unfolded machine_ok_def]
  have cin: "currentThread ?s \<in> set ths" and run_ok: "running_ok M ?k" using o by (auto simp: sched_ok_def)
  have stk: "unat KERNEL_HEAP_START \<le> ?k" "?k + 4096 < 2 ^ 32" using o cin by (auto simp: stacks_ok_def)
  have pre: "user_mode (mcpu M) \<longrightarrow> ucast (tss_ss0 (tss (gdts ?s))) = (0x10 :: u16)" "user_mode (mcpu M) \<or> seg (mcpu M) SS = 0x10" "device_ok pe M"
    using run_ok o by (auto simp: running_ok_def Let_def)
  define f where "f = frame_at (tss (gdts ?s)) (mcpu M)"
  define m1 where "m1 = frame_memory 32 (tss (gdts ?s)) (mcpu M) (mem ?s)"
  note path = timer_interrupt_path [OF pre(3,1,2), folded f_def m1_def]
  have ff: "KERNEL_HEAP_START \<le> f"
    using interrupted_frame_fits [OF run_ok stk(2)] stk(1) by (simp add: f_def frame_fits_def word_le_nat_alt)
  obtain c1 p log where "seg c1 SS = 0x10" and p: "sched_obj p = ?s\<lparr>mem := m1, sports := log\<rparr>"
    and "\<And>s. device_ok pe (M\<lparr>mpit := p\<lparr>sched_obj := s\<rparr>\<rparr>)" and t: "timer_interrupt pe M = do {
      (ex, s) \<leftarrow> HandleInterrupt f (sched_obj p);
      cm \<leftarrow> leave_irq ex (c1, mem s);
      Some (Inr (set_mem cm (M\<lparr>mpit := p\<lparr>sched_obj := s\<rparr>\<rparr>)))
    }"
    by (rule path) (rule that)
  have oks: "sched_ok (sched_obj p) ths" "currentThread (sched_obj p) \<noteq> 0"
    "\<forall>t\<in>set ths. tstate (sched_obj p) t \<noteq> Started \<and> enterable (sched_obj p) t" "runnable (sched_obj p) r"
    using o r(2) by (auto simp: p sched_ok_def threads_ok_def tstate_def enterable_def runnable_def Let_def)
  obtain ex s' where h: "HandleInterrupt f (sched_obj p) = Some (ex, s')"
    using HandleInterrupt_returns [OF oks(1,2) _ r(1) oks(4)] oks(3) by blast
  have "\<exists>f'. ex = Resume f'" by (rule HandleInterrupt_outcome [OF oks(1-3) ff h]) metis
  then show ?thesis using that by (auto simp: t h leave_irq_def)
qed

section \<open>Runs\<close>

text \<open>
  Steps between two moments of thread \<open>t\<close> at which it runs: timer interrupts; code of
  another thread, which may change its registers and all memory outside the stacks of the others,
  but keeps flat segments, and its stack pointer in its stack while in ring 0; threads that are put to sleep, woken or
  stopped. What \<open>own_run\<close> asks of the code of other threads is a condition, not enforced by the kernel.
\<close>

definition in_stack :: "machine \<Rightarrow> u32 \<Rightarrow> u32 \<Rightarrow> bool" where
  "in_stack M u a \<longleftrightarrow> stack_of M u \<le> unat a \<and> unat a < stack_of M u + 4096"

definition own_run :: "machine \<Rightarrow> cpu \<Rightarrow> memory \<Rightarrow> bool" where
  "own_run M c m \<longleftrightarrow> flat c \<and>
     (\<not> user_mode c \<longrightarrow> seg c SS = 0x10 \<and> stack_of M (currentThread (msched M)) + 60 \<le> unat (gpr c ESP) \<and>
        unat (gpr c ESP) \<le> stack_of M (currentThread (msched M)) + 4096) \<and>
     (\<forall>u a. u \<noteq> currentThread (msched M) \<longrightarrow> u \<in> dom (threads (msched M)) \<longrightarrow> in_stack M u a \<longrightarrow> m a = mem (msched M) a)"

definition set_thread :: "u32 \<Rightarrow> Thread \<Rightarrow> machine \<Rightarrow> machine" where
  "set_thread u th M = M\<lparr>mpit := (mpit M)\<lparr>sched_obj := store_thread u th (msched M)\<rparr>\<rparr>"

inductive wait_step :: "u32 \<Rightarrow> u32 \<Rightarrow> machine \<Rightarrow> machine \<Rightarrow> bool" for pe t where
  timer: "timer_interrupt pe M = Some (Inr M') \<Longrightarrow> wait_step pe t M M'"
| other: "currentThread (msched M) \<noteq> t \<Longrightarrow> own_run M c m \<Longrightarrow> wait_step pe t M (set_mem (c, m) M)"
| wakes: "threads (msched M) u = Some th \<Longrightarrow> st \<noteq> Started \<Longrightarrow>
    wait_step pe t M (set_thread u (th\<lparr>state := st, blockedState := b, timeDelta := d\<rparr>) M)"

lemma own_run_ok:
  assumes ok: "machine_ok pe M ths" and run: "own_run M c m"
  shows "machine_ok pe (set_mem (c, m) M) ths"
    and "u \<in> set ths \<Longrightarrow> u \<noteq> currentThread (msched M) \<Longrightarrow> context_of (set_mem (c, m) M) u = context_of M u"
proof -
  let ?M = "set_mem (c, m) M" and ?c = "currentThread (msched M)"
  note o = ok [unfolded machine_ok_def]
  have s: "msched ?M = (msched M)\<lparr>mem := m\<rparr>" "mcpu ?M = c" "midt ?M = midt M" "stack_of ?M = stack_of M" "thread_of ?M = thread_of M"
    by (simp_all add: set_mem_def stack_of_def thread_of_def fun_eq_iff)
  have w: "m a = mem (msched M) a" if u: "u \<in> set ths" "u \<noteq> ?c" and a: "a \<in> frame_words (mem (msched M)) (regsPtr (thread_of M u))" for u a
  proof -
    have "frame_fits (stack_of M u) (user_frame (mem (msched M)) (regsPtr (thread_of M u))) (regsPtr (thread_of M u))"
      "stack_of M u + 4096 < 2 ^ 32" using o u by (auto simp: stacks_ok_def)
    from frame_words_fit [OF this a] have "in_stack M u a" by (simp add: in_stack_def)
    moreover have "u \<in> dom (threads (msched M))" using o u(1) by (auto simp: sched_ok_def threads_ok_def)
    ultimately show ?thesis using run u(2) by (simp add: own_run_def)
  qed
  have uf: "user_frame m (regsPtr (thread_of M u)) = user_frame (mem (msched M)) (regsPtr (thread_of M u))"
    if "u \<in> set ths" "u \<noteq> ?c" for u
  proof -
    have "regsPtr (thread_of M u) + reg_offset R_cs \<in> frame_words (mem (msched M)) (regsPtr (thread_of M u))"
      unfolding frame_words_def by blast
    from w [OF that this] show ?thesis by (simp add: user_frame_def get_reg_def)
  qed
  show "context_of ?M u = context_of M u" if "u \<in> set ths" "u \<noteq> ?c"
    using restore_cong [of "mem (msched M)" "regsPtr (thread_of M u)" m "0x10", OF w [OF that]] that by (simp add: context_of_def s)
  have "device_ok pe ?M" using o by (simp add: device_ok_def set_mem_def)
  moreover have "running_ok ?M (stack_of M ?c)"
    using o run by (auto simp: running_ok_def own_run_def s Let_def)
  ultimately show "machine_ok pe ?M ths"
    using o uf by (auto simp: machine_ok_def s stacks_ok_def sched_ok_def threads_ok_def tstate_def enterable_def Let_def)
qed

lemma set_thread_ok:
  fixes b :: BlockedState and d :: u32
  assumes ok: "machine_ok pe M ths" and th: "threads (msched M) u = Some th" "st \<noteq> Started"
  defines "M' \<equiv> set_thread u (th\<lparr>state := st, blockedState := b, timeDelta := d\<rparr>) M"
  shows "machine_ok pe M' ths" and "context_of M' = context_of M" and "stack_of M' = stack_of M"
    and "mem (msched M') = mem (msched M)"
proof -
  note o = ok [unfolded machine_ok_def]
  have s: "msched M' = (msched M)\<lparr>threads := (threads (msched M))(u \<mapsto> th\<lparr>state := st, blockedState := b, timeDelta := d\<rparr>)\<rparr>"
    "mcpu M' = mcpu M" "midt M' = midt M"
    by (simp_all add: M'_def set_thread_def store_thread_def)
  have r: "regsPtr (thread_of M' t) = regsPtr (thread_of M t)" "stack_of M' t = stack_of M t" for t
    using th(1) by (simp_all add: thread_of_def stack_of_def s)
  show "context_of M' = context_of M" "stack_of M' = stack_of M" "mem (msched M') = mem (msched M)"
    using r by (simp_all add: context_of_def fun_eq_iff s)
  have "device_ok pe M'" using o by (simp add: device_ok_def M'_def set_thread_def)
  moreover have "\<forall>t\<in>set ths. tstate (msched M') t \<noteq> Started \<and> enterable (msched M') t"
    using o th by (auto simp: s tstate_def enterable_def Let_def)
  moreover have "sched_ok (msched M') ths" using o by (auto simp: s sched_ok_def threads_ok_def)
  ultimately show "machine_ok pe M' ths"
    using o r by (simp add: machine_ok_def stacks_ok_def running_ok_def s)
qed

text \<open>The part of the stack of a thread in ring 0 that holds its data.\<close>

definition live_word :: "machine \<Rightarrow> u32 \<Rightarrow> u32 \<Rightarrow> bool" where
  "live_word M t a \<longleftrightarrow> in_stack M t a \<and> \<not> user_mode (context_of M t) \<and> gpr (context_of M t) ESP \<le> a"

lemma timer_keeps_live:
  assumes "machine_ok pe M ths" and "t \<in> set ths" and "live_word M t a"
  shows "\<not> stub_writes M a"
proof (cases "t = currentThread (msched M)")
  case True
  then show ?thesis using assms(3) by (auto simp: stub_writes_def live_word_def context_of_def Let_def word_le_nat_alt)
next
  case False
  have c: "currentThread (msched M) \<in> set ths" using assms(1) by (auto simp: machine_ok_def sched_ok_def)
  then have "stack_of M t + 4096 \<le> stack_of M (currentThread (msched M)) \<or>
      stack_of M (currentThread (msched M)) + 4096 \<le> stack_of M t"
    using assms(1,2) False unfolding machine_ok_def stacks_ok_def by blast
  moreover have "unat (gpr (mcpu M) ESP) \<le> stack_of M (currentThread (msched M)) + 4096" if "\<not> user_mode (mcpu M)"
    using assms(1) that by (simp add: machine_ok_def running_ok_def)
  ultimately show ?thesis using assms(3) by (auto simp: stub_writes_def live_word_def in_stack_def Let_def split: if_splits)
qed

section \<open>The contract\<close>

text \<open>
  What a thread may rely on, whatever the machine: \<open>ok M T\<close> says that \<open>T\<close> are the threads, \<open>step t\<close> is
  what may happen while \<open>t\<close> waits, \<open>view M t\<close> is what belongs to \<open>t\<close>, its registers first.
\<close>

locale preemption =
  fixes ok :: "'m \<Rightarrow> 't set \<Rightarrow> bool"
    and step :: "'t \<Rightarrow> 'm \<Rightarrow> 'm \<Rightarrow> bool"
    and current :: "'m \<Rightarrow> 't"
    and running :: "'m \<Rightarrow> 'c"
    and view :: "'m \<Rightarrow> 't \<Rightarrow> 'c \<times> 'd"
  assumes current_runs: "ok M T \<Longrightarrow> current M \<in> T \<and> running M = fst (view M (current M))"
    and step_keeps: "ok M T \<Longrightarrow> step t M M' \<Longrightarrow> \<exists>T'\<subseteq>T. ok M' T' \<and> (t \<in> T' \<longrightarrow> view M' t = view M t)"
begin

lemma steps_keep:
  assumes "(step t)\<^sup>*\<^sup>* M M'" and "ok M T"
  shows "\<exists>T'\<subseteq>T. ok M' T' \<and> (t \<in> T' \<longrightarrow> view M' t = view M t)"
  using assms
proof (induction rule: rtranclp_induct)
  case (step M1 M2)
  then obtain T1 where 1: "T1 \<subseteq> T" "ok M1 T1" "t \<in> T1 \<longrightarrow> view M1 t = view M t" by blast
  obtain T2 where "T2 \<subseteq> T1" "ok M2 T2" "t \<in> T2 \<longrightarrow> view M2 t = view M1 t" using step_keeps [OF 1(2) step.hyps(2)] by blast
  with 1 show ?case by (intro exI [of _ T2]) auto
qed auto

lemma resumes:
  assumes "ok M T" and "(step t)\<^sup>*\<^sup>* M M'" and "current M' = t"
  shows "running M' = fst (view M t)" and "view M' t = view M t"
proof -
  obtain T' where "ok M' T'" "t \<in> T' \<longrightarrow> view M' t = view M t" using steps_keep [OF assms(2,1)] by blast
  then show "view M' t = view M t" "running M' = fst (view M t)" using current_runs [of M' T'] assms(3) by auto
qed

end

text \<open>The machine keeps it. A thread's view is its context and, in ring 0, the live part of its stack.\<close>

definition thread_view :: "machine \<Rightarrow> u32 \<Rightarrow> cpu \<times> (u32 \<rightharpoonup> u32)" where
  "thread_view M t = (context_of M t, \<lambda>a. if live_word M t a then Some (mem (msched M) a) else None)"

lemma thread_view_eqI:
  assumes "context_of M' t = context_of M t" and "stack_of M' t = stack_of M t"
    and "\<And>a. live_word M t a \<Longrightarrow> mem (msched M') a = mem (msched M) a"
  shows "thread_view M' t = thread_view M t"
proof -
  have "live_word M' t = live_word M t" using assms(1,2) by (simp add: live_word_def in_stack_def fun_eq_iff)
  then show ?thesis using assms(1,3) by (auto simp: thread_view_def)
qed

lemma timer_keeps_views:
  assumes ok: "machine_ok pe M ths" and run: "timer_interrupt pe M = Some (Inr M')"
  obtains ths' where "machine_ok pe M' ths'" and "set ths' \<subseteq> set ths"
    and "\<And>u. u \<in> set ths - set ths' \<Longrightarrow> tstate (msched M) u = Stopped"
    and "\<And>u. u \<in> set ths' \<Longrightarrow> thread_view M' u = thread_view M u"
proof -
  obtain M2 ths2 where 2: "(Inr M' :: int_halt + machine) = Inr M2" "machine_ok pe M2 ths2" "set ths2 \<subseteq> set ths"
    "\<forall>u\<in>set ths2. context_of M2 u = context_of M u" "\<forall>u\<in>set ths2. stack_of M2 u = stack_of M u"
    "\<forall>u\<in>set ths - set ths2. tstate (msched M) u = Stopped"
    "\<forall>a. \<not> stub_writes M a \<longrightarrow> mem (msched M2) a = mem (msched M) a"
    by (rule timer_interrupt_keeps [OF ok run]) (rule that)
  have "thread_view M2 t = thread_view M t" if t: "t \<in> set ths2" for t
    using t 2(3-5,7) timer_keeps_live [OF ok] by (intro thread_view_eqI) (auto simp: subset_iff)
  with that [of ths2] 2(1-3,6) show thesis by simp
qed

lemma own_run_view:
  assumes ok: "machine_ok pe M ths" and run: "own_run M c m" and t: "t \<in> set ths" "currentThread (msched M) \<noteq> t"
  shows "thread_view (set_mem (c, m) M) t = thread_view M t"
proof (rule thread_view_eqI)
  show "context_of (set_mem (c, m) M) t = context_of M t" by (rule own_run_ok(2) [OF ok run t(1)]) (use t(2) in auto)
  have "t \<in> dom (threads (msched M))" using ok t by (auto simp: machine_ok_def sched_ok_def threads_ok_def)
  moreover have "mem (msched (set_mem (c, m) M)) = m" by (simp add: set_mem_def)
  ultimately show "mem (msched (set_mem (c, m) M)) a = mem (msched M) a" if "live_word M t a" for a
    using run t(2) that unfolding own_run_def live_word_def by metis
qed (simp add: set_mem_def stack_of_def thread_of_def)

lemma wait_step_keeps:
  assumes ok: "machine_ok pe M ths" and step: "wait_step pe t M M'"
  shows "\<exists>ths'. set ths' \<subseteq> set ths \<and> machine_ok pe M' ths' \<and> (t \<in> set ths' \<longrightarrow> thread_view M' t = thread_view M t)"
  using step
proof cases
  case timer
  show ?thesis by (rule timer_keeps_views [OF ok timer]) blast
next
  case (other c m)
  show ?thesis
    using own_run_ok(1) [OF ok other(3)] own_run_view [OF ok other(3)] other(1,2) by (intro exI [of _ ths]) auto
next
  case (wakes u th st b d)
  note k = set_thread_ok [OF ok wakes(2,3), of b d, folded wakes(1)]
  have "thread_view M' t = thread_view M t" by (rule thread_view_eqI) (simp_all add: k)
  then show ?thesis using k(1) by auto
qed

interpretation irq: preemption "\<lambda>M T. \<exists>ths. set ths = T \<and> machine_ok pe M ths" "wait_step pe"
    "\<lambda>M. currentThread (msched M)" mcpu thread_view for pe
proof
  fix M T assume "\<exists>ths. set ths = T \<and> machine_ok pe M ths"
  then show "currentThread (msched M) \<in> T \<and> mcpu M = fst (thread_view M (currentThread (msched M)))"
    by (auto simp: machine_ok_def sched_ok_def thread_view_def context_of_def)
next
  fix M M' T t assume "\<exists>ths. set ths = T \<and> machine_ok pe M ths" and step: "wait_step pe t M M'"
  then obtain ths where ths: "set ths = T" "machine_ok pe M ths" by blast
  obtain ths' where "set ths' \<subseteq> set ths" "machine_ok pe M' ths'" "t \<in> set ths' \<longrightarrow> thread_view M' t = thread_view M t"
    using wait_step_keeps [OF ths(2) step] by blast
  then show "\<exists>T'\<subseteq>T. (\<exists>ths. set ths = T' \<and> machine_ok pe M' ths) \<and> (t \<in> T' \<longrightarrow> thread_view M' t = thread_view M t)"
    unfolding ths(1) [symmetric] by (intro exI [of _ "set ths'"]) blast
qed

section \<open>A concrete machine\<close>

text \<open>The first of the two demonstration threads runs in ring 0 on its stack.\<close>

definition demo_machine :: "gdt_state \<Rightarrow> idt_state \<Rightarrow> u32 \<Rightarrow> machine" where
  "demo_machine g i n = \<lparr>mcpu = set_gpr ESP 0xD0001800 (demo_cpu 8), midt = i\<lparr>handlers := (handlers i)(32 := 0xC0101234)\<rparr>,
     mpit = \<lparr>pit_ticks = 0, pit_index = 0, scheduler = 0xC04000A0,
       sched_obj = demo_sched (g\<lparr>tss := demo_tss\<lparr>tss_esp0 := 0xD0002000\<rparr>\<rparr>) Ready n,
       pcon = demo_console, ptmp = replicate 36 NUL\<rparr>\<rparr>"

lemma demo_machine_ok: "machine_ok 0xC0101234 (demo_machine g i n) demo_threads"
proof -
  let ?M = "demo_machine g i n" and ?g = "g\<lparr>tss := demo_tss\<lparr>tss_esp0 := 0xD0002000\<rparr>\<rparr>"
  have s: "msched ?M = demo_sched ?g Ready n" by (simp add: demo_machine_def)
  have th: "thread_of ?M 0xD0000100 = demo_thread 0xD0001000"
    "thread_of ?M 0xD0000200 = (demo_thread 0xD0002000)\<lparr>state := Ready, blockedState := SleepMS, timeDelta := 3\<rparr>"
    by (simp_all add: thread_of_def s demo_sched_def)
  have stk: "stack_of ?M 0xD0000100 = 0xD0001000" "stack_of ?M 0xD0000200 = 0xD0002000"
    by (simp_all add: stack_of_def th demo_thread_def)
  have m: "mem (msched ?M) = (\<lambda>_. 0)" "currentThread (msched ?M) = 0xD0000100" "tss (gdts (msched ?M)) = demo_tss\<lparr>tss_esp0 := 0xD0002000\<rparr>"
    by (simp_all add: s demo_sched_def)
  have "device_ok 0xC0101234 ?M" by (simp add: device_ok_def demo_machine_def demo_console_ok console_ok_sized)
  moreover have "running_ok ?M 0xD0001000"
    by (simp add: running_ok_def m demo_tss_def) (simp add: demo_machine_def flat_def set_gpr_def demo_cpu_def)
  moreover have "frame_fits 0xD0002000 (user_frame (\<lambda>_. 0) (regsPtr (thread_of ?M 0xD0000200))) (regsPtr (thread_of ?M 0xD0000200))"
    by (simp add: th demo_thread_def frame_fits_def user_frame_def get_reg_def)
  moreover have "stacks_ok ?M demo_threads" by (simp add: stacks_ok_def stk KERNEL_HEAP_START_def KERNEL_VIRTUAL_OFFSET_def)
  ultimately show ?thesis
    using demo_sched_ok [of ?g Ready n] demo_enterable [of _ Ready ?g n] by (simp add: machine_ok_def m [unfolded s] stk s)
qed

section \<open>Properties\<close>

text \<open>
  C1. Preemption is transparent. A timer interrupt, taken through the processor, the stub,
  \<open>irq_handler\<close>, the driver, the scheduler and the way back, returns as long as some thread can run;
  it removes only threads that have stopped; at the thirtieth tick the processor goes to the first
  thread after the current one that can run, otherwise it stays; and no thread's context changes:
  the thread left will be resumed exactly where it was, the thread entered runs exactly as it was
  saved. The invariant of the machine is kept.
\<close>

theorem timer_keeps_contexts:
  assumes "machine_ok pe M ths" and "r \<in> set ths" and "runnable (msched M) r"
  shows "\<exists>M' ths'. timer_interrupt pe M = Some (Inr M') \<and> machine_ok pe M' ths' \<and>
    set ths' \<subseteq> set ths \<and> (\<forall>u\<in>set ths - set ths'. tstate (msched M) u = Stopped) \<and>
    (if tickCount (msched M) = 29 \<and> enabled (msched M)
     then find (runnable (ticked ths (msched M))) (rotate (start_index (msched M) ths) ths) = Some (currentThread (msched M'))
     else currentThread (msched M') = currentThread (msched M)) \<and>
    mcpu M' = context_of M (currentThread (msched M')) \<and> (\<forall>u\<in>set ths'. context_of M' u = context_of M u)"
proof -
  obtain M0 where M0: "timer_interrupt pe M = Some (Inr M0)" by (rule timer_interrupt_returns [OF assms])
  show ?thesis
  proof (rule timer_interrupt_keeps [OF assms(1) M0])
    fix M' ths'
    assume k: "(Inr M0 :: int_halt + machine) = Inr M'" "machine_ok pe M' ths'" "set ths' \<subseteq> set ths"
      "\<forall>u\<in>set ths'. context_of M' u = context_of M u" "\<forall>u\<in>set ths - set ths'. tstate (msched M) u = Stopped"
      "if tickCount (msched M) = 29 \<and> enabled (msched M)
       then find (runnable (ticked ths (msched M))) (rotate (start_index (msched M) ths) ths) = Some (currentThread (msched M'))
       else currentThread (msched M') = currentThread (msched M)"
    have "currentThread (msched M') \<in> set ths'" using k(2) by (auto simp: machine_ok_def sched_ok_def)
    then have "mcpu M' = context_of M (currentThread (msched M'))" using k(4) by (metis context_of_def)
    then show ?thesis using M0 k by (intro exI [of _ M'] exI [of _ ths']) simp
  qed
qed

theorem timer_keeps_contexts_witness:
  "\<forall>g i. \<exists>M'. timer_interrupt 0xC0101234 (demo_machine g i 29) = Some (Inr M') \<and>
    context_of M' 0xD0000100 = set_gpr ESP 0xD0001800 (demo_cpu 8)"
proof (intro allI)
  fix g i
  let ?M = "demo_machine g i 29"
  have s: "tstate (msched ?M) u = Ready" if "u \<in> set demo_threads" for u
    using that by (auto simp: tstate_def demo_machine_def demo_sched_def demo_thread_def)
  then have "runnable (msched ?M) 0xD0000200" by (simp add: runnable_def)
  from timer_keeps_contexts [OF demo_machine_ok _ this]
  obtain M' ths' where M': "timer_interrupt 0xC0101234 ?M = Some (Inr M')"
    "\<forall>u\<in>set demo_threads - set ths'. tstate (msched ?M) u = Stopped" "\<forall>u\<in>set ths'. context_of M' u = context_of ?M u"
    by auto
  then have "0xD0000100 \<in> set ths'"
    using bspec [OF M'(2), of "0xD0000100"] s [of "0xD0000100"] by (cases "0xD0000100 \<in> set ths'") simp_all
  moreover have "context_of ?M 0xD0000100 = set_gpr ESP 0xD0001800 (demo_cpu 8)"
    by (simp add: context_of_def demo_machine_def demo_sched_def)
  ultimately show "\<exists>M'. timer_interrupt 0xC0101234 ?M = Some (Inr M') \<and>
      context_of M' 0xD0000100 = set_gpr ESP 0xD0001800 (demo_cpu 8)" using M'(1,3) by auto
qed

text \<open>
  C3. Switching is transparent to threads that keep out of each other's stacks. The condition on the
  instructions of the other threads is \<open>own_run\<close>: they may change all registers and all of memory, but write no word
  of another thread's stack, keep flat segments and, in ring 0, keep the stack pointer in their own stack, 60 or more
  bytes above its end. (Nothing in the kernel enforces this; the stacks lie in one heap.) Then, from any moment until
  thread \<open>t\<close> runs again, however many timer interrupts push frames, call the scheduler, switch stacks and page
  directories and restore frames, and whoever sleeps, wakes or is stopped: when \<open>t\<close> has the processor, its registers,
  flags, selectors and program counter are those it had, and, for a thread in ring 0, so is its live stack.
\<close>

theorem thread_resumes_unchanged:
  assumes "machine_ok pe M ths" and "(wait_step pe t)\<^sup>*\<^sup>* M M'" and "currentThread (msched M') = t"
  shows "mcpu M' = context_of M t \<and> (\<forall>a. live_word M t a \<longrightarrow> mem (msched M') a = mem (msched M) a)"
proof -
  have "\<exists>ths'. set ths' = set ths \<and> machine_ok pe M ths'" using assms(1) by blast
  note v = irq.resumes [OF this assms(2,3)]
  have "mem (msched M') a = mem (msched M) a" if "live_word M t a" for a
    using fun_cong [OF arg_cong [OF v(2), of snd], of a] that by (simp add: thread_view_def split: if_splits)
  then show ?thesis using v(1) by (simp add: thread_view_def)
qed

theorem thread_resumes_unchanged_witness:
  "\<forall>g i. \<exists>M'. timer_interrupt 0xC0101234 (set_mem (set_gpr EAX 99 (mcpu (demo_machine g i 29)), (\<lambda>_. 0)(0x5000 := 1))
      (demo_machine g i 29)) = Some (Inr M') \<and> mcpu M' = context_of (demo_machine g i 29) 0xD0000200"
proof (intro allI)
  fix g i
  let ?M = "demo_machine g i 29" and ?c = "set_gpr EAX 99 (mcpu (demo_machine g i 29))" and ?m = "(\<lambda>_. 0)(0x5000 := 1) :: memory"
  let ?M1 = "set_mem (?c, ?m) ?M"
  have cur: "currentThread (msched ?M) = 0xD0000100" "threads (msched ?M) = [0xD0000100 \<mapsto> demo_thread 0xD0001000,
      0xD0000200 \<mapsto> (demo_thread 0xD0002000)\<lparr>state := Ready, blockedState := SleepMS, timeDelta := 3\<rparr>]"
    "mem (msched ?M) = (\<lambda>_. 0)" "tickCount (msched ?M) = 29" "enabled (msched ?M)"
    by (simp_all add: demo_machine_def demo_sched_def)
  have "stack_of ?M 0xD0000100 = 0xD0001000" "stack_of ?M 0xD0000200 = 0xD0002000"
    by (simp_all add: stack_of_def thread_of_def cur demo_thread_def)
  then have run: "own_run ?M ?c ?m"
    by (auto simp: own_run_def cur in_stack_def) (simp_all add: demo_machine_def flat_def set_gpr_def demo_cpu_def user_mode_def)
  then have ok1: "machine_ok 0xC0101234 ?M1 demo_threads" by (rule own_run_ok [OF demo_machine_ok])
  have s1: "msched ?M1 = (msched ?M)\<lparr>mem := ?m\<rparr>" by (simp add: set_mem_def)
  have r: "runnable (ticked demo_threads (msched ?M1)) 0xD0000200" "runnable (msched ?M1) 0xD0000200"
    using cur by (auto simp: runnable_def tstate_def ticked_threads s1)
  have "start_index (msched ?M1) demo_threads = 1" using cur(1) by (simp add: start_index_def s1)
  then have fd: "find (runnable (ticked demo_threads (msched ?M1))) (rotate (start_index (msched ?M1) demo_threads) demo_threads) = Some 0xD0000200"
    using r(1) by simp
  obtain M' where M': "timer_interrupt 0xC0101234 ?M1 = Some (Inr M')"
    using timer_interrupt_returns [OF ok1 _ r(2)] by auto
  have c': "currentThread (msched M') = 0xD0000200"
    by (rule timer_interrupt_keeps [OF ok1 M']) (use cur(4,5) fd s1 in auto)
  have "wait_step 0xC0101234 0xD0000200 ?M ?M1" using cur(1) run by (intro wait_step.other) simp_all
  moreover have "wait_step 0xC0101234 0xD0000200 ?M1 M'" using M' by (rule wait_step.timer)
  ultimately have "(wait_step 0xC0101234 0xD0000200)\<^sup>*\<^sup>* ?M M'" by (meson converse_rtranclp_into_rtranclp rtranclp.rtrancl_refl)
  from thread_resumes_unchanged [OF demo_machine_ok this c'] M'
  show "\<exists>M'. timer_interrupt 0xC0101234 ?M1 = Some (Inr M') \<and> mcpu M' = context_of ?M 0xD0000200" by blast
qed

end
