(* ===== verification/OS_System.thy ===== *)
theory OS_System
  imports OS_Entry OS_Preempt
begin

text \<open>
  From the entry of the image to the idle loop, as far as the models of OS_Entry and OS_Preempt go
  together: the image, its stack and the frame bitmap are not words of the modelled physical memory, and the
  heap is a memory of its own.

  \<^item> \<open>booted_machine\<close> puts the state that \<open>Init\<close> leaves into the machine of the interrupts. The static
    counters of the timer driver start at 0.
  \<^item> With no thread in the scheduler, a timer interrupt resumes what it interrupted (\<open>idle_tick\<close>), which
    is all that happens after booting.
\<close>

unbundle bit_operations_syntax

section \<open>Idling\<close>

definition idle_ok :: "u32 \<Rightarrow> machine \<Rightarrow> bool" where
  "idle_ok pe M \<longleftrightarrow> device_ok pe M \<and> sched_ok (msched M) [] \<and> \<not> enabled (msched M) \<and>
     flat (mcpu M) \<and> \<not> user_mode (mcpu M) \<and> seg (mcpu M) SS = 0x10"

text \<open>The words of the stub's frame and argument, just below the stack pointer.\<close>

definition below_stack :: "cpu \<Rightarrow> u32 \<Rightarrow> bool" where
  "below_stack c a \<longleftrightarrow> a - (gpr c ESP - 60) < 60"

lemma idle_tick:
  assumes "idle_ok pe M"
  shows "\<exists>M'. timer_interrupt pe M = Some (Inr M') \<and> idle_ok pe M' \<and> mcpu M' = mcpu M \<and>
    (\<forall>a. \<not> below_stack (mcpu M) a \<longrightarrow> mem (msched M') a = mem (msched M) a) \<and> procs (msched M') = procs (msched M)"
proof -
  let ?c = "mcpu M" and ?t = "tss (gdts (msched M))"
  let ?f = "frame_at ?t ?c" and ?m = "frame_memory 32 ?t ?c (mem (msched M))"
  note i = assms [unfolded idle_ok_def]
  have ss: "user_mode ?c \<longrightarrow> ucast (tss_ss0 ?t) = (0x10 :: u16)" "user_mode ?c \<or> seg ?c SS = 0x10" "device_ok pe M"
    using i by simp_all
  obtain c1 p log where p: "seg c1 SS = 0x10" "sched_obj p = (msched M)\<lparr>mem := ?m, sports := log\<rparr>"
    "\<And>s. device_ok pe (M\<lparr>mpit := p\<lparr>sched_obj := s\<rparr>\<rparr>)"
    "timer_interrupt pe M = do {
      (ex, s) \<leftarrow> HandleInterrupt ?f (sched_obj p);
      cm \<leftarrow> leave_irq ex (c1, mem s);
      Some (Inr (set_mem cm (M\<lparr>mpit := p\<lparr>sched_obj := s\<rparr>\<rparr>)))
    }"
    by (rule timer_interrupt_path [OF ss(3,1,2)]) (rule that)
  have "sched_ok (sched_obj p) []" "\<not> enabled (sched_obj p)" using i by (simp_all add: p(2) sched_ok_def threads_ok_def)
  then obtain s' where s': "HandleInterrupt ?f (sched_obj p) = Some (Resume ?f, s')" "sched_ok s' []" "\<not> enabled s'" "mem s' = ?m" "procs s' = procs (msched M)"
    using empty_HandleInterrupt [of "sched_obj p" ?f] p(2) by auto
  have r: "restore 0x10 ?m ?f = ?c" using i by (intro restore_frame) simp_all
  let ?M = "set_mem (?c, ?m) (M\<lparr>mpit := p\<lparr>sched_obj := s'\<rparr>\<rparr>)"
  have run: "timer_interrupt pe M = Some (Inr ?M)"
    by (simp add: p(4) s'(1,4) leave_irq_def exec_irq_exit on_cpu_def set_gpr_def p(1) r)
  have "device_ok pe ?M" using p(3) [of s'] by (simp add: set_mem_def device_ok_def)
  moreover have "sched_ok (msched ?M) []" "\<not> enabled (msched ?M)"
    using s'(2,3) by (simp_all add: set_mem_def sched_ok_def threads_ok_def)
  moreover have "mcpu ?M = ?c" "mem (msched ?M) = ?m" "procs (msched ?M) = procs (msched M)"
    by (simp_all add: set_mem_def s'(5))
  moreover have "?m a = mem (msched M) a" if "\<not> below_stack ?c a" for a
    using that i by (intro frame_memory_outside) (simp add: below_stack_def frame_at_def)
  ultimately show ?thesis using run i by (intro exI [of _ ?M]) (simp add: idle_ok_def)
qed

fun timer_interrupts :: "nat \<Rightarrow> u32 \<Rightarrow> machine \<Rightarrow> (int_halt + machine) option" where
  "timer_interrupts 0 pe M = Some (Inr M)"
| "timer_interrupts (Suc n) pe M = do {
     r \<leftarrow> timer_interrupt pe M;
     case r of Inl e \<Rightarrow> Some (Inl e) | Inr M \<Rightarrow> timer_interrupts n pe M
   }"

lemma idle_ticks:
  "idle_ok pe M \<Longrightarrow> \<exists>M'. timer_interrupts n pe M = Some (Inr M') \<and> idle_ok pe M' \<and> mcpu M' = mcpu M \<and>
     (\<forall>a. \<not> below_stack (mcpu M) a \<longrightarrow> mem (msched M') a = mem (msched M) a)"
proof (induction n arbitrary: M)
  case (Suc n)
  obtain M1 where 1: "timer_interrupt pe M = Some (Inr M1)" "idle_ok pe M1" "mcpu M1 = mcpu M"
    "\<forall>a. \<not> below_stack (mcpu M) a \<longrightarrow> mem (msched M1) a = mem (msched M) a"
    using idle_tick [OF Suc.prems] by blast
  from Suc.IH [OF 1(2)] obtain M2 where "timer_interrupts n pe M1 = Some (Inr M2)" "idle_ok pe M2" "mcpu M2 = mcpu M1"
    "\<forall>a. \<not> below_stack (mcpu M1) a \<longrightarrow> mem (msched M2) a = mem (msched M1) a" by blast
  with 1 show ?case by (intro exI [of _ M2]) simp
qed simp

section \<open>The booted machine\<close>

definition booted_machine :: "cpu \<Rightarrow> memory \<Rightarrow> arch_kernel \<Rightarrow> machine" where
  "booted_machine c m k = \<lparr>mcpu = c, midt = kidt k, mpit = \<lparr>pit_ticks = 0, pit_index = 0, scheduler = kpit_sched k,
     sched_obj = (ksched k)\<lparr>mem := m, gdts := kgdt k, vmem := kvm k, sports := ports (kidt k)\<rparr>,
     pcon = kcon k, ptmp = ktmp k\<rparr>\<rparr>"

lemma booted_idle:
  assumes "boot_status k = (True, pe, b)" and "pe \<noteq> 0" and "kpit_sched k \<noteq> 0" and "sched_ok (ksched k) []" and "\<not> enabled (ksched k)"
    and "flat c" and "\<not> user_mode c" and "seg c SS = 0x10"
  shows "idle_ok pe (booted_machine c m k)"
  using assms by (simp add: idle_ok_def booted_machine_def device_ok_def boot_status_def sched_ok_def threads_ok_def)

section \<open>A concrete boot\<close>

text \<open>One region of almost 3 GB and one module: the conditions under which the kernel comes up.\<close>

abbreviation three_gb_boot :: boot_info where
  "three_gb_boot \<equiv> \<lparr>mbi = \<lparr>mem_upper = 0x2FFC00, mmap_length = 24, mmap_addr = 0x9000\<rparr>, mods_count = 1, mods_addr = 0x8000\<rparr>"

abbreviation three_gb_regions :: "region list" where
  "three_gb_regions \<equiv> [Region 0x100000 0xBFF00000 1]"

lemma three_gb_conditions:
  assumes "boot_pt_addr sy = 0xC0107000" and "phys (kvm k) = image_loaded"
  shows "directory_loaded (boot_pt_addr sy) (kvm k)" and "4096 dvd unat (boot_pt_addr sy)"
    and "0xC0000000 < boot_pt_addr sy" and "boot_pt_addr sy < 0xC0400000"
    and "three_gb_boot = boot_info_of (info_at three_gb_map (0x9500 + 0xC0000000))"
    and "map_lists three_gb_map (mbi three_gb_boot) three_gb_regions"
    and "boot_pt_addr sy - 0xC0000000 < kernel_end 0 three_gb_boot"
    and "unat (kernel_end 0 three_gb_boot) div 4096 + unat (module_size three_gb_map three_gb_boot) div 4096 + 4100
      \<le> available_blocks three_gb_regions"
    and "\<forall>r\<in>set three_gb_regions. rtype r \<noteq> 0x80000000"
proof -
  have e: "kernel_end 0 three_gb_boot = 0x118000"
    by (simp add: kernel_end_def BLOCK_SIZE_def BLOCKS_PER_BYTE_def PageRoundUp_def)
  have ms: "module_size three_gb_map three_gb_boot = 0x4000"
    by (simp add: module_size_def three_gb_map_def phys2virt_def KERNEL_VIRTUAL_OFFSET_def)
  have a: "available_blocks three_gb_regions = 786176" by (simp add: available_blocks_def MULTIBOOT_MEMORY_AVAILABLE_def)
  show "directory_loaded (boot_pt_addr sy) (kvm k)" using image_directory [OF assms(2)] assms(1) by simp
  show "map_lists three_gb_map (mbi three_gb_boot) three_gb_regions"
    by (simp add: map_lists_def three_gb_map_def phys2virt_def KERNEL_VIRTUAL_OFFSET_def mmap_size_def
        base_addr_low_def length_low_def mmap_type_def BLOCK_SIZE_def MULTIBOOT_MEMORY_AVAILABLE_def)
  show "three_gb_boot = boot_info_of (info_at three_gb_map (0x9500 + 0xC0000000))" by (simp only: three_gb_info)
  show "4096 dvd unat (boot_pt_addr sy)" "0xC0000000 < boot_pt_addr sy" "boot_pt_addr sy < 0xC0400000"
    "boot_pt_addr sy - 0xC0000000 < kernel_end 0 three_gb_boot"
    "unat (kernel_end 0 three_gb_boot) div 4096 + unat (module_size three_gb_map three_gb_boot) div 4096 + 4100
      \<le> available_blocks three_gb_regions"
    unfolding e ms a assms(1) by simp_all
qed simp

lemma demo_cpu_idles: "flat (demo_cpu 8)" "\<not> user_mode (demo_cpu 8)" "seg (demo_cpu 8) SS = 0x10"
  by (simp_all add: flat_def user_mode_def demo_cpu_def)

section \<open>Properties\<close>

text \<open>
  What the components of booting establish together: from the entry of the image, with the directory as boot.asm
  assembles it at an aligned address of the first 4 MB above 3 GB and below the end of the first
  reservation, a memory map whose available regions are in order and do not overlap (and no region has the least
  \<open>int\<close> for its type, which could not be printed), and 4100 frames to spare beyond the reservations, the model of \<open>Init\<close> reaches one of its two endless loops, the one
  with the error message and interrupts off exactly when no module was loaded. By then the directory
  is mapped into itself, the first 4 MB but the first page are mapped one to one, and the heap is
  well formed. From then on every timer interrupt resumes the loop.

  This says less than that the machine comes up. The code, the stack and the frame bitmap are no part of the physical memory in
  which the page tables lie, and the words of the heap are not looked up through the page tables: that
  a frame handed out lies in the image (OS_Entry shows that it does with up to 128 MB), and that a page of the heap is
  not backed (OS_Paging says which may be), have no effect on the rest of the model.
\<close>

lemma kernel_comes_up:
  assumes "directory_loaded (boot_pt_addr sy) (kvm k)" and "4096 dvd unat (boot_pt_addr sy)"
    and "0xC0000000 < boot_pt_addr sy" and "boot_pt_addr sy < 0xC0400000" and "pit_entry sy \<noteq> 0"
    and "info = boot_info_of (info_at rd (ebx + 0xC0000000))" and "map_lists rd (mbi info) rs"
    and "boot_pt_addr sy - 0xC0000000 < kernel_end 0 info"
    and "unat (kernel_end 0 info) div 4096 + unat (module_size rd info) div 4096 + 4100 \<le> available_blocks rs"
    and "\<forall>r\<in>set rs. rtype r \<noteq> 0x80000000" and "length (ktmp k) = 36"
    and "flat c" and "\<not> user_mode c" and "seg c SS = 0x10"
  shows "\<exists>e k' bs. start dev sy eax ebx rd k = Some (e, k') \<and> (e = No_initrd \<longleftrightarrow> mods_count info = 0) \<and>
    (int_enabled (kidt k') \<longleftrightarrow> e = Idle) \<and> paging_ready (kvm k') \<and> cr3 (kvm k') = boot_pt_addr sy - 0xC0000000 \<and>
    heap_ok (kheap k') bs \<and> used_blocks bs = {(0xC0400014, 120), (kpit_sched k', 24)} \<and>
    (\<forall>n. \<exists>M. timer_interrupts n (pit_entry sy) (booted_machine c m k') = Some (Inr M) \<and> mcpu M = c \<and>
       (\<forall>a. \<not> below_stack c a \<longrightarrow> mem (msched M) a = m a))"
proof -
  obtain e k' bs where k': "start dev sy eax ebx rd k = Some (e, k')" "e = No_initrd \<longleftrightarrow> mods_count info = 0"
    "paging_ready (kvm k')" "cr3 (kvm k') = boot_pt_addr sy - 0xC0000000" "heap_ok (kheap k') bs"
    "used_blocks bs = {(0xC0400014, 120), (kpit_sched k', 24)}" "kpit_sched k' = 0xC04000A0" "sched_ok (ksched k') []"
    "\<not> enabled (ksched k')" "boot_status k' = (True, pit_entry sy, e = Idle)"
    using start_boots [OF assms(1-4,6-11), of dev eax] by blast
  have "kpit_sched k' \<noteq> 0" by (simp add: k'(7))
  then have "idle_ok (pit_entry sy) (booted_machine c m k')"
    by (intro booted_idle [OF k'(10) assms(5) _ k'(8,9) assms(12-14)])
  from idle_ticks [OF this] have "\<exists>M. timer_interrupts n (pit_entry sy) (booted_machine c m k') = Some (Inr M) \<and> mcpu M = c \<and>
      (\<forall>a. \<not> below_stack c a \<longrightarrow> mem (msched M) a = m a)" for n
    by (fastforce simp: booted_machine_def)
  moreover have "int_enabled (kidt k') \<longleftrightarrow> e = Idle" using k'(10) by (simp add: boot_status_def)
  ultimately show ?thesis using k'(1-6) by blast
qed

theorem kernel_comes_up_witness:
  "\<forall>dev sy k m. \<exists>k' M. start dev (sy\<lparr>boot_pt_addr := 0xC0107000, pit_entry := 0xC0101234\<rparr>) 0x2BADB002 0x9500 three_gb_map
     (k\<lparr>kvm := (kvm k)\<lparr>phys := image_loaded\<rparr>, ktmp := replicate 36 NUL\<rparr>) = Some (Idle, k') \<and> cr3 (kvm k') = 0x107000 \<and>
     timer_interrupts 1000 0xC0101234 (booted_machine (demo_cpu 8) m k') = Some (Inr M) \<and> mcpu M = demo_cpu 8"
proof (intro allI)
  fix dev and sy :: symbols and k :: arch_kernel and m
  let ?k = "k\<lparr>kvm := (kvm k)\<lparr>phys := image_loaded\<rparr>, ktmp := replicate 36 NUL\<rparr>" and ?sy = "sy\<lparr>boot_pt_addr := 0xC0107000, pit_entry := 0xC0101234\<rparr>"
  have c: "boot_pt_addr ?sy = 0xC0107000" "phys (kvm ?k) = image_loaded" "pit_entry ?sy \<noteq> 0" "length (ktmp ?k) = 36" by simp_all
  note b = three_gb_conditions [OF c(1,2)]
  obtain e k' where k': "start dev ?sy 0x2BADB002 0x9500 three_gb_map ?k = Some (e, k')"
    "e = No_initrd \<longleftrightarrow> mods_count three_gb_boot = 0" "cr3 (kvm k') = boot_pt_addr ?sy - 0xC0000000"
    "\<forall>n. \<exists>M. timer_interrupts n (pit_entry ?sy) (booted_machine (demo_cpu 8) m k') = Some (Inr M) \<and> mcpu M = demo_cpu 8 \<and>
       (\<forall>a. \<not> below_stack (demo_cpu 8) a \<longrightarrow> mem (msched M) a = m a)"
    using kernel_comes_up [OF b(1-4) c(3) b(5-9) c(4) demo_cpu_idles, of dev "0x2BADB002" m] by blast
  have "e = Idle" using k'(2) by (cases e) simp_all
  moreover obtain M where "timer_interrupts 1000 0xC0101234 (booted_machine (demo_cpu 8) m k') = Some (Inr M)" "mcpu M = demo_cpu 8"
    using k'(4) [rule_format, of 1000] by auto
  ultimately show "\<exists>k' M. start dev ?sy 0x2BADB002 0x9500 three_gb_map ?k = Some (Idle, k') \<and> cr3 (kvm k') = 0x107000 \<and>
      timer_interrupts 1000 0xC0101234 (booted_machine (demo_cpu 8) m k') = Some (Inr M) \<and> mcpu M = demo_cpu 8"
    using k'(1,3) by (intro exI [of _ k'] exI [of _ M]) simp
qed

end
