(* ===== verification/OS_Spawn.thy ===== *)
theory OS_Spawn
  imports OS_Regions OS_System
begin

text \<open>
  The life of a thread: heap, threads, queue and processor together (heap.cpp, thread.cpp, queue.h,
  scheduler.cpp).

  \<^item> In OS_Process and OS_Scheduler the addresses that \<open>new\<close> and \<open>malloc\<close> return are parameters. Here
    they come from the heap: \<open>create_thread\<close>, \<open>add_thread\<close>, \<open>remove_thread\<close> and \<open>reap_thread\<close> are the
    whole operations, on the static members of the heap and the state of the scheduler. The headers
    of the heap's blocks are words of the same main memory as the stacks.
  \<^item> \<open>backed\<close>: every thread object, every stack of a thread that has not stopped and every queue node
    lies in a live region of its own. This is what makes the stores of objects of the other theories
    a faithful view of memory.
  \<^item> \<open>spawn\<close> creates a thread and hands it to the scheduler, as a client does; OS_Multitask puts it into the
    machine of the interrupts, OS_Reaping puts \<open>reap_thread\<close> into \<open>HandleInterrupt\<close>.
\<close>

section \<open>Operations\<close>

definition sizeof_Thread :: u32 where "sizeof_Thread = 32"
definition sizeof_queue_node :: u32 where "sizeof_queue_node = 12"

definition heap_of :: "heap \<Rightarrow> sched \<Rightarrow> heap" where
  "heap_of h s = h\<lparr>ram := mem s\<rparr>"

definition kernel_malloc :: "u32 \<Rightarrow> heap \<times> sched \<Rightarrow> (u32 \<times> heap \<times> sched) option" where
  "kernel_malloc n = (\<lambda>(h, s). do { (p, h) \<leftarrow> kmalloc n (heap_of h s); Some (p, h, s\<lparr>mem := ram h\<rparr>) })"

definition kernel_new :: "u32 \<Rightarrow> heap \<times> sched \<Rightarrow> (u32 \<times> heap \<times> sched) option" where
  "kernel_new n = (\<lambda>(h, s). do { (p, h) \<leftarrow> operator_new n (heap_of h s); Some (p, h, s\<lparr>mem := ram h\<rparr>) })"

definition kernel_delete :: "u32 \<Rightarrow> heap \<times> sched \<Rightarrow> (heap \<times> sched) option" where
  "kernel_delete p = (\<lambda>(h, s). do { h \<leftarrow> operator_delete p (heap_of h s); Some (h, s\<lparr>mem := ram h\<rparr>) })"

definition create_thread :: "u32 \<Rightarrow> bool \<Rightarrow> u32 \<Rightarrow> heap \<times> sched \<Rightarrow> (u32 \<times> heap \<times> sched) option" where
  "create_thread entryPoint isKernel par k = do {
     (result, k) \<leftarrow> kernel_new sizeof_Thread k;
     (stk, h, s) \<leftarrow> kernel_malloc THREAD_STACK_SIZE k;
     (t, s) \<leftarrow> CreateFromFunction result stk entryPoint isKernel par s;
     Some (t, h, s)
   }"

definition add_thread :: "u32 \<Rightarrow> bool \<Rightarrow> heap \<times> sched \<Rightarrow> (sched_exit \<times> heap \<times> sched) option" where
  "add_thread thread forceSwitch k = do {
     (node, h, s) \<leftarrow> kernel_new sizeof_queue_node k;
     (ex, s) \<leftarrow> AddThread node thread forceSwitch s;
     Some (ex, h, s)
   }"

definition remove_thread :: "u32 \<Rightarrow> heap \<times> sched \<Rightarrow> (heap \<times> sched) option" where
  "remove_thread t = (\<lambda>(h, s). do {
     (h, s) \<leftarrow> RemoveThread kfree t (heap_of h s) s;
     Some (h, s\<lparr>mem := ram h\<rparr>)
   })"

text \<open>
  \<open>threadsList.Remove(t); delete t\<close>, with the \<open>delete\<close> of the node in \<open>removeInternal\<close>. \<open>HandleInterrupt\<close>
  does this to threads in state \<open>Stopped\<close> only, which only \<open>RemoveThread\<close> sets; the definition has no such condition, which
  is that of its callers \<open>reap_stopped_freeing\<close> and \<open>leave_current_freeing\<close> of OS_Reaping.
\<close>

definition reap_thread :: "u32 \<Rightarrow> heap \<times> sched \<Rightarrow> (heap \<times> sched) option" where
  "reap_thread t = (\<lambda>(h, s). do {
     node \<leftarrow> node_of t (thread_queue s);
     s \<leftarrow> drop_thread t s;
     k \<leftarrow> kernel_delete node (h, s);
     kernel_delete t k
   })"

text \<open>What a client does: create a thread, then hand it over.\<close>

definition spawn :: "u32 \<Rightarrow> bool \<Rightarrow> u32 \<Rightarrow> bool \<Rightarrow> heap \<times> sched \<Rightarrow> (u32 \<times> sched_exit \<times> heap \<times> sched) option" where
  "spawn entryPoint isKernel par forceSwitch k = do {
     (t, k) \<leftarrow> create_thread entryPoint isKernel par k;
     (ex, k) \<leftarrow> add_thread t forceSwitch k;
     Some (t, ex, k)
   }"

section \<open>Objects in the heap\<close>

datatype role = Object u32 | Stack u32 | Node u32

definition objects :: "sched \<Rightarrow> role \<rightharpoonup> u32 \<times> u32" where
  "objects s r = (case r of
     Object t \<Rightarrow> (if t \<in> dom (threads s) then Some (t, sizeof_Thread) else None)
   | Stack t \<Rightarrow> (case threads s t of None \<Rightarrow> None
       | Some th \<Rightarrow> (if state th = Stopped then None else Some (stack th, THREAD_STACK_SIZE)))
   | Node n \<Rightarrow> (if n \<in> dom (nodes s) then Some (n, sizeof_queue_node) else None))"

definition backed :: "heap \<Rightarrow> sched \<Rightarrow> (u32 \<times> u32) set \<Rightarrow> bool" where
  "backed h s R \<longleftrightarrow> heap_holds (heap_of h s) R \<and> placed R (objects s) \<and> KERNEL_HEAP_START \<le> startAddress h"

lemma heap_of_simps [simp]:
  "ram (heap_of h s) = mem s" "heap_of (h\<lparr>ram := m\<rparr>) s = heap_of h s" "heap_of h (s\<lparr>mem := m\<rparr>) = h\<lparr>ram := m\<rparr>"
  "(heap_of h s)\<lparr>ram := m\<rparr> = h\<lparr>ram := m\<rparr>" "startAddress (heap_of h s) = startAddress h"
  by (simp_all add: heap_of_def)

lemma objects_mem [simp]: "objects (s\<lparr>mem := m\<rparr>) = objects s"
  by (rule ext) (simp add: objects_def split: role.split)

lemma kernel_new_malloc: "kernel_new = kernel_malloc"
  by (rule ext) (simp add: kernel_new_def kernel_malloc_def operator_new_def)

lemma region_bounds:
  assumes "heap_holds h R" and "(p, k) \<in> R"
  shows "unat (startAddress h) + 20 \<le> unat p" and "unat p + unat k < 2 ^ 32" and "4 dvd unat p"
proof -
  obtain bs b where ok: "heap_ok h bs" and b: "b \<in> set bs" "p = badr b + 20" "k = bsize b"
    using assms by (auto simp: heap_holds_def used_blocks_def)
  note e = heap_ok_block [OF ok b(1)]
  show "unat (startAddress h) + 20 \<le> unat p" "unat p + unat k < 2 ^ 32" "4 dvd unat p"
    using e u32_lt [of "endAddress h"] by (simp_all add: b(2,3) dvd_add)
qed

lemma kmalloc_record: "kmalloc n h = Some (p, h') \<Longrightarrow> h' = h\<lparr>ram := ram h'\<rparr>"
  by (auto simp: kmalloc_def InternalAllocate_def Let_def split: option.splits sum.splits if_splits elim!: bind_eq_SomeE)

lemma kfree_record: "kfree p h = Some h' \<Longrightarrow> h' = h\<lparr>ram := ram h'\<rparr>"
  by (auto simp: kfree_def heap_free_def Let_def split: sum.splits if_splits prod.splits)

text \<open>An allocation, seen by the objects.\<close>

lemma kernel_malloc_object:
  assumes "heap_holds (heap_of h s) R" and "placed R pl" and "kernel_malloc n (h, s) = Some (p, h', s')"
    and "n \<le> 0xFFFFFFFC"
  obtains k m where "s' = s\<lparr>mem := m\<rparr>" and "h' = h\<lparr>ram := m\<rparr>" and "n \<le> k" and "p \<notin> fst ` R"
    and "heap_holds (h\<lparr>ram := m\<rparr>) (insert (p, k) R)" and "placed (insert (p, k) R) (pl(r \<mapsto> (p, n)))"
    and "\<And>q a. q \<in> R \<Longrightarrow> in_region a q \<Longrightarrow> m a = mem s a"
proof -
  have run: "kmalloc n (heap_of h s) = Some (p, h')" "s' = s\<lparr>mem := ram h'\<rparr>"
    using assms(3) by (auto simp: kernel_malloc_def elim!: bind_eq_SomeE)
  obtain k where k: "n \<le> k" "p \<notin> fst ` R" "heap_holds h' (insert (p, k) R)"
    "placed (insert (p, k) R) (pl(r \<mapsto> (p, n)))"
    "\<And>q a. q \<in> R \<Longrightarrow> in_region a q \<Longrightarrow> ram h' a = ram (heap_of h s) a"
    by (rule rheap.new_object [OF assms(1,2) run(1) assms(4)]) (rule that)
  have "h' = h\<lparr>ram := ram h'\<rparr>" using kmalloc_record [OF run(1)] by simp
  with that [of "ram h'" k] run(2) k show thesis by simp
qed

lemma kernel_malloc_room:
  assumes "room (heap_of h s) (unat n + 24 + r)" and "4 \<le> r" and "n \<le> 0xFFFFFFFC"
  obtains p m where "kernel_malloc n (h, s) = Some (p, h\<lparr>ram := m\<rparr>, s\<lparr>mem := m\<rparr>)" and "room (h\<lparr>ram := m\<rparr>) r"
  by (rule kmalloc_room [OF assms]) (use that in \<open>auto simp: kernel_malloc_def\<close>)

text \<open>A deletion.\<close>

lemma kernel_delete_object:
  assumes "heap_holds (heap_of h s) R" and "placed R pl" and "pl r = Some (p, n)"
  obtains k m where "(p, k) \<in> R" and "kernel_delete p (h, s) = Some (h\<lparr>ram := m\<rparr>, s\<lparr>mem := m\<rparr>)"
    and "heap_holds (h\<lparr>ram := m\<rparr>) (R - {(p, k)})" and "placed (R - {(p, k)}) (pl(r := None))"
    and "\<And>q a. q \<in> R \<Longrightarrow> in_region a q \<Longrightarrow> m a = mem s a"
proof -
  obtain k h' where k: "(p, k) \<in> R" "kfree p (heap_of h s) = Some h'" "heap_holds h' (R - {(p, k)})"
    "placed (R - {(p, k)}) (pl(r := None))" "\<And>q a. q \<in> R \<Longrightarrow> in_region a q \<Longrightarrow> ram h' a = ram (heap_of h s) a"
    by (rule rheap.delete_object [OF assms]) (rule that)
  have "h' = h\<lparr>ram := ram h'\<rparr>" using kfree_record [OF k(2)] by simp
  then obtain m where m: "h' = h\<lparr>ram := m\<rparr>" by blast
  have "kernel_delete p (h, s) = Some (h\<lparr>ram := m\<rparr>, s\<lparr>mem := m\<rparr>)"
    using k(2) by (simp add: kernel_delete_def operator_delete_def m)
  with that [of k m] k(1,3-5) show thesis by (simp add: m)
qed

lemma kernel_delete_headers:
  assumes "heap_holds (heap_of h s) R" and "(p, k) \<in> R" and "kernel_delete p (h, s) = Some (h\<lparr>ram := m\<rparr>, s')"
  shows "heap_headers (h\<lparr>ram := m\<rparr>) \<subseteq> heap_headers (heap_of h s)" and "a \<notin> heap_headers (heap_of h s) \<Longrightarrow> m a = mem s a"
proof -
  have "kfree p (heap_of h s) = Some (h\<lparr>ram := m\<rparr>)"
    using assms(3) by (auto simp: kernel_delete_def operator_delete_def elim!: bind_eq_SomeE)
  from kfree_headers [OF assms(1,2) this] show "heap_headers (h\<lparr>ram := m\<rparr>) \<subseteq> heap_headers (heap_of h s)"
    and "a \<notin> heap_headers (heap_of h s) \<Longrightarrow> m a = mem s a" by (simp_all add: heap_of_def)
qed

text \<open>An address outside the live regions is that of no object.\<close>

lemma fresh_object:
  assumes "backed h s R" and "p \<notin> fst ` R"
  shows "threads s p = None" and "p \<notin> dom (nodes s)"
proof -
  have "objects s r \<noteq> Some (p, n)" for r n
    using assms unfolding backed_def by (metis fst_conv image_eqI placedD)
  from this [of "Object p" sizeof_Thread] this [of "Node p" sizeof_queue_node]
  show "threads s p = None" "p \<notin> dom (nodes s)" by (auto simp: objects_def split: if_splits)
qed

section \<open>Creating\<close>

lemma objects_new_thread:
  assumes "state th \<noteq> Stopped"
  shows "objects (s\<lparr>threads := (threads s)(t \<mapsto> th)\<rparr>) =
    (objects s)(Object t \<mapsto> (t, sizeof_Thread), Stack t \<mapsto> (stack th, THREAD_STACK_SIZE))"
proof
  fix r show "objects (s\<lparr>threads := (threads s)(t \<mapsto> th)\<rparr>) r =
      ((objects s)(Object t \<mapsto> (t, sizeof_Thread), Stack t \<mapsto> (stack th, THREAD_STACK_SIZE))) r"
    using assms by (cases r) (auto simp: objects_def)
qed

lemma create_thread_backed:
  assumes b: "backed h s R" and run: "create_thread entryPoint isKernel par (h, s) = Some (t, h', s')"
  obtains th m k l where "s' = s\<lparr>threads := (threads s)(t \<mapsto> th), mem := m\<rparr>" and "startAddress h' = startAddress h"
    and "state th = Ready" and "parent th = par" and "regsPtr th = stack th + 4032"
    and "t \<notin> fst ` R" and "stack th \<notin> fst ` R" and "stack th \<noteq> t" and "sizeof_Thread \<le> k" and "THREAD_STACK_SIZE \<le> l"
    and "backed h' s' (insert (stack th, l) (insert (t, k) R))"
    and "\<And>r a. r \<in> R \<Longrightarrow> in_region a r \<Longrightarrow> m a = mem s a"
    and "\<And>ss. restore ss m (regsPtr th) = fresh_cpu ss (stack th) entryPoint isKernel"
    and "par \<noteq> 0 \<Longrightarrow> par \<in> dom (procs s)"
    and "\<And>r. room (heap_of h s) (4176 + r) \<Longrightarrow> 4 \<le> r \<Longrightarrow> room (heap_of h' s') r"
proof -
  note b = b [unfolded backed_def]
  obtain p h1 s1 stk h2 s2 where run1: "kernel_malloc sizeof_Thread (h, s) = Some (p, h1, s1)"
    and run2: "kernel_malloc THREAD_STACK_SIZE (h1, s1) = Some (stk, h2, s2)"
    and run3: "CreateFromFunction p stk entryPoint isKernel par s2 = Some (t, s')" and h': "h' = h2"
    using run by (auto simp: create_thread_def kernel_new_malloc elim!: bind_eq_SomeE)
  have lim: "sizeof_Thread \<le> 0xFFFFFFFC" "THREAD_STACK_SIZE \<le> 0xFFFFFFFC"
    by (simp_all add: sizeof_Thread_def THREAD_STACK_SIZE_def)
  obtain k m1 where 1: "s1 = s\<lparr>mem := m1\<rparr>" "h1 = h\<lparr>ram := m1\<rparr>" "sizeof_Thread \<le> k" "p \<notin> fst ` R"
    "heap_holds (h\<lparr>ram := m1\<rparr>) (insert (p, k) R)"
    "placed (insert (p, k) R) ((objects s)(Object p \<mapsto> (p, sizeof_Thread)))"
    "\<And>q a. q \<in> R \<Longrightarrow> in_region a q \<Longrightarrow> m1 a = mem s a"
    by (rule kernel_malloc_object [OF _ _ run1 lim(1), of R "objects s" "Object p"]) (use b that in blast)+
  have h1: "heap_holds (heap_of h1 s1) (insert (p, k) R)" using 1(5) by (simp add: 1(1,2))
  let ?R = "\<lambda>l. insert (stk, l) (insert (p, k) R)"
  obtain l m2 where 2: "s2 = s1\<lparr>mem := m2\<rparr>" "h2 = h1\<lparr>ram := m2\<rparr>" "THREAD_STACK_SIZE \<le> l" "stk \<notin> fst ` insert (p, k) R"
    "heap_holds (h1\<lparr>ram := m2\<rparr>) (?R l)"
    "placed (?R l) ((objects s)(Object p \<mapsto> (p, sizeof_Thread), Stack p \<mapsto> (stk, THREAD_STACK_SIZE)))"
    "\<And>q a. q \<in> insert (p, k) R \<Longrightarrow> in_region a q \<Longrightarrow> m2 a = mem s1 a"
    by (rule kernel_malloc_object [OF h1 1(6) run2 lim(2), of "Stack p"]) (rule that)
  have holds2: "heap_holds (h\<lparr>ram := m2\<rparr>) (?R l)" using 2(5) by (simp add: 1(2))
  obtain ustk where t: "t = p" and s': "s' = s2\<lparr>threads := (threads s2)(p \<mapsto> \<lparr>parent = par, stack = stk, userStack = ustk,
      userStackSize = USER_STACK_SIZE, state = Ready, blockedState = Unknown, regsPtr = stk + 4032, timeDelta = 0\<rparr>),
      mem := first_frame stk entryPoint isKernel (mem s2)\<rparr>" (is "_ = s2\<lparr>threads := (threads s2)(p \<mapsto> ?th), mem := ?m\<rparr>")
    and par: "par \<noteq> 0 \<Longrightarrow> par \<in> dom (procs s2)"
    by (rule CreateFromFunction_result [OF run3]) (rule that)
  have l: "4096 \<le> unat l" using 2(3) by (simp add: THREAD_STACK_SIZE_def word_le_nat_alt)
  have stk: "4 dvd unat stk" "unat stk + 4096 \<le> 2 ^ 32"
    using region_bounds [OF holds2, of stk l] l by simp_all
  have out: "?m a = m2 a" if "\<not> in_region a (stk, l)" for a
  proof -
    have "\<not> (unat stk \<le> unat a \<and> unat a < unat stk + 4096)" using that l by (auto simp: in_region_def)
    from first_frame_outside [OF stk this] show ?thesis by (simp add: 2(1))
  qed
  have holds3: "heap_holds (h\<lparr>ram := ?m\<rparr>) (?R l)"
    using rheap.put_law [OF holds2, of "(stk, l)" ?m] out by simp
  have eq: "s' = s\<lparr>threads := (threads s)(t \<mapsto> ?th), mem := ?m\<rparr>" by (simp add: s' t 1(1) 2(1))
  have heap': "heap_of h' s' = h\<lparr>ram := ?m\<rparr>" by (simp add: heap_of_def eq h' 1(2) 2(2))
  have start': "startAddress h' = startAddress h" by (simp add: h' 1(2) 2(2))
  have "backed h' s' (?R l)"
    unfolding backed_def heap' using holds3 2(6) b by (simp add: start' eq objects_new_thread t)
  moreover have "?m a = mem s a" if r: "r \<in> R" "in_region a r" for r a
  proof -
    obtain q j where q: "r = (q, j)" by (cases r)
    have "stk \<noteq> q" using 2(4) r(1) q by force
    then have "disjoint_regions (q, j) (stk, l)" using rheap.disjoint_law [OF holds2, of q j stk l] r(1) q by auto
    then have "\<not> in_region a (stk, l)" using r(2) q by (blast dest: in_region_disjoint)
    then have "?m a = m2 a" by (rule out)
    then show ?thesis using 2(7) [of r a] 1(7) [of r a] r by (simp add: 1(1))
  qed
  moreover have "restore ss ?m (stk + 4032) = fresh_cpu ss stk entryPoint isKernel" for ss
    by (rule first_context [OF stk])
  moreover have "room (heap_of h' s') r" if rm: "room (heap_of h s) (4176 + r)" and r: "4 \<le> r" for r
  proof -
    have "room (heap_of h s) (unat sizeof_Thread + 24 + (4120 + r))" using rm by (simp add: sizeof_Thread_def)
    then have r1: "room (h\<lparr>ram := m1\<rparr>) (4120 + r)"
      by (rule kernel_malloc_room) (use run1 1(1,2) r in \<open>auto simp: sizeof_Thread_def\<close>)
    have "room (heap_of h1 s1) (unat THREAD_STACK_SIZE + 24 + r)" using r1 by (simp add: 1(1,2) THREAD_STACK_SIZE_def)
    then have "room (h\<lparr>ram := m2\<rparr>) r"
      by (rule kernel_malloc_room) (use r run2 1(2) 2(1,2) in \<open>auto simp: THREAD_STACK_SIZE_def\<close>)
    then show ?thesis unfolding heap'
      using put_room [OF holds2, of "(stk, l)" ?m r] out by simp
  qed
  moreover have "stk \<noteq> t" "stk \<notin> fst ` R" using 2(4) t by auto
  ultimately show thesis
    using that [where th = ?th and m = ?m and k = k and l = l] eq start' 1(3,4) 2(3) par t by (simp add: 1(1) 2(1))
qed

lemma create_thread_returns:
  assumes "room (heap_of h s) (4176 + r)" and "4 \<le> r" and "par = 0 \<or> par \<in> dom (procs s)"
  shows "\<exists>t h' s'. create_thread entryPoint isKernel par (h, s) = Some (t, h', s')"
proof -
  have "room (heap_of h s) (unat sizeof_Thread + 24 + (4120 + r))" using assms(1) by (simp add: sizeof_Thread_def)
  then obtain p m1 where 1: "kernel_malloc sizeof_Thread (h, s) = Some (p, h\<lparr>ram := m1\<rparr>, s\<lparr>mem := m1\<rparr>)" "room (h\<lparr>ram := m1\<rparr>) (4120 + r)"
    by (rule kernel_malloc_room) (auto simp: sizeof_Thread_def)
  have "room (heap_of (h\<lparr>ram := m1\<rparr>) (s\<lparr>mem := m1\<rparr>)) (unat THREAD_STACK_SIZE + 24 + r)"
    using 1(2) by (simp add: THREAD_STACK_SIZE_def)
  then obtain stk m2 where 2: "kernel_malloc THREAD_STACK_SIZE (h\<lparr>ram := m1\<rparr>, s\<lparr>mem := m1\<rparr>) =
      Some (stk, h\<lparr>ram := m1, ram := m2\<rparr>, s\<lparr>mem := m1, mem := m2\<rparr>)"
    by (rule kernel_malloc_room) (use assms(2) in \<open>auto simp: THREAD_STACK_SIZE_def\<close>)
  have "CreateFromFunction p stk entryPoint isKernel par (s\<lparr>mem := m1, mem := m2\<rparr>) \<noteq> None"
    using assms(3) by (intro CreateFromFunction_returns) auto
  then show ?thesis using 1(1) 2 by (auto simp: create_thread_def kernel_new_malloc)
qed

section \<open>Handing over\<close>

text \<open>The thread is not one that \<open>AddThread\<close> enters in user mode at once.\<close>

definition kernel_parent :: "sched \<Rightarrow> u32 \<Rightarrow> bool" where
  "kernel_parent s par \<longleftrightarrow> par \<noteq> 0 \<longrightarrow> (\<exists>p. procs s par = Some p \<and> \<not> isUserspace p)"

lemma AddThread_kernel:
  assumes "threads s t = Some th" and "t \<noteq> 0" and "forceSwitch \<longrightarrow> kernel_parent s (parent th)"
    and "push_back node t (thread_queue s) = Some (ns, q)"
  shows "AddThread node t forceSwitch s = Some (if forceSwitch
    then (RaiseInt 0x20, s\<lparr>nodes := ns, threadsList := q, switchForced := True, enabled := True, tickCount := 29\<rparr>)
    else (Done, s\<lparr>nodes := ns, threadsList := q\<rparr>))"
  using assms by (cases "parent th = 0") (auto simp: AddThread_def ForceSwitch_def fetch_thread_def fetch_proc_def kernel_parent_def Let_def)

lemma objects_nodes:
  "dom ns = insert n (dom (nodes s)) \<Longrightarrow> threads s' = threads s \<Longrightarrow> nodes s' = ns \<Longrightarrow>
     objects s' = (objects s)(Node n \<mapsto> (n, sizeof_queue_node))"
  by (rule ext) (auto simp: objects_def split: role.split)

lemma add_thread_backed:
  assumes b: "backed h s R" and q: "queue_holds (thread_queue s) ths" and th: "threads s t = Some th" "t \<noteq> 0"
    and f: "forceSwitch \<longrightarrow> kernel_parent s (parent th)" and m: "kernel_malloc sizeof_queue_node (h, s) \<noteq> None"
  obtains ex h' s' m ns q node k where "add_thread t forceSwitch (h, s) = Some (ex, h', s')"
    and "ex = (if forceSwitch then RaiseInt 0x20 else Done)" and "startAddress h' = startAddress h"
    and "s' = (if forceSwitch then s\<lparr>mem := m, nodes := ns, threadsList := q, switchForced := True, enabled := True, tickCount := 29\<rparr>
      else s\<lparr>mem := m, nodes := ns, threadsList := q\<rparr>)"
    and "queue_holds (ns, q) (ths @ [t])" and "dom ns = insert node (dom (nodes s))" and "node \<notin> fst ` R"
    and "sizeof_queue_node \<le> k" and "backed h' s' (insert (node, k) R)"
    and "\<And>r a. r \<in> R \<Longrightarrow> in_region a r \<Longrightarrow> m a = mem s a"
    and "\<And>r. room (heap_of h s) (36 + r) \<Longrightarrow> 4 \<le> r \<Longrightarrow> room (heap_of h' s') r"
    and "t \<notin> set ths \<Longrightarrow> node_of t (ns, q) = Some node"
proof -
  note b = b [unfolded backed_def]
  obtain node h1 s1 where run: "kernel_malloc sizeof_queue_node (h, s) = Some (node, h1, s1)" using m by auto
  have lim: "sizeof_queue_node \<le> 0xFFFFFFFC" by (simp add: sizeof_queue_node_def)
  obtain k m1 where 1: "s1 = s\<lparr>mem := m1\<rparr>" "h1 = h\<lparr>ram := m1\<rparr>" "sizeof_queue_node \<le> k" "node \<notin> fst ` R"
    "heap_holds (h\<lparr>ram := m1\<rparr>) (insert (node, k) R)"
    "placed (insert (node, k) R) ((objects s)(Node node \<mapsto> (node, sizeof_queue_node)))"
    "\<And>q a. q \<in> R \<Longrightarrow> in_region a q \<Longrightarrow> m1 a = mem s a"
    by (rule kernel_malloc_object [OF _ _ run lim, of R "objects s" "Node node"]) (use b that in blast)+
  have "node \<notin> dom (nodes s)"
  proof
    assume "node \<in> dom (nodes s)"
    then have "objects s (Node node) = Some (node, sizeof_queue_node)" by (simp add: objects_def)
    then obtain j where "(node, j) \<in> R" using b by (meson placedD)
    then show False using 1(4) by force
  qed
  moreover have "node \<noteq> 0" using region_bounds(1) [OF 1(5), of node k] by auto
  ultimately have "fresh_node node (thread_queue s)" by (simp add: fresh_node_def)
  then obtain ns qq where push: "push_back node t (thread_queue s) = Some (ns, qq)" "queue_holds (ns, qq) (ths @ [t])"
    "dom ns = insert node (dom (nodes s))" "t \<notin> set ths \<Longrightarrow> node_of t (ns, qq) = Some node"
    by (rule queue_holds_push [OF q, of node t]) (use that in simp)
  let ?s = "if forceSwitch then s\<lparr>mem := m1, nodes := ns, threadsList := qq, switchForced := True, enabled := True, tickCount := 29\<rparr>
      else s\<lparr>mem := m1, nodes := ns, threadsList := qq\<rparr>"
  have "AddThread node t forceSwitch s1 = Some (if forceSwitch
    then (RaiseInt 0x20, s1\<lparr>nodes := ns, threadsList := qq, switchForced := True, enabled := True, tickCount := 29\<rparr>)
    else (Done, s1\<lparr>nodes := ns, threadsList := qq\<rparr>))"
    by (rule AddThread_kernel) (use th f push(1) in \<open>simp_all add: 1(1) kernel_parent_def\<close>)
  then have run': "add_thread t forceSwitch (h, s) = Some (if forceSwitch then RaiseInt 0x20 else Done, h1, ?s)"
    using run by (simp add: add_thread_def kernel_new_malloc 1(1))
  have heap': "heap_of h1 ?s = h\<lparr>ram := m1\<rparr>" by (simp add: heap_of_def 1(2))
  have "objects ?s = (objects s)(Node node \<mapsto> (node, sizeof_queue_node))" by (rule objects_nodes [OF push(3)]) simp_all
  then have "backed h1 ?s (insert (node, k) R)" unfolding backed_def heap' using b 1(5,6) by (simp add: 1(2))
  moreover have "room (heap_of h1 ?s) r" if "room (heap_of h s) (36 + r)" "4 \<le> r" for r
  proof -
    have "room (heap_of h s) (unat sizeof_queue_node + 24 + r)" using that(1) by (simp add: sizeof_queue_node_def)
    then have "room (h\<lparr>ram := m1\<rparr>) r"
      by (rule kernel_malloc_room) (use run 1(1,2) that(2) in \<open>auto simp: sizeof_queue_node_def\<close>)
    then show ?thesis unfolding heap' .
  qed
  ultimately show thesis
    using that [where m = m1 and ns = ns and q = qq and node = node and k = k, OF run' refl] push(2-4) 1(3,4,7) by (simp add: 1(2))
qed

section \<open>Spawning\<close>

text \<open>The state after \<open>spawn\<close>: the new thread, the changed words, the queue.\<close>

definition spawned :: "bool \<Rightarrow> u32 \<Rightarrow> Thread \<Rightarrow> memory \<Rightarrow> u32 nodes \<Rightarrow> queue \<Rightarrow> sched \<Rightarrow> sched" where
  "spawned forceSwitch t th m ns q s =
     (let s = s\<lparr>threads := (threads s)(t \<mapsto> th), mem := m, nodes := ns, threadsList := q\<rparr>
      in if forceSwitch then s\<lparr>switchForced := True, enabled := True, tickCount := 29\<rparr> else s)"

lemma spawned_simps [simp]:
  "threads (spawned f t th m ns q s) = (threads s)(t \<mapsto> th)" "mem (spawned f t th m ns q s) = m"
  "nodes (spawned f t th m ns q s) = ns" "threadsList (spawned f t th m ns q s) = q"
  "procs (spawned f t th m ns q s) = procs s" "gdts (spawned f t th m ns q s) = gdts s"
  "currentThread (spawned f t th m ns q s) = currentThread s"
  "f \<Longrightarrow> enabled (spawned f t th m ns q s)" "f \<Longrightarrow> tickCount (spawned f t th m ns q s) = 29"
  by (simp_all add: spawned_def Let_def)

lemma spawn_backed:
  assumes b: "backed h s R" and tok: "threads_ok s ths" and run: "spawn entryPoint isKernel par forceSwitch (h, s) = Some (t, ex, h', s')"
    and f: "forceSwitch \<longrightarrow> kernel_parent s par"
  obtains th m ns q node k l j
  where "ex = (if forceSwitch then RaiseInt 0x20 else Done)" and "s' = spawned forceSwitch t th m ns q s"
    and "startAddress h' = startAddress h" and "state th = Ready" and "parent th = par" and "regsPtr th = stack th + 4032"
    and "par \<noteq> 0 \<Longrightarrow> par \<in> dom (procs s)"
    and "t \<notin> fst ` R" and "stack th \<notin> fst ` insert (t, k) R" and "node \<notin> fst ` insert (stack th, l) (insert (t, k) R)"
    and "sizeof_Thread \<le> k" and "THREAD_STACK_SIZE \<le> l" and "sizeof_queue_node \<le> j"
    and "queue_holds (ns, q) (ths @ [t])" and "dom ns = insert node (dom (nodes s))"
    and "backed h' s' (insert (node, j) (insert (stack th, l) (insert (t, k) R)))"
    and "\<And>r a. r \<in> R \<Longrightarrow> in_region a r \<Longrightarrow> m a = mem s a"
    and "\<And>ss. restore ss m (regsPtr th) = fresh_cpu ss (stack th) entryPoint isKernel"
    and "\<And>r. room (heap_of h s) (4216 + r) \<Longrightarrow> room (heap_of h' s') (4 + r)"
    and "t \<notin> set ths" and "node_of t (ns, q) = Some node"
proof -
  obtain h1 s1 where run1: "create_thread entryPoint isKernel par (h, s) = Some (t, h1, s1)"
    and run2: "add_thread t forceSwitch (h1, s1) = Some (ex, h', s')"
    using run by (auto simp: spawn_def elim!: bind_eq_SomeE)
  obtain th m1 k l where 1: "s1 = s\<lparr>threads := (threads s)(t \<mapsto> th), mem := m1\<rparr>" "startAddress h1 = startAddress h"
    "state th = Ready" "parent th = par" "regsPtr th = stack th + 4032" "t \<notin> fst ` R" "stack th \<notin> fst ` R" "stack th \<noteq> t"
    "sizeof_Thread \<le> k" "THREAD_STACK_SIZE \<le> l" "backed h1 s1 (insert (stack th, l) (insert (t, k) R))"
    "\<And>r a. r \<in> R \<Longrightarrow> in_region a r \<Longrightarrow> m1 a = mem s a"
    "\<And>ss. restore ss m1 (regsPtr th) = fresh_cpu ss (stack th) entryPoint isKernel"
    "par \<noteq> 0 \<Longrightarrow> par \<in> dom (procs s)"
    "\<And>r. room (heap_of h s) (4176 + r) \<Longrightarrow> 4 \<le> r \<Longrightarrow> room (heap_of h1 s1) r"
    by (rule create_thread_backed [OF b run1]) (rule that)
  let ?R = "insert (stack th, l) (insert (t, k) R)"
  note b1 = 1(11) [unfolded backed_def]
  have t0: "t \<noteq> 0" using region_bounds(1) [of "heap_of h1 s1" ?R t k] b1 by auto
  have al: "kernel_malloc sizeof_queue_node (h1, s1) \<noteq> None" using run2
    by (cases "kernel_malloc sizeof_queue_node (h1, s1)") (simp_all add: add_thread_def kernel_new_malloc)
  have q: "queue_holds (thread_queue s1) ths" using tok by (simp add: threads_ok_def 1(1))
  have th1: "threads s1 t = Some th" "forceSwitch \<longrightarrow> kernel_parent s1 (parent th)"
    using f by (simp_all add: 1(1,4) kernel_parent_def)
  obtain m ns q node j where ex: "ex = (if forceSwitch then RaiseInt 0x20 else Done)" and a: "startAddress h' = startAddress h1"
    "s' = (if forceSwitch then s1\<lparr>mem := m, nodes := ns, threadsList := q, switchForced := True, enabled := True, tickCount := 29\<rparr>
      else s1\<lparr>mem := m, nodes := ns, threadsList := q\<rparr>)"
    "queue_holds (ns, q) (ths @ [t])" "dom ns = insert node (dom (nodes s1))" "node \<notin> fst ` ?R" "sizeof_queue_node \<le> j"
    "backed h' s' (insert (node, j) ?R)" "\<And>r a. r \<in> ?R \<Longrightarrow> in_region a r \<Longrightarrow> m a = mem s1 a"
    "\<And>r. room (heap_of h1 s1) (36 + r) \<Longrightarrow> 4 \<le> r \<Longrightarrow> room (heap_of h' s') r"
    "t \<notin> set ths \<Longrightarrow> node_of t (ns, q) = Some node"
    by (rule add_thread_backed [OF 1(11) q th1(1) t0 th1(2) al]) (use run2 that in auto)
  have s': "s' = spawned forceSwitch t th m ns q s" unfolding a(2) 1(1) by (simp add: spawned_def Let_def)
  have m: "m a = m1 a" if "r \<in> ?R" "in_region a r" for r a using a(8) [OF that] by (simp add: 1(1))
  have ctx: "restore ss m (regsPtr th) = fresh_cpu ss (stack th) entryPoint isKernel" for ss
  proof -
    have l: "4096 \<le> unat l" "unat (stack th) + unat l < 2 ^ 32"
      using 1(10) region_bounds(2) [of "heap_of h1 s1" ?R "stack th" l] b1 by (simp_all add: THREAD_STACK_SIZE_def word_le_nat_alt)
    have f: "unat (stack th + 4032) = unat (stack th) + 4032" using l by (intro trans [OF unat_plus_le]) simp_all
    have "restore ss m (regsPtr th) = restore ss m1 (regsPtr th)"
    proof (rule restore_cong)
      fix a assume "a \<in> frame_words m1 (regsPtr th)"
      then obtain r where r: "a = stack th + 4032 + reg_offset r" unfolding frame_words_def 1(5) by blast
      have "unat (reg_offset r) \<le> 60" by (cases r) simp_all
      then have "unat a = unat (stack th) + 4032 + unat (reg_offset r)" "unat (reg_offset r) \<le> 60"
        unfolding r using l f by (simp_all add: unat_plus_le)
      then show "m a = m1 a" using l by (intro m [of "(stack th, l)"]) (auto simp: in_region_def)
    qed
    then show ?thesis using 1(13) by simp
  qed
  have keep: "m a = mem s a" if "r \<in> R" "in_region a r" for r a using m [of r a] 1(12) [of r a] that by simp
  have "room (heap_of h' s') (4 + r)" if "room (heap_of h s) (4216 + r)" for r
    using a(9) [of "4 + r"] 1(15) [of "40 + r"] that by (simp add: add.assoc)
  moreover have "dom ns = insert node (dom (nodes s))" using a(4) by (simp add: 1(1))
  moreover have "stack th \<notin> fst ` insert (t, k) R" using 1(7,8) by simp
  moreover have "startAddress h' = startAddress h" using a(1) 1(2) by simp
  moreover have tn: "t \<notin> set ths"
  proof
    assume "t \<in> set ths"
    then have "objects s (Object t) = Some (t, sizeof_Thread)" using tok by (auto simp: threads_ok_def objects_def)
    then obtain j where "(t, j) \<in> R" using b unfolding backed_def by (meson placedD)
    then show False using 1(6) by force
  qed
  moreover have "node_of t (ns, q) = Some node" by (rule a(10) [OF tn])
  ultimately show thesis
    using that [OF ex s'] 1(3-6,9,10,14) a(3,5-7) keep ctx by blast
qed

text \<open>For the scheduler.\<close>

lemma spawn_effect:
  assumes b: "backed h s R" and tok: "threads_ok s ths" and run: "spawn entryPoint isKernel par forceSwitch (h, s) = Some (t, ex, h', s')"
    and f: "forceSwitch \<longrightarrow> kernel_parent s par"
  obtains th R' where "threads_ok s' (ths @ [t])" and "threads s' = (threads s)(t \<mapsto> th)" and "t \<notin> set ths" and "t \<noteq> 0"
    and "state th = Ready" and "parent th = par" and "backed h' s' R'"
    and "\<And>r. room (heap_of h s) (4216 + r) \<Longrightarrow> room (heap_of h' s') (4 + r)"
proof -
  obtain th m ns q node k l j where 1: "s' = spawned forceSwitch t th m ns q s" "state th = Ready" "parent th = par"
    "queue_holds (ns, q) (ths @ [t])" "backed h' s' (insert (node, j) (insert (stack th, l) (insert (t, k) R)))"
    "\<And>r. room (heap_of h s) (4216 + r) \<Longrightarrow> room (heap_of h' s') (4 + r)" "t \<notin> set ths"
    by (rule spawn_backed [OF b tok run f]) (rule that)
  have "heap_holds (heap_of h' s') (insert (node, j) (insert (stack th, l) (insert (t, k) R)))" using 1(5) by (simp add: backed_def)
  from region_bounds(1) [OF this, of t k] have t0: "t \<noteq> 0" by auto
  moreover have "threads_ok s' (ths @ [t])" using tok 1(4,7) t0 by (auto simp: threads_ok_def 1(1))
  ultimately show thesis using that [of th] 1(2,3,5-7) by (simp add: 1(1))
qed

lemma spawn_returns:
  assumes b: "backed h s R" and tok: "threads_ok s ths" and room: "room (heap_of h s) 4216"
    and par: "par = 0 \<or> par \<in> dom (procs s)" and f: "forceSwitch \<longrightarrow> kernel_parent s par"
  obtains t ex h' s' where "spawn entryPoint isKernel par forceSwitch (h, s) = Some (t, ex, h', s')"
proof -
  have r: "room (heap_of h s) (4176 + 40)" using room by simp
  from create_thread_returns [OF this _ par] obtain t h1 s1 where
    run1: "create_thread entryPoint isKernel par (h, s) = Some (t, h1, s1)" by fastforce
  obtain th m k l where 1: "s1 = s\<lparr>threads := (threads s)(t \<mapsto> th), mem := m\<rparr>" "parent th = par"
    "backed h1 s1 (insert (stack th, l) (insert (t, k) R))"
    "\<And>r. room (heap_of h s) (4176 + r) \<Longrightarrow> 4 \<le> r \<Longrightarrow> room (heap_of h1 s1) r"
    by (rule create_thread_backed [OF b run1]) (rule that)
  have "room (heap_of h1 s1) (unat sizeof_queue_node + 24 + 4)" using 1(4) [OF r] by (simp add: sizeof_queue_node_def)
  then have al: "kernel_malloc sizeof_queue_node (h1, s1) \<noteq> None"
    by (rule kernel_malloc_room) (auto simp: sizeof_queue_node_def)
  have q: "queue_holds (thread_queue s1) ths" using tok by (simp add: threads_ok_def 1(1))
  have th1: "threads s1 t = Some th" "forceSwitch \<longrightarrow> kernel_parent s1 (parent th)"
    using f by (simp_all add: 1(1,2) kernel_parent_def)
  have "t \<noteq> 0"
    using region_bounds(1) [of "heap_of h1 s1" "insert (stack th, l) (insert (t, k) R)" t k] 1(3) [unfolded backed_def] by auto
  from add_thread_backed [OF 1(3) q th1(1) this th1(2) al] obtain ex h' s' where "add_thread t forceSwitch (h1, s1) = Some (ex, h', s')"
    by metis
  then show thesis using run1 that by (simp add: spawn_def)
qed

section \<open>Removing and reaping\<close>

lemma remove_thread_backed:
  assumes b: "backed h s R" and th: "threads s t = Some th" "t \<noteq> 0" "state th \<noteq> Stopped"
  obtains k m where "(stack th, k) \<in> R"
    and "remove_thread t (h, s) = Some (h\<lparr>ram := m\<rparr>, s\<lparr>threads := (threads s)(t \<mapsto> th\<lparr>state := Stopped\<rparr>), mem := m\<rparr>)"
    and "backed (h\<lparr>ram := m\<rparr>) (s\<lparr>threads := (threads s)(t \<mapsto> th\<lparr>state := Stopped\<rparr>), mem := m\<rparr>) (R - {(stack th, k)})"
    and "\<And>r a. r \<in> R \<Longrightarrow> in_region a r \<Longrightarrow> m a = mem s a"
proof -
  note b = b [unfolded backed_def]
  have "objects s (Stack t) = Some (stack th, THREAD_STACK_SIZE)" using th by (simp add: objects_def)
  then obtain k m where k: "(stack th, k) \<in> R" "kernel_delete (stack th) (h, s) = Some (h\<lparr>ram := m\<rparr>, s\<lparr>mem := m\<rparr>)"
    "heap_holds (h\<lparr>ram := m\<rparr>) (R - {(stack th, k)})" "placed (R - {(stack th, k)}) ((objects s)(Stack t := None))"
    "\<And>q a. q \<in> R \<Longrightarrow> in_region a q \<Longrightarrow> m a = mem s a"
    using kernel_delete_object [of h s R "objects s" "Stack t"] b by metis
  have "kfree (stack th) (heap_of h s) = Some (h\<lparr>ram := m\<rparr>)"
    using k(2) by (auto simp: kernel_delete_def operator_delete_def elim!: bind_eq_SomeE)
  then have "remove_thread t (h, s) = Some (h\<lparr>ram := m\<rparr>, s\<lparr>threads := (threads s)(t \<mapsto> th\<lparr>state := Stopped\<rparr>), mem := m\<rparr>)"
    using th by (simp add: remove_thread_def RemoveThread_def)
  moreover have "objects (s\<lparr>threads := (threads s)(t \<mapsto> th\<lparr>state := Stopped\<rparr>)\<rparr>) = (objects s)(Stack t := None)"
    using th by (intro ext) (auto simp: objects_def split: role.split)
  then have "backed (h\<lparr>ram := m\<rparr>) (s\<lparr>threads := (threads s)(t \<mapsto> th\<lparr>state := Stopped\<rparr>), mem := m\<rparr>) (R - {(stack th, k)})"
    using b k(3,4) by (simp add: backed_def heap_of_def)
  ultimately show thesis using that k(1,5) by blast
qed

lemma reap_thread_backed:
  assumes b: "backed h s R" and tok: "threads_ok s ths" and t: "t \<in> set ths"
  obtains n j k m s' where "node_of t (thread_queue s) = Some n" and "(n, j) \<in> R" and "(t, k) \<in> R"
    and "reap_thread t (h, s) = Some (h\<lparr>ram := m\<rparr>, s')" and "mem s' = m" and "threads_ok s' (remove1 t ths)"
    and "threads s' = (threads s)(t := None)" and "dom (nodes s') = dom (nodes s) - {n}"
    and "backed (h\<lparr>ram := m\<rparr>) s' (R - {(n, j)} - {(t, k)})"
    and "\<And>r a. r \<in> R \<Longrightarrow> r \<noteq> (n, j) \<Longrightarrow> in_region a r \<Longrightarrow> m a = mem s a"
    and "heap_headers (h\<lparr>ram := m\<rparr>) \<subseteq> heap_headers (heap_of h s)"
    and "\<And>a. a \<notin> heap_headers (heap_of h s) \<Longrightarrow> m a = mem s a"
proof -
  note b = b [unfolded backed_def]
  obtain n ns q where q: "node_of t (thread_queue s) = Some n" "n \<in> dom (nodes s)" "Remove t (thread_queue s) = Some (ns, q)"
    "dom ns = dom (nodes s) - {n}"
    by (rule queue_holds_remove [OF threads_okD(1,2) [OF tok] t]) (use that in simp)
  obtain s1 where s1: "drop_thread t s = Some s1" "threads_ok s1 (remove1 t ths)" by (rule drop_thread_removes [OF tok])
  have eq: "s1 = s\<lparr>nodes := ns, threadsList := q, threads := (threads s)(t := None)\<rparr>"
    using s1(1) q(3) by (simp add: drop_thread_def)
  have h1: "heap_holds (heap_of h s1) R" using b by (simp add: heap_of_def eq)
  have "objects s (Node n) = Some (n, sizeof_queue_node)" using q(2) by (auto simp: objects_def)
  then obtain j m1 where 1: "(n, j) \<in> R" "kernel_delete n (h, s1) = Some (h\<lparr>ram := m1\<rparr>, s1\<lparr>mem := m1\<rparr>)"
    "heap_holds (h\<lparr>ram := m1\<rparr>) (R - {(n, j)})" "placed (R - {(n, j)}) ((objects s)(Node n := None))"
    "\<And>q a. q \<in> R \<Longrightarrow> in_region a q \<Longrightarrow> m1 a = mem s1 a"
    using kernel_delete_object [OF h1, of "objects s" "Node n"] b by metis
  have "((objects s)(Node n := None)) (Object t) = Some (t, sizeof_Thread)"
    using t tok by (auto simp: objects_def threads_ok_def)
  then obtain k m where 2: "(t, k) \<in> R - {(n, j)}"
    "kernel_delete t (h\<lparr>ram := m1\<rparr>, s1\<lparr>mem := m1\<rparr>) = Some (h\<lparr>ram := m1, ram := m\<rparr>, s1\<lparr>mem := m1, mem := m\<rparr>)"
    "heap_holds (h\<lparr>ram := m1, ram := m\<rparr>) (R - {(n, j)} - {(t, k)})"
    "placed (R - {(n, j)} - {(t, k)}) ((objects s)(Node n := None, Object t := None))"
    "\<And>q a. q \<in> R - {(n, j)} \<Longrightarrow> in_region a q \<Longrightarrow> m a = mem (s1\<lparr>mem := m1\<rparr>) a"
    using kernel_delete_object [of "h\<lparr>ram := m1\<rparr>" "s1\<lparr>mem := m1\<rparr>" "R - {(n, j)}" "(objects s)(Node n := None)" "Object t"] 1(3,4)
    by (metis heap_of_simps(2,3))
  have "objects s1 \<subseteq>\<^sub>m (objects s)(Node n := None, Object t := None)"
    using q(4) by (auto simp: map_le_def objects_def eq dom_def split: role.splits if_splits option.splits)
  then have "placed (R - {(n, j)} - {(t, k)}) (objects s1)" by (rule placed_mono [OF 2(4) order.refl])
  then have "backed (h\<lparr>ram := m\<rparr>) (s1\<lparr>mem := m\<rparr>) (R - {(n, j)} - {(t, k)})"
    using b 2(3) by (simp add: backed_def heap_of_def)
  moreover have "reap_thread t (h, s) = Some (h\<lparr>ram := m\<rparr>, s1\<lparr>mem := m\<rparr>)"
    using 1(2) 2(2) by (simp add: reap_thread_def q(1) s1(1))
  moreover have "m a = mem s a" if "r \<in> R" "r \<noteq> (n, j)" "in_region a r" for r a
    using 1(5) [of r a] 2(5) [of r a] that by (simp add: eq)
  moreover have "heap_holds (heap_of (h\<lparr>ram := m1\<rparr>) (s1\<lparr>mem := m1\<rparr>)) (R - {(n, j)})" using 1(3) by (simp add: heap_of_def)
  note h2 = kernel_delete_headers [OF this 2(1,2)] and h3 = kernel_delete_headers [OF h1 1(1,2)]
  moreover have "heap_headers (h\<lparr>ram := m\<rparr>) \<subseteq> heap_headers (heap_of h s)"
    using h2(1) h3(1) by (simp add: heap_of_def eq)
  moreover have "m a = mem s a" if "a \<notin> heap_headers (heap_of h s)" for a
    using h2(2) [of a] h3 that by (auto simp: heap_of_def eq)
  moreover have "threads_ok (s1\<lparr>mem := m\<rparr>) (remove1 t ths)" using s1(2) by (simp add: threads_ok_def)
  moreover have "dom (nodes (s1\<lparr>mem := m\<rparr>)) = dom (nodes s) - {n}" "threads (s1\<lparr>mem := m\<rparr>) = (threads s)(t := None)"
    using q(4) by (simp_all add: eq)
  moreover have "(t, k) \<in> R" using 2(1) by simp
  ultimately show thesis using that [OF q(1) 1(1)] by simp
qed

text \<open>Where the addresses are known.\<close>

lemma reap_last:
  assumes b: "backed h s (insert (node, j) (insert (t, k) R))" and tok: "threads_ok s (ths @ [t])"
    and node: "node_of t (thread_queue s) = Some node" and fresh: "t \<notin> fst ` R" "node \<notin> fst ` insert (t, k) R"
  obtains m s' where "reap_thread t (h, s) = Some (h\<lparr>ram := m\<rparr>, s')" and "mem s' = m" and "threads_ok s' ths"
    and "threads s' = (threads s)(t := None)" and "dom (nodes s') = dom (nodes s) - {node}" and "backed (h\<lparr>ram := m\<rparr>) s' R"
    and "\<And>r a. r \<in> R \<Longrightarrow> in_region a r \<Longrightarrow> m a = mem s a"
proof -
  let ?R = "insert (node, j) (insert (t, k) R)"
  have holds: "heap_holds (heap_of h s) ?R" using b by (simp add: backed_def)
  have tin: "t \<in> set (ths @ [t])" by simp
  obtain n i i' m s' where 1: "node_of t (thread_queue s) = Some n" "(n, i) \<in> ?R" "(t, i') \<in> ?R"
    "reap_thread t (h, s) = Some (h\<lparr>ram := m\<rparr>, s')" "mem s' = m" "threads_ok s' (remove1 t (ths @ [t]))"
    "threads s' = (threads s)(t := None)" "dom (nodes s') = dom (nodes s) - {n}"
    "backed (h\<lparr>ram := m\<rparr>) s' (?R - {(n, i)} - {(t, i')})"
    "\<And>r a. r \<in> ?R \<Longrightarrow> r \<noteq> (n, i) \<Longrightarrow> in_region a r \<Longrightarrow> m a = mem s a"
    by (rule reap_thread_backed [OF b tok tin]) (rule that)
  have n: "n = node" using 1(1) node by simp
  have i: "i = j" by (rule rheap.unique_law [OF holds, of node]) (use n 1(2) in simp_all)
  have i': "i' = k" by (rule rheap.unique_law [OF holds, of t]) (use 1(3) in simp_all)
  have "?R - {(node, j)} - {(t, k)} = R" using fresh by force
  then have "backed (h\<lparr>ram := m\<rparr>) s' R" using 1(9) by (simp only: n i i')
  moreover have "m a = mem s a" if "r \<in> R" "in_region a r" for r a
    using that fresh(2) by (intro 1(10) [of r]) (force simp: n)+
  moreover have "t \<notin> set ths" using threads_okD(2) [OF tok] by simp
  then have "remove1 t (ths @ [t]) = ths" by (simp add: remove1_append)
  ultimately show thesis using that [OF 1(4,5)] 1(6-8) n by simp
qed

section \<open>An empty system\<close>

text \<open>The heap as booting sets it up, with nothing allocated, and a scheduler without threads.\<close>

definition no_threads :: "gdt_state \<Rightarrow> memory \<Rightarrow> sched" where
  "no_threads g m = (demo_sched g Ready 0)\<lparr>nodes := Map.empty, threads := Map.empty, mem := m, threadsList := queue_init,
     currentThread := 0, enabled := False\<rparr>"

lemma no_threads_simps [simp]:
  "nodes (no_threads g m) = Map.empty" "threads (no_threads g m) = Map.empty" "mem (no_threads g m) = m"
  "threadsList (no_threads g m) = queue_init" "currentThread (no_threads g m) = 0" "\<not> enabled (no_threads g m)"
  "heap_of h (no_threads g (ram h)) = h" "objects (no_threads g m) = Map.empty" "gdts (no_threads g m) = g"
  by (simp_all add: no_threads_def heap_of_def objects_def demo_sched_def fun_eq_iff split: role.split)

lemma no_threads_ok: "sched_ok (no_threads g m) []"
  using qrep_init [of "Map.empty :: u32 nodes"]
  by (auto simp: sched_ok_def threads_ok_def queue_holds_def intro!: exI [of _ "[]"])

lemma empty_system:
  obtains h where "heap_ok h [Blk 0xC0400000 False 0xFFFFEC]" and "\<And>g. backed h (no_threads g (ram h)) {}" and "room h 10000"
proof -
  obtain h where h: "heap_ok h [Blk 0xC0400000 False 0xFFFFEC]"
    using Initialize_effect [of KERNEL_HEAP_START "KERNEL_HEAP_START + KERNEL_HEAP_SIZE" blank_heap]
    by (auto simp: PAGE_SIZE_def KERNEL_HEAP_START_def KERNEL_HEAP_SIZE_def)
  have "heap_holds h {}" using h by (auto simp: heap_holds_def)
  moreover have "startAddress h = KERNEL_HEAP_START" using h by (simp add: heap_ok_def KERNEL_HEAP_START_def)
  moreover have "room h 10000" using h by (auto simp: room_def)
  ultimately show thesis using that [OF h] by (simp add: backed_def placed_def)
qed

section \<open>Properties\<close>

text \<open>
  C6. The life of a thread leaves no trace in memory: creating a thread and handing it over, then
  \<open>RemoveThread\<close>, then the removal from the scheduler's list, gives back exactly the regions that were
  allocated (object, stack, queue node), changes no word of any region that was live before, and leaves
  the scheduler with the threads it had. Were the thread taken off the list and deleted without \<open>RemoveThread\<close>, which the
  scheduler does to no thread that has not stopped, the object and the node would come back,
  but the stack would stay allocated for good, with nothing left that points to it.
\<close>

theorem thread_life_returns_memory:
  assumes "backed h s R" and "threads_ok s ths" and "forceSwitch \<longrightarrow> kernel_parent s par"
    and "spawn entryPoint isKernel par forceSwitch (h, s) = Some (t, ex, k1)"
  shows "(\<exists>k2 h3 s3. remove_thread t k1 = Some k2 \<and> reap_thread t k2 = Some (h3, s3) \<and>
      backed h3 s3 R \<and> threads_ok s3 ths \<and> threads s3 = threads s \<and> dom (nodes s3) = dom (nodes s) \<and>
      (\<forall>r\<in>R. \<forall>a. in_region a r \<longrightarrow> mem s3 a = mem s a)) \<and>
    (\<exists>h4 s4 l. reap_thread t k1 = Some (h4, s4) \<and> threads s4 = threads s \<and> 4096 \<le> l \<and>
      (let lost = (stack (the (threads (snd k1) t)), l) in lost \<notin> R \<and> backed h4 s4 (insert lost R)))"
proof -
  obtain h1 s1 where k1: "k1 = (h1, s1)" by (cases k1)
  obtain th m ns q node k l j where 1: "s1 = spawned forceSwitch t th m ns q s" "state th = Ready"
    "t \<notin> fst ` R" "stack th \<notin> fst ` insert (t, k) R" "node \<notin> fst ` insert (stack th, l) (insert (t, k) R)"
    "THREAD_STACK_SIZE \<le> l" "queue_holds (ns, q) (ths @ [t])"
    "dom ns = insert node (dom (nodes s))" "backed h1 s1 (insert (node, j) (insert (stack th, l) (insert (t, k) R)))"
    "\<And>r a. r \<in> R \<Longrightarrow> in_region a r \<Longrightarrow> m a = mem s a" "t \<notin> set ths" "node_of t (ns, q) = Some node"
    by (rule spawn_backed [OF assms(1,2) assms(4) [unfolded k1] assms(3)]) (rule that)
  let ?R1 = "insert (node, j) (insert (stack th, l) (insert (t, k) R))"
  have holds1: "heap_holds (heap_of h1 s1) ?R1" using 1(9) by (simp add: backed_def)
  have t0: "t \<noteq> 0" using region_bounds(1) [OF holds1, of t k] by auto
  note tn = fresh_object(1) [OF assms(1) 1(3)]
  have nn: "node \<notin> dom (nodes s)" by (rule fresh_object(2) [OF assms(1)]) (use 1(5) in auto)
  have th1: "threads s1 t = Some th" and q1: "thread_queue s1 = (ns, q)" by (simp_all add: 1(1))
  have tok1: "threads_ok s1 (ths @ [t])" using assms(2) 1(7,11) t0 by (auto simp: threads_ok_def 1(1))
  have fresh: "t \<notin> fst ` R" "node \<notin> fst ` insert (t, k) R" "t \<notin> fst ` insert (stack th, l) R"
    "node \<notin> fst ` insert (t, k) (insert (stack th, l) R)" using 1(3-5) by auto
  have running: "state th \<noteq> Stopped" using 1(2) by simp
  let ?stop = "\<lambda>m. s1\<lparr>threads := (threads s1)(t \<mapsto> th\<lparr>state := Stopped\<rparr>), mem := m\<rparr>"
  obtain l' m2 where 2: "(stack th, l') \<in> ?R1" "remove_thread t (h1, s1) = Some (h1\<lparr>ram := m2\<rparr>, ?stop m2)"
    "backed (h1\<lparr>ram := m2\<rparr>) (?stop m2) (?R1 - {(stack th, l')})"
    "\<And>r a. r \<in> ?R1 \<Longrightarrow> in_region a r \<Longrightarrow> m2 a = mem s1 a"
    by (rule remove_thread_backed [OF 1(9) th1 t0 running]) (rule that)
  let ?s2 = "?stop m2"
  have "l' = l" by (rule rheap.unique_law [OF holds1 2(1)]) simp
  moreover have "?R1 - {(stack th, l)} = insert (node, j) (insert (t, k) R)" using 1(4,5) by force
  ultimately have b2: "backed (h1\<lparr>ram := m2\<rparr>) ?s2 (insert (node, j) (insert (t, k) R))" using 2(3) by simp
  have tok2: "threads_ok ?s2 (ths @ [t])" using tok1 by (auto simp: threads_ok_def)
  have node: "node_of t (thread_queue ?s2) = Some node" "node_of t (thread_queue s1) = Some node" using 1(12) by (simp_all add: 1(1))
  obtain m3 s3 where 3: "reap_thread t (h1\<lparr>ram := m2\<rparr>, ?s2) = Some (h1\<lparr>ram := m2, ram := m3\<rparr>, s3)" "mem s3 = m3" "threads_ok s3 ths"
    "threads s3 = (threads ?s2)(t := None)" "dom (nodes s3) = dom (nodes ?s2) - {node}" "backed (h1\<lparr>ram := m2, ram := m3\<rparr>) s3 R"
    "\<And>r a. r \<in> R \<Longrightarrow> in_region a r \<Longrightarrow> m3 a = mem ?s2 a"
    by (rule reap_last [OF b2 tok2 node(1) fresh(1,2)]) (rule that)
  have mem3: "mem s3 a = mem s a" if r: "r \<in> R" "in_region a r" for r a
    using 3(7) [OF r] 2(4) [of r a] 1(10) [OF r] r by (simp add: 3(2) 1(1))
  have b1: "backed h1 s1 (insert (node, j) (insert (t, k) (insert (stack th, l) R)))" using 1(9) by (simp add: insert_commute)
  obtain m4 s4 where 4: "reap_thread t (h1, s1) = Some (h1\<lparr>ram := m4\<rparr>, s4)" "threads s4 = (threads s1)(t := None)"
    "backed (h1\<lparr>ram := m4\<rparr>) s4 (insert (stack th, l) R)"
    by (rule reap_last [OF b1 tok1 node(2) fresh(3,4)]) (rule that)
  have same: "threads s3 = threads s" "threads s4 = threads s" "dom (nodes s3) = dom (nodes s)" "4096 \<le> l"
    using tn 3(4,5) 4(2) 1(6,8) nn by (auto simp: 1(1) fun_eq_iff THREAD_STACK_SIZE_def)
  have "(stack th, l) \<notin> R" "stack (the (threads (snd k1) t)) = stack th" using 1(4) by (force simp: k1 th1)+
  then have "let lost = (stack (the (threads (snd k1) t)), l) in lost \<notin> R \<and> backed (h1\<lparr>ram := m4\<rparr>) s4 (insert lost R)"
    using 4(3) by simp
  with 2(2) 3(1,3,6) 4(1) mem3 same show ?thesis unfolding k1 by blast
qed

theorem thread_life_returns_memory_witness:
  "\<forall>g. \<exists>h t ex k1 k2 h3 s3. spawn 0xC0101000 True 0 False (h, no_threads g (ram h)) = Some (t, ex, k1) \<and>
     remove_thread t k1 = Some k2 \<and> reap_thread t k2 = Some (h3, s3) \<and> backed h3 s3 {} \<and> threads s3 = Map.empty"
proof
  fix g
  obtain h where h: "backed h (no_threads g (ram h)) {}" "room h 10000" by (rule empty_system) (rule that)
  have tok: "threads_ok (no_threads g (ram h)) []" using no_threads_ok by (simp add: sched_ok_def)
  have "room (heap_of h (no_threads g (ram h))) 4216" using h(2) by (simp add: room_mono)
  then obtain t ex h' s' where sp: "spawn 0xC0101000 True 0 False (h, no_threads g (ram h)) = Some (t, ex, h', s')"
    by (rule spawn_returns [OF h(1) tok _ disjI1 [OF refl], of False "0xC0101000" True]) (simp_all add: that)
  have "False \<longrightarrow> kernel_parent (no_threads g (ram h)) 0" by simp
  note life = thread_life_returns_memory [OF h(1) tok this sp, THEN conjunct1]
  obtain k2 h3 s3 where life: "remove_thread t (h', s') = Some k2" "reap_thread t k2 = Some (h3, s3)" "backed h3 s3 {}"
    "threads s3 = Map.empty"
    using life by (elim conjE exE) (rule that; simp)
  show "\<exists>h t ex k1 k2 h3 s3. spawn 0xC0101000 True 0 False (h, no_threads g (ram h)) = Some (t, ex, k1) \<and>
     remove_thread t k1 = Some k2 \<and> reap_thread t k2 = Some (h3, s3) \<and> backed h3 s3 {} \<and> threads s3 = Map.empty"
    by (intro exI conjI) (rule sp life)+
qed

text \<open>
  C24. \<open>RemoveThread\<close> takes the stack away at once, also from the thread that runs on it: the thread
  stays current and goes on using the stack until the next switch, while the stack is free. When both
  neighbours are in use and no earlier block is large enough, the very next request of up to 4096
  bytes gets exactly this stack.
\<close>

theorem removed_stack_handed_out:
  assumes "heap_ok (heap_of h s) (xs @ Blk a True 4096 # ys)" and "xs = [] \<or> bused (last xs)" and "ys = [] \<or> bused (hd ys)"
    and "threads s t = Some th" and "t \<noteq> 0" and "stack th = a + 20"
    and "n \<le> 4096" and "list_all (\<lambda>b. bused b \<or> bsize b < align_up n 4) xs"
  shows "\<exists>h1 s1 h2 s2. remove_thread t (h, s) = Some (h1, s1) \<and> threads s1 t = Some (th\<lparr>state := Stopped\<rparr>) \<and>
    currentThread s1 = currentThread s \<and> kernel_malloc n (h1, s1) = Some (stack th, h2, s2)"
proof -
  let ?b = "Blk a True 4096" and ?f = "Blk a False 4096"
  obtain m where m: "heap_free (a + 20) (heap_of h s) = Inr (h\<lparr>ram := m\<rparr>)"
    "heap_ok (h\<lparr>ram := m\<rparr>) (release a (xs @ ?b # ys))"
    using heap_free_refines [OF assms(1)] by (metis blk.sel(1,2) heap_of_simps(4))
  have "laid_out (unat (startAddress (heap_of h s))) (xs @ ?b # ys) (unat (endAddress (heap_of h s)))"
    using assms(1) by (simp add: heap_ok_def heap_rep_def)
  then have "distinct (map badr (xs @ ?b # ys))" by (rule laid_out_distinct)
  then have "release a (xs @ ?b # ys) = xs @ absorb ?f ys" using release_here [of xs ?b ys] assms(2) by auto
  also have "absorb ?f ys = ?f # ys" using assms(3) by (cases ys) auto
  finally have ok: "heap_ok (h\<lparr>ram := m\<rparr>) (xs @ ?f # ys)" using m(2) by simp
  have "unat (align_up n 4) \<le> 4096"
  proof -
    have n: "unat n \<le> 4096" using assms(7) by (simp add: word_le_nat_alt)
    then have "(unat n + 3) mod 2 ^ 32 = unat n + 3" by simp
    moreover have "(unat n + 3) div 4 \<le> 1024" using n by linarith
    ultimately show ?thesis unfolding unat_align_up by simp
  qed
  then have "align_up n 4 \<le> bsize ?f" by (simp add: word_le_nat_alt)
  from alloc_blocks_first_fit [of xs "align_up n 4" ?f ys, OF _ _ this] assms(8) obtain bs where
    "alloc_blocks (align_up n 4) (xs @ ?f # ys) = Some (a + 20, bs)" by (auto simp: list_all_iff)
  then obtain m2 where m2: "kmalloc n (h\<lparr>ram := m\<rparr>) = Some (a + 20, h\<lparr>ram := m, ram := m2\<rparr>)"
    by (rule kmalloc_refines [OF ok])
  have "remove_thread t (h, s) = Some (h\<lparr>ram := m\<rparr>, s\<lparr>threads := (threads s)(t \<mapsto> th\<lparr>state := Stopped\<rparr>), mem := m\<rparr>)"
    using m(1) assms(4-6) by (simp add: remove_thread_def RemoveThread_def kfree_def)
  then show ?thesis using m2 assms(6) by (simp add: kernel_malloc_def heap_of_def)
qed

theorem removed_stack_handed_out_witness:
  "\<forall>g. \<exists>h s h1 s1 h2 s2. currentThread s = 0xC0500000 \<and> remove_thread 0xC0500000 (h, s) = Some (h1, s1) \<and>
     kernel_malloc 32 (h1, s1) = Some (0xC0400014, h2, s2)"
proof
  fix g
  obtain h0 where h0: "heap_ok h0 [Blk 0xC0400000 False 0xFFFFEC]" by (rule empty_system)
  have "alloc_blocks (align_up 4096 4) [Blk 0xC0400000 False 0xFFFFEC] =
      Some (0xC0400014, [Blk 0xC0400000 True 4096, Blk 0xC0401014 False 0xFFEFD8])" by (simp add: align_up_def)
  then obtain m1 where 1: "heap_ok (h0\<lparr>ram := m1\<rparr>) [Blk 0xC0400000 True 4096, Blk 0xC0401014 False 0xFFEFD8]"
    by (rule kmalloc_refines [OF h0])
  have "alloc_blocks (align_up 12 4) [Blk 0xC0400000 True 4096, Blk 0xC0401014 False 0xFFEFD8] =
      Some (0xC0401028, [Blk 0xC0400000 True 4096, Blk 0xC0401014 True 12, Blk 0xC0401034 False 0xFFEFB8])"
    by (simp add: align_up_def)
  then obtain m2 where 2: "heap_ok (h0\<lparr>ram := m1, ram := m2\<rparr>)
      [Blk 0xC0400000 True 4096, Blk 0xC0401014 True 12, Blk 0xC0401034 False 0xFFEFB8]"
    by (rule kmalloc_refines [OF 1])
  let ?th = "(demo_thread 0xC0400014)\<lparr>stack := 0xC0400014\<rparr>"
  let ?s = "(no_threads g m2)\<lparr>threads := [0xC0500000 \<mapsto> ?th], currentThread := 0xC0500000\<rparr>"
  have "heap_of h0 ?s = h0\<lparr>ram := m1, ram := m2\<rparr>" by (simp add: heap_of_def)
  then have "heap_ok (heap_of h0 ?s) ([] @ Blk 0xC0400000 True 4096 # [Blk 0xC0401014 True 12, Blk 0xC0401034 False 0xFFEFB8])"
    using 2 by simp
  from removed_stack_handed_out [OF this, of "0xC0500000" ?th 32]
  obtain h1 s1 h2 s2 where "remove_thread 0xC0500000 (h0, ?s) = Some (h1, s1)" "kernel_malloc 32 (h1, s1) = Some (0xC0400014, h2, s2)"
    by auto
  moreover have "currentThread ?s = 0xC0500000" by simp
  ultimately show "\<exists>h s h1 s1 h2 s2. currentThread s = 0xC0500000 \<and> remove_thread 0xC0500000 (h, s) = Some (h1, s1) \<and>
     kernel_malloc 32 (h1, s1) = Some (0xC0400014, h2, s2)"
    by blast
qed

end
