(* ===== verification/OS_Multitask.thy ===== *)
theory OS_Multitask
  imports OS_Spawn
begin

text \<open>
  Threads, memory and interrupts together: what the invariants of the heap (OS_Regions, OS_Spawn) and of
  the machine (OS_Preempt) give when threads are created while others run.

  \<^item> \<open>machine_ok_joins\<close>: a thread with a stack of its own and a first frame on it joins the machine.
  \<^item> \<open>system_step\<close>: timer interrupts, the current thread's own instructions, and, with interrupts masked,
    allocations, deletions, new threads, sleeping and waking, while no thread stops.
    \<open>system_ok\<close> is its invariant. An interrupt in the middle of an operation of the heap or of the scheduler
    is not a step; what it can do to an allocation is shown at the end of OS_Regions.
  \<^item> The first thread takes the processor from an idle machine, in particular from the one that the models of
    booting lead to.
\<close>

unbundle bit_operations_syntax

section \<open>Joining the machine\<close>

definition with_sched :: "sched \<Rightarrow> machine \<Rightarrow> machine" where
  "with_sched s M = M\<lparr>mpit := (mpit M)\<lparr>sched_obj := s\<rparr>\<rparr>"

lemma with_sched_simps [simp]:
  "msched (with_sched s M) = s" "mcpu (with_sched s M) = mcpu M" "midt (with_sched s M) = midt M"
  "device_ok pe (with_sched s M) = device_ok pe M"
  by (simp_all add: with_sched_def device_ok_def)

lemma machine_ok_joins:
  assumes ok: "machine_ok pe M ths" and t: "t \<notin> set ths" "t \<noteq> 0" and q: "queue_holds (thread_queue s) (ths @ [t])"
    and th: "threads s = (threads (msched M))(t \<mapsto> th)" "state th \<noteq> Started" "parent th \<noteq> 0 \<Longrightarrow> parent th \<in> dom (procs s)"
    and stk: "unat KERNEL_HEAP_START \<le> unat (stack th)" "unat (stack th) + 4096 < 2 ^ 32"
      "\<And>u. u \<in> set ths \<Longrightarrow> stack_of M u + 4096 \<le> unat (stack th) \<or> unat (stack th) + 4096 \<le> stack_of M u"
    and fit: "frame_fits (unat (stack th)) True (regsPtr th)"
    and same: "procs s = procs (msched M)" "gdts s = gdts (msched M)" "currentThread s = currentThread (msched M)"
    and mem: "\<And>u a. u \<in> set ths \<Longrightarrow> in_stack M u a \<Longrightarrow> mem s a = mem (msched M) a"
  shows "machine_ok pe (with_sched s M) (ths @ [t])" and "u \<in> set ths \<Longrightarrow> thread_view (with_sched s M) u = thread_view M u"
proof -
  let ?M = "with_sched s M" and ?c = "currentThread (msched M)"
  note o = ok [unfolded machine_ok_def]
  have tok: "threads_ok (msched M) ths" and cin: "?c \<in> set ths" using o by (auto simp: sched_ok_def)
  have of: "thread_of ?M u = (if u = t then th else thread_of M u)" "stack_of ?M u = (if u = t then unat (stack th) else stack_of M u)" for u
    by (simp_all add: thread_of_def stack_of_def th(1))
  have w: "mem s a = mem (msched M) a"
    if u: "u \<in> set ths" "u \<noteq> ?c" "a \<in> frame_words (mem (msched M)) (regsPtr (thread_of M u))" for u a
  proof -
    have f: "frame_fits (stack_of M u) (user_frame (mem (msched M)) (regsPtr (thread_of M u))) (regsPtr (thread_of M u))"
      "stack_of M u + 4096 < 2 ^ 32" using o u by (auto simp: stacks_ok_def)
    show ?thesis using frame_words_fit [OF f u(3)] by (intro mem [OF u(1)]) (simp add: in_stack_def)
  qed
  have ctx: "context_of ?M u = context_of M u" if u: "u \<in> set ths" for u
  proof (cases "u = ?c")
    case False
    then have "restore 0x10 (mem s) (regsPtr (thread_of M u)) = restore 0x10 (mem (msched M)) (regsPtr (thread_of M u))"
      using u by (intro restore_cong w)
    then show ?thesis using u t(1) False by (auto simp: context_of_def same of)
  qed (simp add: context_of_def same)
  show "thread_view ?M u = thread_view M u" if u: "u \<in> set ths" for u
    by (rule thread_view_eqI [OF ctx [OF u]]) (use u t(1) mem in \<open>auto simp: of live_word_def\<close>)
  have uf: "user_frame (mem s) (regsPtr (thread_of M u)) = user_frame (mem (msched M)) (regsPtr (thread_of M u))"
    if u: "u \<in> set ths" "u \<noteq> ?c" for u
  proof -
    have "regsPtr (thread_of M u) + reg_offset R_cs \<in> frame_words (mem (msched M)) (regsPtr (thread_of M u))"
      unfolding frame_words_def by blast
    from w [OF u this] show ?thesis by (simp add: user_frame_def get_reg_def)
  qed
  have "sched_ok s (ths @ [t])"
    using tok q t cin by (auto simp: sched_ok_def threads_ok_def th(1) same)
  moreover have "tstate s u \<noteq> Started \<and> enterable s u" if "u \<in> set (ths @ [t])" for u
    using o that th t(1) by (auto simp: tstate_def enterable_def same Let_def)
  moreover have "stacks_ok ?M (ths @ [t])"
    using o stk t(1) by (auto simp: stacks_ok_def of)
  moreover have "frame_fits (stack_of ?M u) (user_frame (mem s) (regsPtr (thread_of ?M u))) (regsPtr (thread_of ?M u))"
    if u: "u \<in> set (ths @ [t])" "u \<noteq> ?c" for u
  proof (cases "u = t")
    case True
    then show ?thesis using fit by (auto simp: of frame_fits_def split: if_splits)
  next
    case False
    then have "u \<in> set ths" using u by simp
    then show ?thesis using False o uf u by (simp add: of)
  qed
  moreover have "running_ok ?M (stack_of ?M ?c)"
    using o t(1) cin by (auto simp: running_ok_def of same)
  ultimately show "machine_ok pe ?M (ths @ [t])" using o same(3) by (simp add: machine_ok_def)
qed

section \<open>A thread more\<close>

text \<open>No thread has stopped.\<close>

definition running :: "sched \<Rightarrow> bool" where
  "running s \<longleftrightarrow> (\<forall>u th. threads s u = Some th \<longrightarrow> state th \<noteq> Stopped)"

lemma backed_stack:
  assumes "backed h s R" and "threads s u = Some th" and "state th \<noteq> Stopped"
  obtains k where "(stack th, k) \<in> R" and "THREAD_STACK_SIZE \<le> k"
proof -
  have "objects s (Stack u) = Some (stack th, THREAD_STACK_SIZE)" using assms(2,3) by (simp add: objects_def)
  then show thesis using assms(1) that unfolding backed_def by (meson placedD)
qed

lemma spawn_joins:
  assumes ok: "machine_ok pe M ths" and b: "backed h (msched M) R" and run: "running (msched M)"
    and sp: "spawn entryPoint isKernel par forceSwitch (h, msched M) = Some (t, ex, h', s')"
    and f: "forceSwitch \<longrightarrow> kernel_parent (msched M) par"
  obtains th R' where "machine_ok pe (with_sched s' M) (ths @ [t])" and "running s'"
    and "R \<subseteq> R'" and "backed h' s' R'" and "ex = (if forceSwitch then RaiseInt 0x20 else Done)" and "t \<notin> set ths"
    and "threads s' t = Some th" and "threads (msched M) t = None" and "context_of (with_sched s' M) t = fresh_cpu 0x10 (stack th) entryPoint isKernel"
    and "\<And>u. u \<in> set ths \<Longrightarrow> thread_view (with_sched s' M) u = thread_view M u"
    and "\<And>r a. r \<in> R \<Longrightarrow> in_region a r \<Longrightarrow> mem s' a = mem (msched M) a"
proof -
  let ?s = "msched M"
  note o = ok [unfolded machine_ok_def]
  have tok: "threads_ok ?s ths" using o by (simp add: sched_ok_def)
  obtain th m ns q node k l j where 1: "ex = (if forceSwitch then RaiseInt 0x20 else Done)"
    "s' = spawned forceSwitch t th m ns q ?s" "state th = Ready" "parent th = par" "regsPtr th = stack th + 4032"
    "par \<noteq> 0 \<Longrightarrow> par \<in> dom (procs ?s)"
    "t \<notin> fst ` R" "stack th \<notin> fst ` insert (t, k) R" "THREAD_STACK_SIZE \<le> l" "queue_holds (ns, q) (ths @ [t])"
    "backed h' s' (insert (node, j) (insert (stack th, l) (insert (t, k) R)))"
    "\<And>r a. r \<in> R \<Longrightarrow> in_region a r \<Longrightarrow> m a = mem ?s a"
    "\<And>ss. restore ss m (regsPtr th) = fresh_cpu ss (stack th) entryPoint isKernel" "t \<notin> set ths"
    by (rule spawn_backed [OF b tok sp f]) (rule that)
  let ?R = "insert (node, j) (insert (stack th, l) (insert (t, k) R))"
  have holds: "heap_holds (heap_of h' s') ?R" and start: "KERNEL_HEAP_START \<le> startAddress h'"
    using 1(11) by (simp_all add: backed_def)
  have t0: "t \<noteq> 0" using region_bounds(1) [OF holds, of t k] by auto
  have l: "4096 \<le> unat l" using 1(9) by (simp add: THREAD_STACK_SIZE_def word_le_nat_alt)
  have stk: "unat KERNEL_HEAP_START \<le> unat (stack th)" "unat (stack th) + 4096 < 2 ^ 32"
    using region_bounds [OF holds, of "stack th" l] start l by (simp_all add: word_le_nat_alt)
  have reg: "\<exists>i. (stack (thread_of M u), i) \<in> R \<and> 4096 \<le> unat i" if u: "u \<in> set ths" for u
  proof -
    obtain x where x: "threads ?s u = Some x" using threads_okD(5) [OF tok u] by blast
    then have "state x \<noteq> Stopped" using run by (auto simp: running_def)
    from backed_stack [OF b x this] show ?thesis
      using x by (auto simp: thread_of_def THREAD_STACK_SIZE_def word_le_nat_alt)
  qed
  have other: "stack_of M u + 4096 \<le> unat (stack th) \<or> unat (stack th) + 4096 \<le> stack_of M u" if u: "u \<in> set ths" for u
  proof -
    obtain i where i: "(stack (thread_of M u), i) \<in> R" "4096 \<le> unat i" using reg [OF u] by blast
    have "stack (thread_of M u) \<noteq> stack th" using i(1) 1(8) by force
    then have "disjoint_regions (stack (thread_of M u), i) (stack th, l)"
      using i(1) by (intro rheap.disjoint_law [OF holds]) simp_all
    then show ?thesis using i(2) l by (auto simp: disjoint_regions_def stack_of_def)
  qed
  have keep: "mem s' a = mem ?s a" if u: "u \<in> set ths" "in_stack M u a" for u a
  proof -
    obtain i where i: "(stack (thread_of M u), i) \<in> R" "4096 \<le> unat i" using reg [OF u(1)] by blast
    then have "in_region a (stack (thread_of M u), i)" using u(2) by (auto simp: in_region_def in_stack_def stack_of_def)
    then show ?thesis using 1(12) [OF i(1)] by (simp add: 1(2))
  qed
  have reg0: "regsPtr th = stack th + 4032" by (rule 1(5))
  have "unat (stack th + 4032) = unat (stack th) + 4032" using stk(2) by (intro trans [OF unat_plus_le]) simp_all
  then have fit: "frame_fits (unat (stack th)) True (regsPtr th)" by (simp add: frame_fits_def reg0)
  have q: "queue_holds (thread_queue s') (ths @ [t])" using 1(10) by (simp add: 1(2))
  have th: "threads s' = (threads ?s)(t \<mapsto> th)" "state th \<noteq> Started" "parent th \<noteq> 0 \<Longrightarrow> parent th \<in> dom (procs s')"
    using 1(3,4,6) by (simp_all add: 1(2))
  have same: "procs s' = procs ?s" "gdts s' = gdts ?s" "currentThread s' = currentThread ?s" by (simp_all add: 1(2))
  have joins: "machine_ok pe (with_sched s' M) (ths @ [t])"
    by (rule machine_ok_joins(1) [OF ok 1(14) t0 q th stk _ fit same]) (assumption | erule other | erule (1) keep)+
  have views: "thread_view (with_sched s' M) u = thread_view M u" if "u \<in> set ths" for u
    by (rule machine_ok_joins(2) [OF ok 1(14) t0 q th stk _ fit same _ that]) (assumption | erule other | erule (1) keep)+
  have "t \<noteq> currentThread ?s" using o 1(14) by (auto simp: sched_ok_def)
  then have "context_of (with_sched s' M) t = fresh_cpu 0x10 (stack th) entryPoint isKernel"
    using 1(13) by (simp add: context_of_def thread_of_def 1(2))
  moreover have "running s'" using run 1(3) by (auto simp: running_def th(1))
  moreover have "mem s' a = mem ?s a" if "r \<in> R" "in_region a r" for r a using 1(12) [OF that] by (simp add: 1(2))
  moreover have "threads s' t = Some th" by (simp add: th(1))
  moreover have "R \<subseteq> ?R" by blast
  ultimately show thesis by (intro that [of ?R th] joins views 1(1,11,14) fresh_object(1) [OF b 1(7)])
qed

section \<open>A timer interrupt\<close>

text \<open>What an interrupt may change of a thread, as far as the heap is concerned: nothing.\<close>

definition footprint :: "sched \<Rightarrow> u32 \<rightharpoonup> u32 \<times> bool" where
  "footprint s u = map_option (\<lambda>th. (stack th, state th = Stopped)) (threads s u)"

lemma objects_footprint: "footprint s' = footprint s \<Longrightarrow> nodes s' = nodes s \<Longrightarrow> objects s' = objects s"
proof
  fix r assume f: "footprint s' = footprint s" and n: "nodes s' = nodes s"
  have u: "map_option (\<lambda>th. (stack th, state th = Stopped)) (threads s' u) =
      map_option (\<lambda>th. (stack th, state th = Stopped)) (threads s u)" for u
    using fun_cong [OF f, of u] by (simp add: footprint_def)
  show "objects s' r = objects s r"
  proof (cases r)
    case (Object t)
    then show ?thesis using u [of t] by (cases "threads s t"; cases "threads s' t") (auto simp: objects_def)
  next
    case (Stack t)
    then show ?thesis using u [of t] by (cases "threads s t"; cases "threads s' t") (auto simp: objects_def)
  qed (simp add: objects_def n)
qed

lemma running_footprint: "footprint s' = footprint s \<Longrightarrow> running s' \<longleftrightarrow> running s"
proof -
  have "running s \<longleftrightarrow> (\<forall>u k. footprint s u \<noteq> Some (k, True))" for s
    by (auto simp: running_def footprint_def)
  then show "footprint s' = footprint s \<Longrightarrow> running s' \<longleftrightarrow> running s" by simp
qed

lemma footprint_store: "threads s u = Some th \<Longrightarrow> stack th' = stack th \<Longrightarrow> (state th' = Stopped \<longleftrightarrow> state th = Stopped) \<Longrightarrow>
    footprint (store_thread u th' s) = footprint s"
  by (auto simp: footprint_def store_thread_def)

lemma footprint_ticked: "footprint (ticked ths s) = footprint s"
  by (rule ext) (auto simp: footprint_def ticked_threads tick_def option.map_comp comp_def intro!: option.map_cong split: if_splits)

lemma enter_next_footprint:
  "enter_next t s = Some (ex, s') \<Longrightarrow> footprint s' = footprint s \<and> nodes s' = nodes s \<and> threadsList s' = threadsList s"
  by (auto simp: enter_next_def InitialThreadUserJump_def store_thread_def fetch_thread_def footprint_def fun_eq_iff Let_def
      elim!: bind_eq_SomeE split: if_splits)

lemma HandleInterrupt_footprint:
  assumes tok: "threads_ok s ths" and live: "running s" and h: "HandleInterrupt f s = Some (ex, s')"
  shows "footprint s' = footprint s \<and> nodes s' = nodes s \<and> threadsList s' = threadsList s"
proof -
  let ?t = "(ticked ths s)\<lparr>tickCount := 0\<rparr>"
  have t: "footprint (ticked ths s) = footprint s" by (rule footprint_ticked)
  have t2: "footprint ?t = footprint s" using t by (simp add: footprint_def fun_eq_iff)
  have nd: "nodes (ticked ths s) = nodes s" "threadsList (ticked ths s) = threadsList s"
    by (simp_all add: ticked_def tick_all_def)
  have ns: "state th \<noteq> Stopped" if "fetch_thread ?t u = Some th" for u th
    using running_footprint [OF t2] live that by (auto simp: running_def fetch_thread_def split: if_splits)
  consider "s' = ticked ths s \<or> s' = ?t" | "switch_from f ?t = Some (ex, s')"
    using h unfolding HandleInterrupt_cases [OF tok] by (auto split: if_splits)
  then show ?thesis
  proof cases
    case 1
    then show ?thesis using t t2 nd by auto
  next
    case 2
    then obtain n n' s1 s2 where n: "reap_stopped n ?t = Some (n', s1)" "leave_current f s1 = Some s2" "enter_next n' s2 = Some (ex, s')"
      by (auto simp: switch_from_def elim!: bind_eq_SomeE)
    have "s1 = ?t" using n(1) ns by (subst (asm) reap_stopped.simps) (auto elim!: bind_eq_SomeE split: if_splits)
    then have "s2 = ?t \<or> (\<exists>c. fetch_thread ?t (currentThread ?t) = Some c \<and> s2 = store_thread (currentThread ?t) (c\<lparr>regsPtr := f\<rparr>) ?t)"
      using n(2) ns [of "currentThread ?t"] by (auto simp: leave_current_def elim!: bind_eq_SomeE split: if_splits)
    then have "footprint s2 = footprint ?t \<and> nodes s2 = nodes ?t \<and> threadsList s2 = threadsList ?t"
      by (auto dest!: fetch_threadD intro!: footprint_store)
    then show ?thesis using enter_next_footprint [OF n(3)] t2 nd by simp
  qed
qed

lemma backed_tame:
  assumes "backed h s R" and "objects s' = objects s" and "tame (heap_of h s) R (mem s')"
  shows "backed h s' R" and "room (heap_of h s) n \<Longrightarrow> room (heap_of h s') n"
proof -
  have "(heap_of h s)\<lparr>ram := mem s'\<rparr> = heap_of h s'" by (simp add: heap_of_def)
  then show "backed h s' R" "room (heap_of h s) n \<Longrightarrow> room (heap_of h s') n"
    using assms tame_heap [of "heap_of h s" R "mem s'"] by (auto simp: backed_def)
qed

lemma current_in: "machine_ok pe M ths \<Longrightarrow> currentThread (msched M) \<in> set ths"
  by (auto simp: machine_ok_def sched_ok_def)

lemma machine_threads: "machine_ok pe M ths \<Longrightarrow> threads_ok (msched M) ths"
  by (simp add: machine_ok_def sched_ok_def)

lemma stack_region:
  assumes "machine_ok pe M ths" and "backed h (msched M) R" and "running (msched M)" and "u \<in> dom (threads (msched M))"
  obtains k where "(stack (thread_of M u), k) \<in> R" and "4096 \<le> unat k"
proof -
  obtain x where x: "threads (msched M) u = Some x" using assms(4) by blast
  then have "state x \<noteq> Stopped" using assms(3) by (auto simp: running_def)
  then obtain k where "(stack x, k) \<in> R" "THREAD_STACK_SIZE \<le> k" by (rule backed_stack [OF assms(2) x])
  then show thesis using that x by (simp add: thread_of_def THREAD_STACK_SIZE_def word_le_nat_alt)
qed

lemma timer_footprint:
  assumes "device_ok pe M" and "user_mode (mcpu M) \<longrightarrow> ucast (tss_ss0 (tss (gdts (msched M)))) = (0x10 :: u16)"
    and "user_mode (mcpu M) \<or> seg (mcpu M) SS = 0x10" and tok: "threads_ok (msched M) ths" and live: "running (msched M)"
    and run: "timer_interrupt pe M = Some (Inr M')"
  shows "objects (msched M') = objects (msched M)" and "running (msched M')"
proof -
  let ?s = "msched M"
  define f where "f = frame_at (tss (gdts ?s)) (mcpu M)"
  define m1 where "m1 = frame_memory 32 (tss (gdts ?s)) (mcpu M) (mem ?s)"
  note path = timer_interrupt_path [OF assms(1-3), folded f_def m1_def]
  obtain c1 p log where p: "sched_obj p = ?s\<lparr>mem := m1, sports := log\<rparr>"
    "timer_interrupt pe M = do {
      (ex, s) \<leftarrow> HandleInterrupt f (sched_obj p);
      cm \<leftarrow> leave_irq ex (c1, mem s);
      Some (Inr (set_mem cm (M\<lparr>mpit := p\<lparr>sched_obj := s\<rparr>\<rparr>)))
    }"
    by (rule path) (rule that)
  obtain ex s' cm where h: "HandleInterrupt f (sched_obj p) = Some (ex, s')" "msched M' = s'\<lparr>mem := snd cm\<rparr>"
    using run p(2) by (auto simp: set_mem_def elim!: bind_eq_SomeE)
  have same: "threads_ok (sched_obj p) ths" "running (sched_obj p)" "footprint (sched_obj p) = footprint ?s" "nodes (sched_obj p) = nodes ?s"
    using tok live by (simp_all add: p(1) threads_ok_def running_def footprint_def fun_eq_iff)
  note k = HandleInterrupt_footprint [OF same(1,2) h(1)]
  have fp: "footprint (msched M') = footprint ?s" "nodes (msched M') = nodes ?s"
    using k same(3,4) by (simp_all add: h(2) footprint_def fun_eq_iff)
  show "objects (msched M') = objects ?s" by (rule objects_footprint [OF fp])
  show "running (msched M')" using running_footprint [OF fp(1)] live by simp
qed

lemma timer_keeps_backed:
  assumes ok: "machine_ok pe M ths" and b: "backed h (msched M) R" and live: "running (msched M)"
    and run: "timer_interrupt pe M = Some (Inr M')"
  shows "backed h (msched M') R" and "running (msched M')" and "room (heap_of h (msched M)) n \<Longrightarrow> room (heap_of h (msched M')) n"
proof -
  let ?c = "currentThread (msched M)" and ?s = "msched M"
  have r: "running_ok M (stack_of M ?c)" and d: "device_ok pe M" using ok by (simp_all add: machine_ok_def)
  have ss: "user_mode (mcpu M) \<longrightarrow> ucast (tss_ss0 (tss (gdts ?s))) = (0x10 :: u16)" "user_mode (mcpu M) \<or> seg (mcpu M) SS = 0x10"
    using r by (auto simp: running_ok_def Let_def)
  note fp = timer_footprint [OF d ss machine_threads [OF ok] live run]
  show "running (msched M')" by (rule fp(2))
  have keep: "\<forall>a. \<not> stub_writes M a \<longrightarrow> mem (msched M') a = mem ?s a"
    by (rule timer_interrupt_keeps [OF ok run]) simp
  have "?c \<in> dom (threads ?s)" using current_in [OF ok] machine_threads [OF ok] by (auto simp: threads_ok_def)
  then obtain l where l: "(stack (thread_of M ?c), l) \<in> R" "4096 \<le> unat l" by (rule stack_region [OF ok b live])
  have "in_region a (stack (thread_of M ?c), l)" if "stub_writes M a" for a
    using that l(2) r by (auto simp: stub_writes_def in_region_def stack_of_def running_ok_def Let_def split: if_splits)
  then have t: "tame (heap_of h ?s) R (mem (msched M'))" using keep l(1) unfolding tame_def heap_of_simps by metis
  show "backed h (msched M') R" "room (heap_of h ?s) n \<Longrightarrow> room (heap_of h (msched M')) n"
    using backed_tame [OF b fp(1) t] by simp_all
qed

section \<open>Allocations while threads run\<close>

lemma memory_step:
  assumes ok: "machine_ok pe M ths"
    and same: "\<And>u a. u \<in> dom (threads (msched M)) \<Longrightarrow> in_stack M u a \<Longrightarrow> m a = mem (msched M) a"
  shows "machine_ok pe (with_sched ((msched M)\<lparr>mem := m\<rparr>) M) ths"
    and "u \<in> set ths \<Longrightarrow> thread_view (with_sched ((msched M)\<lparr>mem := m\<rparr>) M) u = thread_view M u"
proof -
  have eq: "with_sched ((msched M)\<lparr>mem := m\<rparr>) M = set_mem (mcpu M, m) M" by (simp add: with_sched_def set_mem_def)
  have r: "running_ok M (stack_of M (currentThread (msched M)))" using ok by (simp add: machine_ok_def)
  then have own: "own_run M (mcpu M) m" using same by (auto simp: own_run_def running_ok_def)
  note o = own_run_ok [OF ok own, folded eq]
  show "machine_ok pe (with_sched ((msched M)\<lparr>mem := m\<rparr>) M) ths" by (rule o(1))
  assume u: "u \<in> set ths"
  then have d: "u \<in> dom (threads (msched M))" using machine_threads [OF ok] by (auto simp: threads_ok_def)
  show "thread_view (with_sched ((msched M)\<lparr>mem := m\<rparr>) M) u = thread_view M u"
  proof (rule thread_view_eqI)
    show "context_of (with_sched ((msched M)\<lparr>mem := m\<rparr>) M) u = context_of M u"
      using o(2) [OF u] by (cases "u = currentThread (msched M)") (simp_all add: context_of_def)
  qed (use same [OF d] in \<open>auto simp: stack_of_def thread_of_def live_word_def\<close>)
qed

text \<open>In particular when the heap's own words change.\<close>

lemma heap_words_step:
  assumes ok: "machine_ok pe M ths" and b: "backed h (msched M) R" and live: "running (msched M)"
    and same: "\<And>r a. r \<in> R \<Longrightarrow> in_region a r \<Longrightarrow> m a = mem (msched M) a"
  shows "machine_ok pe (with_sched ((msched M)\<lparr>mem := m\<rparr>) M) ths"
    and "u \<in> set ths \<Longrightarrow> thread_view (with_sched ((msched M)\<lparr>mem := m\<rparr>) M) u = thread_view M u"
proof -
  have w: "m a = mem (msched M) a" if u: "u \<in> dom (threads (msched M))" and a: "in_stack M u a" for u a
  proof -
    obtain k where k: "(stack (thread_of M u), k) \<in> R" "4096 \<le> unat k" by (rule stack_region [OF ok b live u])
    then show ?thesis using a by (intro same [OF k(1)]) (auto simp: in_region_def in_stack_def stack_of_def)
  qed
  show "machine_ok pe (with_sched ((msched M)\<lparr>mem := m\<rparr>) M) ths" by (rule memory_step(1) [OF ok]) (rule w)
  show "u \<in> set ths \<Longrightarrow> thread_view (with_sched ((msched M)\<lparr>mem := m\<rparr>) M) u = thread_view M u"
    by (rule memory_step(2) [OF ok]) (rule w)
qed

section \<open>The system\<close>

text \<open>
  The steps of heap and machine between two moments at which thread \<open>t\<close> has the processor, while no
  thread stops. The heap's operations are those of whoever runs; a region in which one of the kernel's objects
  lies is neither freed nor written to by others. What the model keeps outside of main memory (the fields of
  the scheduler, of threads and of queue nodes) changes through the kernel's operations only.

  An operation of the heap or the scheduler is one step. That is so when it runs with the interrupt flag
  clear, which is therefore a condition of these rules: the code has no other lock, and masks no interrupt itself
  in \<open>malloc\<close>, \<open>free\<close> and \<open>AddThread\<close>. It holds for handlers, for code after \<open>cli\<close>, and for the threads that
  \<open>CreateFromFunction\<close> makes, whose flags are 0. The rule \<open>timer\<close> has no such condition, since
  \<open>ForceSwitch\<close> raises the timer's interrupt by the instruction \<open>int\<close>, which is never masked.
\<close>

definition masked :: "machine \<Rightarrow> bool" where
  "masked M \<longleftrightarrow> eflags (mcpu M) AND IF_flag = 0"

definition spares_objects :: "sched \<Rightarrow> memory \<Rightarrow> bool" where
  "spares_objects s m \<longleftrightarrow> (\<forall>r p n a. objects s r = Some (p, n) \<longrightarrow> r \<noteq> Stack (currentThread s) \<longrightarrow> in_region a (p, n) \<longrightarrow>
     m a = mem s a)"

inductive system_step :: "u32 \<Rightarrow> u32 \<Rightarrow> heap \<times> machine \<Rightarrow> heap \<times> machine \<Rightarrow> bool" for pe t where
  timer: "timer_interrupt pe M = Some (Inr M') \<Longrightarrow> system_step pe t (h, M) (h, M')"
| other: "currentThread (msched M) \<noteq> t \<Longrightarrow> own_run M c m \<Longrightarrow> heap_holds (heap_of h (msched M)) R \<Longrightarrow>
    tame (heap_of h (msched M)) R m \<Longrightarrow> spares_objects (msched M) m \<Longrightarrow> system_step pe t (h, M) (h, set_mem (c, m) M)"
| wakes: "masked M \<Longrightarrow> threads (msched M) u = Some th \<Longrightarrow> st \<notin> {Started, Stopped} \<Longrightarrow>
    system_step pe t (h, M) (h, set_thread u (th\<lparr>state := st, blockedState := b, timeDelta := d\<rparr>) M)"
| alloc: "masked M \<Longrightarrow> kernel_malloc n (h, msched M) = Some (p, h', s') \<Longrightarrow> n \<le> 0xFFFFFFFC \<Longrightarrow>
    system_step pe t (h, M) (h', with_sched s' M)"
| free: "masked M \<Longrightarrow> heap_holds (heap_of h (msched M)) R \<Longrightarrow> (p, k) \<in> R \<Longrightarrow> p \<notin> fst ` ran (objects (msched M)) \<Longrightarrow>
    kernel_delete p (h, msched M) = Some (h', s') \<Longrightarrow> system_step pe t (h, M) (h', with_sched s' M)"
| thread: "masked M \<Longrightarrow> spawn entryPoint isKernel par forceSwitch (h, msched M) = Some (u, ex, h', s') \<Longrightarrow>
    (forceSwitch \<longrightarrow> kernel_parent (msched M) par) \<Longrightarrow> system_step pe t (h, M) (h', with_sched s' M)"

definition system_ok :: "u32 \<Rightarrow> heap \<Rightarrow> machine \<Rightarrow> u32 list \<Rightarrow> bool" where
  "system_ok pe h M ths \<longleftrightarrow> machine_ok pe M ths \<and> running (msched M) \<and> (\<exists>R. backed h (msched M) R)"

lemma live_unique: "heap_holds h R \<Longrightarrow> heap_holds h R' \<Longrightarrow> R = R'"
  unfolding heap_holds_def using heap_ok_unique by blast

lemma alloc_step:
  assumes ok: "machine_ok pe M ths" and b: "backed h (msched M) R" and live: "running (msched M)"
    and run: "kernel_malloc n (h, msched M) = Some (p, h', s')" and n: "n \<le> 0xFFFFFFFC"
  shows "system_ok pe h' (with_sched s' M) ths" and "u \<in> set ths \<Longrightarrow> thread_view (with_sched s' M) u = thread_view M u"
proof -
  let ?s = "msched M"
  have b': "heap_holds (heap_of h ?s) R" "placed R (objects ?s)" "KERNEL_HEAP_START \<le> startAddress h"
    using b by (simp_all add: backed_def)
  obtain k m where 1: "s' = ?s\<lparr>mem := m\<rparr>" "h' = h\<lparr>ram := m\<rparr>" "heap_holds (h\<lparr>ram := m\<rparr>) (insert (p, k) R)"
    "\<And>q a. q \<in> R \<Longrightarrow> in_region a q \<Longrightarrow> m a = mem ?s a"
    by (rule kernel_malloc_object [OF b'(1,2) run n]) (rule that)
  have "placed (insert (p, k) R) (objects ?s)" by (rule placed_mono [OF b'(2)]) (simp_all add: subset_insertI)
  then have "backed h' s' (insert (p, k) R)" using 1(3) b'(3) by (simp add: backed_def 1(1,2))
  moreover have "running s'" using live by (simp add: running_def 1(1))
  moreover note heap_words_step(1) [OF ok b live 1(4)]
  ultimately show "system_ok pe h' (with_sched s' M) ths" by (auto simp: system_ok_def 1(1))
  show "u \<in> set ths \<Longrightarrow> thread_view (with_sched s' M) u = thread_view M u"
    unfolding 1(1) by (rule heap_words_step(2) [OF ok b live 1(4)])
qed

lemma free_step:
  assumes ok: "machine_ok pe M ths" and b: "backed h (msched M) R" and live: "running (msched M)"
    and p: "(p, k) \<in> R" "p \<notin> fst ` ran (objects (msched M))"
    and run: "kernel_delete p (h, msched M) = Some (h', s')"
  shows "system_ok pe h' (with_sched s' M) ths" and "u \<in> set ths \<Longrightarrow> thread_view (with_sched s' M) u = thread_view M u"
proof -
  let ?s = "msched M"
  have b': "heap_holds (heap_of h ?s) R" "placed R (objects ?s)" "KERNEL_HEAP_START \<le> startAddress h"
    using b by (simp_all add: backed_def)
  have one: "placed R [() \<mapsto> (p, 0)]" using p(1) by (auto simp: placed_def owns_def)
  obtain k' m where 1: "(p, k') \<in> R" "kernel_delete p (h, ?s) = Some (h\<lparr>ram := m\<rparr>, ?s\<lparr>mem := m\<rparr>)"
    "heap_holds (h\<lparr>ram := m\<rparr>) (R - {(p, k')})" "\<And>q a. q \<in> R \<Longrightarrow> in_region a q \<Longrightarrow> m a = mem ?s a"
    by (rule kernel_delete_object [OF b'(1) one, of "()" p 0]) (simp, rule that)
  have s': "s' = ?s\<lparr>mem := m\<rparr>" "h' = h\<lparr>ram := m\<rparr>" using run 1(2) by simp_all
  have "owns (R - {(p, k')}) q n" if "objects ?s r = Some (q, n)" for r q n
  proof -
    have "(q, n) \<in> ran (objects ?s)" using that by (rule ranI)
    then have "q \<noteq> p" using p(2) by force
    then show ?thesis using placedD [OF b'(2) that] unfolding owns_def by blast
  qed
  then have "placed (R - {(p, k')}) (objects ?s)" using placed_inj [OF b'(2)] unfolding placed_def by blast
  then have "backed h' s' (R - {(p, k')})" using 1(3) b'(3) by (simp add: backed_def s')
  moreover have "running s'" using live by (simp add: running_def s'(1))
  moreover note heap_words_step(1) [OF ok b live 1(4)]
  ultimately show "system_ok pe h' (with_sched s' M) ths" by (auto simp: system_ok_def s'(1))
  show "u \<in> set ths \<Longrightarrow> thread_view (with_sched s' M) u = thread_view M u"
    unfolding s'(1) by (rule heap_words_step(2) [OF ok b live 1(4)])
qed

lemma system_step_keeps:
  assumes "system_ok pe h M ths" and step: "system_step pe t (h, M) (h', M')"
  shows "\<exists>ths'. set ths \<subseteq> set ths' \<and> system_ok pe h' M' ths' \<and> (t \<in> set ths \<longrightarrow> thread_view M' t = thread_view M t)"
proof -
  obtain R where ok: "machine_ok pe M ths" and live: "running (msched M)" and b: "backed h (msched M) R"
    using assms(1) by (auto simp: system_ok_def)
  have tdom: "t \<in> set ths \<Longrightarrow> t \<in> dom (threads (msched M))" using machine_threads [OF ok] by (auto simp: threads_ok_def)
  show ?thesis
    using step
  proof cases
    case timer
    obtain ths' where 1: "machine_ok pe M' ths'" "set ths' \<subseteq> set ths" "\<And>u. u \<in> set ths - set ths' \<Longrightarrow> tstate (msched M) u = Stopped"
      "\<And>u. u \<in> set ths' \<Longrightarrow> thread_view M' u = thread_view M u"
      by (rule timer_keeps_views [OF ok timer(2)]) (rule that)
    have "tstate (msched M) u \<noteq> Stopped" if "u \<in> set ths" for u
      using live threads_okD(5) [OF machine_threads [OF ok] that] by (auto simp: running_def tstate_def)
    then have "set ths \<subseteq> set ths'" using 1(3) by blast
    moreover note timer_keeps_backed [OF ok b live timer(2)]
    ultimately show ?thesis using 1(1,4) timer(1) by (intro exI [of _ ths']) (auto simp: system_ok_def)
  next
    case (other c m Q)
    have "Q = R" using live_unique other(5) b by (auto simp: backed_def)
    then have "backed h (msched M') R"
      using backed_tame(1) [OF b, of "(msched M)\<lparr>mem := m\<rparr>"] other(2,6) by (simp add: set_mem_def)
    moreover have "running (msched M')" using live by (simp add: running_def other(2) set_mem_def)
    moreover have "machine_ok pe M' ths" using own_run_ok(1) [OF ok other(4)] other(2) by simp
    moreover have "t \<in> set ths \<longrightarrow> thread_view M' t = thread_view M t"
      using own_run_view [OF ok other(4)] other(2,3) by simp
    ultimately show ?thesis using other(1) by (intro exI [of _ ths]) (auto simp: system_ok_def)
  next
    case (wakes u th st b' d)
    have st: "st \<noteq> Started" using wakes(5) by simp
    note k = set_thread_ok [OF ok wakes(4) st, of b' d, folded wakes(2)]
    have th: "state th \<noteq> Stopped" using live wakes(4) by (auto simp: running_def)
    have "footprint (msched M') = footprint (msched M)"
      using wakes(4,5) th by (simp add: wakes(2) set_thread_def) (intro footprint_store, auto)
    moreover have "nodes (msched M') = nodes (msched M)" by (simp add: wakes(2) set_thread_def)
    ultimately have o: "objects (msched M') = objects (msched M)" "running (msched M')"
      using objects_footprint running_footprint live by blast+
    have "tame (heap_of h (msched M)) R (mem (msched M'))" by (simp add: k(4) tame_def)
    then have "backed h (msched M') R" by (rule backed_tame(1) [OF b o(1)])
    moreover have "thread_view M' t = thread_view M t" by (rule thread_view_eqI) (simp_all add: k)
    ultimately show ?thesis using k(1) o(2) wakes(1) by (intro exI [of _ ths]) (auto simp: system_ok_def)
  next
    case (alloc n p s')
    note a = alloc_step [OF ok b live alloc(3,4), folded alloc(1)]
    then show ?thesis by blast
  next
    case (free Q p k s')
    have "Q = R" using live_unique free(3) b by (auto simp: backed_def)
    note a = free_step [OF ok b live free(4) [unfolded this] free(5,6), folded free(1)]
    then show ?thesis by blast
  next
    case (thread entryPoint isKernel par forceSwitch u ex s')
    have M': "M' = with_sched s' M" using thread by blast
    obtain R' where 1: "machine_ok pe (with_sched s' M) (ths @ [u])" "running s'" "backed h' s' R'"
      "\<And>v. v \<in> set ths \<Longrightarrow> thread_view (with_sched s' M) v = thread_view M v"
      by (rule spawn_joins [OF ok b live thread(3,4)]) (rule that)
    then show ?thesis using M' by (intro exI [of _ "ths @ [u]"]) (auto simp: system_ok_def)
  qed
qed

lemma system_steps_keep:
  assumes "(system_step pe t)\<^sup>*\<^sup>* k k'" and "system_ok pe (fst k) (snd k) ths"
  shows "\<exists>ths'. set ths \<subseteq> set ths' \<and> system_ok pe (fst k') (snd k') ths' \<and>
    (t \<in> set ths \<longrightarrow> thread_view (snd k') t = thread_view (snd k) t)"
  using assms
proof (induction rule: rtranclp_induct)
  case (step k1 k2)
  then obtain ths1 where 1: "set ths \<subseteq> set ths1" "system_ok pe (fst k1) (snd k1) ths1"
    "t \<in> set ths \<longrightarrow> thread_view (snd k1) t = thread_view (snd k) t" by blast
  have "system_step pe t (fst k1, snd k1) (fst k2, snd k2)" using step.hyps(2) by simp
  from system_step_keeps [OF 1(2) this] 1 show ?case by (metis subsetD subset_trans)
qed auto

section \<open>The first thread\<close>

lemma below_stack_low: "60 \<le> unat (gpr c ESP) \<Longrightarrow> below_stack c a \<Longrightarrow> unat a < unat (gpr c ESP)"
proof -
  assume e: "60 \<le> unat (gpr c ESP)" and b: "below_stack c a"
  have u: "unat (gpr c ESP - 60) = unat (gpr c ESP) - 60" using e by (simp add: unat_minus_le word_le_nat_alt)
  have k: "unat (a - (gpr c ESP - 60)) < 60" using b by (simp add: below_stack_def word_less_nat_alt)
  then have "unat (a - (gpr c ESP - 60)) + unat (gpr c ESP - 60) < unat (gpr c ESP)" using u e by linarith
  moreover have "unat (a - (gpr c ESP - 60) + (gpr c ESP - 60)) = unat (a - (gpr c ESP - 60)) + unat (gpr c ESP - 60)"
    using calculation u32_lt [of "gpr c ESP"] by (intro unat_plus_le) simp
  ultimately show ?thesis by simp
qed

lemma first_HandleInterrupt:
  assumes tok: "threads_ok s [t]" and s: "currentThread s = 0" "tickCount s = 29" "enabled s"
    and th: "threads s t = Some th" "state th = Ready" "parent th \<noteq> 0 \<Longrightarrow> parent th \<in> dom (procs s)"
    and f: "f < KERNEL_HEAP_START"
  obtains s' where "HandleInterrupt f s = Some (Resume (regsPtr th), s')" and "sched_ok s' [t]" and "currentThread s' = t"
    and "threads s' t = Some th" and "mem s' = mem s" and "procs s' = procs s"
    and "tss_ss0 (tss (gdts s')) = 0x10" and "tss_esp0 (tss (gdts s')) = stack th + 4096"
proof -
  let ?s = "(ticked [t] s)\<lparr>tickCount := 0\<rparr>"
  have t: "threads ?s t = Some th" using th(1,2) by (simp add: ticked_threads)
  have st: "tstate ?s t = Ready" using t th(2) by (simp add: tstate_def)
  have ok: "sched_ok ?s [t]" using ticked_ok [OF tok] s(1) by (simp add: sched_ok_def threads_ok_def)
  have r: "t \<in> set [t]" "runnable ?s t" using st by (simp_all add: runnable_def)
  have e: "currentThread ?s \<noteq> 0 \<or> f < KERNEL_HEAP_START" using f by simp
  have ent: "\<forall>u\<in>set [t]. runnable ?s u \<longrightarrow> enterable ?s u" using t th by (simp add: enterable_def st Let_def)
  obtain ex s' ths' where sw: "switch_from f ?s = Some (ex, s')" "sched_ok s' ths'" "switched f ?s [t] ex s' ths'"
    using switch_from_switched [OF ok r e ent] by blast
  obtain Q ns q u where l: "switch_from f ?s = enter_next u (?s\<lparr>nodes := ns, threadsList := q, threads := left_thread f ?s |` (- Q)\<rparr>)"
    by (rule switch_from_leaves [OF ok r e]) (rule that)
  have h: "HandleInterrupt f s = Some (ex, s')" using sw(1) s by (simp add: HandleInterrupt_cases [OF tok])
  have "set ths' \<subseteq> set [t]" using switchedD(4) [OF sw(3)] by (metis filter_is_subset)
  then have c: "currentThread s' = t" "t \<in> set ths'" using switchedD(1) [OF sw(3)] by auto
  have "t \<noteq> 0" using tok by (auto simp: threads_ok_def)
  moreover have "\<not> user_start ?s t" using st by (simp add: user_start_def)
  ultimately have th': "threads s' t = Some th" using switchedD(6) [OF sw(3)] c t s(1) by (simp add: saved_def)
  have "ths' = [t]" using switchedD(4) [OF sw(3)] c(2) by (simp split: if_splits)
  moreover have "ex = Resume (regsPtr th) \<and> tss_ss0 (tss (gdts s')) = 0x10 \<and> tss_esp0 (tss (gdts s')) = stack th + 4096"
    using sw(3) c(1) th' \<open>\<not> user_start ?s t\<close> by (simp add: switched_def Let_def)
  moreover have "mem s' = mem s" using enter_next_mem [OF l [symmetric, unfolded sw(1)]] by simp
  moreover have "procs s' = procs s" using switchedD(7) [OF sw(3)] by simp
  ultimately show thesis using that [of s'] h sw(2) c(1) th' by simp
qed

text \<open>The idle machine of OS_System, with its heap, and with its stack below the heap.\<close>

definition idle_system :: "u32 \<Rightarrow> heap \<Rightarrow> machine \<Rightarrow> bool" where
  "idle_system pe h M \<longleftrightarrow> idle_ok pe M \<and> running (msched M) \<and> (\<exists>R. backed h (msched M) R) \<and>
     60 \<le> unat (gpr (mcpu M) ESP) \<and> gpr (mcpu M) ESP \<le> KERNEL_HEAP_START"

lemma idle_writes_tame:
  assumes "backed h s R" and "60 \<le> unat (gpr c ESP)" and "gpr c ESP \<le> KERNEL_HEAP_START"
    and "\<And>a. \<not> below_stack c a \<Longrightarrow> m a = mem s a"
  shows "tame (heap_of h s) R m"
proof -
  have "unat a < unat (startAddress h)" if "below_stack c a" for a
    using below_stack_low [OF assms(2) that] assms(1,3) by (simp add: backed_def word_le_nat_alt)
  then show ?thesis using assms(4) by (auto simp: tame_def)
qed

lemma idle_tick_system:
  assumes i: "idle_system pe h M" and r: "room (heap_of h (msched M)) n"
  shows "\<exists>M'. timer_interrupt pe M = Some (Inr M') \<and> idle_system pe h M' \<and> mcpu M' = mcpu M \<and>
    room (heap_of h (msched M')) n \<and> procs (msched M') = procs (msched M)"
proof -
  obtain R where b: "backed h (msched M) R" and live: "running (msched M)" and ok: "idle_ok pe M"
    and e: "60 \<le> unat (gpr (mcpu M) ESP)" "gpr (mcpu M) ESP \<le> KERNEL_HEAP_START"
    using i by (auto simp: idle_system_def)
  note o = ok [unfolded idle_ok_def]
  obtain M' where M': "timer_interrupt pe M = Some (Inr M')" "idle_ok pe M'" "mcpu M' = mcpu M"
    "\<forall>a. \<not> below_stack (mcpu M) a \<longrightarrow> mem (msched M') a = mem (msched M) a" "procs (msched M') = procs (msched M)"
    using idle_tick [OF ok] by blast
  have "device_ok pe M" "user_mode (mcpu M) \<longrightarrow> ucast (tss_ss0 (tss (gdts (msched M)))) = (0x10 :: u16)"
    "user_mode (mcpu M) \<or> seg (mcpu M) SS = 0x10" "threads_ok (msched M) []" using o by (simp_all add: sched_ok_def)
  note fp = timer_footprint [OF this live M'(1)]
  have t: "tame (heap_of h (msched M)) R (mem (msched M'))" by (rule idle_writes_tame [OF b e]) (use M'(4) in blast)
  have "backed h (msched M') R" "room (heap_of h (msched M')) n" using backed_tame [OF b fp(1) t] r by simp_all
  then show ?thesis using M'(1-3,5) fp(2) e by (intro exI [of _ M']) (auto simp: idle_system_def)
qed

lemma idle_ticks_system:
  "idle_system pe h M \<Longrightarrow> room (heap_of h (msched M)) r \<Longrightarrow> \<exists>M'. timer_interrupts n pe M = Some (Inr M') \<and>
     idle_system pe h M' \<and> mcpu M' = mcpu M \<and> room (heap_of h (msched M')) r \<and> procs (msched M') = procs (msched M)"
proof (induction n arbitrary: M)
  case (Suc n)
  then obtain M1 where 1: "timer_interrupt pe M = Some (Inr M1)" "idle_system pe h M1" "mcpu M1 = mcpu M"
    "room (heap_of h (msched M1)) r" "procs (msched M1) = procs (msched M)" using idle_tick_system by blast
  from Suc.IH [OF 1(2,4)] 1 show ?case by auto
qed simp

lemma fresh_cpu_facts:
  "flat (fresh_cpu ss stk entryPoint isKernel)" "user_mode (fresh_cpu ss stk entryPoint isKernel) \<longleftrightarrow> \<not> isKernel"
  "isKernel \<Longrightarrow> seg (fresh_cpu ss stk entryPoint isKernel) SS = ss"
  "isKernel \<Longrightarrow> gpr (fresh_cpu ss stk entryPoint isKernel) ESP = stk + 4088"
  by (simp_all add: flat_def user_mode_def fresh_cpu_def)

text \<open>The interrupt that takes the processor from the idle code for good.\<close>

lemma idle_enters:
  assumes ok: "idle_ok pe M" and e: "60 \<le> unat (gpr (mcpu M) ESP)" "gpr (mcpu M) ESP \<le> KERNEL_HEAP_START"
    and tok: "threads_ok s [t]" and s: "currentThread s = 0" "tickCount s = 29" "enabled s"
    and th: "threads s t = Some th" "state th = Ready" "parent th \<noteq> 0 \<Longrightarrow> parent th \<in> dom (procs s)"
    and stk: "unat KERNEL_HEAP_START \<le> unat (stack th)" "unat (stack th) + 4096 < 2 ^ 32"
    and regs: "regsPtr th = stack th + 4032"
    and re: "restore 0x10 (mem s) (regsPtr th) = fresh_cpu 0x10 (stack th) entryPoint isKernel"
  obtains M' where "timer_interrupt pe (with_sched s M) = Some (Inr M')" and "machine_ok pe M' [t]"
    and "currentThread (msched M') = t" and "mcpu M' = fresh_cpu 0x10 (stack th) entryPoint isKernel"
    and "thread_of M' t = th" and "\<And>a. \<not> below_stack (mcpu M) a \<Longrightarrow> mem (msched M') a = mem s a"
proof -
  let ?c = "mcpu M" and ?M = "with_sched s M" and ?cpu = "fresh_cpu 0x10 (stack th) entryPoint isKernel"
  let ?f = "frame_at (tss (gdts s)) ?c" and ?m = "frame_memory 32 (tss (gdts s)) ?c (mem s)"
  note o = ok [unfolded idle_ok_def]
  have fr: "?f = gpr ?c ESP - 56" using o by (simp add: frame_at_def)
  have m: "?m a = mem s a" if "\<not> below_stack ?c a" for a
    using that o by (intro frame_memory_outside) (simp add: below_stack_def fr)
  have dev: "device_ok pe ?M" "user_mode (mcpu ?M) \<longrightarrow> ucast (tss_ss0 (tss (gdts (msched ?M)))) = (0x10 :: u16)"
    "user_mode (mcpu ?M) \<or> seg (mcpu ?M) SS = 0x10" using o by simp_all
  note path = timer_interrupt_path [OF dev, unfolded with_sched_simps]
  obtain c1 p log where p: "seg c1 SS = 0x10" "sched_obj p = s\<lparr>mem := ?m, sports := log\<rparr>"
    "\<And>s'. device_ok pe (?M\<lparr>mpit := p\<lparr>sched_obj := s'\<rparr>\<rparr>)"
    "timer_interrupt pe ?M = do {
      (ex, s') \<leftarrow> HandleInterrupt ?f (sched_obj p);
      cm \<leftarrow> leave_irq ex (c1, mem s');
      Some (Inr (set_mem cm (?M\<lparr>mpit := p\<lparr>sched_obj := s'\<rparr>\<rparr>)))
    }"
    by (rule path) (rule that)
  have lo: "?f < KERNEL_HEAP_START"
    using e unfolding fr by (simp add: word_less_nat_alt word_le_nat_alt unat_minus_le)
  have q: "threads_ok (sched_obj p) [t]" "currentThread (sched_obj p) = 0" "tickCount (sched_obj p) = 29" "enabled (sched_obj p)"
    "threads (sched_obj p) t = Some th" "parent th \<noteq> 0 \<Longrightarrow> parent th \<in> dom (procs (sched_obj p))"
    using tok s th by (simp_all add: p(2) threads_ok_def)
  obtain s2 where s2: "HandleInterrupt ?f (sched_obj p) = Some (Resume (regsPtr th), s2)" "sched_ok s2 [t]" "currentThread s2 = t"
    "threads s2 t = Some th" "mem s2 = mem (sched_obj p)" "procs s2 = procs (sched_obj p)" "tss_ss0 (tss (gdts s2)) = 0x10"
    "tss_esp0 (tss (gdts s2)) = stack th + 4096"
    by (rule first_HandleInterrupt [OF q(1-5) th(2) q(6) lo]) (assumption, rule that)
  have m2: "mem s2 = ?m" using s2(5) by (simp add: p(2))
  have "unat (stack th + 4032) = unat (stack th) + 4032" using stk(2) by (intro trans [OF unat_plus_le]) simp_all
  then have fit: "frame_fits (unat (stack th)) (user_frame (mem s) (regsPtr th)) (regsPtr th)"
    by (simp add: frame_fits_def regs)
  have "?m a = mem s a" if "a \<in> frame_words (mem s) (regsPtr th)" for a
    using frame_words_fit(1) [OF fit stk(2) that] below_stack_low [OF e(1), of a] e(2) stk(1)
    by (intro m) (auto simp: word_le_nat_alt)
  then have "restore 0x10 ?m (regsPtr th) = ?cpu" unfolding re [symmetric] by (rule restore_cong)
  let ?M' = "set_mem (?cpu, ?m) (?M\<lparr>mpit := p\<lparr>sched_obj := s2\<rparr>\<rparr>)"
  have run: "timer_interrupt pe ?M = Some (Inr ?M')"
    by (simp add: p(4) s2(1) m2 leave_irq_def exec_irq_exit on_cpu_def set_gpr_def p(1) \<open>restore 0x10 ?m (regsPtr th) = ?cpu\<close>)
  have M': "mcpu ?M' = ?cpu" "msched ?M' = s2\<lparr>mem := ?m\<rparr>" by (simp_all add: set_mem_def)
  have tht: "thread_of ?M' t = th" "stack_of ?M' t = unat (stack th)" by (simp_all add: thread_of_def stack_of_def M' s2(4))
  have t0: "t \<noteq> 0" using tok by (auto simp: threads_ok_def)
  have top: "unat (stack th + 4096) = unat (stack th) + 4096" "unat (stack th + 4088) = unat (stack th) + 4088"
    using stk(2) by (auto intro!: trans [OF unat_plus_le])
  have "device_ok pe ?M'" using p(3) [of s2] by (simp add: set_mem_def device_ok_def)
  moreover have "sched_ok (msched ?M') [t]" using s2(2) by (simp add: M' sched_ok_def threads_ok_def)
  moreover have "tstate (msched ?M') t = Ready" "enterable (msched ?M') t"
    using s2(4,6) th by (simp_all add: M' tstate_def enterable_def p(2) Let_def)
  moreover have "stacks_ok ?M' [t]" using stk by (simp add: stacks_ok_def tht)
  moreover have "running_ok ?M' (unat (stack th))"
    using top unfolding running_ok_def M' by (auto simp: s2(7,8) fresh_cpu_facts)
  ultimately have "machine_ok pe ?M' [t]" using s2(3) t0 by (simp add: machine_ok_def M'(2) tht)
  then show thesis using that [of ?M'] run M' tht(1) s2(3) m by simp
qed

lemma first_thread:
  assumes i: "idle_system pe h M" and r: "room (heap_of h (msched M)) (4216 + n)"
    and par: "par = 0 \<or> par \<in> dom (procs (msched M))" "kernel_parent (msched M) par"
  obtains t h' s' M' where "spawn entryPoint isKernel par True (h, msched M) = Some (t, RaiseInt 0x20, h', s')"
    and "timer_interrupt pe (with_sched s' M) = Some (Inr M')" and "system_ok pe h' M' [t]" and "currentThread (msched M') = t"
    and "mcpu M' = fresh_cpu 0x10 (stack (thread_of M' t)) entryPoint isKernel" and "room (heap_of h' (msched M')) (4 + n)"
proof -
  let ?s = "msched M" and ?c = "mcpu M"
  obtain R where b: "backed h ?s R" and live: "running ?s" and ok: "idle_ok pe M"
    and e: "60 \<le> unat (gpr ?c ESP)" "gpr ?c ESP \<le> KERNEL_HEAP_START"
    using i by (auto simp: idle_system_def)
  note o = ok [unfolded idle_ok_def]
  have tok: "threads_ok ?s []" and c0: "currentThread ?s = 0" using o by (simp_all add: sched_ok_def)
  have r1: "room (heap_of h ?s) 4216" by (rule room_mono [OF r]) simp
  have f: "True \<longrightarrow> kernel_parent ?s par" using par(2) by simp
  obtain t ex h' s' where sp: "spawn entryPoint isKernel par True (h, ?s) = Some (t, ex, h', s')"
    by (rule spawn_returns [OF b tok r1 par(1) f]) (rule that)
  obtain th m ns q node k l j where 1: "ex = (if True then RaiseInt 0x20 else Done)" "s' = spawned True t th m ns q ?s"
    "state th = Ready" "parent th = par" "regsPtr th = stack th + 4032" "par \<noteq> 0 \<Longrightarrow> par \<in> dom (procs ?s)"
    "THREAD_STACK_SIZE \<le> l" "queue_holds (ns, q) ([] @ [t])"
    "backed h' s' (insert (node, j) (insert (stack th, l) (insert (t, k) R)))"
    "\<And>ss. restore ss m (regsPtr th) = fresh_cpu ss (stack th) entryPoint isKernel"
    "\<And>r. room (heap_of h ?s) (4216 + r) \<Longrightarrow> room (heap_of h' s') (4 + r)"
    by (rule spawn_backed [OF b tok sp f]) (rule that)
  let ?R = "insert (node, j) (insert (stack th, l) (insert (t, k) R))"
  have holds: "heap_holds (heap_of h' s') ?R" and start: "KERNEL_HEAP_START \<le> startAddress h'"
    using 1(9) by (simp_all add: backed_def)
  have t0: "t \<noteq> 0" using region_bounds(1) [OF holds, of t k] by auto
  have stk: "unat KERNEL_HEAP_START \<le> unat (stack th)" "unat (stack th) + 4096 < 2 ^ 32"
    using region_bounds [OF holds, of "stack th" l] start 1(7) by (simp_all add: word_le_nat_alt THREAD_STACK_SIZE_def)
  have live1: "running s'" using live 1(3) by (auto simp: running_def 1(2))
  have s': "threads_ok s' [t]" "currentThread s' = 0" "tickCount s' = 29" "enabled s'" "threads s' t = Some th"
    "parent th \<noteq> 0 \<Longrightarrow> parent th \<in> dom (procs s')"
    "restore 0x10 (mem s') (regsPtr th) = fresh_cpu 0x10 (stack th) entryPoint isKernel"
    using 1(4,6,8,10) t0 c0 by (simp_all add: threads_ok_def 1(2))
  obtain M' where M': "timer_interrupt pe (with_sched s' M) = Some (Inr M')" "machine_ok pe M' [t]"
    "currentThread (msched M') = t" "mcpu M' = fresh_cpu 0x10 (stack th) entryPoint isKernel"
    "thread_of M' t = th" "\<And>a. \<not> below_stack ?c a \<Longrightarrow> mem (msched M') a = mem s' a"
    by (rule idle_enters [OF ok e s'(1-5) 1(3) s'(6) stk 1(5) s'(7)]) (assumption, rule that)
  have "device_ok pe M" "user_mode ?c \<longrightarrow> ucast (tss_ss0 (tss (gdts s'))) = (0x10 :: u16)"
    "user_mode ?c \<or> seg ?c SS = 0x10" using o by simp_all
  note fp = timer_footprint [of pe "with_sched s' M", unfolded with_sched_simps, OF this s'(1) live1 M'(1)]
  note t = idle_writes_tame [OF 1(9) e M'(6)]
  have "backed h' (msched M') ?R" "room (heap_of h' (msched M')) (4 + n)"
    using backed_tame [OF 1(9) fp(1) t] 1(11) [OF r] by simp_all
  then show thesis using that [OF _ M'(1)] sp 1(1) M'(2-5) fp(2) by (auto simp: system_ok_def)
qed

section \<open>After booting\<close>

lemma booted_system:
  assumes "heap_ok (kheap k') boot_blocks" and "sched_init s = Some (ksched k')" and "threads s = Map.empty" and "nodes s = Map.empty"
    and idle: "idle_ok pe (booted_machine c (ram (kheap k')) k')" and "60 \<le> unat (gpr c ESP)" and "gpr c ESP \<le> KERNEL_HEAP_START"
  shows "idle_system pe (kheap k') (booted_machine c (ram (kheap k')) k')"
    and "room (heap_of (kheap k') (msched (booted_machine c (ram (kheap k')) k'))) 10000"
proof -
  let ?h = "kheap k'" and ?s = "msched (booted_machine c (ram (kheap k')) k')"
  have "Clear_from 0 (nodes s) = Some (nodes s)" using Clear_from_refines [of "nodes s" 0 "[]"] by simp
  then have the: "threads (the (sched_init s)) = threads s" "nodes (the (sched_init s)) = nodes s"
    using assms(4) by (simp_all add: sched_init_def Clear_def queue_init_def Let_def)
  then have s: "threads ?s = Map.empty" "nodes ?s = Map.empty"
    using assms(2-4) the by (simp_all add: booted_machine_def)
  have h: "heap_of ?h ?s = ?h" by (simp add: heap_of_def booted_machine_def)
  have "objects ?s = Map.empty" using s by (auto simp: objects_def fun_eq_iff split: role.split)
  moreover have "startAddress ?h = KERNEL_HEAP_START"
    using assms(1) by (simp add: heap_ok_def KERNEL_HEAP_START_def boot_blocks_def)
  ultimately have "backed ?h ?s (used_blocks boot_blocks)"
    using assms(1) h by (auto simp: backed_def placed_def heap_holds_def)
  then show "idle_system pe ?h (booted_machine c (ram ?h) k')"
    using idle assms(6,7) s by (auto simp: idle_system_def running_def booted_machine_def)
  show "room (heap_of ?h ?s) 10000" unfolding h using assms(1) by (auto simp: room_def boot_blocks_def)
qed

section \<open>Properties\<close>

text \<open>A system in which nothing has been created yet.\<close>

lemma demo_idle_system:
  obtains h M where "idle_system 0xC0101234 h M" and "room (heap_of h (msched M)) 10000"
proof -
  obtain h where h: "backed h (no_threads g (ram h)) {}" "room h 10000" for g by (rule empty_system) (rule that)
  let ?s = "no_threads undefined (ram h)" and ?D = "demo_machine undefined undefined 0"
  let ?M = "?D\<lparr>mcpu := demo_cpu 8, mpit := (mpit ?D)\<lparr>sched_obj := ?s\<rparr>\<rparr>"
  have "device_ok 0xC0101234 ?M" using demo_machine_ok by (simp add: machine_ok_def device_ok_def)
  then have "idle_system 0xC0101234 h ?M"
    using h(1) no_threads_ok demo_cpu_idles
    by (auto simp: idle_system_def idle_ok_def running_def demo_cpu_def KERNEL_HEAP_START_def KERNEL_VIRTUAL_OFFSET_def)
  then show thesis using that h(2) by simp
qed

text \<open>
  C4. The first thread takes over. On an idle machine (no thread, the scheduler not enabled, ring 0 with flat segments) with a
  well-formed heap above the stack in which one free block has 4216 bytes or more: any number of timer interrupts pass through stub, driver
  and scheduler and resume the idle code with every register as it was. If then a thread without parent or with a
  kernel process as its parent is created and handed to the scheduler with a forced switch, thread, stack and node are
  allocated, and the software interrupt that is raised comes out in the new thread: at its entry point, on its
  own stack, in its ring. The idle code is not resumed, nobody having saved it. From then on the invariant of heap,
  scheduler and machine holds.
\<close>

theorem first_thread_enters:
  assumes "idle_system pe h M" and "room (heap_of h (msched M)) 4216"
    and "par = 0 \<or> par \<in> dom (procs (msched M))" and "kernel_parent (msched M) par"
  shows "\<exists>M1. timer_interrupts n pe M = Some (Inr M1) \<and> mcpu M1 = mcpu M \<and>
    (\<exists>t h' s' M'. spawn entryPoint isKernel par True (h, msched M1) = Some (t, RaiseInt 0x20, h', s') \<and>
       timer_interrupt pe (with_sched s' M1) = Some (Inr M') \<and> system_ok pe h' M' [t] \<and>
       currentThread (msched M') = t \<and> mcpu M' = fresh_cpu 0x10 (stack (thread_of M' t)) entryPoint isKernel)"
proof -
  obtain M1 where 1: "timer_interrupts n pe M = Some (Inr M1)" "idle_system pe h M1" "mcpu M1 = mcpu M"
    "room (heap_of h (msched M1)) (4216 + 0)" "procs (msched M1) = procs (msched M)"
    using idle_ticks_system [OF assms(1), of "4216 + 0" n] assms(2) by auto
  have "par = 0 \<or> par \<in> dom (procs (msched M1))" "kernel_parent (msched M1) par"
    using assms(3,4) by (simp_all add: 1(5) kernel_parent_def)
  then obtain t h' s' M' where "spawn entryPoint isKernel par True (h, msched M1) = Some (t, RaiseInt 0x20, h', s')"
    "timer_interrupt pe (with_sched s' M1) = Some (Inr M')" "system_ok pe h' M' [t]" "currentThread (msched M') = t"
    "mcpu M' = fresh_cpu 0x10 (stack (thread_of M' t)) entryPoint isKernel"
    by (rule first_thread [OF 1(2,4)]) (rule that)
  then show ?thesis by (intro exI [of _ M1] exI [of _ t] exI [of _ h'] exI [of _ s'] exI [of _ M'] conjI 1(1,3))
qed

theorem first_thread_enters_witness:
  "\<exists>h M M1 t h' s' M'. timer_interrupts 100 0xC0101234 M = Some (Inr M1) \<and>
     spawn 0xC0102000 True 0 True (h, msched M1) = Some (t, RaiseInt 0x20, h', s') \<and>
     timer_interrupt 0xC0101234 (with_sched s' M1) = Some (Inr M') \<and> currentThread (msched M') = t \<and> eip (mcpu M') = 0xC0102000"
proof -
  obtain h M where 0: "idle_system 0xC0101234 h M" "room (heap_of h (msched M)) 10000" by (rule demo_idle_system)
  have r: "room (heap_of h (msched M)) 4216" by (rule room_mono [OF 0(2)]) simp
  have p: "kernel_parent (msched M) 0" by (simp add: kernel_parent_def)
  obtain M1 t h' s' M' where "timer_interrupts 100 0xC0101234 M = Some (Inr M1)"
    "spawn 0xC0102000 True 0 True (h, msched M1) = Some (t, RaiseInt 0x20, h', s')"
    "timer_interrupt 0xC0101234 (with_sched s' M1) = Some (Inr M')" "currentThread (msched M') = t"
    "mcpu M' = fresh_cpu 0x10 (stack (thread_of M' t)) 0xC0102000 True"
    using first_thread_enters [OF 0(1) r disjI1 [OF refl] p, of 100 "0xC0102000" True] by blast
  moreover from this(5) have "eip (mcpu M') = 0xC0102000" by (simp add: fresh_cpu_def)
  ultimately show ?thesis by blast
qed

text \<open>
  What the models of booting lead to is an idle machine as in the theorem above, when the reservations leave 4100 frames: a first thread
  without a parent takes over. The limits are those that OS_System states: the memory of the image, of the
  page tables and of the heap are apart.
\<close>

lemma boot_to_first_thread:
  assumes "directory_loaded (boot_pt_addr sy) (kvm k)" and "4096 dvd unat (boot_pt_addr sy)"
    and "0xC0000000 < boot_pt_addr sy" and "boot_pt_addr sy < 0xC0400000" and "pit_entry sy \<noteq> 0"
    and "info = boot_info_of (info_at rd (ebx + 0xC0000000))" and "map_lists rd (mbi info) rs"
    and "boot_pt_addr sy - 0xC0000000 < kernel_end 0 info"
    and "unat (kernel_end 0 info) div 4096 + unat (module_size rd info) div 4096 + 4100 \<le> available_blocks rs"
    and "\<forall>r\<in>set rs. rtype r \<noteq> 0x80000000" and "length (ktmp k) = 36"
    and "threads (ksched k) = Map.empty" and "nodes (ksched k) = Map.empty"
    and "flat c" and "\<not> user_mode c" and "seg c SS = 0x10" and "60 \<le> unat (gpr c ESP)" and "gpr c ESP \<le> KERNEL_HEAP_START"
  shows "\<exists>e k'. start dev sy eax ebx rd k = Some (e, k') \<and>
    (\<forall>n entryPoint isKernel. \<exists>M t h s M'.
       timer_interrupts n (pit_entry sy) (booted_machine c (ram (kheap k')) k') = Some (Inr M) \<and>
       spawn entryPoint isKernel 0 True (kheap k', msched M) = Some (t, RaiseInt 0x20, h, s) \<and>
       timer_interrupt (pit_entry sy) (with_sched s M) = Some (Inr M') \<and> system_ok (pit_entry sy) h M' [t] \<and>
       currentThread (msched M') = t \<and> mcpu M' = fresh_cpu 0x10 (stack (thread_of M' t)) entryPoint isKernel)"
proof -
  obtain e k' bs where k': "start dev sy eax ebx rd k = Some (e, k')" "heap_ok (kheap k') bs" "bs = boot_blocks"
    "kpit_sched k' = 0xC04000A0" "sched_ok (ksched k') []"
    "\<not> enabled (ksched k')" "boot_status k' = (True, pit_entry sy, e = Idle)" "sched_init (ksched k) = Some (ksched k')"
    using start_boots [OF assms(1-4,6-11), of dev eax] by blast
  let ?M = "booted_machine c (ram (kheap k')) k'" and ?pe = "pit_entry sy"
  have "kpit_sched k' \<noteq> 0" by (simp add: k'(4))
  then have i: "idle_ok ?pe ?M" by (intro booted_idle [OF k'(7) assms(5) _ k'(5,6) assms(14-16)])
  note b = booted_system [OF k'(2) [unfolded k'(3)] k'(8) assms(12,13) i assms(17,18)]
  have "\<exists>M t h s M'. timer_interrupts n ?pe ?M = Some (Inr M) \<and>
      spawn entryPoint isKernel 0 True (kheap k', msched M) = Some (t, RaiseInt 0x20, h, s) \<and>
      timer_interrupt ?pe (with_sched s M) = Some (Inr M') \<and> system_ok ?pe h M' [t] \<and>
      currentThread (msched M') = t \<and> mcpu M' = fresh_cpu 0x10 (stack (thread_of M' t)) entryPoint isKernel"
    for n entryPoint isKernel
  proof -
    obtain M where M: "timer_interrupts n ?pe ?M = Some (Inr M)" "idle_system ?pe (kheap k') M"
      "room (heap_of (kheap k') (msched M)) 10000" using idle_ticks_system [OF b] by blast
    have r: "room (heap_of (kheap k') (msched M)) (4216 + 0)" by (rule room_mono [OF M(3)]) simp
    have p: "kernel_parent (msched M) 0" by (simp add: kernel_parent_def)
    show ?thesis
      by (rule first_thread [OF M(2) r disjI1 [OF refl] p, of entryPoint isKernel]) (use M(1) in blast)
  qed
  with k'(1) show ?thesis by blast
qed

theorem boot_to_first_thread_witness:
  "\<forall>dev sy k. \<exists>k' M t h s M'. start dev (sy\<lparr>boot_pt_addr := 0xC0107000, pit_entry := 0xC0101234\<rparr>) 0x2BADB002 0x9500 three_gb_map
     (k\<lparr>kvm := (kvm k)\<lparr>phys := image_loaded\<rparr>, ktmp := replicate 36 NUL, ksched := no_threads (kgdt k) (\<lambda>_. 0)\<rparr>) = Some k' \<and>
     timer_interrupts 100 0xC0101234 (booted_machine (demo_cpu 8) (ram (kheap (snd k'))) (snd k')) = Some (Inr M) \<and>
     spawn 0xC0102000 True 0 True (kheap (snd k'), msched M) = Some (t, RaiseInt 0x20, h, s) \<and>
     timer_interrupt 0xC0101234 (with_sched s M) = Some (Inr M') \<and> eip (mcpu M') = 0xC0102000"
proof (intro allI)
  fix dev and sy :: symbols and k :: arch_kernel
  let ?k = "k\<lparr>kvm := (kvm k)\<lparr>phys := image_loaded\<rparr>, ktmp := replicate 36 NUL, ksched := no_threads (kgdt k) (\<lambda>_. 0)\<rparr>"
    and ?sy = "sy\<lparr>boot_pt_addr := 0xC0107000, pit_entry := 0xC0101234\<rparr>"
  have c: "boot_pt_addr ?sy = 0xC0107000" "phys (kvm ?k) = image_loaded" "pit_entry ?sy \<noteq> 0" "length (ktmp ?k) = 36"
    "threads (ksched ?k) = Map.empty" "nodes (ksched ?k) = Map.empty" by simp_all
  have e: "60 \<le> unat (gpr (demo_cpu 8) ESP)" "gpr (demo_cpu 8) ESP \<le> KERNEL_HEAP_START"
    by (simp_all add: demo_cpu_def KERNEL_HEAP_START_def KERNEL_VIRTUAL_OFFSET_def)
  note b = three_gb_conditions [OF c(1,2)]
  obtain e k' where k': "start dev ?sy 0x2BADB002 0x9500 three_gb_map ?k = Some (e, k')"
    "\<forall>n entryPoint isKernel. \<exists>M t h s M'.
       timer_interrupts n (pit_entry ?sy) (booted_machine (demo_cpu 8) (ram (kheap k')) k') = Some (Inr M) \<and>
       spawn entryPoint isKernel 0 True (kheap k', msched M) = Some (t, RaiseInt 0x20, h, s) \<and>
       timer_interrupt (pit_entry ?sy) (with_sched s M) = Some (Inr M') \<and> system_ok (pit_entry ?sy) h M' [t] \<and>
       currentThread (msched M') = t \<and> mcpu M' = fresh_cpu 0x10 (stack (thread_of M' t)) entryPoint isKernel"
    using boot_to_first_thread [OF b(1-4) c(3) b(5-9) c(4-6) demo_cpu_idles e, of dev "0x2BADB002"] by blast
  obtain M t h s M' where "timer_interrupts 100 0xC0101234 (booted_machine (demo_cpu 8) (ram (kheap k')) k') = Some (Inr M)"
    "spawn 0xC0102000 True 0 True (kheap k', msched M) = Some (t, RaiseInt 0x20, h, s)"
    "timer_interrupt 0xC0101234 (with_sched s M) = Some (Inr M')" "mcpu M' = fresh_cpu 0x10 (stack (thread_of M' t)) 0xC0102000 True"
    using k'(2) [rule_format, of 100 "0xC0102000" True] by auto
  with k'(1) show "\<exists>k' M t h s M'. start dev ?sy 0x2BADB002 0x9500 three_gb_map ?k = Some k' \<and>
      timer_interrupts 100 0xC0101234 (booted_machine (demo_cpu 8) (ram (kheap (snd k'))) (snd k')) = Some (Inr M) \<and>
      spawn 0xC0102000 True 0 True (kheap (snd k'), msched M) = Some (t, RaiseInt 0x20, h, s) \<and>
      timer_interrupt 0xC0101234 (with_sched s M) = Some (Inr M') \<and> eip (mcpu M') = 0xC0102000"
    by (intro exI [of _ "(e, k')"] exI [of _ M] exI [of _ t] exI [of _ h] exI [of _ s] exI [of _ M']) (simp add: fresh_cpu_def)
qed



end
