(* ===== verification/OS_Reaping.thy ===== *)
theory OS_Reaping
  imports OS_Multitask
begin

text \<open>
  The deletions inside a timer interrupt (scheduler.cpp, queue.h and heap.cpp together).

  \<^item> \<open>HandleInterrupt_freeing\<close> is \<open>HandleInterrupt\<close> with the \<open>delete\<close> of each thread that has stopped and of
    its queue node on the heap, in the order of the code.
  \<^item> It refines \<open>HandleInterrupt\<close>: it makes the same choices and leaves the same state but for the words of
    the heap's own headers, and exactly the regions of the threads and nodes removed come back.
\<close>

section \<open>Operations\<close>

partial_function (option) reap_stopped_freeing :: "u32 \<Rightarrow> heap \<times> sched \<Rightarrow> (u32 \<times> heap \<times> sched) option" where
  "reap_stopped_freeing nextThread k = do {
     th \<leftarrow> fetch_thread (snd k) nextThread;
     if state th = Stopped
     then do {
       k \<leftarrow> reap_thread nextThread k;
       nextThread \<leftarrow> GetNextReadyThread (snd k);
       reap_stopped_freeing nextThread k
     }
     else Some (nextThread, k)
   }"

definition leave_current_freeing :: "u32 \<Rightarrow> heap \<times> sched \<Rightarrow> (heap \<times> sched) option" where
  "leave_current_freeing esp = (\<lambda>(h, s). do {
     stopped \<leftarrow> (if currentThread s \<noteq> 0
                 then map_option (\<lambda>c. state c = Stopped) (fetch_thread s (currentThread s)) else Some False);
     if stopped then reap_thread (currentThread s) (h, s)
     else if esp \<ge> KERNEL_HEAP_START
     then do {
       c \<leftarrow> fetch_thread s (currentThread s);
       Some (h, store_thread (currentThread s) (c\<lparr>regsPtr := esp\<rparr>) s)
     }
     else Some (h, s)
   })"

definition switch_from_freeing :: "u32 \<Rightarrow> heap \<times> sched \<Rightarrow> (sched_exit \<times> heap \<times> sched) option" where
  "switch_from_freeing esp k = do {
     nextThread \<leftarrow> GetNextReadyThread (snd k);
     (nextThread, k) \<leftarrow> reap_stopped_freeing nextThread k;
     (h, s) \<leftarrow> leave_current_freeing esp k;
     (ex, s) \<leftarrow> enter_next nextThread s;
     Some (ex, h, s)
   }"

definition HandleInterrupt_freeing :: "u32 \<Rightarrow> heap \<times> sched \<Rightarrow> (sched_exit \<times> heap \<times> sched) option" where
  "HandleInterrupt_freeing esp = (\<lambda>(h, s). do {
     let s = s\<lparr>tickCount := tickCount s + 1\<rparr>;
     s \<leftarrow> (if \<not> switchForced s then ProcessSleepingThreads s else Some (s\<lparr>switchForced := False\<rparr>));
     if tickCount s = 30
     then do {
       let s = s\<lparr>tickCount := 0\<rparr>;
       if q_size (threadsList s) > 0 \<and> enabled s then switch_from_freeing esp (h, s) else Some (Resume esp, h, s)
     }
     else Some (Resume esp, h, s)
   })"

section \<open>What is removed\<close>

definition gone :: "sched \<Rightarrow> sched \<Rightarrow> u32 set" where
  "gone s s' = (dom (threads s) - dom (threads s')) \<union> (dom (nodes s) - dom (nodes s'))"

text \<open>\<open>s'\<close> with the memory \<open>m\<close> refines the step from \<open>s\<close>, whose live regions were \<open>R\<close>; only words of \<open>H\<close>,
  the headers of the heap at the beginning, may change.\<close>

definition freed :: "u32 set \<Rightarrow> (u32 \<times> u32) set \<Rightarrow> sched \<Rightarrow> heap \<Rightarrow> sched \<Rightarrow> memory \<Rightarrow> bool" where
  "freed H R s h s' m \<longleftrightarrow> dom (threads s') \<subseteq> dom (threads s) \<and> dom (nodes s') \<subseteq> dom (nodes s) \<and>
     backed h (s'\<lparr>mem := m\<rparr>) {r \<in> R. fst r \<notin> gone s s'} \<and>
     (\<forall>r\<in>R. fst r \<notin> gone s s' \<longrightarrow> (\<forall>a. in_region a r \<longrightarrow> m a = mem s a)) \<and>
     heap_headers (h\<lparr>ram := m\<rparr>) \<subseteq> H \<and> (\<forall>a. a \<notin> H \<longrightarrow> m a = mem s a)"

lemma freed_refl: "backed h s R \<Longrightarrow> heap_headers (h\<lparr>ram := mem s\<rparr>) \<subseteq> H \<Longrightarrow> freed H R s h s (mem s)"
  by (simp add: freed_def gone_def)

lemma freed_trans:
  assumes "freed H R s h1 s1 m1" and "freed H {r \<in> R. fst r \<notin> gone s s1} (s1\<lparr>mem := m1\<rparr>) h2 s2 m2"
  shows "freed H R s h2 s2 m2"
proof -
  have d: "dom (threads s2) \<subseteq> dom (threads s1)" "dom (threads s1) \<subseteq> dom (threads s)"
    "dom (nodes s2) \<subseteq> dom (nodes s1)" "dom (nodes s1) \<subseteq> dom (nodes s)" using assms by (simp_all add: freed_def)
  have g: "gone (s1\<lparr>mem := m1\<rparr>) s2 = gone s1 s2" by (simp add: gone_def)
  have "gone s s2 = gone s s1 \<union> gone s1 s2" using d by (auto simp: gone_def)
  then have eq: "{r \<in> {r \<in> R. fst r \<notin> gone s s1}. fst r \<notin> gone s1 s2} = {r \<in> R. fst r \<notin> gone s s2}" by auto
  show ?thesis unfolding freed_def
  proof (intro conjI)
    show "dom (threads s2) \<subseteq> dom (threads s)" "dom (nodes s2) \<subseteq> dom (nodes s)" using d by (auto dest: subsetD)
    show "backed h2 (s2\<lparr>mem := m2\<rparr>) {r \<in> R. fst r \<notin> gone s s2}" using assms(2) unfolding freed_def g eq by simp
    have "m2 a = mem s a" if r: "r \<in> R" "fst r \<notin> gone s s2" "in_region a r" for r a
    proof -
      have n: "fst r \<notin> gone s s1" "fst r \<notin> gone s1 s2" using r(2) \<open>gone s s2 = gone s s1 \<union> gone s1 s2\<close> by blast+
      then have "r \<in> {r \<in> R. fst r \<notin> gone s s1}" using r(1) by blast
      then have "m2 a = mem (s1\<lparr>mem := m1\<rparr>) a" using assms(2) n(2) r(3) unfolding freed_def g by blast
      moreover have "m1 a = mem s a" using assms(1) n(1) r(1,3) unfolding freed_def by blast
      ultimately show ?thesis by simp
    qed
    then show "\<forall>r\<in>R. fst r \<notin> gone s s2 \<longrightarrow> (\<forall>a. in_region a r \<longrightarrow> m2 a = mem s a)" by blast
    show "heap_headers (h2\<lparr>ram := m2\<rparr>) \<subseteq> H" "\<forall>a. a \<notin> H \<longrightarrow> m2 a = mem s a" using assms by (simp_all add: freed_def)
  qed
qed

text \<open>A step that removes nothing and does not look at memory.\<close>

lemma freed_same:
  assumes "freed H R s h s1 m" and "footprint s2 = footprint s1" and "nodes s2 = nodes s1"
  shows "freed H R s h s2 m"
proof -
  have "dom (footprint s) = dom (threads s)" for s by (auto simp: footprint_def)
  then have d: "dom (threads s2) = dom (threads s1)" using assms(2) by metis
  then have g: "gone s s2 = gone s s1" by (simp add: gone_def assms(3))
  have "objects (s2\<lparr>mem := m\<rparr>) = objects (s1\<lparr>mem := m\<rparr>)" using objects_footprint [OF assms(2,3)] by simp
  then have "backed h (s1\<lparr>mem := m\<rparr>) Q \<Longrightarrow> backed h (s2\<lparr>mem := m\<rparr>) Q" for Q by (simp add: backed_def)
  then show ?thesis using assms(1) by (simp add: freed_def d g assms(3))
qed

section \<open>One thread\<close>

lemma drop_thread_mem: "drop_thread t (s\<lparr>mem := m\<rparr>) = map_option (\<lambda>s. s\<lparr>mem := m\<rparr>) (drop_thread t s)"
  by (auto simp: drop_thread_def split: Option.bind_split option.split)

lemma reap_thread_sched:
  assumes "reap_thread t (h, s) = Some (h', s')"
  obtains s1 where "drop_thread t s = Some s1" and "s' = s1\<lparr>mem := mem s'\<rparr>"
  using assms by (auto simp: reap_thread_def kernel_delete_def elim!: bind_eq_SomeE)

lemma reap_thread_frees:
  assumes b: "backed h s R" and tok: "threads_ok s ths" and t: "t \<in> set ths" and run: "drop_thread t s = Some s1"
    and H: "heap_headers (h\<lparr>ram := mem s\<rparr>) \<subseteq> H"
  obtains h' m where "reap_thread t (h, s) = Some (h', s1\<lparr>mem := m\<rparr>)" and "freed H R s h' s1 m"
proof -
  obtain n j k m s' where 1: "node_of t (thread_queue s) = Some n" "(n, j) \<in> R" "(t, k) \<in> R"
    "reap_thread t (h, s) = Some (h\<lparr>ram := m\<rparr>, s')" "mem s' = m"
    "threads s' = (threads s)(t := None)" "dom (nodes s') = dom (nodes s) - {n}"
    "backed (h\<lparr>ram := m\<rparr>) s' (R - {(n, j)} - {(t, k)})"
    "\<And>r a. r \<in> R \<Longrightarrow> r \<noteq> (n, j) \<Longrightarrow> in_region a r \<Longrightarrow> m a = mem s a"
    and hd: "heap_headers (h\<lparr>ram := m\<rparr>) \<subseteq> heap_headers (heap_of h s)" "\<And>a. a \<notin> heap_headers (heap_of h s) \<Longrightarrow> m a = mem s a"
    by (rule reap_thread_backed [OF b tok t]) (rule that)
  have s': "s' = s1\<lparr>mem := m\<rparr>" by (rule reap_thread_sched [OF 1(4)]) (use run 1(5) in simp)
  have holds: "heap_holds (heap_of h s) R" using b by (simp add: backed_def)
  have n: "n \<in> dom (nodes s)"
    by (rule queue_holds_remove [OF threads_okD(1,2) [OF tok] t]) (use 1(1) in simp)
  have g: "gone s s1 = {t, n}"
    using 1(6,7) n t tok by (auto simp: gone_def s' threads_ok_def dom_def)
  have eq: "{r \<in> R. fst r \<notin> {t, n}} = R - {(n, j)} - {(t, k)}"
  proof -
    have u: "i = j" if "(n, i) \<in> R" for i by (rule rheap.unique_law [OF holds that 1(2)])
    have v: "i = k" if "(t, i) \<in> R" for i by (rule rheap.unique_law [OF holds that 1(3)])
    show ?thesis
    proof (rule set_eqI)
      fix r :: "u32 \<times> u32"
      obtain p i where r: "r = (p, i)" by (cases r)
      show "r \<in> {r \<in> R. fst r \<notin> {t, n}} \<longleftrightarrow> r \<in> R - {(n, j)} - {(t, k)}" using u [of i] v [of i] by (auto simp: r)
    qed
  qed
  have "freed H R s (h\<lparr>ram := m\<rparr>) s1 m"
    unfolding freed_def g
  proof (intro conjI ballI allI impI)
    have "threads s1 = (threads s)(t := None)" "dom (nodes s1) = dom (nodes s) - {n}" using 1(6,7) by (simp_all add: s')
    then show "dom (threads s1) \<subseteq> dom (threads s)" "dom (nodes s1) \<subseteq> dom (nodes s)" by auto
    show "backed (h\<lparr>ram := m\<rparr>) (s1\<lparr>mem := m\<rparr>) {r \<in> R. fst r \<notin> {t, n}}" unfolding eq using 1(8) by (simp add: s')
    show "m a = mem s a" if "r \<in> R" "fst r \<notin> {t, n}" "in_region a r" for r a
      by (rule 1(9) [OF that(1) _ that(3)]) (use that(2) in auto)
    show "heap_headers (h\<lparr>ram := m, ram := m\<rparr>) \<subseteq> H" using hd(1) H by (simp add: heap_of_def)
    show "m a = mem s a" if "a \<notin> H" for a using hd(2) [of a] H that by (auto simp: heap_of_def)
  qed
  then show thesis using that 1(4) s' by simp
qed

section \<open>The loop\<close>

text \<open>The search and the fields it reads do not depend on memory.\<close>

lemma mem_simps [simp]:
  "threads_ok (s\<lparr>mem := m\<rparr>) ths \<longleftrightarrow> threads_ok s ths" "fetch_thread (s\<lparr>mem := m\<rparr>) t = fetch_thread s t"
  "tstate (s\<lparr>mem := m\<rparr>) t = tstate s t" "next_thread (s\<lparr>mem := m\<rparr>) ths = next_thread s ths"
  by (simp_all add: threads_ok_def fetch_thread_def tstate_def next_thread_def start_index_def fun_eq_iff)

lemma reap_stopped_frees:
  assumes "threads_ok s ths" and "t \<in> set ths" and "reap_stopped t s = Some (t', s1)" and "backed h (s\<lparr>mem := m\<rparr>) R"
    and "heap_headers (h\<lparr>ram := m\<rparr>) \<subseteq> H"
  shows "\<exists>h' m' ths'. reap_stopped_freeing t (h, s\<lparr>mem := m\<rparr>) = Some (t', h', s1\<lparr>mem := m'\<rparr>) \<and>
    freed H R (s\<lparr>mem := m\<rparr>) h' s1 m' \<and> threads_ok s1 ths' \<and> set ths' \<subseteq> set ths \<and> t' \<in> set ths' \<and>
    currentThread s1 = currentThread s \<and> (\<forall>u\<in>set ths'. threads s1 u = threads s u) \<and>
    (\<forall>u\<in>set ths - set ths'. threads s1 u = None)"
  using assms
proof (induction "length ths" arbitrary: s ths t h m R rule: less_induct)
  case less
  obtain th where th: "threads s t = Some th" "fetch_thread s t = Some th"
    using threads_okD(5) [OF less.prems(1,2)] by blast
  show ?case
  proof (cases "state th = Stopped")
    case False
    then have r: "t' = t" "s1 = s" using less.prems(3) th(2) by (subst (asm) reap_stopped.simps, simp)+
    have "reap_stopped_freeing t (h, s\<lparr>mem := m\<rparr>) = Some (t, h, s\<lparr>mem := m\<rparr>)"
      using False th(2) by (subst reap_stopped_freeing.simps) simp
    moreover have "freed H R (s\<lparr>mem := m\<rparr>) h s m" using freed_refl [OF less.prems(4)] less.prems(5) by (simp add: freed_def gone_def)
    ultimately show ?thesis using less.prems(1,2) r by blast
  next
    case True
    obtain s2 where s2: "drop_thread t s = Some s2" "threads_ok s2 (remove1 t ths)" "without {t} s s2"
      by (rule without_one [OF less.prems(1)])
    note w = withoutD [OF s2(3)]
    obtain n where n: "GetNextReadyThread s2 = Some n" "reap_stopped n s2 = Some (t', s1)"
      using less.prems(3) th(2) True s2(1) by (subst (asm) reap_stopped.simps) (auto elim!: bind_eq_SomeE)
    have nx: "next_thread s2 (remove1 t ths) = Some n" using n(1) GetNextReadyThread_refines [OF s2(2)] by simp
    have len: "length (remove1 t ths) < length ths" using length_pos_if_in_set [OF less.prems(2)] less.prems(2)
      by (simp add: length_remove1)
    have tok: "threads_ok (s\<lparr>mem := m\<rparr>) ths" using less.prems(1) by simp
    have d: "drop_thread t (s\<lparr>mem := m\<rparr>) = Some (s2\<lparr>mem := m\<rparr>)" by (simp add: drop_thread_mem s2(1))
    obtain h2 m2 where 2: "reap_thread t (h, s\<lparr>mem := m\<rparr>) = Some (h2, s2\<lparr>mem := m2\<rparr>)" "freed H R (s\<lparr>mem := m\<rparr>) h2 (s2\<lparr>mem := m\<rparr>) m2"
      by (rule reap_thread_frees [OF less.prems(4) tok less.prems(2) d, of H]) (use less.prems(5) in simp, rule that, simp_all)
    have f2: "freed H R (s\<lparr>mem := m\<rparr>) h2 s2 m2" using 2(2) by (simp add: freed_def gone_def)
    then have b2: "backed h2 (s2\<lparr>mem := m2\<rparr>) {r \<in> R. fst r \<notin> gone (s\<lparr>mem := m\<rparr>) s2}" and H2: "heap_headers (h2\<lparr>ram := m2\<rparr>) \<subseteq> H"
      by (simp_all add: freed_def)
    obtain h' m' ths' where 3: "reap_stopped_freeing n (h2, s2\<lparr>mem := m2\<rparr>) = Some (t', h', s1\<lparr>mem := m'\<rparr>)"
      "freed H {r \<in> R. fst r \<notin> gone (s\<lparr>mem := m\<rparr>) s2} (s2\<lparr>mem := m2\<rparr>) h' s1 m'" "threads_ok s1 ths'"
      "set ths' \<subseteq> set (remove1 t ths)" "t' \<in> set ths'" "currentThread s1 = currentThread s2" "\<forall>u\<in>set ths'. threads s1 u = threads s2 u"
      "\<forall>u\<in>set (remove1 t ths) - set ths'. threads s1 u = None"
      using less.hyps [OF len s2(2) next_thread_in [OF nx] n(2) b2 H2] by blast
    have "GetNextReadyThread (s2\<lparr>mem := m2\<rparr>) = Some n"
      using GetNextReadyThread_refines [of "s2\<lparr>mem := m2\<rparr>" "remove1 t ths"] s2(2) nx by simp
    then have "reap_stopped_freeing t (h, s\<lparr>mem := m\<rparr>) = Some (t', h', s1\<lparr>mem := m'\<rparr>)"
      using True th(2) 2(1) 3(1) by (subst reap_stopped_freeing.simps) simp
    moreover have "freed H R (s\<lparr>mem := m\<rparr>) h' s1 m'" by (rule freed_trans [OF f2 3(2)])
    moreover have "set ths' \<subseteq> set ths - {t}" using 3(4) threads_okD(2) [OF less.prems(1)] by auto
    moreover from this have "\<forall>u\<in>set ths'. threads s1 u = threads s u" using 3(7) w(9) by (auto simp: restrict_map_def)
    moreover have "threads s1 u = None" if "u \<in> set ths - set ths'" for u
    proof (cases "u = t")
      case True
      have "threads s2 t = None" by (simp add: w(9))
      then show ?thesis using 3(2) True by (auto simp: freed_def)
    next
      case False
      then show ?thesis using 3(8) that by auto
    qed
    ultimately show ?thesis using 3(3,5,6) w(1) by (intro exI conjI) auto
  qed
qed

section \<open>Leaving and entering\<close>

lemma leave_current_frees:
  assumes tok: "threads_ok s ths" and cur: "currentThread s = 0 \<or> currentThread s \<in> set ths"
    and run: "leave_current esp s = Some s1" and b: "backed h (s\<lparr>mem := m\<rparr>) R" and H: "heap_headers (h\<lparr>ram := m\<rparr>) \<subseteq> H"
  shows "\<exists>h' m'. leave_current_freeing esp (h, s\<lparr>mem := m\<rparr>) = Some (h', s1\<lparr>mem := m'\<rparr>) \<and> freed H R (s\<lparr>mem := m\<rparr>) h' s1 m'"
proof (cases "currentThread s \<noteq> 0 \<and> tstate s (currentThread s) = Stopped")
  case True
  then have c: "currentThread s \<in> set ths" using cur by simp
  obtain th where th: "fetch_thread s (currentThread s) = Some th" "state th = Stopped"
    using threads_okD(5) [OF tok c] True by (auto simp: tstate_def)
  then have d: "drop_thread (currentThread s) (s\<lparr>mem := m\<rparr>) = Some (s1\<lparr>mem := m\<rparr>)"
    using run True by (simp add: leave_current_def drop_thread_mem)
  have tok': "threads_ok (s\<lparr>mem := m\<rparr>) ths" using tok by simp
  obtain h' m' where 1: "reap_thread (currentThread s) (h, s\<lparr>mem := m\<rparr>) = Some (h', s1\<lparr>mem := m'\<rparr>)" "freed H R (s\<lparr>mem := m\<rparr>) h' (s1\<lparr>mem := m\<rparr>) m'"
    by (rule reap_thread_frees [OF b tok' c d, of H]) (use H in simp, rule that, simp_all)
  have "freed H R (s\<lparr>mem := m\<rparr>) h' s1 m'" using 1(2) by (simp add: freed_def gone_def)
  then show ?thesis using 1(1) True th by (auto simp: leave_current_freeing_def)
next
  case False
  have f: "freed H R (s\<lparr>mem := m\<rparr>) h s m" using freed_refl [OF b] H by (simp add: freed_def gone_def)
  have st: "state th \<noteq> Stopped" if "currentThread s \<noteq> 0" "fetch_thread s (currentThread s) = Some th" for th
    using False that fetch_threadD by (auto simp: tstate_def)
  then have "s1 = s \<or> (\<exists>c. fetch_thread s (currentThread s) = Some c \<and> s1 = store_thread (currentThread s) (c\<lparr>regsPtr := esp\<rparr>) s)"
    using run by (auto simp: leave_current_def elim!: bind_eq_SomeE split: if_splits)
  then have "footprint s1 = footprint s \<and> nodes s1 = nodes s" by (auto dest!: fetch_threadD intro!: footprint_store)
  then have "freed H R (s\<lparr>mem := m\<rparr>) h s1 m" using freed_same [OF f] by blast
  moreover have "leave_current_freeing esp (h, s\<lparr>mem := m\<rparr>) = Some (h, s1\<lparr>mem := m\<rparr>)"
    using run st by (auto simp: leave_current_def leave_current_freeing_def store_thread_def elim!: bind_eq_SomeE split: if_splits)
  ultimately show ?thesis by blast
qed

lemma leave_current_state:
  assumes "leave_current esp s = Some s1" and "threads s1 t = Some y"
  shows "\<exists>x. threads s t = Some x \<and> state y = state x"
  using assms by (auto simp: leave_current_def drop_thread_def store_thread_def elim!: bind_eq_SomeE split: if_splits dest!: fetch_threadD)

lemma mem_self: "mem s = m \<Longrightarrow> s\<lparr>mem := m\<rparr> = s"
  by auto

lemma enter_next_mem_indep:
  assumes "enter_next t s = Some (ex, s1)" and "tstate s t \<noteq> Started"
  shows "enter_next t (s\<lparr>mem := m\<rparr>) = Some (ex, s1\<lparr>mem := m\<rparr>)"
  using assms
  by (auto simp: enter_next_def fetch_thread_def fetch_proc_def tstate_def Let_def elim!: bind_eq_SomeE split: if_splits)

section \<open>The switch\<close>

lemma switch_from_frees:
  assumes tok: "threads_ok s ths" and cur: "currentThread s = 0 \<or> currentThread s \<in> set ths"
    and ready: "\<forall>t\<in>set ths. tstate s t \<noteq> Started" and run: "switch_from esp s = Some (ex, s1)" and b: "backed h (s\<lparr>mem := m\<rparr>) R"
    and H: "heap_headers (h\<lparr>ram := m\<rparr>) \<subseteq> H"
  shows "\<exists>h' m'. switch_from_freeing esp (h, s\<lparr>mem := m\<rparr>) = Some (ex, h', s1\<lparr>mem := m'\<rparr>) \<and> freed H R (s\<lparr>mem := m\<rparr>) h' s1 m'"
proof -
  obtain n t sa sb where 1: "GetNextReadyThread s = Some n" "reap_stopped n s = Some (t, sa)" "leave_current esp sa = Some sb"
    "enter_next t sb = Some (ex, s1)" using run by (auto simp: switch_from_def elim!: bind_eq_SomeE)
  have nx: "next_thread s ths = Some n" using 1(1) GetNextReadyThread_refines [OF tok] by simp
  obtain h1 m1 ths1 where 2: "reap_stopped_freeing n (h, s\<lparr>mem := m\<rparr>) = Some (t, h1, sa\<lparr>mem := m1\<rparr>)"
    "freed H R (s\<lparr>mem := m\<rparr>) h1 sa m1" "threads_ok sa ths1" "set ths1 \<subseteq> set ths" "t \<in> set ths1" "currentThread sa = currentThread s"
    "\<forall>u\<in>set ths1. threads sa u = threads s u" "\<forall>u\<in>set ths - set ths1. threads sa u = None"
    using reap_stopped_frees [OF tok next_thread_in [OF nx] 1(2) b H] by blast
  have cur1: "currentThread sa = 0 \<or> currentThread sa \<in> set ths1"
  proof (cases "currentThread sa = 0")
    case False
    then have "fetch_thread sa (currentThread sa) \<noteq> None" using 1(3) by (auto simp: leave_current_def elim!: bind_eq_SomeE)
    then have "threads sa (currentThread sa) \<noteq> None" using False by (simp add: fetch_thread_def)
    then show ?thesis using 2(6) bspec [OF 2(8), of "currentThread s"] cur False by (cases "currentThread s \<in> set ths1") auto
  qed simp
  have b1: "backed h1 (sa\<lparr>mem := m1\<rparr>) {r \<in> R. fst r \<notin> gone (s\<lparr>mem := m\<rparr>) sa}" and H1: "heap_headers (h1\<lparr>ram := m1\<rparr>) \<subseteq> H"
    using 2(2) by (simp_all add: freed_def)
  obtain h2 m2 where 3: "leave_current_freeing esp (h1, sa\<lparr>mem := m1\<rparr>) = Some (h2, sb\<lparr>mem := m2\<rparr>)"
    "freed H {r \<in> R. fst r \<notin> gone (s\<lparr>mem := m\<rparr>) sa} (sa\<lparr>mem := m1\<rparr>) h2 sb m2"
    using leave_current_frees [OF 2(3) cur1 1(3) b1 H1] by blast
  obtain y where y: "threads sb t = Some y" using enter_next_needs(2) [OF 1(4)] by (auto dest: fetch_threadD)
  then obtain x where "threads sa t = Some x" "state y = state x" using leave_current_state [OF 1(3)] by blast
  then have "tstate sb t = tstate s t" using 2(5,7) y by (simp add: tstate_def)
  then have "tstate sb t \<noteq> Started" using ready 2(4,5) by auto
  then have e: "enter_next t (sb\<lparr>mem := m2\<rparr>) = Some (ex, s1\<lparr>mem := m2\<rparr>)" by (rule enter_next_mem_indep [OF 1(4)])
  have "GetNextReadyThread (s\<lparr>mem := m\<rparr>) = Some n"
    using GetNextReadyThread_refines [of "s\<lparr>mem := m\<rparr>" ths] tok nx by simp
  then have "switch_from_freeing esp (h, s\<lparr>mem := m\<rparr>) = Some (ex, h2, s1\<lparr>mem := m2\<rparr>)"
    using 2(1) 3(1) e by (simp add: switch_from_freeing_def)
  moreover have "freed H R (s\<lparr>mem := m\<rparr>) h2 s1 m2"
    using enter_next_footprint [OF 1(4)] by (intro freed_same [OF freed_trans [OF 2(2) 3(2)]]) simp_all
  ultimately show ?thesis by blast
qed

lemma HandleInterrupt_freeing_cases:
  assumes ok: "threads_ok s ths"
  shows "HandleInterrupt_freeing esp (h, s) =
    (if tickCount s + 1 = 30 then
       (if ths \<noteq> [] \<and> enabled s then switch_from_freeing esp (h, (ticked ths s)\<lparr>tickCount := 0\<rparr>)
        else Some (Resume esp, h, (ticked ths s)\<lparr>tickCount := 0\<rparr>))
     else Some (Resume esp, h, ticked ths s))"
proof -
  have "q_size (threadsList s) > 0 \<longleftrightarrow> ths \<noteq> []" using threads_okD(3) [OF ok] by simp
  then show ?thesis using tick_phase [OF ok] by (simp add: HandleInterrupt_freeing_def Let_def)
qed

section \<open>A concrete interrupt\<close>

text \<open>Two threads, of which the second has been removed while the first runs.\<close>

lemma backed_cong:
  "backed h s R \<Longrightarrow> mem s' = mem s \<Longrightarrow> threads s' = threads s \<Longrightarrow> nodes s' = nodes s \<Longrightarrow> backed h s' R"
proof -
  assume b: "backed h s R" and eq: "mem s' = mem s" "threads s' = threads s" "nodes s' = nodes s"
  have "objects s' = objects s" using eq(2,3) by (auto simp: objects_def fun_eq_iff split: role.split)
  then show ?thesis using b eq(1) by (simp add: backed_def heap_of_def)
qed

lemma removed_system:
  obtains h s R a b where "backed h s R" and "sched_ok s [a, b]" and "currentThread s = a" and "tickCount s = 29" and "enabled s"
    and "switchForced s" and "tstate s a = Ready" and "tstate s b = Stopped" and "parent (the (threads s a)) = 0"
proof -
  obtain h0 where 0: "backed h0 (no_threads undefined (ram h0)) {}" "room h0 10000" by (rule empty_system) (rule that)
  let ?s0 = "no_threads undefined (ram h0)"
  have tok0: "threads_ok ?s0 []" using no_threads_ok by (simp add: sched_ok_def)
  have r0: "room (heap_of h0 ?s0) (4216 + 5000)" using 0(2) by (simp add: room_mono)
  have r1: "room (heap_of h0 ?s0) 4216" by (rule room_mono [OF r0]) simp
  have f: "False \<longrightarrow> kernel_parent s 0" for s by simp
  obtain a xa ha sa where a: "spawn 0xC0102000 True 0 False (h0, ?s0) = Some (a, xa, ha, sa)"
    by (rule spawn_returns [OF 0(1) tok0 r1 disjI1 [OF refl] f]) (rule that)
  obtain tha Ra where 1: "threads_ok sa ([] @ [a])" "threads sa = (threads ?s0)(a \<mapsto> tha)" "a \<noteq> 0" "state tha = Ready" "parent tha = 0"
    "backed ha sa Ra" "\<And>r. room (heap_of h0 ?s0) (4216 + r) \<Longrightarrow> room (heap_of ha sa) (4 + r)"
    by (rule spawn_effect [OF 0(1) tok0 a f]) (rule that)
  have r2: "room (heap_of ha sa) 4216" by (rule room_mono [OF 1(7) [OF r0]]) simp
  obtain b xb hb sb where b: "spawn 0xC0103000 True 0 False (ha, sa) = Some (b, xb, hb, sb)"
    by (rule spawn_returns [OF 1(6,1) r2 disjI1 [OF refl] f]) (rule that)
  obtain thb Rb where 2: "threads_ok sb (([] @ [a]) @ [b])" "threads sb = (threads sa)(b \<mapsto> thb)" "b \<notin> set ([] @ [a])" "b \<noteq> 0"
    "state thb = Ready" "backed hb sb Rb"
    by (rule spawn_effect [OF 1(6,1) b f]) (rule that)
  have thb: "threads sb b = Some thb" and run: "state thb \<noteq> Stopped" using 2(2,5) by simp_all
  let ?stop = "\<lambda>m. sb\<lparr>threads := (threads sb)(b \<mapsto> thb\<lparr>state := Stopped\<rparr>), mem := m\<rparr>"
  obtain k m where 3: "backed (hb\<lparr>ram := m\<rparr>) (?stop m) (Rb - {(stack thb, k)})"
    by (rule remove_thread_backed [OF 2(6) thb 2(4) run]) (rule that)
  let ?s = "(?stop m)\<lparr>currentThread := a, tickCount := 29, enabled := True, switchForced := True\<rparr>"
  have "backed (hb\<lparr>ram := m\<rparr>) ?s (Rb - {(stack thb, k)})" by (rule backed_cong [OF 3]) simp_all
  moreover have "sched_ok ?s [a, b]" using 2(1) by (auto simp: sched_ok_def threads_ok_def)
  moreover have "tstate ?s a = Ready" "tstate ?s b = Stopped" "parent (the (threads ?s a)) = 0"
    using 1(2,4,5) 2(2,3) by (simp_all add: tstate_def)
  ultimately show thesis using that by simp
qed

lemma removed_interrupt:
  assumes ok: "sched_ok s [a, b]" and cur: "currentThread s = a" and tick: "tickCount s = 29" "enabled s" "switchForced s"
    and st: "tstate s a = Ready" "tstate s b = Stopped" and par: "parent (the (threads s a)) = 0" and esp: "KERNEL_HEAP_START \<le> esp"
  shows "\<exists>s1. HandleInterrupt esp s = Some (Resume esp, s1) \<and> threads s1 b = None"
proof -
  let ?t = "(ticked [a, b] s)\<lparr>tickCount := 0\<rparr>"
  have tok: "threads_ok s [a, b]" using ok by (simp add: sched_ok_def)
  then have ab: "a \<noteq> b" "a \<noteq> 0" "b \<noteq> 0" by (auto simp: threads_ok_def)
  have tt: "threads_ok ?t [a, b]" using ticked_ok [OF tok] by (simp add: threads_ok_def)
  have th: "threads ?t = threads s" using tick(3) by (auto simp: ticked_threads fun_eq_iff)
  have ts: "tstate ?t = tstate s" by (simp add: tstate_def fun_eq_iff th)
  obtain xb where xb: "threads s b = Some xb" "state xb = Stopped" using threads_okD(5) [OF tok, of b] st(2) by (auto simp: tstate_def)
  obtain xa where xa: "threads s a = Some xa" "state xa = Ready" using threads_okD(5) [OF tok, of a] st(1) by (auto simp: tstate_def)
  have "next_thread ?t [a, b] = Some b" using ab cur st ts by (simp add: next_thread_def start_index_def)
  then have n: "GetNextReadyThread ?t = Some b" using GetNextReadyThread_refines [OF tt] by simp
  obtain s2 where s2: "drop_thread b ?t = Some s2" "threads_ok s2 (remove1 b [a, b])" "without {b} ?t s2"
    by (rule without_one [OF tt])
  note w = withoutD [OF s2(3)]
  have ta: "threads s2 a = Some xa" "threads s2 b = None" using w(9) xa(1) ab by (simp_all add: th restrict_map_def)
  have "next_thread s2 [a] = Some a" using ta(1) xa(2) by (simp add: next_thread_def start_index_def tstate_def)
  then have n2: "GetNextReadyThread s2 = Some a" using GetNextReadyThread_refines [OF s2(2)] ab by simp
  have fa: "fetch_thread s2 a = Some xa" and fb: "fetch_thread ?t b = Some xb" using ta(1) xb(1) ab by (simp_all add: fetch_thread_def th)
  have "reap_stopped a s2 = Some (a, s2)" using fa xa(2) by (subst reap_stopped.simps) simp
  then have r: "reap_stopped b ?t = Some (a, s2)" using fb xb(2) s2(1) n2 by (subst reap_stopped.simps) simp
  let ?s3 = "store_thread a (xa\<lparr>regsPtr := esp\<rparr>) s2"
  have c2: "currentThread s2 = a" using w(1) cur by simp
  have l: "leave_current esp s2 = Some ?s3" using fa xa(2) ab c2 esp by (simp add: leave_current_def)
  have e: "enter_next a ?s3 = Some (Resume esp, ?s3\<lparr>currentThread := a, gdts := SetTSS 0x10 (stack xa + THREAD_STACK_SIZE) (gdts ?s3)\<rparr>)"
    using xa par ab by (simp add: enter_next_def fetch_thread_def store_thread_def)
  have "switch_from esp ?t = Some (Resume esp, ?s3\<lparr>currentThread := a, gdts := SetTSS 0x10 (stack xa + THREAD_STACK_SIZE) (gdts ?s3)\<rparr>)"
    using n r l e by (simp add: switch_from_def)
  then show ?thesis using tick ab ta(2) by (simp add: HandleInterrupt_cases [OF tok] store_thread_def)
qed

section \<open>Properties\<close>

text \<open>
  C12. The deletions of a timer interrupt. Whatever threads have stopped, as long as no thread is in state \<open>Started\<close>,
  \<open>HandleInterrupt\<close> with its deletions makes the choices that \<open>HandleInterrupt\<close> without them makes, and
  ends in the same state but for memory, of which only words in headers of the heap's blocks change: exactly
  the regions of the threads and queue nodes that were removed go back to the heap,
  which stays well formed, every thread, stack and node that is left keeps its region, and no word of
  a region still in use changes.
\<close>

theorem interrupt_frees_stopped:
  assumes "backed h s R" and "sched_ok s ths" and "\<forall>t\<in>set ths. tstate s t \<noteq> Started" and "HandleInterrupt esp s = Some (ex, s1)"
  shows "\<exists>h' m. HandleInterrupt_freeing esp (h, s) = Some (ex, h', s1\<lparr>mem := m\<rparr>) \<and>
    backed h' (s1\<lparr>mem := m\<rparr>) {r \<in> R. fst r \<notin> gone s s1} \<and>
    (\<forall>r\<in>R. fst r \<notin> gone s s1 \<longrightarrow> (\<forall>a. in_region a r \<longrightarrow> m a = mem s a)) \<and>
    (\<forall>a. a \<notin> heap_headers (heap_of h s) \<longrightarrow> m a = mem s a)"
proof -
  define H where "H = heap_headers (heap_of h s)"
  have H: "heap_headers (h\<lparr>ram := mem s\<rparr>) \<subseteq> H" by (simp add: H_def heap_of_def)
  have tok: "threads_ok s ths" and cur: "currentThread s = 0 \<or> currentThread s \<in> set ths" using assms(2) by (auto simp: sched_ok_def)
  let ?t = "(ticked ths s)\<lparr>tickCount := 0\<rparr>"
  have f0: "freed H R s h (ticked ths s) (mem s)" using freed_same [OF freed_refl [OF assms(1) H] footprint_ticked] by simp
  have "footprint ?t = footprint (ticked ths s)" by (simp add: footprint_def fun_eq_iff)
  then have ft: "freed H R s h ?t (mem s)" by (rule freed_same [OF f0]) simp
  have id: "(ticked ths s)\<lparr>mem := mem s\<rparr> = ticked ths s" "?t\<lparr>mem := mem s\<rparr> = ?t" by (simp_all add: mem_self)
  consider "ex = Resume esp" "s1 = ticked ths s \<or> s1 = ?t" "HandleInterrupt_freeing esp (h, s) = Some (ex, h, s1)"
    | "switch_from esp ?t = Some (ex, s1)" "HandleInterrupt_freeing esp (h, s) = switch_from_freeing esp (h, ?t)"
    using assms(4) unfolding HandleInterrupt_cases [OF tok] HandleInterrupt_freeing_cases [OF tok] by (auto split: if_splits)
  then have "\<exists>h' m. HandleInterrupt_freeing esp (h, s) = Some (ex, h', s1\<lparr>mem := m\<rparr>) \<and> freed H R s h' s1 m"
  proof cases
    case 1
    then show ?thesis using f0 ft id by metis
  next
    case 2
    have tok': "threads_ok ?t ths" using ticked_ok [OF tok] by (simp add: threads_ok_def)
    have ready: "\<forall>t\<in>set ths. tstate ?t t \<noteq> Started"
    proof
      fix t assume t: "t \<in> set ths"
      obtain x where x: "threads s t = Some x" using threads_okD(5) [OF tok t] by blast
      then show "tstate ?t t \<noteq> Started" using assms(3) t by (auto simp: tstate_def ticked_threads)
    qed
    have "backed h (?t\<lparr>mem := mem s\<rparr>) {r \<in> R. fst r \<notin> gone s ?t}" using ft by (simp add: freed_def)
    from switch_from_frees [OF tok' _ ready 2(1) this H] cur obtain h' m where
      "switch_from_freeing esp (h, ?t) = Some (ex, h', s1\<lparr>mem := m\<rparr>)" "freed H {r \<in> R. fst r \<notin> gone s ?t} (?t\<lparr>mem := mem s\<rparr>) h' s1 m"
      unfolding id by auto
    then show ?thesis using freed_trans [OF ft] 2(2) by auto
  qed
  then show ?thesis unfolding freed_def H_def by blast
qed

theorem interrupt_frees_stopped_witness:
  "\<exists>h s b h' s'. HandleInterrupt_freeing 0xD0000000 (h, s) = Some (Resume 0xD0000000, h', s') \<and> threads s b \<noteq> None \<and> threads s' b = None"
proof -
  obtain h s R a b where 1: "backed h s R" "sched_ok s [a, b]" "currentThread s = a" "tickCount s = 29" "enabled s"
    "switchForced s" "tstate s a = Ready" "tstate s b = Stopped" "parent (the (threads s a)) = 0" by (rule removed_system)
  have esp: "KERNEL_HEAP_START \<le> (0xD0000000 :: u32)" by (simp add: KERNEL_HEAP_START_def KERNEL_VIRTUAL_OFFSET_def)
  obtain s1 where s1: "HandleInterrupt 0xD0000000 s = Some (Resume 0xD0000000, s1)" "threads s1 b = None"
    using removed_interrupt [OF 1(2-9) esp] by blast
  have st: "\<forall>t\<in>set [a, b]. tstate s t \<noteq> Started" using 1(7,8) by simp
  obtain h' m where "HandleInterrupt_freeing 0xD0000000 (h, s) = Some (Resume 0xD0000000, h', s1\<lparr>mem := m\<rparr>)"
    using interrupt_frees_stopped [OF 1(1,2) st s1(1)] by blast
  moreover have "threads s b \<noteq> None" using 1(2) by (auto simp: sched_ok_def threads_ok_def)
  ultimately show ?thesis using s1(2) by (intro exI [of _ h] exI [of _ s] exI [of _ b] exI [of _ h'] exI [of _ "s1\<lparr>mem := m\<rparr>"]) simp
qed

end
