(* ===== verification/OS_Initrd.thy ===== *)
theory OS_Initrd
  imports OS_Format
begin

text \<open>
  The tool that builds the initial RAM disk: src/tools/initrd_gen.c.

  \<^item> \<open>initrd_header\<close> is the structure, with its name as 64 characters; \<open>encode_header\<close> lays it
    out in the 76 bytes it takes on a 32-bit target (three bytes of padding, zero as the whole
    array is initialised with zeros).
  \<^item> The operations are the two loops of \<open>main\<close>, \<open>plan_from\<close> and \<open>copy_from\<close>, and
    \<open>initrd_main\<close>, which takes the disk and returns the exit status with the disk as it leaves it.
    \<open>None\<close> is a write beyond the name of a header, a read beyond \<open>argv\<close> or a use of the null
    pointer that a failing \<open>fopen\<close> returns.
  \<^item> \<open>disk\<close>: names lead to files, so that two names can mean one file. The image is opened for writing,
    and so emptied, before the second loop opens the sources again: a source that is the image file is
    read as the second loop finds it.
  \<^item> \<open>c_library\<close> is what the tool's C library is free to choose: how much of what was written to a
    stream the file holds before it is closed, and the bytes of a new buffer.
  \<^item> Left out: messages, \<open>malloc\<close> returning null, a directory as a source, and the buffer \<open>data\<close>, which is never used.
\<close>

unbundle bit_operations_syntax

section \<open>Data\<close>

type_synonym bytes = "u8 list"
type_synonym files = "string \<Rightarrow> bytes option"

record initrd_header =
  magic :: u8
  hname :: "char list"
  hoffset :: u32
  hlength :: u32

definition zero_header :: initrd_header where
  "zero_header = \<lparr>magic = 0, hname = replicate 64 NUL, hoffset = 0, hlength = 0\<rparr>"

definition sizeof_header :: u32 where "sizeof_header = 76"

definition le32 :: "u32 \<Rightarrow> bytes" where
  "le32 w = [ucast w, ucast (drop_bit 8 w), ucast (drop_bit 16 w), ucast (drop_bit 24 w)]"

definition encode_header :: "initrd_header \<Rightarrow> bytes" where
  "encode_header h = magic h # map of_char (hname h) @ [0, 0, 0] @ le32 (hoffset h) @ le32 (hlength h)"

text \<open>
  Files and streams. \<open>fopen_r\<close> gives what a reader finds in a file; \<open>fopen_w\<close> empties or creates it,
  and fails on a disk that cannot be written; \<open>put_file\<close> gives it its contents.
\<close>

record disk =
  path_id :: "string \<Rightarrow> nat"
  file_data :: "nat \<Rightarrow> bytes option"
  writable :: bool

record c_library =
  flushed :: "bytes \<Rightarrow> bytes"
  junk :: "nat \<Rightarrow> u8"

definition fopen_r :: "disk \<Rightarrow> files" where
  "fopen_r d p = file_data d (path_id d p)"

definition put_file :: "string \<Rightarrow> bytes \<Rightarrow> disk \<Rightarrow> disk" where
  "put_file p b d = d\<lparr>file_data := (file_data d)(path_id d p \<mapsto> b)\<rparr>"

definition fopen_w :: "string \<Rightarrow> disk \<Rightarrow> disk option" where
  "fopen_w p d = (if writable d then Some (put_file p [] d) else None)"

definition image_path :: string where "image_path = ''./initrd.img''"

text \<open>\<open>malloc\<close> of a buffer and \<open>fread\<close> into it: behind the end of the file it keeps the bytes it had.\<close>

definition fread :: "c_library \<Rightarrow> bytes \<Rightarrow> nat \<Rightarrow> bytes" where
  "fread lib cont n = take n cont @ map (junk lib) [length cont..<n]"

section \<open>Building the image\<close>

definition strcpy :: "string \<Rightarrow> char list \<Rightarrow> char list option" where
  "strcpy s old = (if length s < length old then Some (s @ NUL # drop (Suc (length s)) old) else None)"

definition argv_at :: "string list \<Rightarrow> int \<Rightarrow> string option" where
  "argv_at argv i = (if 0 \<le> i \<and> i < int (length argv) then Some (argv ! nat i) else None)"

text \<open>The first loop fills the headers; a file that cannot be opened ends the program.\<close>

function plan_from :: "int \<Rightarrow> int \<Rightarrow> string list \<Rightarrow> files \<Rightarrow> u32 \<Rightarrow> initrd_header list \<Rightarrow>
    (int + initrd_header list) option" where
  "plan_from i n argv fs off hs =
     (if i < n then do {
        src \<leftarrow> argv_at argv (i * 2 + 1);
        dst \<leftarrow> argv_at argv (i * 2 + 2);
        h \<leftarrow> (if 0 \<le> i \<and> i < int (length hs) then Some (hs ! nat i) else None);
        nm \<leftarrow> strcpy dst (hname h);
        let h = h\<lparr>hname := nm\<rparr>;
        let h = h\<lparr>hoffset := off\<rparr>;
        case fs src of
          None \<Rightarrow> Some (Inl 1)
        | Some content \<Rightarrow>
            let h = h\<lparr>hlength := of_nat (length content)\<rparr>;
                off = off + hlength h;
                h = h\<lparr>magic := 0xBF\<rparr>
            in plan_from (i + 1) n argv fs off (hs[nat i := h])
      }
      else Some (Inr hs))"
  by pat_completeness auto
termination by (relation "measure (\<lambda>(i, n, argv, fs, off, hs). nat (n - i))") auto

declare plan_from.simps [simp del]

text \<open>
  The second loop appends the contents, each with the length in its header. While it runs the image
  holds what the library has passed on of the bytes written so far.
\<close>

function copy_from :: "c_library \<Rightarrow> int \<Rightarrow> int \<Rightarrow> string list \<Rightarrow> disk \<Rightarrow> initrd_header list \<Rightarrow> bytes \<Rightarrow>
    bytes option" where
  "copy_from lib i n argv d hs out =
     (if i < n then do {
        src \<leftarrow> argv_at argv (i * 2 + 1);
        cont \<leftarrow> fopen_r (put_file image_path (flushed lib out) d) src;
        h \<leftarrow> (if 0 \<le> i \<and> i < int (length hs) then Some (hs ! nat i) else None);
        let buf = fread lib cont (unat (hlength h));
        copy_from lib (i + 1) n argv d hs (out @ buf)
      }
      else Some out)"
  by pat_completeness auto
termination by (relation "measure (\<lambda>(lib, i, n, argv, d, hs, out). nat (n - i))") auto

declare copy_from.simps [simp del]

text \<open>\<open>argc\<close> is declared as a \<open>char\<close>, so it arrives cut to eight bits with their sign.\<close>

definition nheaders :: "int \<Rightarrow> int" where
  "nheaders argc = (sint (word_of_int argc :: u8) - 1) sdiv 2"

definition initrd_main :: "int \<Rightarrow> string list \<Rightarrow> c_library \<Rightarrow> disk \<Rightarrow> (int \<times> disk) option" where
  "initrd_main argc argv lib d = do {
     let n = nheaders argc;
     let hs = replicate 64 zero_header;
     let off = sizeof_header * 64 + 4;
     r \<leftarrow> plan_from 0 n argv (fopen_r d) off hs;
     case r of
       Inl e \<Rightarrow> Some (e, d)
     | Inr hs \<Rightarrow> do {
         d \<leftarrow> fopen_w image_path d;
         out \<leftarrow> copy_from lib 0 n argv d hs (le32 (word_of_int n) @ concat (map encode_header hs));
         Some (0, put_file image_path out d)
       }
   }"

section \<open>Reading an image\<close>

text \<open>The reader's side: a word, a header's fields, and a file, found through its header.\<close>

definition rd_le32 :: "bytes \<Rightarrow> nat \<Rightarrow> u32" where
  "rd_le32 b i = ucast (b ! i) OR push_bit 8 (ucast (b ! (i + 1))) OR push_bit 16 (ucast (b ! (i + 2)))
     OR push_bit 24 (ucast (b ! (i + 3)))"

definition image_name :: "bytes \<Rightarrow> nat \<Rightarrow> bytes" where
  "image_name b i = takeWhile (\<lambda>c. c \<noteq> 0) (take 64 (drop (4 + 76 * i + 1) b))"

definition image_file :: "bytes \<Rightarrow> nat \<Rightarrow> bytes" where
  "image_file b i = take (unat (rd_le32 b (4 + 76 * i + 72))) (drop (unat (rd_le32 b (4 + 76 * i + 68))) b)"

lemma rd_le32_le32: "b = xs @ le32 w @ ys \<Longrightarrow> i = length xs \<Longrightarrow> rd_le32 b i = w"
proof -
  assume b: "b = xs @ le32 w @ ys" and i: "i = length xs"
  have "rd_le32 b i = ucast (ucast w :: u8) OR push_bit 8 (ucast (ucast (drop_bit 8 w) :: u8)) OR
      push_bit 16 (ucast (ucast (drop_bit 16 w) :: u8)) OR push_bit 24 (ucast (ucast (drop_bit 24 w) :: u8))"
    unfolding b i rd_le32_def by (simp add: le32_def nth_append)
  also have "\<dots> = w"
  proof (rule bit_word_eqI)
    fix n :: nat
    assume "n < LENGTH(32)"
    then consider "n < 8" | "8 \<le> n" "n < 16" | "16 \<le> n" "n < 24" | "24 \<le> n" "n < 32" by fastforce
    then show "bit (ucast (ucast w :: u8) OR push_bit 8 (ucast (ucast (drop_bit 8 w) :: u8)) OR
      push_bit 16 (ucast (ucast (drop_bit 16 w) :: u8)) OR push_bit 24 (ucast (ucast (drop_bit 24 w) :: u8)) :: u32) n = bit w n"
      by cases (auto simp: bit_simps)
  qed
  finally show ?thesis .
qed

lemma length_encode [simp]: "length (hname h) = 64 \<Longrightarrow> length (encode_header h) = 76"
  by (simp add: encode_header_def le32_def)

lemma length_encodes: "\<forall>h\<in>set hs. length (hname h) = 64 \<Longrightarrow> length (concat (map encode_header hs)) = 76 * length hs"
  by (induction hs) simp_all

text \<open>Where the \<open>i\<close>-th header lies.\<close>

lemma concat_split:
  assumes "i < length hs" and "\<forall>h\<in>set hs. length (hname h) = 64"
  shows "concat (map encode_header hs) = concat (map encode_header (take i hs)) @ encode_header (hs ! i) @
      concat (map encode_header (drop (Suc i) hs))"
    and "length (concat (map encode_header (take i hs))) = 76 * i"
proof -
  have "hs = take i hs @ hs ! i # drop (Suc i) hs" using assms(1) by (rule id_take_nth_drop)
  then have "map encode_header hs = map encode_header (take i hs) @ encode_header (hs ! i) # map encode_header (drop (Suc i) hs)"
    by (metis list.simps(9) map_append)
  then show "concat (map encode_header hs) = concat (map encode_header (take i hs)) @ encode_header (hs ! i) @
      concat (map encode_header (drop (Suc i) hs))" by simp
  show "length (concat (map encode_header (take i hs))) = 76 * i"
    using assms by (subst length_encodes) (auto dest: in_set_takeD)
qed

section \<open>What the loops compute\<close>

text \<open>The command line for a list of source and target names.\<close>

definition command_line :: "string \<Rightarrow> (string \<times> string) list \<Rightarrow> string list" where
  "command_line prog ps = prog # concat (map (\<lambda>(s, d). [s, d]) ps)"

definition content :: "files \<Rightarrow> (string \<times> string) list \<Rightarrow> nat \<Rightarrow> bytes" where
  "content fs ps i = the (fs (fst (ps ! i)))"

definition offset_of :: "files \<Rightarrow> (string \<times> string) list \<Rightarrow> nat \<Rightarrow> nat" where
  "offset_of fs ps i = 4868 + (\<Sum>j<i. length (content fs ps j))"

definition header_of :: "files \<Rightarrow> (string \<times> string) list \<Rightarrow> nat \<Rightarrow> initrd_header" where
  "header_of fs ps i = \<lparr>magic = 0xBF, hname = snd (ps ! i) @ replicate (64 - length (snd (ps ! i))) NUL,
     hoffset = of_nat (offset_of fs ps i), hlength = of_nat (length (content fs ps i))\<rparr>"

definition names_ok :: "(string \<times> string) list \<Rightarrow> bool" where
  "names_ok ps \<longleftrightarrow> length ps \<le> 63 \<and> (\<forall>(s, d)\<in>set ps. length d < 64 \<and> NUL \<notin> set d)"

lemma concat_pairs_nth:
  "i < length ps \<Longrightarrow> concat (map (\<lambda>(s, d). [s, d]) ps) ! (2 * i) = fst (ps ! i) \<and>
    concat (map (\<lambda>(s, d). [s, d]) ps) ! Suc (2 * i) = snd (ps ! i)"
proof (induction ps arbitrary: i)
  case (Cons p ps)
  then show ?case by (cases i) (auto split: prod.split)
qed simp

lemma length_pairs: "length (concat (map (\<lambda>(s, d). [s, d]) ps)) = 2 * length ps"
  by (induction ps) auto

lemma argv_at_pairs:
  assumes "i < length ps"
  shows "argv_at (command_line prog ps) (int i * 2 + 1) = Some (fst (ps ! i))"
    and "argv_at (command_line prog ps) (int i * 2 + 2) = Some (snd (ps ! i))"
proof -
  have n: "nat (int i * 2 + 1) = Suc (2 * i)" "nat (int i * 2 + 2) = Suc (Suc (2 * i))" by simp_all
  show "argv_at (command_line prog ps) (int i * 2 + 1) = Some (fst (ps ! i))"
    "argv_at (command_line prog ps) (int i * 2 + 2) = Some (snd (ps ! i))"
    using assms concat_pairs_nth [OF assms] length_pairs [of ps]
    by (simp_all add: argv_at_def command_line_def n)
qed

lemma nheaders_pairs: "length ps \<le> 63 \<Longrightarrow> nheaders (int (length (command_line prog ps))) = int (length ps)"
proof -
  assume l: "length ps \<le> 63"
  have "length (command_line prog ps) = Suc (2 * length ps)" by (simp add: command_line_def length_pairs)
  moreover have "sint (word_of_int (int (Suc (2 * length ps))) :: u8) = int (Suc (2 * length ps))"
    by (subst sint_sbintrunc') (use l in \<open>simp add: signed_take_bit_int_eq_self\<close>)
  moreover have "(int (Suc (2 * n)) - 1) sdiv 2 = int n" for n
    by (cases "n = 0") (simp_all add: signed_divide_int_def)
  ultimately show ?thesis by (simp only: nheaders_def)
qed

lemma strcpy_zero: "length d < 64 \<Longrightarrow> strcpy d (replicate 64 NUL) = Some (d @ replicate (64 - length d) NUL)"
proof -
  assume d: "length d < 64"
  then have "64 - length d = Suc (64 - Suc (length d))" by simp
  with d show ?thesis by (simp add: strcpy_def)
qed

lemma plan_from_headers:
  assumes "names_ok ps" and "\<forall>(s, d)\<in>set ps. fs s \<noteq> None" and "i \<le> length ps" and "length hs = 64"
    and "\<forall>j. i \<le> j \<and> j < 64 \<longrightarrow> hs ! j = zero_header" and "off = of_nat (offset_of fs ps i)"
  shows "plan_from (int i) (int (length ps)) (command_line prog ps) fs off hs =
    Some (Inr (take i hs @ map (header_of fs ps) [i..<length ps] @ drop (length ps) hs))"
  using assms(3-)
proof (induction "length ps - i" arbitrary: i hs off)
  case 0
  then show ?case by (subst plan_from.simps) simp
next
  case (Suc k)
  then have i: "i < length ps" by simp
  have i64: "i < 64" using i assms(1) by (simp add: names_ok_def)
  have d: "length (snd (ps ! i)) < 64" using assms(1) nth_mem [OF i] by (cases "ps ! i") (auto simp: names_ok_def)
  obtain c where c: "fs (fst (ps ! i)) = Some c" using assms(2) nth_mem [OF i] by fastforce
  have ct: "content fs ps i = c" by (simp add: content_def c)
  let ?h = "header_of fs ps i"
  have step: "plan_from (int i) (int (length ps)) (command_line prog ps) fs off hs =
      plan_from (int (Suc i)) (int (length ps)) (command_line prog ps) fs (off + hlength ?h) (hs[i := ?h])"
    using i i64 Suc.prems(2,3,4) argv_at_pairs [OF i] strcpy_zero [OF d] c
    by (subst plan_from.simps) (simp add: zero_header_def header_of_def ct add.commute)
  also have "\<dots> = Some (Inr (take (Suc i) (hs[i := ?h]) @ map (header_of fs ps) [Suc i..<length ps] @
      drop (length ps) (hs[i := ?h])))"
  proof (rule Suc.hyps(1))
    show "off + hlength ?h = of_nat (offset_of fs ps (Suc i))"
      using Suc.prems(4) by (simp add: offset_of_def header_of_def)
  qed (use Suc.hyps(2) Suc.prems i in auto)
  also have "take (Suc i) (hs[i := ?h]) @ map (header_of fs ps) [Suc i..<length ps] @ drop (length ps) (hs[i := ?h]) =
      take i hs @ map (header_of fs ps) [i..<length ps] @ drop (length ps) hs"
    using i i64 Suc.prems(2) by (simp add: take_Suc_conv_app_nth upt_conv_Cons)
  finally show ?case .
qed

text \<open>A source that is not the image file is read as it was.\<close>

definition spares_image :: "disk \<Rightarrow> (string \<times> string) list \<Rightarrow> bool" where
  "spares_image d ps \<longleftrightarrow> (\<forall>(s, d')\<in>set ps. path_id d s \<noteq> path_id d image_path)"

lemma fopen_r_put_file:
  "fopen_r (put_file p b d) q = (if path_id d q = path_id d p then Some b else fopen_r d q)"
  by (simp add: fopen_r_def put_file_def)

lemma put_file_ids [simp]: "path_id (put_file p b d) = path_id d"
  by (simp add: put_file_def)

lemma fread_all: "n = length cont \<Longrightarrow> fread lib cont n = cont"
  by (simp add: fread_def)

lemma copy_from_contents:
  assumes "\<forall>(s, d')\<in>set ps. fopen_r d s \<noteq> None" and "spares_image d ps" and "i \<le> length ps"
    and "\<forall>j<length ps. j < length hs \<and> hs ! j = header_of (fopen_r d) ps j \<and> length (content (fopen_r d) ps j) < 2 ^ 32"
  shows "copy_from lib (int i) (int (length ps)) (command_line prog ps) (put_file image_path b d) hs out =
    Some (out @ concat (map (content (fopen_r d) ps) [i..<length ps]))"
  using assms(3)
proof (induction "length ps - i" arbitrary: i out)
  case 0
  then show ?case by (subst copy_from.simps) simp
next
  case (Suc k)
  then have i: "i < length ps" by simp
  obtain c where c: "fopen_r d (fst (ps ! i)) = Some c" using assms(1) nth_mem [OF i] by fastforce
  have o: "path_id d (fst (ps ! i)) \<noteq> path_id d image_path"
    using assms(2) nth_mem [OF i] by (cases "ps ! i") (auto simp: spares_image_def)
  have ct: "content (fopen_r d) ps i = c" by (simp add: content_def c)
  have "length c < 2 ^ 32" using assms(4) i ct by auto
  then have "unat (hlength (hs ! i)) = length c"
    using assms(4) i ct by (simp add: header_of_def unat_of_nat take_bit_nat_eq_self)
  then have "copy_from lib (int i) (int (length ps)) (command_line prog ps) (put_file image_path b d) hs out =
      copy_from lib (int (Suc i)) (int (length ps)) (command_line prog ps) (put_file image_path b d) hs (out @ c)"
    using i argv_at_pairs(1) [OF i] c o assms(4)
    by (subst copy_from.simps) (simp add: fopen_r_put_file fread_all add.commute)
  also have "\<dots> = Some ((out @ c) @ concat (map (content (fopen_r d) ps) [Suc i..<length ps]))"
    using Suc.hyps(2) i by (intro Suc.hyps(1)) auto
  finally show ?case using i by (simp add: upt_conv_Cons ct)
qed

lemma file_offset_step: "offset_of fs ps (Suc i) = offset_of fs ps i + length (content fs ps i)"
  by (simp add: offset_of_def)

lemma offset_mono: "i \<le> j \<Longrightarrow> offset_of fs ps i \<le> offset_of fs ps j"
  unfolding offset_of_def by (intro add_left_mono sum_mono2) auto

lemma length_contents: "length (concat (map (content fs ps) [0..<i])) = offset_of fs ps i - 4868"
  by (induction i) (simp_all add: offset_of_def)

text \<open>The header table with its 64 slots.\<close>

definition table_of :: "files \<Rightarrow> (string \<times> string) list \<Rightarrow> initrd_header list" where
  "table_of fs ps = map (header_of fs ps) [0..<length ps] @ replicate (64 - length ps) zero_header"

lemma table_names: "names_ok ps \<Longrightarrow> h \<in> set (table_of fs ps) \<Longrightarrow> length (hname h) = 64"
proof -
  assume n: "names_ok ps" and h: "h \<in> set (table_of fs ps)"
  consider "h = zero_header" | i where "i < length ps" "h = header_of fs ps i"
    using h by (auto simp: table_of_def split: if_splits)
  then show ?thesis
  proof cases
    case 2
    then show ?thesis using n nth_mem [of i ps] by (cases "ps ! i") (auto simp: header_of_def names_ok_def)
  qed (simp add: zero_header_def)
qed

lemma put_file_twice: "put_file p b (put_file p a d) = put_file p b d"
  by (simp add: put_file_def)

lemma initrd_main_image:
  assumes "names_ok ps" and "\<forall>(s, d')\<in>set ps. fopen_r d s \<noteq> None" and "offset_of (fopen_r d) ps (length ps) < 2 ^ 32"
    and "spares_image d ps" and "writable d"
  shows "initrd_main (int (length (command_line prog ps))) (command_line prog ps) lib d =
    Some (0, put_file image_path (le32 (of_nat (length ps)) @ concat (map encode_header (table_of (fopen_r d) ps)) @
      concat (map (content (fopen_r d) ps) [0..<length ps])) d)"
proof -
  let ?fs = "fopen_r d"
  have k: "length ps \<le> 63" using assms(1) by (simp add: names_ok_def)
  have plan: "plan_from 0 (int (length ps)) (command_line prog ps) ?fs (sizeof_header * 64 + 4) (replicate 64 zero_header) =
      Some (Inr (table_of ?fs ps))"
    using plan_from_headers [OF assms(1,2), of 0 "replicate 64 zero_header" "sizeof_header * 64 + 4" prog] k
    by (simp add: offset_of_def sizeof_header_def table_of_def)
  have small: "\<forall>j<length ps. j < length (table_of ?fs ps) \<and> table_of ?fs ps ! j = header_of ?fs ps j \<and>
      length (content ?fs ps j) < 2 ^ 32"
  proof (intro allI impI conjI)
    fix j assume j: "j < length ps"
    show "table_of ?fs ps ! j = header_of ?fs ps j" "j < length (table_of ?fs ps)"
      using j k by (simp_all add: table_of_def nth_append)
    have "offset_of ?fs ps (Suc j) < 2 ^ 32" using offset_mono [of "Suc j" "length ps" ?fs ps] j assms(3) by simp
    then show "length (content ?fs ps j) < 2 ^ 32" by (simp add: file_offset_step)
  qed
  show ?thesis
    using plan copy_from_contents [OF assms(2,4) _ small, of 0 lib prog "[]"] assms(5)
    by (simp add: initrd_main_def nheaders_pairs [OF k] fopen_w_def put_file_twice)
qed

lemma of_char_u8_zero: "(of_char c :: u8) = 0 \<longleftrightarrow> c = NUL"
proof
  assume z: "(of_char c :: u8) = 0"
  have "unat (of_nat (of_char c) :: u8) = of_char c" by (simp add: unat_of_nat take_bit_nat_eq_self)
  with z have "(of_char c :: nat) = of_char NUL" by (simp add: of_nat_of_char)
  then show "c = NUL" by (simp only: of_char_eq_iff)
qed simp

text \<open>What a reader finds in the header and behind it.\<close>

lemma header_fields:
  assumes "img = P @ encode_header h @ S" and "length P = 4 + 76 * i" and "length (hname h) = 64"
  shows "img ! (4 + 76 * i) = magic h" and "rd_le32 img (4 + 76 * i + 68) = hoffset h"
    and "rd_le32 img (4 + 76 * i + 72) = hlength h"
    and "image_name img i = takeWhile (\<lambda>c. c \<noteq> 0) (map of_char (hname h))"
proof -
  have img: "img = P @ magic h # map of_char (hname h) @ [0, 0, 0] @ le32 (hoffset h) @ le32 (hlength h) @ S"
    by (simp add: assms(1) encode_header_def)
  show "img ! (4 + 76 * i) = magic h" unfolding img assms(2) [symmetric] by simp
  show "rd_le32 img (4 + 76 * i + 68) = hoffset h"
    by (rule rd_le32_le32 [of _ "P @ magic h # map of_char (hname h) @ [0, 0, 0]" _ "le32 (hlength h) @ S"])
      (simp_all add: img assms(2,3))
  show "rd_le32 img (4 + 76 * i + 72) = hlength h"
    by (rule rd_le32_le32 [of _ "P @ magic h # map of_char (hname h) @ [0, 0, 0] @ le32 (hoffset h)" _ S])
      (simp_all add: img assms(2,3) le32_def)
  have "drop (4 + 76 * i + 1) img = map of_char (hname h) @ [0, 0, 0] @ le32 (hoffset h) @ le32 (hlength h) @ S"
    unfolding img assms(2) [symmetric] by simp
  then show "image_name img i = takeWhile (\<lambda>c. c \<noteq> 0) (map of_char (hname h))"
    by (simp add: image_name_def assms(3))
qed

lemma name_bytes:
  assumes "NUL \<notin> set d"
  shows "takeWhile (\<lambda>c. c \<noteq> 0) (map of_char (d @ replicate n NUL)) = (map of_char d :: bytes)"
proof -
  have "\<And>c. c \<in> set (map of_char d :: bytes) \<Longrightarrow> c \<noteq> 0" using assms by (auto simp: of_char_u8_zero)
  then show ?thesis unfolding map_append by (subst takeWhile_append2) (auto simp: of_char_u8_zero)
qed

lemma content_at:
  assumes "i < length ps"
  shows "take (length (content fs ps i)) (drop (offset_of fs ps i - 4868) (concat (map (content fs ps) [0..<length ps]))) =
    content fs ps i"
proof -
  have "[0..<length ps] = [0..<i] @ i # [Suc i..<length ps]"
    using upt_add_eq_append [of 0 i "length ps - i"] assms by (simp add: upt_conv_Cons)
  then show ?thesis by (simp add: length_contents [symmetric])
qed

section \<open>Properties\<close>

text \<open>
  C25. The image round trip. For at most 63 files with names shorter than 64 characters and less than
  4 GB in all, none of which is the file ./initrd.img itself, on a disk that can be written, the tool
  ends with status 0 and ./initrd.img then holds the number of files and, for each file, a header with the
  magic byte and the target name, and at the offset and for the length of that header exactly the file's
  content. No other file changes.
\<close>

theorem initrd_roundtrip:
  assumes "names_ok ps" and "\<forall>(s, d')\<in>set ps. fopen_r d s \<noteq> None" and "offset_of (fopen_r d) ps (length ps) < 2 ^ 32"
    and "spares_image d ps" and "writable d"
  shows "\<exists>img d'. initrd_main (int (length (command_line prog ps))) (command_line prog ps) lib d = Some (0, d') \<and>
    fopen_r d' ''./initrd.img'' = Some img \<and> rd_le32 img 0 = of_nat (length ps) \<and>
    (\<forall>i<length ps. img ! (4 + 76 * i) = 0xBF \<and> image_name img i = map of_char (snd (ps ! i)) \<and>
       fopen_r d (fst (ps ! i)) = Some (image_file img i)) \<and>
    (\<forall>p. path_id d p \<noteq> path_id d ''./initrd.img'' \<longrightarrow> fopen_r d' p = fopen_r d p)"
proof -
  let ?fs = "fopen_r d"
  let ?hs = "table_of ?fs ps" and ?cs = "concat (map (content ?fs ps) [0..<length ps])"
  let ?img = "le32 (of_nat (length ps)) @ concat (map encode_header ?hs) @ ?cs"
  have k: "length ps \<le> 63" using assms(1) by (simp add: names_ok_def)
  have l64: "length ?hs = 64" using k by (simp add: table_of_def)
  have names: "\<forall>h\<in>set ?hs. length (hname h) = 64" using table_names [OF assms(1)] by blast
  have n0: "rd_le32 ?img 0 = of_nat (length ps)" by (rule rd_le32_le32 [of _ "[]"]) simp_all
  have "?img ! (4 + 76 * i) = 0xBF \<and> image_name ?img i = map of_char (snd (ps ! i)) \<and>
      ?fs (fst (ps ! i)) = Some (image_file ?img i)" if i: "i < length ps" for i
  proof -
    let ?h = "header_of ?fs ps i"
    have i64: "i < length ?hs" and hi: "?hs ! i = ?h" using i k l64 by (simp_all add: table_of_def nth_append)
    have hn: "length (hname ?h) = 64" using names nth_mem [OF i64] hi by simp
    note sp = concat_split [OF i64 names, unfolded hi]
    have img: "?img = (le32 (of_nat (length ps)) @ concat (map encode_header (take i ?hs))) @ encode_header ?h @
        concat (map encode_header (drop (Suc i) ?hs)) @ ?cs" by (simp add: sp(1))
    have lP: "length (le32 (of_nat (length ps)) @ concat (map encode_header (take i ?hs))) = 4 + 76 * i"
      using sp(2) by (simp add: le32_def)
    note hf = header_fields [OF img lP hn]
    have d: "NUL \<notin> set (snd (ps ! i))" using assms(1) nth_mem [OF i] by (cases "ps ! i") (auto simp: names_ok_def)
    obtain c where c: "?fs (fst (ps ! i)) = Some c" using assms(2) nth_mem [OF i] by fastforce
    have o: "offset_of ?fs ps i + length (content ?fs ps i) < 2 ^ 32"
      using offset_mono [of "Suc i" "length ps" ?fs ps] i assms(3) by (simp add: file_offset_step)
    have uo: "unat (of_nat (offset_of ?fs ps i) :: u32) = offset_of ?fs ps i"
      and ul: "unat (of_nat (length (content ?fs ps i)) :: u32) = length (content ?fs ps i)"
      using o by (simp_all add: unat_of_nat take_bit_nat_eq_self)
    have lt: "length (le32 (of_nat (length ps)) @ concat (map encode_header ?hs)) = 4868"
      using length_encodes [OF names] l64 by (simp add: le32_def)
    have "drop (offset_of ?fs ps i) ?img = drop (offset_of ?fs ps i - 4868) ?cs"
      using lt by (simp add: offset_of_def drop_append [of _ "le32 (of_nat (length ps)) @ concat (map encode_header ?hs)" ?cs, simplified])
    then have "image_file ?img i = content ?fs ps i"
      using hf(2,3) uo ul content_at [OF i, of ?fs] by (simp add: image_file_def header_of_def)
    moreover have "image_name ?img i = map of_char (snd (ps ! i))"
      using hf(4) name_bytes [OF d] by (simp add: header_of_def)
    moreover have "?img ! (4 + 76 * i) = 0xBF" using hf(1) by (simp add: header_of_def)
    ultimately show ?thesis using c by (simp add: content_def)
  qed
  moreover have "fopen_r (put_file image_path ?img d) ''./initrd.img'' = Some ?img"
    and "\<forall>p. path_id d p \<noteq> path_id d ''./initrd.img'' \<longrightarrow> fopen_r (put_file image_path ?img d) p = ?fs p"
    by (simp_all add: fopen_r_put_file image_path_def)
  ultimately show ?thesis using initrd_main_image [OF assms] n0 by blast
qed

definition demo_disk :: disk where
  "demo_disk = \<lparr>path_id = (\<lambda>p. if p = ''init'' then 1 else if p = ''fs'' then 2 else 0),
     file_data = [1 \<mapsto> [1, 2, 3], 2 \<mapsto> [9]], writable = True\<rparr>"

theorem initrd_roundtrip_witness:
  "\<exists>img d'. initrd_main 5 [''gen'', ''init'', ''/sbin/init'', ''fs'', ''/fs''] \<lparr>flushed = id, junk = of_nat\<rparr> demo_disk =
      Some (0, d') \<and> fopen_r d' ''./initrd.img'' = Some img \<and>
    image_file img 0 = [1, 2, 3] \<and> image_file img 1 = [9] \<and> rd_le32 img 0 = 2"
proof -
  let ?ps = "[(''init'', ''/sbin/init''), (''fs'', ''/fs'')]" and ?fs = "fopen_r demo_disk"
  have fs: "?fs ''init'' = Some [1, 2, 3]" "?fs ''fs'' = Some [9]" by (simp_all add: fopen_r_def demo_disk_def)
  have "offset_of ?fs ?ps (length ?ps) = 4872" by (simp add: fs offset_of_def content_def)
  moreover have "spares_image demo_disk ?ps" "writable demo_disk"
    by (simp_all add: spares_image_def image_path_def demo_disk_def)
  ultimately have "names_ok ?ps" "\<forall>(s, d')\<in>set ?ps. ?fs s \<noteq> None" "offset_of ?fs ?ps (length ?ps) < 2 ^ 32"
    "spares_image demo_disk ?ps" "writable demo_disk"
    by (simp_all add: names_ok_def fs)
  from initrd_roundtrip [OF this, of "''gen''" "\<lparr>flushed = id, junk = of_nat\<rparr>"] obtain img d' where
    i: "initrd_main (int (length (command_line ''gen'' ?ps))) (command_line ''gen'' ?ps) \<lparr>flushed = id, junk = of_nat\<rparr> demo_disk =
      Some (0, d')" "fopen_r d' ''./initrd.img'' = Some img"
    "rd_le32 img 0 = of_nat (length ?ps)" "\<forall>i<length ?ps. ?fs (fst (?ps ! i)) = Some (image_file img i)" by blast
  have "image_file img 0 = [1, 2, 3]" "image_file img 1 = [9]"
    using i(4) [rule_format, of 0] i(4) [rule_format, of 1] by (simp_all add: fs)
  then show ?thesis using i(1,2,3) by (simp add: command_line_def)
qed

text \<open>
  A source that does not exist ends the tool with status 1 and every file as it was, whatever the
  sources behind it are.
\<close>

lemma missing_source_reported:
  assumes "names_ok ps" and "k < length ps" and "\<forall>i<k. fopen_r d (fst (ps ! i)) \<noteq> None"
    and "fopen_r d (fst (ps ! k)) = None"
  shows "initrd_main (int (length (command_line prog ps))) (command_line prog ps) lib d = Some (1, d)"
proof -
  have l: "length ps \<le> 63" using assms(1) by (simp add: names_ok_def)
  have "plan_from (int i) (int (length ps)) (command_line prog ps) (fopen_r d) off hs = Some (Inl 1)"
    if "i \<le> k" "length hs = 64" "\<forall>j. i \<le> j \<and> j < 64 \<longrightarrow> hs ! j = zero_header" for i off hs
    using that
  proof (induction "k - i" arbitrary: i off hs)
    case 0
    then have ik: "i = k" by simp
    have i: "i < length ps" using ik assms(2) by simp
    have nm: "length (snd (ps ! i)) < 64" using assms(1) nth_mem [OF i] by (cases "ps ! i") (auto simp: names_ok_def)
    show ?case using ik i l 0 argv_at_pairs [OF i] strcpy_zero [OF nm] assms(4)
      by (subst plan_from.simps) (simp add: zero_header_def)
  next
    case (Suc j)
    then have i: "i < length ps" "i < k" using assms(2) by simp_all
    have nm: "length (snd (ps ! i)) < 64" using assms(1) nth_mem [OF i(1)] by (cases "ps ! i") (auto simp: names_ok_def)
    obtain c where c: "fopen_r d (fst (ps ! i)) = Some c" using assms(3) i(2) by blast
    have "plan_from (int (Suc i)) (int (length ps)) (command_line prog ps) (fopen_r d) off' (hs[i := h]) = Some (Inl 1)"
      for off' h using Suc.hyps(2) Suc.prems i by (intro Suc.hyps(1)) auto
    then show ?case using i l Suc.prems argv_at_pairs [OF i(1)] strcpy_zero [OF nm] c
      by (subst plan_from.simps) (simp add: zero_header_def add.commute)
  qed
  from this [of 0 "replicate 64 zero_header"] show ?thesis
    by (simp add: initrd_main_def nheaders_pairs [OF l])
qed

theorem missing_source_reported_witness:
  "initrd_main 5 [''gen'', ''init'', ''/sbin/init'', ''nofile'', ''/fs''] \<lparr>flushed = id, junk = of_nat\<rparr> demo_disk =
    Some (1, demo_disk)"
  using missing_source_reported [of "[(''init'', ''/sbin/init''), (''nofile'', ''/fs'')]" 1 demo_disk "''gen''"
      "\<lparr>flushed = id, junk = of_nat\<rparr>"]
  by (simp add: names_ok_def command_line_def fopen_r_def demo_disk_def)

text \<open>
  Rebuilding over an old image that is itself a source loses it: the image is emptied before the second
  loop reads it, so what is stored under its name is what the library has written of the new image,
  filled up with whatever the buffer held. With a library that writes only when the file is closed
  nothing of the old image is left.
\<close>

lemma image_as_source_lost:
  assumes "fopen_r d image_path = Some old" and "length old < 2 ^ 31" and "writable d" and "\<And>b. flushed lib b = []"
  shows "\<exists>d' img. initrd_main 3 [''gen'', image_path, ''old''] lib d = Some (0, d') \<and> fopen_r d' image_path = Some img \<and>
    image_file img 0 = map (junk lib) [0..<length old]"
proof -
  let ?ps = "[(image_path, ''old'')]" and ?fs = "fopen_r d"
  let ?h = "header_of ?fs ?ps 0" and ?lost = "map (junk lib) [0..<length old]"
  let ?P = "le32 (of_nat 1)" and ?S = "concat (map encode_header (replicate 63 zero_header)) @ ?lost"
  let ?img = "?P @ encode_header ?h @ ?S"
  have c: "content ?fs ?ps 0 = old" and n: "names_ok ?ps" by (simp_all add: content_def assms(1) names_ok_def)
  have argv: "[''gen'', image_path, ''old''] = command_line ''gen'' ?ps" by (simp add: command_line_def)
  have l: "unat (hlength ?h) = length old" using assms(2) by (simp add: header_of_def c unat_of_nat take_bit_nat_eq_self)
  have t: "table_of ?fs ?ps = ?h # replicate 63 zero_header" by (simp add: table_of_def)
  have "plan_from 0 1 (command_line ''gen'' ?ps) ?fs (sizeof_header * 64 + 4) (replicate 64 zero_header) =
      Some (Inr (table_of ?fs ?ps))"
    using plan_from_headers [OF n, of ?fs 0 "replicate 64 zero_header" "sizeof_header * 64 + 4" "''gen''"] assms(1)
    by (simp add: offset_of_def sizeof_header_def table_of_def)
  moreover have "copy_from lib 0 1 (command_line ''gen'' ?ps) (put_file image_path [] d) (table_of ?fs ?ps) out =
      Some (out @ ?lost)" for out
    by (subst copy_from.simps, subst copy_from.simps)
      (simp add: argv_at_def command_line_def fopen_r_put_file assms(4) t l fread_def)
  moreover have "nheaders 3 = 1" by (simp add: nheaders_def signed_divide_int_def)
  ultimately have run: "initrd_main 3 [''gen'', image_path, ''old''] lib d = Some (0, put_file image_path ?img d)"
    unfolding argv using assms(3) by (simp add: initrd_main_def fopen_w_def put_file_twice t)
  have hn: "length (hname ?h) = 64" by (simp add: header_of_def)
  have lS: "length (concat (map encode_header (replicate 63 zero_header))) = 4788"
    by (subst length_encodes) (simp_all add: zero_header_def)
  note hf = header_fields(2,3) [OF refl _ hn, of ?P 0 ?S]
  have "rd_le32 ?img 72 = 4868" "unat (rd_le32 ?img 76) = length old"
    using hf l by (simp_all add: le32_def header_of_def offset_of_def)
  moreover have "drop 4868 ?img = ?lost" using lS length_encode [OF hn] by (simp add: le32_def)
  ultimately have "image_file ?img 0 = ?lost" by (simp add: image_file_def)
  with run show ?thesis by (auto simp: fopen_r_put_file)
qed

text \<open>
  The table of 64 headers cannot overflow, because the argument count is cut to a signed byte:
  at most 63 files are ever written. But a longer command line is not refused: with 129 arguments
  the count is negative and the image has a negative file count and no file at all.
\<close>

lemma nheaders_bounded:
  "nheaders argc \<le> 63 \<and> (writable d \<longrightarrow>
   initrd_main 129 argv lib d =
     Some (0, put_file image_path (le32 (- 64) @ concat (map encode_header (replicate 64 zero_header))) d))"
proof -
  have half: "a sdiv 2 \<le> 63" if "a \<le> 126" for a :: int
    using that by (cases "0 < a") (auto simp: signed_divide_int_def sgn_if)
  have "sint (word_of_int argc :: u8) < 2 ^ (8 - 1)" using sint_lt [of "word_of_int argc :: u8"] by simp
  then have "nheaders argc \<le> 63" by (simp add: nheaders_def half)
  moreover have "nheaders 129 = - 64" by (simp add: nheaders_def signed_divide_int_def)
  moreover have "plan_from 0 (- 64) argv fs off hs = Some (Inr hs)" for fs off hs by (subst plan_from.simps) simp
  moreover have "copy_from lib 0 (- 64) argv d hs out = Some out" for d hs out by (subst copy_from.simps) simp
  ultimately show ?thesis by (simp add: initrd_main_def fopen_w_def put_file_twice)
qed

end
