(* ===== verification/OS_Userland.thy ===== *)
theory OS_Userland
  imports OS_Console
begin

text \<open>
  The first user program and the part of the C library it calls: src/libc/syscall.h, stdio.h,
  unistd.h, io.h, stdlib.h, crt0.asm and src/userland/initrd.cpp.

  \<^item> The answers of the kernel are a parameter: \<open>kern e\<close> is the value left in \<open>eax\<close> by call \<open>e\<close>.
    The log is the list of calls made so far.
  \<^item> Every call returns to the program, \<open>exit\<close> included, since \<open>exit\<close> is one system call and no
    more: what follows it runs when the kernel comes back.
\<close>

section \<open>System calls\<close>

text \<open>The number goes in \<open>eax\<close>, the arguments in \<open>edi\<close>, \<open>esi\<close> and \<open>edx\<close>. For \<open>write\<close> the text of
  the buffer stands for the pointer to it.\<close>

datatype syscall_event = Sys0 u32 | Sys1 u32 u32 | Sys3 u32 u32 u32 u32 | SysWrite u32 string u32

type_synonym kernel_answer = "syscall_event \<Rightarrow> u32"

definition SYSCALL_GETPID :: u32 where "SYSCALL_GETPID = 0"
definition SYSCALL_IOPERM :: u32 where "SYSCALL_IOPERM = 1"
definition SYSCALL_WRITE :: u32 where "SYSCALL_WRITE = 2"
definition SYSCALL_EXIT :: u32 where "SYSCALL_EXIT = 3"

definition syscall0 :: "kernel_answer \<Rightarrow> u32 \<Rightarrow> syscall_event list \<Rightarrow> u32 \<times> syscall_event list" where
  "syscall0 kern n log = (kern (Sys0 n), log @ [Sys0 n])"

definition syscall1 :: "kernel_answer \<Rightarrow> u32 \<Rightarrow> u32 \<Rightarrow> syscall_event list \<Rightarrow> u32 \<times> syscall_event list" where
  "syscall1 kern n a1 log = (kern (Sys1 n a1), log @ [Sys1 n a1])"

definition syscall3 :: "kernel_answer \<Rightarrow> u32 \<Rightarrow> u32 \<Rightarrow> u32 \<Rightarrow> u32 \<Rightarrow> syscall_event list \<Rightarrow> u32 \<times> syscall_event list" where
  "syscall3 kern n a1 a2 a3 log = (kern (Sys3 n a1 a2 a3), log @ [Sys3 n a1 a2 a3])"

definition getpid :: "kernel_answer \<Rightarrow> syscall_event list \<Rightarrow> u32 \<times> syscall_event list" where
  "getpid kern log = syscall0 kern 0 log"

definition ioperm :: "kernel_answer \<Rightarrow> u32 \<Rightarrow> u16 \<Rightarrow> u8 \<Rightarrow> syscall_event list \<Rightarrow> u32 \<times> syscall_event list" where
  "ioperm kern pid p s log = syscall3 kern SYSCALL_IOPERM pid (ucast p) (ucast s) log"

definition libc_exit :: "kernel_answer \<Rightarrow> u32 \<Rightarrow> syscall_event list \<Rightarrow> syscall_event list" where
  "libc_exit kern errcode log = snd (syscall1 kern SYSCALL_EXIT errcode log)"

section \<open>Output\<close>

definition libc_write :: "u32 \<Rightarrow> string \<Rightarrow> u32 \<Rightarrow> syscall_event list \<Rightarrow> syscall_event list" where
  "libc_write fd buf n log = log @ [SysWrite fd (take (unat n) buf) n]"

definition libc_putc :: "char \<Rightarrow> syscall_event list \<Rightarrow> syscall_event list" where
  "libc_putc c log = libc_write 1 [c] 1 log"

definition libc_puts :: "char list \<Rightarrow> syscall_event list \<Rightarrow> syscall_event list option" where
  "libc_puts str log = do { n \<leftarrow> strlen str; Some (libc_write 1 str (of_nat n) log) }"

text \<open>
  The functions on numbers and \<open>vprintf\<close>, translated from the library's own text. They are defined apart
  from those of the kernel in \<open>OS_Format\<close>; that the two copies compute the same is proved below.
\<close>

definition libc_swap :: "int \<Rightarrow> int \<Rightarrow> char list \<Rightarrow> char list option" where
  "libc_swap a b s = do {
     tmp \<leftarrow> buf_get a s;
     cb \<leftarrow> buf_get b s;
     s \<leftarrow> buf_put a cb s;
     buf_put b tmp s
   }"

function libc_reverse_from :: "int \<Rightarrow> int \<Rightarrow> char list \<Rightarrow> char list option" where
  "libc_reverse_from pos len s =
     (if pos < len sdiv 2 then libc_swap pos (len - pos - 1) s \<bind> libc_reverse_from (pos + 1) len else Some s)"
  by pat_completeness auto
termination by (relation "measure (\<lambda>(pos, len, s). nat (len sdiv 2 - pos))") auto

declare libc_reverse_from.simps [simp del]

definition libc_reverseStr :: "char list \<Rightarrow> int \<Rightarrow> char list option" where
  "libc_reverseStr str len = libc_reverse_from 0 len str"

definition libc_chars :: "char list" where "libc_chars = ''0123456789ABCDEF'' @ [NUL]"

partial_function (option) libc_int_digits :: "int \<Rightarrow> int \<Rightarrow> int \<Rightarrow> char list \<Rightarrow> (int \<times> char list) option" where
  "libc_int_digits pos v base str =
     (if v \<noteq> 0 then do {
        c \<leftarrow> buf_get (v smod base) libc_chars;
        str \<leftarrow> buf_put pos c str;
        libc_int_digits (pos + 1) (v sdiv base) base str
      }
      else Some (pos, str))"

definition libc_intToString :: "char list \<Rightarrow> int \<Rightarrow> int \<Rightarrow> char list option" where
  "libc_intToString str v base =
     (if v = 0 then buf_put 0 (CHR ''0'') str \<bind> buf_put 1 NUL
      else if v = 0 \<or> base < 2 \<or> base > 16 then buf_put 0 (CHR ''0'') str \<bind> buf_put 1 NUL
      else do {
        let (v, negate) = (if v < 0 then (wrap32 (- v), True) else (v, False));
        (pos, str) \<leftarrow> libc_int_digits 0 v base str;
        (pos, str) \<leftarrow> (if negate then map_option (Pair (pos + 1)) (buf_put pos (CHR ''-'') str) else Some (pos, str));
        str \<leftarrow> buf_put pos NUL str;
        libc_reverseStr str pos
      })"

partial_function (option) libc_uint_digits :: "int \<Rightarrow> u32 \<Rightarrow> int \<Rightarrow> char list \<Rightarrow> (int \<times> char list) option" where
  "libc_uint_digits pos v base str =
     (if v \<noteq> 0 then do {
        c \<leftarrow> buf_get (sint (v mod word_of_int base)) libc_chars;
        str \<leftarrow> buf_put pos c str;
        libc_uint_digits (pos + 1) (v div word_of_int base) base str
      }
      else Some (pos, str))"

definition libc_uintToStr :: "char list \<Rightarrow> u32 \<Rightarrow> int \<Rightarrow> char list option" where
  "libc_uintToStr str v base =
     (if v = 0 then buf_put 0 (CHR ''0'') str \<bind> buf_put 1 NUL
      else if base < 2 \<or> base > 16 then buf_put 0 (CHR ''0'') str \<bind> buf_put 1 NUL
      else do {
        (pos, str) \<leftarrow> libc_uint_digits 0 v base str;
        str \<leftarrow> buf_put pos NUL str;
        libc_reverseStr str pos
      })"

text \<open>
  The loop of \<open>vprintf\<close> over the bytes of the format, with its two \<open>switch\<close>es written out; the arguments are
  words, \<open>deref\<close> gives the array behind a \<open>char*\<close>, and \<open>tmp\<close> is the library's static buffer.
\<close>

fun libc_vprintf_loop :: "(u32 \<Rightarrow> char list option) \<Rightarrow> char list \<Rightarrow> u32 list \<Rightarrow> char list \<Rightarrow>
    syscall_event list \<Rightarrow> (syscall_event list \<times> char list) option" where
  "libc_vprintf_loop deref [] args tmp log = None"
| "libc_vprintf_loop deref (ch # fmt) args tmp log =
     (if ch = NUL then Some (log, tmp)
      else if ch \<noteq> CHR ''%'' then libc_vprintf_loop deref fmt args tmp (libc_putc ch log)
      else case fmt of [] \<Rightarrow> None
      | ch # fmt \<Rightarrow>
          if ch = CHR ''c'' then
            (case args of [] \<Rightarrow> None
             | a # args \<Rightarrow> libc_vprintf_loop deref fmt args tmp (libc_putc (char_of (unat (ucast a :: u8))) log))
          else if ch = CHR ''s'' then
            (case args of [] \<Rightarrow> None
             | a # args \<Rightarrow> do {
                 str \<leftarrow> deref a;
                 log \<leftarrow> libc_puts str log;
                 libc_vprintf_loop deref fmt args tmp log
               })
          else if ch = CHR ''%'' then libc_vprintf_loop deref fmt args tmp (libc_putc (CHR ''%'') log)
          else if ch = CHR ''n'' then libc_vprintf_loop deref fmt args tmp (libc_putc (CHR 0x0A) log)
          else if ch = CHR ''d'' then
            (case args of [] \<Rightarrow> None
             | a # args \<Rightarrow> do {
                 tmp \<leftarrow> libc_intToString tmp (sint a) 10;
                 log \<leftarrow> libc_puts tmp log;
                 libc_vprintf_loop deref fmt args tmp log
               })
          else if ch = CHR ''x'' then
            (case args of [] \<Rightarrow> None
             | a # args \<Rightarrow> do {
                 tmp \<leftarrow> libc_uintToStr tmp a 16;
                 log \<leftarrow> libc_puts tmp log;
                 libc_vprintf_loop deref fmt args tmp log
               })
          else libc_vprintf_loop deref fmt args tmp (libc_putc ch log))"

definition libc_vprintf :: "(u32 \<Rightarrow> char list option) \<Rightarrow> char list option \<Rightarrow> u32 list \<Rightarrow> char list \<Rightarrow>
    syscall_event list \<Rightarrow> (syscall_event list \<times> char list) option" where
  "libc_vprintf deref fmt args tmp log =
     (case fmt of None \<Rightarrow> Some (log, tmp) | Some fmt \<Rightarrow> libc_vprintf_loop deref fmt args tmp log)"

definition libc_printf :: "(u32 \<Rightarrow> char list option) \<Rightarrow> char list option \<Rightarrow> u32 list \<Rightarrow> char list \<Rightarrow>
    syscall_event list \<Rightarrow> (syscall_event list \<times> char list) option" where
  "libc_printf deref fmt args tmp log = libc_vprintf deref fmt args tmp log"

section \<open>The program\<close>

definition driver_main :: "kernel_answer \<Rightarrow> char list \<Rightarrow> syscall_event list \<Rightarrow> (syscall_event list \<times> char list) option" where
  "driver_main kern tmp log = do {
     let (pid, log) = getpid kern log;
     let (res, log) = ioperm kern pid 0xCF8 4 log;
     (log, tmp) \<leftarrow>
       (if res = -1
        then do {
          (log, tmp) \<leftarrow> libc_printf (\<lambda>_. None)
            (Some (''Failed to acquire I/O priveleges, halting'' @ [CHR 0x0A, NUL])) [] tmp log;
          Some (libc_exit kern 1 log, tmp)
        }
        else Some (log, tmp));
     libc_printf (\<lambda>_. None) (Some (''Acquired IO permissions for PCI bus'' @ [CHR 0x0A, NUL])) [] tmp log
   }"

text \<open>crt0.asm: \<open>main\<close>, which ends without a \<open>return\<close> and so with 0, then call 3; behind it an endless loop.\<close>

definition crt0_start :: "kernel_answer \<Rightarrow> char list \<Rightarrow> syscall_event list \<Rightarrow> (syscall_event list \<times> char list) option" where
  "crt0_start kern tmp log = do {
     (log, tmp) \<leftarrow> driver_main kern tmp log;
     let edi = 0;
     Some (snd (syscall1 kern 3 edi log), tmp)
   }"

section \<open>The library's copies and the kernel's\<close>

lemma libc_swap_eq: "libc_swap = swap"
  by (intro ext) (simp add: libc_swap_def swap_def)

lemma libc_reverseStr_eq: "libc_reverseStr = reverseStr"
proof -
  have "libc_reverse_from pos len s = reverse_from pos len s" for pos len s
  proof (induction pos len s rule: reverse_from.induct)
    case (1 pos len s)
    then show ?case
      by (subst libc_reverse_from.simps, subst reverse_from.simps)
        (cases "swap pos (len - pos - 1) s"; simp add: libc_swap_eq)
  qed
  then show ?thesis by (intro ext) (simp add: libc_reverseStr_def reverseStr_def)
qed

text \<open>The loops without a bound agree in both directions: where one returns, so does the other.\<close>

lemma libc_chars_eq: "libc_chars = chars"
  by (simp add: libc_chars_def chars_def)

lemma libc_int_digits_eq: "libc_int_digits = int_digits"
proof (intro ext)
  fix pos v base str
  have "libc_int_digits pos v base str = Some r \<Longrightarrow> int_digits pos v base str = Some r" for r
    by (erule libc_int_digits.raw_induct [where P = "\<lambda>pos v base str r. int_digits pos v base str = Some r", rotated])
      (subst int_digits.simps, auto simp: libc_chars_eq bind_eq_Some_conv split: if_splits)
  moreover have "int_digits pos v base str = Some r \<Longrightarrow> libc_int_digits pos v base str = Some r" for r
    by (erule int_digits.raw_induct [where P = "\<lambda>pos v base str r. libc_int_digits pos v base str = Some r", rotated])
      (subst libc_int_digits.simps, auto simp: libc_chars_eq bind_eq_Some_conv split: if_splits)
  ultimately show "libc_int_digits pos v base str = int_digits pos v base str"
    by (metis not_None_eq)
qed

lemma libc_uint_digits_eq: "libc_uint_digits = uint_digits"
proof (intro ext)
  fix pos v base str
  have "libc_uint_digits pos v base str = Some r \<Longrightarrow> uint_digits pos v base str = Some r" for r
    by (erule libc_uint_digits.raw_induct [where P = "\<lambda>pos v base str r. uint_digits pos v base str = Some r", rotated])
      (subst uint_digits.simps, auto simp: libc_chars_eq bind_eq_Some_conv split: if_splits)
  moreover have "uint_digits pos v base str = Some r \<Longrightarrow> libc_uint_digits pos v base str = Some r" for r
    by (erule uint_digits.raw_induct [where P = "\<lambda>pos v base str r. libc_uint_digits pos v base str = Some r", rotated])
      (subst libc_uint_digits.simps, auto simp: libc_chars_eq bind_eq_Some_conv split: if_splits)
  ultimately show "libc_uint_digits pos v base str = uint_digits pos v base str"
    by (metis not_None_eq)
qed

lemma libc_intToString_eq: "libc_intToString = intToString"
  by (intro ext) (simp add: libc_intToString_def intToString_def str_zero_def libc_int_digits_eq libc_reverseStr_eq)

lemma libc_uintToStr_eq: "libc_uintToStr = uintToStr"
  by (intro ext) (simp add: libc_uintToStr_def uintToStr_def str_zero_def libc_uint_digits_eq libc_reverseStr_eq)

lemma libc_vprintf_loop_eq: "libc_vprintf_loop deref fmt args tmp log = vprintf_loop libc_putc libc_puts deref fmt args tmp log"
proof (induction fmt arbitrary: args tmp log rule: length_induct)
  case (1 fmt)
  have IH: "length f < length fmt \<Longrightarrow>
      libc_vprintf_loop deref f as b l = vprintf_loop libc_putc libc_puts deref f as b l" for f as b l
    using 1 by blast
  show ?case
  proof (cases fmt)
    case (Cons ch fmt1)
    show ?thesis
    proof (cases fmt1)
      case Nil
      then show ?thesis using Cons IH [of "[]"] by simp
    next
      case rest: (Cons c rest)
      have r: "libc_vprintf_loop deref rest = vprintf_loop libc_putc libc_puts deref rest"
        and f: "libc_vprintf_loop deref (c # rest) = vprintf_loop libc_putc libc_puts deref (c # rest)"
        using Cons rest by (intro ext IH; simp)+
      show ?thesis unfolding Cons rest
        by (cases "ch = NUL \<or> ch \<noteq> CHR ''%''"; cases args)
          (auto simp: f r libc_intToString_eq libc_uintToStr_eq simp del: libc_vprintf_loop.simps(2) vprintf_loop.simps(2)
            simp: libc_vprintf_loop.simps(2) [of _ "CHR ''%''"] vprintf_loop.simps(2) [of _ _ _ "CHR ''%''"]
              libc_vprintf_loop.simps(2) [of _ ch] vprintf_loop.simps(2) [of _ _ _ ch])
    qed
  qed simp
qed

section \<open>What is written\<close>

text \<open>The calls that print a text, one for each character.\<close>

definition writes :: "string \<Rightarrow> syscall_event list" where
  "writes t = map (\<lambda>c. SysWrite 1 [c] 1) t"

lemma fold_libc_putc: "fold libc_putc t log = log @ writes t"
  by (induction t arbitrary: log) (simp_all add: writes_def libc_putc_def libc_write_def)

text \<open>
  The library is a sink of characters too: what counts is the text that reaches descriptor 1,
  not how many calls carry it, and that no other call is made.
\<close>

fun to_stdout :: "syscall_event \<Rightarrow> string option" where
  "to_stdout (SysWrite fd t n) = (if fd = 1 then Some t else None)"
| "to_stdout _ = None"

definition written :: "syscall_event list \<Rightarrow> string" where
  "written log = concat (map (the \<circ> to_stdout) (filter (\<lambda>e. to_stdout e \<noteq> None) log))"

definition other_calls :: "syscall_event list \<Rightarrow> syscall_event list" where
  "other_calls log = filter (\<lambda>e. to_stdout e = None) log"

lemma calls_write [simp]:
  "written (libc_write 1 b n log) = written log @ take (unat n) b"
  "other_calls (libc_write 1 b n log) = other_calls log"
  by (simp_all add: written_def other_calls_def libc_write_def)

lemma fold_snoc_text: "fold (\<lambda>c (o', t). (o', t @ [c])) s (o1, t1) = (o1, t1 @ s)"
  by (induction s arbitrary: t1) simp_all

lemma c_string_take: "take (length (c_string b)) b = c_string b"
  unfolding c_string_def by (metis takeWhile_eq_take)

interpretation stdout: char_sink libc_putc libc_puts "\<lambda>log. (other_calls log, written log)"
    "\<lambda>c (o', t). (o', t @ [c])" "\<lambda>b. length b < 2 ^ 32"
proof
  fix b :: string and log
  assume b: "NUL \<in> set b" "length b < 2 ^ 32"
  have "length (c_string b) \<le> length b" by (simp add: c_string_def length_takeWhile_le)
  then have "unat (of_nat (length (c_string b)) :: u32) = length (c_string b)"
    using b(2) by (simp add: unat_of_nat take_bit_nat_eq_self)
  then show "\<exists>log'. libc_puts b log = Some log' \<and> (other_calls log', written log') =
      fold (\<lambda>c (o', t). (o', t @ [c])) (c_string b) (other_calls log, written log)"
    using strlen_c_string [OF b(1)] by (simp add: libc_puts_def fold_snoc_text c_string_take)
qed (simp_all add: libc_putc_def)

text \<open>The texts of the program have no directives.\<close>

lemma libc_printf_text:
  assumes "NUL \<notin> set t" and "CHR ''%'' \<notin> set t"
  shows "libc_printf dr (Some (t @ [NUL])) as tmp log = Some (log @ writes t, tmp)"
  by (simp add: libc_printf_def libc_vprintf_def libc_vprintf_loop_eq vprintf_loop_text [OF assms] fold_libc_putc)

section \<open>Properties\<close>



text \<open>
  The program asks for the ports of the PCI bus under the number \<open>getpid\<close> gave it and reports
  that it has them, whatever the kernel answers: on -1 it first prints the error and calls
  \<open>exit\<close>, and goes on when that call returns.
\<close>

lemma driver_reports_success:
  "driver_main kern tmp log = Some (log @ [Sys0 0, Sys3 1 (kern (Sys0 0)) 0xCF8 4] @
     (if kern (Sys3 1 (kern (Sys0 0)) 0xCF8 4) = -1
      then writes (''Failed to acquire I/O priveleges, halting'' @ [CHR 0x0A]) @ [Sys1 3 1] else []) @
     writes (''Acquired IO permissions for PCI bus'' @ [CHR 0x0A]), tmp)"
proof -
  have "libc_printf (\<lambda>_. None) (Some (''Failed to acquire I/O priveleges, halting'' @ [CHR 0x0A, NUL])) [] tmp l =
      Some (l @ writes (''Failed to acquire I/O priveleges, halting'' @ [CHR 0x0A]), tmp)" for l
    using libc_printf_text [of "''Failed to acquire I/O priveleges, halting'' @ [CHR 0x0A]" "\<lambda>_. None" "[]" tmp l]
    by simp
  moreover have "libc_printf (\<lambda>_. None) (Some (''Acquired IO permissions for PCI bus'' @ [CHR 0x0A, NUL])) [] tmp l =
      Some (l @ writes (''Acquired IO permissions for PCI bus'' @ [CHR 0x0A]), tmp)" for l
    using libc_printf_text [of "''Acquired IO permissions for PCI bus'' @ [CHR 0x0A]" "\<lambda>_. None" "[]" tmp l]
    by simp
  ultimately show ?thesis
    by (simp only: driver_main_def getpid_def ioperm_def libc_exit_def syscall0_def syscall1_def syscall3_def
        SYSCALL_IOPERM_def SYSCALL_EXIT_def Let_def prod.case snd_conv Option.bind.bind_lunit
        if_distrib [of "\<lambda>m. Option.bind m f" for f]) simp
qed

text \<open>With the start-up code the program ends with status 0, also after \<open>exit(1)\<close>.\<close>

lemma crt0_exits_0:
  "\<exists>log'. crt0_start kern tmp log = Some (log @ log' @ [Sys1 3 0], tmp) \<and>
     (Sys1 3 1 \<in> set log' \<longleftrightarrow> kern (Sys3 1 (kern (Sys0 0)) 0xCF8 4) = -1)"
  by (simp add: crt0_start_def driver_reports_success syscall1_def) (auto simp: writes_def)

end
