(* ===== verification/Spec2Isabelle.thy ===== *)
theory Spec2Isabelle
  imports OS_Reaping OS_Initrd OS_Userland
begin

text \<open>
  Verification of a 32-bit x86 kernel in C++, of the C library for its user programs and of the tool
  that builds its initial ram disk.

  \<^bold>\<open>The program.\<close> The boot loader enters src/boot/boot.asm, which turns on paging and calls \<open>kmain\<close>
  (src/src/main.cpp), and that \<open>ArchKernel::Init\<close> (src/src/arch/x86/kernel/kernel.cpp). It clears the console, installs the segment and interrupt
  tables, programs the timer, builds the frame bitmap from the memory map of the boot loader, sets up
  page tables and backs the kernel heap, initializes the heap, and creates a scheduler that it hands
  to the timer. From then on the kernel runs in interrupts: the processor and the stubs of
  tables/isr_wrapper.asm save the registers on the stack of the thread, the timer's handler draws a
  ticker and calls the scheduler, which every thirty ticks switches threads, and the stub restores
  the registers from the frame that the scheduler chose. The scheduler keeps its threads in
  the queue template of the C library, and takes them from the heap.

  \<^bold>\<open>Theories and code.\<close>
  \<^item> \<open>OS_Prelude\<close>: words, main memory by 32-bit words, bit-fields. \<open>OS_Linked\<close>: doubly linked segments
    over a next and a previous pointer, shared by the queue and the heap.
  \<^item> \<open>OS_Queue\<close> (src/libc/queue.h): the nodes live in a store from addresses to records, so aliasing and
    use after \<open>delete\<close> are visible. The locale \<open>element_queue\<close> is the contract its clients use,
    interpreted on the operations as \<open>lq\<close>.
  \<^item> \<open>OS_Phymem\<close> (mem/phymem.h, phymem.cpp): the bitmap in words as the code scans it, the counters, the
    walk of the memory map. The locale \<open>frame_allocator\<close>, interpreted as \<open>lpm\<close>, is what the page tables
    rely on.
  \<^item> \<open>OS_Bootmem\<close> (mem/phymem.cpp): the counters of the allocator through booting, and the memory maps on
    which they are sound.
  \<^item> \<open>OS_Virtmem\<close> (mem/virtmem.h, virtmem.cpp): physical memory with the page directory in \<open>cr3\<close>;
    \<open>page_walk\<close> is the translation of the processor, and every access of the code goes through it,
    so that the recursive mapping of the tables is part of the model.
  \<^item> \<open>OS_Paging\<close> (mem/virtmem.cpp): \<open>Init\<close> as a whole, from the directory of the boot code to the
    recursive mapping, the backed heap and the table for the first 4 MB.
  \<^item> \<open>OS_Heap\<close> (mem/heap.h, heap.cpp): block headers in memory, the abstract list of blocks, and the
    refinement of each operation. The locale \<open>region_allocator\<close> is interpreted as \<open>lheap\<close>.
  \<^item> \<open>OS_Regions\<close> (mem/heap.cpp): what clients may rely on for the contents of memory, as the locale
    \<open>memory_regions\<close>, which extends \<open>region_allocator\<close> and is interpreted as \<open>rheap\<close>; objects placed in
    live regions (\<open>placed\<close>), when an allocation returns (\<open>room\<close>), and what a switch in the middle of an
    allocation does.
  \<^item> \<open>OS_Tables\<close> (ports.h, tables/gdt.cpp, tables/idt.cpp): descriptors with their bit-fields, gates,
    interrupt controllers and dispatch. Port writes are a log, port reads a parameter.
  \<^item> \<open>OS_Process\<close> (scheduler/thread.cpp, process.cpp): thread and process objects in stores, \<open>memcpy\<close> and
    \<open>memset\<close> over bytes of main memory, the first register frame of a thread.
  \<^item> \<open>OS_Scheduler\<close> and \<open>OS_Switching\<close> (scheduler/scheduler.cpp): the operations, an abstract scheduler
    over the list of threads, the refinement of each operation, and the step relation
    \<open>sched_step\<close> of timer interrupts, new threads, wake-ups and threads that block or stop.
  \<^item> \<open>OS_Format\<close> and \<open>OS_Console\<close> (drivers/vga.cpp, libc/string.c, libc/stdio.h): numerals, \<open>vprintf\<close> over
    any sink of characters (locale \<open>char_sink\<close>, interpreted on the console and on the
    library's output), and the screen.
  \<^item> \<open>OS_Timer\<close> (drivers/pit.cpp, syscalls/syscalls.cpp): the timer's handler composed of console and
    scheduler, and the handler of system calls.
  \<^item> \<open>OS_Machine\<close> (tables/isr_wrapper.asm, scheduler/userspace.asm): the registers of the processor, the
    instructions of the two files, the delivery of interrupts, and the stubs as lists of instructions.
  \<^item> \<open>OS_Preempt\<close>: a timer interrupt from the interrupted instruction to the resumed one, composed of
    processor, stub, \<open>irq_handler\<close>, driver and scheduler; its abstraction is a context per thread. The
    locale \<open>preemption\<close>, interpreted on the machine as \<open>irq\<close>, is what a thread relies on.
  \<^item> \<open>OS_Kernel\<close> (kernel/kernel.cpp): \<open>Init\<close> composed of the components it initializes.
  \<^item> \<open>OS_Entry\<close> (boot/boot.asm, main.cpp, multiboot.h): the header for the boot loader, its information
    structure, the first page directory and the way to \<open>Init\<close>. \<open>OS_System\<close> joins it with \<open>OS_Preempt\<close>.
  \<^item> \<open>OS_Spawn\<close> (thread.cpp, scheduler.cpp, queue.h and heap.cpp together): creating, adding, removing and
    reaping a thread with the allocations and deletions in them, on the heap in the same memory as the
    stacks; \<open>backed\<close> says that every thread, stack and queue node lies in a live region of its own, which
    is what the stores of the other theories take for granted.
  \<^item> \<open>OS_Multitask\<close>: heap, scheduler and machine as one system (\<open>system_step\<close>, invariant \<open>system_ok\<close>), in which
    operations of the heap and the scheduler run with interrupts masked, and the way from an idle machine to the first thread.
  \<^item> \<open>OS_Reaping\<close> (scheduler.cpp with queue.h and heap.cpp): \<open>HandleInterrupt\<close> with the deletions it makes, as a
    refinement of \<open>HandleInterrupt\<close> that gives back exactly the regions of what it removes.
  \<^item> \<open>OS_Userland\<close> (libc/syscall.h, stdio.h, unistd.h, io.h, stdlib.h, crt0.asm, userland/initrd.cpp): the
    library's output, its own copies of the number formatting and of \<open>vprintf\<close>, and the first user program, against
    any kernel that answers its calls.
  \<^item> \<open>OS_Initrd\<close> (tools/initrd_gen.c): the image as a list of bytes, on a disk on which the image can be one of its sources.

  \<^bold>\<open>What the lemmas show.\<close> For each data structure, an invariant (\<open>queue_holds\<close>, \<open>accounted\<close>, \<open>vm_ok\<close>,
  \<open>heap_ok\<close>, \<open>sched_ok\<close>, \<open>console_ok\<close>, \<open>machine_ok\<close>, \<open>backed\<close>, \<open>system_ok\<close>) that the operations keep, and the refinement of each operation to
  a function on lists or sets. Built on these: regions and frames are never handed out twice, mapping a
  page changes exactly that translation, the processor follows the pointers that the recursive mapping
  gives, a timer interrupt at the thirtieth tick resumes the next runnable thread with its own stack and
  page directory, threads take turns, no timer interrupt changes the registers of any
  thread, a thread resumes with its registers and its stack as they were as long as the others leave its stack alone, an
  idle machine goes on unchanged until a first thread takes over, the heap's
  bookkeeping and its clients' contents never touch each other, a thread's memory comes back when it is
  removed, sleepers wake on time, formatted text appears on the screen as
  it reads, and the ram disk image reads back. Where the code does something else than it means to,
  a lemma says what it does.

  \<^bold>\<open>Errors, loops and bounds.\<close> A page fault, a use of a null or dangling pointer, an access out of an
  array and a search that never ends are \<open>None\<close>; the endless loops after an error message are values
  of their own (\<open>heap_halt\<close>, \<open>int_halt\<close>, \<open>boot_end\<close>). There is no fuel: counted loops are total functions
  with a measure, the walks over lists in memory and the search for a ready thread are partial functions
  in \<open>option\<close>, and the theorems say when they return. Integers are words of the width the code has, \<open>int\<close>
  for C's \<open>int\<close> where the code stays in range, with \<open>wrap32\<close> where it does not.

  \<^bold>\<open>Not modelled.\<close>
  \<^item> The stack that compiled code uses below the argument of the handlers (the frames in \<open>OS_Preempt\<close> lie in
    stacks of 4096 bytes with room for what the stubs push), faults of the instructions of the
    assembly files, and crti.asm and crtn.asm, the empty prologues that nothing calls.
  \<^item> The whole system while threads stop: the deletions inside a timer interrupt are those of \<open>HandleInterrupt_freeing\<close>,
    proved for the scheduler and the heap; \<open>system_step\<close>, with processor and stubs, covers the time in which no
    thread stops, and \<open>wait_step\<close> of \<open>OS_Preempt\<close> takes the deletions as removals from the stores.
  \<^item> Interrupts in the middle of an operation of the heap, the queue or the scheduler. The code masks none in \<open>malloc\<close>,
    \<open>free\<close> and \<open>AddThread\<close>; \<open>system_step\<close> has these operations as single steps, with the interrupt flag clear as
    the condition under which that is so. The one interleaving that is modelled is that of two
    allocations, at the end of \<open>OS_Regions\<close>, and it breaks the heap. Nothing keeps a thread from writing to the
    stack of another either: \<open>own_run\<close> and \<open>spares_objects\<close> are conditions on the threads.
  \<^item> One physical memory for everything. The code, stack and frame bitmap of the kernel are not words of the memory in which
    \<open>OS_Virtmem\<close> keeps the page tables, and the words of heap and stacks are a memory of their own, not looked up
    through the page tables. So the lemmas on booting (\<open>start_boots\<close>, \<open>kernel_comes_up\<close>) do not exclude that the
    image is overwritten by a frame that is handed out, as it is with up to 128 MB, or that a page of the heap is not backed.
  \<^item> Operations that are declared but have no code.
  \<^item> The message that the scheduler prints when it removes a thread (it moves the cursor, on which nothing
    in the interrupt depends), access rights of pages, the translation look-aside buffer, and
    interrupts that arrive while \<open>Init\<close> runs.
  \<^item> The compiler's headers stddef.h, stdint.h and stdarg.h.
\<close>

end
